(* ===== verification/Prelude.thy ===== *)
theory Prelude
  imports Main "HOL-Library.Multiset" "HOL-Library.Signed_Division"
begin

text \<open>
  Shared ground of the Baybo development: the numeric types of the Rust code, the parts of
  the Rust standard library the modelled functions call (comparators, stable sorting,
  \<open>max_by_key\<close>, \<open>min_by\<close>, substring tests), the \<open>named_theorems\<close> collections, and the
  interfaces every component is checked against: \<open>wire_codec\<close> (an enum and its storage
  spelling), \<open>total_order\<close> (what a comparator has to satisfy for \<open>sort_by\<close>) and
  \<open>invariant_machine\<close> (a component whose every operation keeps its invariant).
\<close>

named_theorems board_defs "definitions of the kanban rule modules"
named_theorems carrier_defs "definitions of the phone's carrier state"

section \<open>Numbers\<close>

text \<open>
  Instants (\<open>chrono::DateTime\<close>, \<open>std::time::Instant\<close>) are integers counting nanoseconds, and so
  are durations. A 64-bit signed value is an \<open>int\<close> together with the range predicate \<open>in_i64\<close>;
  the saturating operations clamp to it.
\<close>

type_synonym instant = int
type_synonym duration = int

definition secs :: "int \<Rightarrow> duration" where
  "secs n = n * 1000000000"

definition hours :: "int \<Rightarrow> duration" where
  "hours n = secs (3600 * n)"

definition i64_min :: int where
  "i64_min = - (2 ^ 63)"

definition i64_max :: int where
  "i64_max = 2 ^ 63 - 1"

definition in_i64 :: "int \<Rightarrow> bool" where
  "in_i64 n \<longleftrightarrow> i64_min \<le> n \<and> n \<le> i64_max"

definition in_i128 :: "int \<Rightarrow> bool" where
  "in_i128 n \<longleftrightarrow> - (2 ^ 127) \<le> n \<and> n \<le> 2 ^ 127 - 1"

definition clamp_i64 :: "int \<Rightarrow> int" where
  "clamp_i64 n = max i64_min (min i64_max n)"

text \<open>Two's-complement truncation to 64 bits: what \<open>+\<close> on \<open>i64\<close> computes in a release build.\<close>

definition wrap_i64 :: "int \<Rightarrow> int" where
  "wrap_i64 n = (n + 2 ^ 63) mod 2 ^ 64 - 2 ^ 63"

lemma in_i64_clamp [simp]: "in_i64 (clamp_i64 n)"
  by (simp add: in_i64_def clamp_i64_def i64_min_def i64_max_def)

lemma clamp_i64_id: "in_i64 n \<Longrightarrow> clamp_i64 n = n"
  by (simp add: in_i64_def clamp_i64_def)

lemma clamp_i64_nonneg: "0 \<le> n \<Longrightarrow> clamp_i64 n = min i64_max n"
  by (auto simp: clamp_i64_def i64_min_def i64_max_def)

lemma clamp_i64_mono: "m \<le> n \<Longrightarrow> clamp_i64 m \<le> clamp_i64 n"
  by (auto simp: clamp_i64_def)

lemma wrap_i64_id: "in_i64 n \<Longrightarrow> wrap_i64 n = n"
  by (simp add: in_i64_def wrap_i64_def i64_min_def i64_max_def)

lemma in_i64_wrap [simp]: "in_i64 (wrap_i64 n)"
proof -
  have "0 \<le> (n + 2 ^ 63) mod 2 ^ 64" and "(n + 2 ^ 63) mod 2 ^ 64 < (2 ^ 64 :: int)"
    by simp_all
  then show ?thesis
    by (simp add: in_i64_def wrap_i64_def i64_min_def i64_max_def)
qed

lemma in_i128_mult:
  assumes "in_i64 a" and "in_i64 b"
  shows "in_i128 (a * b)"
proof -
  have a: "\<bar>a\<bar> \<le> 2 ^ 63" and b: "\<bar>b\<bar> \<le> 2 ^ 63"
    using assms by (auto simp: in_i64_def i64_min_def i64_max_def)
  have "\<bar>a * b\<bar> \<le> 2 ^ 63 * 2 ^ 63"
    using mult_mono [OF a b] by (simp add: abs_mult)
  also have "\<dots> = (2 ^ 126 :: int)" by simp
  finally show ?thesis by (simp add: in_i128_def abs_le_iff)
qed

section \<open>Strings\<close>

text \<open>
  A \<open>&str\<close> is its UTF-8 bytes. Every byte of a character outside ASCII is at least 128, so the
  ASCII tests below answer for the byte what the code's answer for the character.
\<close>

definition char_code :: "char \<Rightarrow> nat" where
  "char_code c = of_char c"

definition is_ascii_lowercase :: "char \<Rightarrow> bool" where
  "is_ascii_lowercase c \<longleftrightarrow> 97 \<le> char_code c \<and> char_code c \<le> 122"

definition is_ascii_uppercase :: "char \<Rightarrow> bool" where
  "is_ascii_uppercase c \<longleftrightarrow> 65 \<le> char_code c \<and> char_code c \<le> 90"

definition is_ascii_digit :: "char \<Rightarrow> bool" where
  "is_ascii_digit c \<longleftrightarrow> 48 \<le> char_code c \<and> char_code c \<le> 57"

definition is_ascii_alphanumeric :: "char \<Rightarrow> bool" where
  "is_ascii_alphanumeric c \<longleftrightarrow> is_ascii_lowercase c \<or> is_ascii_uppercase c \<or> is_ascii_digit c"

text \<open>\<open>u8::is_ascii_whitespace\<close>: tab, line feed, form feed, carriage return, space.\<close>

definition is_ascii_whitespace :: "char \<Rightarrow> bool" where
  "is_ascii_whitespace c \<longleftrightarrow> char_code c \<in> {9, 10, 12, 13, 32}"

fun starts_with :: "string \<Rightarrow> string \<Rightarrow> bool" where
  "starts_with [] s = True"
| "starts_with (p # ps) [] = False"
| "starts_with (p # ps) (c # cs) = (p = c \<and> starts_with ps cs)"

definition strip_prefix :: "string \<Rightarrow> string \<Rightarrow> string option" where
  "strip_prefix p s = (if starts_with p s then Some (drop (length p) s) else None)"

lemma strip_prefix_append [simp]: "strip_prefix p (p @ t) = Some t"
proof -
  have "starts_with p (p @ t)" by (induction p) auto
  then show ?thesis by (simp add: strip_prefix_def)
qed

text \<open>\<open>str::contains\<close> on a string pattern.\<close>

fun str_contains :: "string \<Rightarrow> string \<Rightarrow> bool" where
  "str_contains pat [] = (pat = [])"
| "str_contains pat (c # cs) = (starts_with pat (c # cs) \<or> str_contains pat cs)"

lemma starts_with_iff: "starts_with p s \<longleftrightarrow> (\<exists>t. s = p @ t)"
  by (induction p s rule: starts_with.induct) auto

lemma strip_prefix_iff: "strip_prefix p s = Some t \<longleftrightarrow> s = p @ t"
  by (auto simp: strip_prefix_def starts_with_iff)

lemma str_contains_iff: "str_contains pat s \<longleftrightarrow> (\<exists>u v. s = u @ pat @ v)"
proof (induction s)
  case Nil
  then show ?case by simp
next
  case (Cons c cs)
  show ?case
  proof
    assume "str_contains pat (c # cs)"
    then consider t where "c # cs = pat @ t" | u v where "cs = u @ pat @ v"
      using Cons.IH by (auto simp: starts_with_iff)
    then show "\<exists>u v. c # cs = u @ pat @ v"
      by cases (metis append_Nil, metis append_Cons)
  next
    assume "\<exists>u v. c # cs = u @ pat @ v"
    then obtain u v where uv: "c # cs = u @ pat @ v" by blast
    show "str_contains pat (c # cs)"
    proof (cases u)
      case Nil
      with uv have "starts_with pat (c # cs)" by (auto simp: starts_with_iff)
      then show ?thesis by simp
    next
      case (Cons u0 us)
      with uv have "\<exists>u v. cs = u @ pat @ v" by auto
      then show ?thesis using Cons.IH by simp
    qed
  qed
qed

text \<open>Decimal digits, as \<open>format!\<close> prints an unsigned integer.\<close>

fun decimal :: "nat \<Rightarrow> string" where
  "decimal n =
     (if n < 10 then [char_of (48 + n)] else decimal (n div 10) @ [char_of (48 + n mod 10)])"

declare decimal.simps [simp del]

lemma decimal_ne [simp]: "decimal n \<noteq> []"
  by (subst decimal.simps) simp

lemma digit_inj: "m < 10 \<Longrightarrow> n < 10 \<Longrightarrow> char_of (48 + m :: nat) = char_of (48 + n :: nat) \<Longrightarrow> m = n"
  by (drule arg_cong [of _ _ "of_char :: char \<Rightarrow> nat"]) (simp add: of_char_of take_bit_eq_mod)

lemma decimal_inj: "decimal m = decimal n \<Longrightarrow> m = n"
proof (induction m arbitrary: n rule: decimal.induct)
  case (1 m)
  show ?case
  proof (cases "m < 10 \<or> n < 10")
    case True
    then show ?thesis
      using "1.prems" digit_inj [of m n]
      by (auto simp: decimal.simps [of m] decimal.simps [of n] append_eq_Cons_conv Cons_eq_append_conv
          split: if_splits)
  next
    case False
    then have d: "decimal (m div 10) = decimal (n div 10)" "m mod 10 = n mod 10"
      using "1.prems" digit_inj [of "m mod 10" "n mod 10"]
      by (simp_all add: decimal.simps [of m] decimal.simps [of n])
    then have "m div 10 = n div 10" using "1.IH" False by blast
    then show ?thesis using d(2) by (metis div_mult_mod_eq)
  qed
qed

section \<open>Iterators\<close>

text \<open>\<open>Iterator::position\<close>.\<close>

fun position_of :: "('a \<Rightarrow> bool) \<Rightarrow> 'a list \<Rightarrow> nat option" where
  "position_of P [] = None"
| "position_of P (x # xs) = (if P x then Some 0 else map_option Suc (position_of P xs))"

text \<open>The newest entry satisfying a test: \<open>iter().rev().find(..)\<close>.\<close>

definition rfind :: "('a \<Rightarrow> bool) \<Rightarrow> 'a list \<Rightarrow> 'a option" where
  "rfind P xs = find P (rev xs)"

lemma rfind_Nil [simp]: "rfind P [] = None"
  by (simp add: rfind_def)

lemma rfind_snoc [simp]: "rfind P (xs @ [x]) = (if P x then Some x else rfind P xs)"
  by (simp add: rfind_def)

lemma find_append: "find P (xs @ ys) = (case find P xs of None \<Rightarrow> find P ys | Some x \<Rightarrow> Some x)"
  by (induction xs) auto

lemma rfind_append:
  "rfind P (xs @ ys) = (case rfind P ys of None \<Rightarrow> rfind P xs | Some y \<Rightarrow> Some y)"
  by (simp add: rfind_def find_append split: option.splits)

lemma rfind_Some: "rfind P xs = Some x \<Longrightarrow> P x \<and> x \<in> set xs"
  unfolding rfind_def by (metis find_Some_iff nth_mem set_rev)

lemma rfind_None: "rfind P xs = None \<longleftrightarrow> (\<forall>x \<in> set xs. \<not> P x)"
  by (auto simp: rfind_def find_None_iff)

section \<open>Comparators and the iterator adaptors built on them\<close>

datatype ordering = Less | Equal | Greater

definition cmp_of :: "'a::linorder \<Rightarrow> 'a \<Rightarrow> ordering" where
  "cmp_of a b = (if a < b then Less else if a = b then Equal else Greater)"

fun then_cmp :: "ordering \<Rightarrow> ordering \<Rightarrow> ordering" where
  "then_cmp Equal o' = o'"
| "then_cmp o' _ = o'"

fun reverse_ordering :: "ordering \<Rightarrow> ordering" where
  "reverse_ordering Less = Greater"
| "reverse_ordering Equal = Equal"
| "reverse_ordering Greater = Less"

lemma cmp_of_simps [simp]:
  "cmp_of a b = Less \<longleftrightarrow> a < b"
  "cmp_of a b = Equal \<longleftrightarrow> a = b"
  "cmp_of a b = Greater \<longleftrightarrow> b < a"
  by (auto simp: cmp_of_def)

lemma then_cmp_Less [simp]:
  "then_cmp x y = Less \<longleftrightarrow> x = Less \<or> x = Equal \<and> y = Less"
  by (cases x) auto

lemma then_cmp_Equal [simp]: "then_cmp x y = Equal \<longleftrightarrow> x = Equal \<and> y = Equal"
  by (cases x) auto

lemma then_cmp_Greater [simp]:
  "then_cmp x y = Greater \<longleftrightarrow> x = Greater \<or> x = Equal \<and> y = Greater"
  by (cases x) auto

text \<open>\<open>slice::sort_by\<close> is stable: an element moves before another only if it compares \<open>Less\<close>.\<close>

fun insert_by :: "('a \<Rightarrow> 'a \<Rightarrow> ordering) \<Rightarrow> 'a \<Rightarrow> 'a list \<Rightarrow> 'a list" where
  "insert_by cmp x [] = [x]"
| "insert_by cmp x (y # ys) = (if cmp y x = Less then y # insert_by cmp x ys else x # y # ys)"

fun sort_by :: "('a \<Rightarrow> 'a \<Rightarrow> ordering) \<Rightarrow> 'a list \<Rightarrow> 'a list" where
  "sort_by cmp [] = []"
| "sort_by cmp (x # xs) = insert_by cmp x (sort_by cmp xs)"

text \<open>\<open>Iterator::min_by\<close> keeps the first of several minima.\<close>

fun min_by :: "('a \<Rightarrow> 'a \<Rightarrow> ordering) \<Rightarrow> 'a list \<Rightarrow> 'a option" where
  "min_by cmp [] = None"
| "min_by cmp (x # xs) =
     (case min_by cmp xs of
        None \<Rightarrow> Some x
      | Some m \<Rightarrow> if cmp m x = Less then Some m else Some x)"

text \<open>\<open>Iterator::max_by_key\<close> keeps the last of several maxima.\<close>

fun max_by_key :: "('a \<Rightarrow> 'k::linorder) \<Rightarrow> 'a list \<Rightarrow> 'a option" where
  "max_by_key k [] = None"
| "max_by_key k (x # xs) =
     (case max_by_key k xs of
        None \<Rightarrow> Some x
      | Some m \<Rightarrow> if k m < k x then Some x else Some m)"

lemma mset_insert_by [simp]: "mset (insert_by cmp x xs) = add_mset x (mset xs)"
  by (induction xs) auto

lemma mset_sort_by [simp]: "mset (sort_by cmp xs) = mset xs"
  by (induction xs) auto

lemma set_sort_by [simp]: "set (sort_by cmp xs) = set xs"
  by (metis mset_sort_by set_mset_mset)

lemma length_sort_by [simp]: "length (sort_by cmp xs) = length xs"
  by (metis mset_sort_by size_mset)

lemma max_by_key_None [simp]: "max_by_key k xs = None \<longleftrightarrow> xs = []"
  by (cases xs) (auto split: option.splits)

lemma min_by_None [simp]: "min_by cmp xs = None \<longleftrightarrow> xs = []"
  by (cases xs) (auto split: option.splits)

lemma max_by_key_Some:
  "max_by_key k xs = Some m \<Longrightarrow> m \<in> set xs \<and> (\<forall>x \<in> set xs. k x \<le> k m)"
  by (induction xs arbitrary: m) (fastforce split: option.splits if_splits)+

lemma min_by_in_set: "min_by cmp xs = Some m \<Longrightarrow> m \<in> set xs"
  by (induction xs arbitrary: m) (auto split: option.splits if_splits)

section \<open>Interfaces\<close>

text \<open>
  What Rust requires of a comparator handed to \<open>sort_by\<close>, relative to the elements that are
  compared (\<open>D\<close>): converse symmetry and transitivity.
\<close>

locale total_order =
  fixes cmp :: "'a \<Rightarrow> 'a \<Rightarrow> ordering"
  assumes cmp_swap: "cmp a b = reverse_ordering (cmp b a)"
    and cmp_trans: "cmp a b \<noteq> Greater \<Longrightarrow> cmp b c \<noteq> Greater \<Longrightarrow> cmp a c \<noteq> Greater"
begin

lemma not_Less_swap: "cmp a b \<noteq> Less \<longleftrightarrow> cmp b a \<noteq> Greater"
  using cmp_swap [of a b] by (cases "cmp b a") auto

lemma sorted_insert_by:
  "sorted_wrt (\<lambda>a b. cmp a b \<noteq> Greater) xs \<Longrightarrow>
   sorted_wrt (\<lambda>a b. cmp a b \<noteq> Greater) (insert_by cmp x xs)"
proof (induction xs)
  case Nil
  then show ?case by simp
next
  case (Cons y ys)
  have set: "set (insert_by cmp x ys) = insert x (set ys)"
    by (metis mset_insert_by set_mset_add_mset_insert set_mset_mset)
  show ?case
  proof (cases "cmp y x = Less")
    case True
    with Cons set show ?thesis by auto
  next
    case False
    then have "cmp x y \<noteq> Greater" by (simp add: not_Less_swap)
    with Cons.prems False show ?thesis by (auto dest: cmp_trans)
  qed
qed

lemma sorted_sort_by: "sorted_wrt (\<lambda>a b. cmp a b \<noteq> Greater) (sort_by cmp xs)"
  by (induction xs) (auto intro: sorted_insert_by)

lemma sort_by_unique:
  assumes "mset xs = mset ys"
    and tie: "\<And>a b. a \<in> set xs \<Longrightarrow> b \<in> set xs \<Longrightarrow> cmp a b = Equal \<Longrightarrow> a = b"
  shows "sort_by cmp xs = sort_by cmp ys"
proof -
  have "us = vs"
    if "sorted_wrt (\<lambda>a b. cmp a b \<noteq> Greater) us" "sorted_wrt (\<lambda>a b. cmp a b \<noteq> Greater) vs"
      "mset us = mset vs" "set us \<subseteq> set xs" for us vs :: "'a list"
    using that
  proof (induction us arbitrary: vs)
    case Nil
    then show ?case by simp
  next
    case (Cons u us)
    then obtain v vs' where vs: "vs = v # vs'" by (cases vs) auto
    have "u \<in> set vs" and "v \<in> set (u # us)"
      using Cons.prems(3) vs by (metis list.set_intros(1) set_mset_mset)+
    then have "cmp u v \<noteq> Greater \<or> u = v" and "cmp v u \<noteq> Greater \<or> u = v"
      using Cons.prems(1,2) vs by auto
    then have "u = v"
      using cmp_swap [of u v] tie [of u v] Cons.prems(4) \<open>v \<in> set (u # us)\<close>
      by (cases "cmp u v"; cases "cmp v u") auto
    with Cons vs show ?case by simp
  qed
  then show ?thesis
    by (metis assms(1) mset_sort_by order_refl set_sort_by sorted_sort_by)
qed

lemma min_by_least: "min_by cmp xs = Some m \<Longrightarrow> x \<in> set xs \<Longrightarrow> cmp m x \<noteq> Greater"
proof (induction xs arbitrary: m x)
  case Nil
  then show ?case by simp
next
  case (Cons y ys)
  show ?case
  proof (cases "min_by cmp ys")
    case None
    then have "ys = []" by simp
    with Cons.prems None show ?thesis using cmp_swap [of y y] by (cases "cmp y y") auto
  next
    case (Some n)
    have self: "cmp z z \<noteq> Greater" for z using cmp_swap [of z z] by (cases "cmp z z") auto
    have least: "cmp n z \<noteq> Greater" if "z \<in> set ys" for z using Cons.IH [OF Some that] .
    show ?thesis
    proof (cases "cmp n y = Less")
      case True
      with Cons.prems Some least show ?thesis by auto
    next
      case False
      then have "cmp y n \<noteq> Greater" by (simp add: not_Less_swap)
      moreover have "m = y" using Cons.prems(1) Some False by simp
      ultimately show ?thesis
        using Cons.prems(2) least self by (auto dest: cmp_trans)
    qed
  qed
qed

end

text \<open>An enum with the spelling it is stored and sent under.\<close>

locale wire_codec =
  fixes as_str :: "'a \<Rightarrow> string"
    and parse :: "string \<Rightarrow> 'a option"
  assumes parse_as_str: "parse (as_str x) = Some x"
    and parse_sound: "parse s = Some x \<Longrightarrow> s = as_str x"
begin

lemma as_str_eq_iff: "as_str x = as_str y \<longleftrightarrow> x = y"
  by (metis option.inject parse_as_str)

lemma parse_iff: "parse s = Some x \<longleftrightarrow> s = as_str x"
  using parse_as_str parse_sound by blast

lemma parse_None_iff: "parse s = None \<longleftrightarrow> s \<notin> range as_str"
  by (metis not_Some_eq parse_as_str parse_sound rangeE rangeI)

end

text \<open>
  A component driven by operations: every operation keeps the invariant, so every history of
  operations does.
\<close>

locale invariant_machine =
  fixes step :: "'s \<Rightarrow> 'op \<Rightarrow> 's"
    and inv :: "'s \<Rightarrow> bool"
  assumes step_inv: "inv s \<Longrightarrow> inv (step s a)"
begin

lemma run_inv: "inv s \<Longrightarrow> inv (foldl step s ops)"
  by (induction ops arbitrary: s) (auto intro: step_inv)

lemma run_induct:
  assumes "inv s" and "P s" and "\<And>s a. inv s \<Longrightarrow> P s \<Longrightarrow> P (step s a)"
  shows "P (foldl step s ops)"
  using assms(1,2) by (induction ops arbitrary: s) (auto intro: step_inv assms(3))

end

end
