(* ===== verification/Money.thy ===== *)
theory Money
  imports Prelude
begin

text \<open>
  \<open>crates/model/src/money.rs\<close>: \<open>MicroUsd\<close>, the only money type of the system, as exact 64-bit
  micro-dollars with saturating addition and the multiply-then-divide token price. The two
  \<open>f64\<close> boundary helpers (\<open>from_usd_decimal\<close>, \<open>as_usd_decimal\<close>) and their serde bridge are
  display and configuration glue and are left out.
\<close>

datatype micro_usd = MicroUsd int

primrec into_micros :: "micro_usd \<Rightarrow> int" where
  "into_micros (MicroUsd m) = m"

definition from_micros :: "int \<Rightarrow> micro_usd" where
  "from_micros micros = MicroUsd micros"

definition ZERO :: micro_usd where
  "ZERO = MicroUsd 0"

text \<open>\<open>i64::saturating_add\<close> and \<open>i64::saturating_sub\<close>.\<close>

definition add_usd :: "micro_usd \<Rightarrow> micro_usd \<Rightarrow> micro_usd" where
  "add_usd a b = MicroUsd (clamp_i64 (into_micros a + into_micros b))"

definition sub_usd :: "micro_usd \<Rightarrow> micro_usd \<Rightarrow> micro_usd" where
  "sub_usd a b = MicroUsd (clamp_i64 (into_micros a - into_micros b))"

definition sum_usd :: "micro_usd list \<Rightarrow> micro_usd" where
  "sum_usd xs = foldl add_usd ZERO xs"

definition cost_for_tokens :: "micro_usd \<Rightarrow> nat \<Rightarrow> micro_usd" where
  "cost_for_tokens per_million tokens =
     (let raw = (int tokens * into_micros per_million) sdiv 1000000
      in MicroUsd (clamp_i64 raw))"

text \<open>A stored amount: an \<open>i64\<close>.\<close>

definition usd_ok :: "micro_usd \<Rightarrow> bool" where
  "usd_ok a \<longleftrightarrow> in_i64 (into_micros a)"

lemma from_into_micros [simp]: "into_micros (from_micros m) = m"
  by (simp add: from_micros_def)

lemma usd_ok_add [simp]: "usd_ok (add_usd a b)"
  by (simp add: usd_ok_def add_usd_def)

lemma usd_ok_sub [simp]: "usd_ok (sub_usd a b)"
  by (simp add: usd_ok_def sub_usd_def)

lemma usd_ok_cost [simp]: "usd_ok (cost_for_tokens p t)"
  by (simp add: usd_ok_def cost_for_tokens_def Let_def)

lemma sdiv_nonneg: "0 \<le> a \<Longrightarrow> 0 < b \<Longrightarrow> a sdiv b = a div (b :: int)"
  by (cases "a = 0") (auto simp: signed_divide_int_def)

lemma million_bracket:
  "1000000 * (e div 1000000) \<le> e \<and> e < 1000000 * (e div 1000000 + 1)" for e :: int
  by presburger

lemma cost_nonneg:
  "0 \<le> p \<Longrightarrow> into_micros (cost_for_tokens (MicroUsd p) t) = min i64_max (int t * p div 1000000)"
proof -
  assume p: "0 \<le> p"
  have "0 \<le> int t * p div 1000000" using p by (simp add: pos_imp_zdiv_nonneg_iff)
  then show ?thesis
    using p by (simp add: cost_for_tokens_def Let_def sdiv_nonneg clamp_i64_nonneg)
qed

text \<open>The product the price is computed from fits the \<open>i128\<close> the code computes it in.\<close>

lemma cost_product_fits_i128:
  assumes "in_i64 p" and "t < 2 ^ 64"
  shows "in_i128 (int t * p)"
proof -
  have t: "int t \<le> 2 ^ 64 - 1"
  proof -
    have "int t < int (2 ^ 64)" using assms(2) by (simp only: of_nat_less_iff)
    then show ?thesis by simp
  qed
  have p: "\<bar>p\<bar> \<le> 2 ^ 63" using assms(1) by (auto simp: in_i64_def i64_min_def i64_max_def)
  have "\<bar>int t * p\<bar> \<le> (2 ^ 64 - 1) * 2 ^ 63"
    using mult_mono [OF t p] by (simp add: abs_mult)
  then show ?thesis by (simp add: in_i128_def abs_le_iff)
qed

lemma foldl_add_usd:
  assumes "0 \<le> into_micros acc" and "\<forall>a \<in> set xs. 0 \<le> into_micros a"
    and "into_micros acc \<le> i64_max"
  shows "into_micros (foldl add_usd acc xs) =
           min i64_max (into_micros acc + (\<Sum>a\<leftarrow>xs. into_micros a))"
  using assms
proof (induction xs arbitrary: acc)
  case Nil
  then show ?case by simp
next
  case (Cons x xs)
  have x: "0 \<le> into_micros x" and xs: "\<forall>a \<in> set xs. 0 \<le> into_micros a"
    using Cons.prems(2) by simp_all
  have rest: "0 \<le> (\<Sum>a\<leftarrow>xs. into_micros a)" using xs by (intro sum_list_nonneg) auto
  let ?acc = "add_usd acc x"
  have acc: "into_micros ?acc = min i64_max (into_micros acc + into_micros x)"
    using Cons.prems(1) x by (simp add: add_usd_def clamp_i64_nonneg)
  have "into_micros (foldl add_usd ?acc xs) =
          min i64_max (into_micros ?acc + (\<Sum>a\<leftarrow>xs. into_micros a))"
    using Cons.prems(1) x xs acc by (intro Cons.IH) (auto simp: i64_max_def)
  also have "\<dots> = min i64_max (into_micros acc + (into_micros x + (\<Sum>a\<leftarrow>xs. into_micros a)))"
    using rest acc by auto
  finally show ?case by simp
qed

section \<open>Properties\<close>

text \<open>The price of a call is the exact product rounded down to a whole micro-dollar: at a
  non-negative price per million the charge \<open>c\<close> satisfies
  \<open>10^6 * c \<le> tokens * price < 10^6 * (c + 1)\<close> as long as that fits an \<open>i64\<close>, and is pinned at
  \<open>i64::MAX\<close> when it does not. No charge is ever negative.\<close>

lemma cost_for_tokens_rounds_down:
  assumes "0 \<le> price"
  shows "let c = into_micros (cost_for_tokens (MicroUsd price) tokens);
             exact = int tokens * price
         in 0 \<le> c \<and>
            (if exact div 1000000 \<le> i64_max
             then 1000000 * c \<le> exact \<and> exact < 1000000 * (c + 1)
             else c = i64_max)"
proof -
  let ?e = "int tokens * price"
  have e: "0 \<le> ?e div 1000000" using assms by (simp add: pos_imp_zdiv_nonneg_iff)
  have "0 \<le> i64_max" by (simp add: i64_max_def)
  then show ?thesis
    using e million_bracket [of ?e] by (simp add: Let_def cost_nonneg [OF assms])
qed

lemma cost_for_tokens_rounds_down_witness:
  "into_micros (cost_for_tokens (MicroUsd 2500000) 1234) = 3085 \<and>
   1000000 * 3085 \<le> int 1234 * 2500000 \<and> int 1234 * 2500000 < 1000000 * (3085 + 1)"
  using cost_for_tokens_rounds_down [of 2500000 1234]
  by (simp add: Let_def cost_nonneg i64_max_def)

text \<open>Summing non-negative amounts gives their exact total, pinned at \<open>i64::MAX\<close>: a running
  total never wraps, never loses an amount below the pin, and does not depend on the order the
  ledger rows come back in.\<close>

lemma sum_usd_exact_or_saturated:
  assumes "\<forall>a \<in> set xs. 0 \<le> into_micros a"
  shows "into_micros (sum_usd xs) = min i64_max (\<Sum>a\<leftarrow>xs. into_micros a)"
  using foldl_add_usd [of ZERO xs] assms by (simp add: sum_usd_def ZERO_def i64_max_def)

lemma sum_usd_exact_or_saturated_witness:
  "into_micros (sum_usd [MicroUsd 5, MicroUsd 7, MicroUsd 30]) = 42"
  using sum_usd_exact_or_saturated [of "[MicroUsd 5, MicroUsd 7, MicroUsd 30]"]
  by (simp add: i64_max_def)

end
