(* ===== verification/BoardTypes.thy ===== *)
theory BoardTypes
  imports Money
begin

text \<open>
  The rows of a kanban board as \<open>crates/store/src/project.rs\<close> declares them: columns,
  priorities, cards (\<open>IssueRow\<close>), the sparse edit (\<open>IssueUpdate\<close>), actors, timeline entries,
  the run ledger (\<open>IssueRunRow\<close>) and spend, with the storage spelling of every enum; and the two
  identifier grammars of \<open>crates/model/src/agent_profile.rs\<close> that decide which ids and handles
  exist. Opaque generated ids are strings.
\<close>

type_synonym issue_id = string
type_synonym project_id = string
type_synonym run_id = string
type_synonym event_id = string
type_synonym session_id = string
type_synonym agent_profile_id = string
type_synonym agent_handle = string

section \<open>Identifier grammars\<close>

text \<open>The rejected value and the reason, one constructor per message of the source.\<close>

datatype reject_reason =
    EmptyValue | BadFirstChar | BadChar | TrailingDash | TooLong | ReservedName

datatype invalid_id = InvalidId string reject_reason

definition MAX_AGENT_PROFILE_ID_CHARS :: nat where
  "MAX_AGENT_PROFILE_ID_CHARS = 64"

definition MAX_AGENT_HANDLE_CHARS :: nat where
  "MAX_AGENT_HANDLE_CHARS = 32"

definition PROJECT_PERSONAS_DIR :: string where
  "PROJECT_PERSONAS_DIR = ''project''"

definition agent_profile_id_parse :: "string \<Rightarrow> invalid_id + agent_profile_id" where
  "agent_profile_id_parse value =
     (case value of
        [] \<Rightarrow> Inl (InvalidId value EmptyValue)
      | first # chars \<Rightarrow>
          if \<not> is_ascii_alphanumeric first
          then Inl (InvalidId value BadFirstChar)
          else if \<not> list_all (\<lambda>c. is_ascii_alphanumeric c \<or> c \<in> set ''._-'') chars
          then Inl (InvalidId value BadChar)
          else if length value > MAX_AGENT_PROFILE_ID_CHARS
          then Inl (InvalidId value TooLong)
          else if value = PROJECT_PERSONAS_DIR
          then Inl (InvalidId value ReservedName)
          else Inr value)"

definition is_handle_char :: "char \<Rightarrow> bool" where
  "is_handle_char c \<longleftrightarrow> is_ascii_lowercase c \<or> is_ascii_digit c \<or> c = CHR ''-''"

definition agent_handle_parse :: "string \<Rightarrow> invalid_id + agent_handle" where
  "agent_handle_parse value =
     (case value of
        [] \<Rightarrow> Inl (InvalidId value EmptyValue)
      | first # chars \<Rightarrow>
          if \<not> is_ascii_lowercase first
          then Inl (InvalidId value BadFirstChar)
          else if \<not> list_all is_handle_char chars
          then Inl (InvalidId value BadChar)
          else if last value = CHR ''-''
          then Inl (InvalidId value TrailingDash)
          else if length value > MAX_AGENT_HANDLE_CHARS
          then Inl (InvalidId value TooLong)
          else Inr value)"

section \<open>Columns and priorities\<close>

datatype issue_status = Backlog | Todo | InProgress | Review | Done

definition issue_status_as_str :: "issue_status \<Rightarrow> string" where
  "issue_status_as_str s =
     (case s of
        Backlog \<Rightarrow> ''backlog''
      | Todo \<Rightarrow> ''todo''
      | InProgress \<Rightarrow> ''in_progress''
      | Review \<Rightarrow> ''review''
      | Done \<Rightarrow> ''done'')"

definition issue_status_parse :: "string \<Rightarrow> issue_status option" where
  "issue_status_parse value =
     (if value = ''backlog'' then Some Backlog
      else if value = ''todo'' then Some Todo
      else if value = ''in_progress'' then Some InProgress
      else if value = ''review'' then Some Review
      else if value = ''done'' then Some Done
      else None)"

datatype issue_priority = Urgent | High | Medium | Low | NoPriority

definition all_priorities :: "issue_priority list" where
  "all_priorities = [Urgent, High, Medium, Low, NoPriority]"

definition issue_priority_as_str :: "issue_priority \<Rightarrow> string" where
  "issue_priority_as_str p =
     (case p of
        Urgent \<Rightarrow> ''urgent''
      | High \<Rightarrow> ''high''
      | Medium \<Rightarrow> ''medium''
      | Low \<Rightarrow> ''low''
      | NoPriority \<Rightarrow> ''none'')"

definition issue_priority_parse :: "string \<Rightarrow> issue_priority option" where
  "issue_priority_parse value =
     (if value = ''urgent'' then Some Urgent
      else if value = ''high'' then Some High
      else if value = ''medium'' then Some Medium
      else if value = ''low'' then Some Low
      else if value = ''none'' then Some NoPriority
      else None)"

text \<open>The derived \<open>Ord\<close> of \<open>IssuePriority\<close>: declaration order, most urgent first.\<close>

primrec priority_rank :: "issue_priority \<Rightarrow> nat" where
  "priority_rank Urgent = 0"
| "priority_rank High = 1"
| "priority_rank Medium = 2"
| "priority_rank Low = 3"
| "priority_rank NoPriority = 4"

lemma priority_rank_inj: "priority_rank p = priority_rank q \<longleftrightarrow> p = q"
  by (cases p; cases q) auto

instantiation issue_priority :: linorder
begin

definition less_eq_issue_priority :: "issue_priority \<Rightarrow> issue_priority \<Rightarrow> bool" where
  "less_eq_issue_priority p q \<longleftrightarrow> priority_rank p \<le> priority_rank q"

definition less_issue_priority :: "issue_priority \<Rightarrow> issue_priority \<Rightarrow> bool" where
  "less_issue_priority p q \<longleftrightarrow> priority_rank p < priority_rank q"

instance
  by standard (auto simp: less_eq_issue_priority_def less_issue_priority_def priority_rank_inj)

end

section \<open>Cards\<close>

record issue_attachment =
  blob_id :: string
  mime_type :: string
  size_bytes :: nat
  filename :: "string option"

record issue_row =
  issue_id :: issue_id
  issue_project :: project_id
  issue_number :: int
  title :: string
  description :: string
  attachments :: "issue_attachment list"
  status :: issue_status
  priority :: issue_priority
  assignee :: "agent_profile_id option"
  position :: int
  pinned :: bool
  blocked_reason :: "string option"
  branch :: "string option"
  parent_issue_id :: "issue_id option"
  stage :: int
  source_key :: "string option"
  filed_from :: "issue_id option"
  cancelled_at :: "instant option"
  created_at :: instant
  updated_at :: instant

record issue_update =
  upd_title :: "string option"
  upd_description :: "string option"
  upd_attachments :: "issue_attachment list option"
  upd_priority :: "issue_priority option"
  upd_parent :: "issue_id option option"
  upd_stage :: "int option"
  upd_assignee :: "agent_profile_id option option"
  upd_blocked_reason :: "string option option"
  upd_cancelled :: "bool option"
  upd_pinned :: "bool option"

definition issue_update_is_empty :: "issue_update \<Rightarrow> bool" where
  "issue_update_is_empty u \<longleftrightarrow>
     upd_title u = None \<and> upd_description u = None \<and> upd_attachments u = None \<and>
     upd_priority u = None \<and> upd_parent u = None \<and> upd_stage u = None \<and>
     upd_assignee u = None \<and> upd_blocked_reason u = None \<and> upd_cancelled u = None \<and>
     upd_pinned u = None"

section \<open>Actors\<close>

datatype issue_actor = ActorUser | ActorAgent agent_profile_id | ActorSystem

definition ACTOR_AGENT_PREFIX :: string where
  "ACTOR_AGENT_PREFIX = ''agent:''"

definition issue_actor_to_storage :: "issue_actor \<Rightarrow> string" where
  "issue_actor_to_storage a =
     (case a of
        ActorUser \<Rightarrow> ''user''
      | ActorSystem \<Rightarrow> ''system''
      | ActorAgent i \<Rightarrow> ACTOR_AGENT_PREFIX @ i)"

definition issue_actor_parse :: "string \<Rightarrow> issue_actor option" where
  "issue_actor_parse value =
     (if value = ''user'' then Some ActorUser
      else if value = ''system'' then Some ActorSystem
      else case strip_prefix ACTOR_AGENT_PREFIX value of
             None \<Rightarrow> None
           | Some i \<Rightarrow>
               (case agent_profile_id_parse i of
                  Inl _ \<Rightarrow> None
                | Inr a \<Rightarrow> Some (ActorAgent a)))"

section \<open>The run ledger\<close>

datatype run_trigger =
    TrigStarted | TrigAssigned | TrigRetry | TrigComment | TrigPromoted | TrigTriage
  | TrigStageBarrier | TrigReview | TrigStalled | TrigBlocked | TrigGrooming | TrigBoardIdle

definition run_trigger_as_str :: "run_trigger \<Rightarrow> string" where
  "run_trigger_as_str t =
     (case t of
        TrigStarted \<Rightarrow> ''started''
      | TrigAssigned \<Rightarrow> ''assigned''
      | TrigRetry \<Rightarrow> ''retry''
      | TrigComment \<Rightarrow> ''comment''
      | TrigPromoted \<Rightarrow> ''promoted''
      | TrigTriage \<Rightarrow> ''triage''
      | TrigStageBarrier \<Rightarrow> ''stage_barrier''
      | TrigReview \<Rightarrow> ''review''
      | TrigStalled \<Rightarrow> ''stalled''
      | TrigBlocked \<Rightarrow> ''blocked''
      | TrigGrooming \<Rightarrow> ''grooming''
      | TrigBoardIdle \<Rightarrow> ''board_idle'')"

definition run_trigger_parse :: "string \<Rightarrow> run_trigger option" where
  "run_trigger_parse value =
     (if value = ''started'' then Some TrigStarted
      else if value = ''assigned'' then Some TrigAssigned
      else if value = ''retry'' then Some TrigRetry
      else if value = ''comment'' then Some TrigComment
      else if value = ''promoted'' then Some TrigPromoted
      else if value = ''triage'' then Some TrigTriage
      else if value = ''stage_barrier'' then Some TrigStageBarrier
      else if value = ''review'' then Some TrigReview
      else if value = ''stalled'' then Some TrigStalled
      else if value = ''blocked'' then Some TrigBlocked
      else if value = ''grooming'' then Some TrigGrooming
      else if value = ''board_idle'' then Some TrigBoardIdle
      else None)"

definition is_coordination :: "run_trigger \<Rightarrow> bool" where
  "is_coordination t \<longleftrightarrow>
     t \<in> {TrigTriage, TrigReview, TrigStalled, TrigBlocked, TrigGrooming, TrigBoardIdle}"

datatype run_status = RunHeld | RunQueued | RunRunning | RunDone | RunFailed | RunCancelled

definition run_status_as_str :: "run_status \<Rightarrow> string" where
  "run_status_as_str s =
     (case s of
        RunHeld \<Rightarrow> ''held''
      | RunQueued \<Rightarrow> ''queued''
      | RunRunning \<Rightarrow> ''running''
      | RunDone \<Rightarrow> ''done''
      | RunFailed \<Rightarrow> ''failed''
      | RunCancelled \<Rightarrow> ''cancelled'')"

definition run_status_parse :: "string \<Rightarrow> run_status option" where
  "run_status_parse value =
     (if value = ''held'' then Some RunHeld
      else if value = ''queued'' then Some RunQueued
      else if value = ''running'' then Some RunRunning
      else if value = ''done'' then Some RunDone
      else if value = ''failed'' then Some RunFailed
      else if value = ''cancelled'' then Some RunCancelled
      else None)"

definition is_settled :: "run_status \<Rightarrow> bool" where
  "is_settled s \<longleftrightarrow> s \<in> {RunDone, RunFailed, RunCancelled}"

record issue_run_row =
  run_id :: run_id
  run_issue :: issue_id
  run_project :: project_id
  run_number :: int
  agent_id :: agent_profile_id
  session_id :: "session_id option"
  trigger :: run_trigger
  run_status :: run_status
  attempt :: int
  resumes :: int
  run_error :: "string option"
  run_created_at :: instant
  started_at :: "instant option"
  settled_at :: "instant option"

definition was_claimed :: "issue_run_row \<Rightarrow> bool" where
  "was_claimed r \<longleftrightarrow> session_id r \<noteq> None"

record new_issue_run =
  new_run_id :: run_id
  new_run_issue :: issue_id
  new_run_project :: project_id
  new_run_number :: int
  new_run_agent :: agent_profile_id
  new_run_trigger :: run_trigger

section \<open>Spend\<close>

record spend =
  input_tokens :: int
  output_tokens :: int
  cost :: micro_usd

text \<open>
  \<open>Spend::tokens\<close> and \<open>Spend::add\<close> use plain \<open>i64\<close> addition, which wraps in the release profile.
\<close>

definition spend_tokens :: "spend \<Rightarrow> int" where
  "spend_tokens s = wrap_i64 (input_tokens s + output_tokens s)"

definition spend_add :: "spend \<Rightarrow> spend \<Rightarrow> spend" where
  "spend_add a b =
     \<lparr>input_tokens = wrap_i64 (input_tokens a + input_tokens b),
      output_tokens = wrap_i64 (output_tokens a + output_tokens b),
      cost = from_micros (wrap_i64 (into_micros (cost a) + into_micros (cost b)))\<rparr>"

definition spend_sum :: "spend list \<Rightarrow> spend" where
  "spend_sum xs = foldl spend_add \<lparr>input_tokens = 0, output_tokens = 0, cost = ZERO\<rparr> xs"

section \<open>Timeline entries\<close>

datatype approval_decision = Approve | ApproveAlways | Deny

datatype approval_resolution = Answered | TimedOut | Abandoned | Policy

datatype issue_event_body =
    EvComment string "issue_attachment list"
  | EvOpened
  | EvTitleChanged string string
  | EvDescriptionChanged
  | EvMoved issue_status issue_status
  | EvAssigned "agent_profile_id option" "agent_profile_id option"
  | EvRunStarted run_id int run_trigger
  | EvRunInterrupted run_id int int
  | EvRunSettled run_id int run_status "string option"
  | EvRunRefused run_trigger "int option"
  | EvBlocked string
  | EvUnblocked
  | EvCancelled
  | EvUncancelled
  | EvWorktreeReclaimed bool
  | EvBranchMerged string string string nat
  | EvWorktreeKept string
  | EvApprovalRequested string "int option" string string
  | EvApprovalResolved string approval_decision approval_resolution
  | EvStageCompleted int
  | EvFiled int
  | EvBudgetExhausted int int
  | EvBudgetRestored int int
  | EvTokenBudgetExhausted int int
  | EvTokenBudgetRestored int int

definition issue_event_kind :: "issue_event_body \<Rightarrow> string" where
  "issue_event_kind b =
     (case b of
        EvComment _ _ \<Rightarrow> ''comment''
      | EvOpened \<Rightarrow> ''opened''
      | EvTitleChanged _ _ \<Rightarrow> ''title_changed''
      | EvDescriptionChanged \<Rightarrow> ''description_changed''
      | EvMoved _ _ \<Rightarrow> ''moved''
      | EvAssigned _ _ \<Rightarrow> ''assigned''
      | EvRunStarted _ _ _ \<Rightarrow> ''run_started''
      | EvRunInterrupted _ _ _ \<Rightarrow> ''run_interrupted''
      | EvRunSettled _ _ _ _ \<Rightarrow> ''run_settled''
      | EvRunRefused _ _ \<Rightarrow> ''run_refused''
      | EvBlocked _ \<Rightarrow> ''blocked''
      | EvUnblocked \<Rightarrow> ''unblocked''
      | EvCancelled \<Rightarrow> ''cancelled''
      | EvUncancelled \<Rightarrow> ''uncancelled''
      | EvBranchMerged _ _ _ _ \<Rightarrow> ''branch_merged''
      | EvWorktreeReclaimed _ \<Rightarrow> ''worktree_reclaimed''
      | EvWorktreeKept _ \<Rightarrow> ''worktree_kept''
      | EvFiled _ \<Rightarrow> ''filed''
      | EvApprovalRequested _ _ _ _ \<Rightarrow> ''approval_requested''
      | EvApprovalResolved _ _ _ \<Rightarrow> ''approval_resolved''
      | EvStageCompleted _ \<Rightarrow> ''stage_completed''
      | EvBudgetExhausted _ _ \<Rightarrow> ''budget_exhausted''
      | EvBudgetRestored _ _ \<Rightarrow> ''budget_restored''
      | EvTokenBudgetExhausted _ _ \<Rightarrow> ''token_budget_exhausted''
      | EvTokenBudgetRestored _ _ \<Rightarrow> ''token_budget_restored'')"

record issue_event_row =
  event_id :: event_id
  event_issue :: issue_id
  event_project :: project_id
  event_number :: int
  actor :: issue_actor
  body :: issue_event_body
  client_msg_id :: "string option"
  event_created_at :: instant

record drain_marks =
  looked_at :: "instant option"
  worked_at :: "instant option"

section \<open>Example rows\<close>

text \<open>Concrete rows the witnesses of the board properties start from; no code corresponds to them.\<close>

definition example_issue :: "int \<Rightarrow> issue_status \<Rightarrow> issue_row" where
  "example_issue n st =
     \<lparr>issue_id = ''card'', issue_project = ''proj'', issue_number = n, title = ''t'',
      description = [], attachments = [], status = st, priority = NoPriority, assignee = None,
      position = 0, pinned = False, blocked_reason = None, branch = None, parent_issue_id = None,
      stage = 0, source_key = None, filed_from = None, cancelled_at = None, created_at = 0,
      updated_at = 0\<rparr>"

definition example_run :: "string \<Rightarrow> run_trigger \<Rightarrow> run_status \<Rightarrow> int \<Rightarrow> issue_run_row" where
  "example_run i t st n =
     \<lparr>run_id = i, run_issue = ''card'', run_project = ''proj'', run_number = 1, agent_id = ''dev-1'',
      session_id = None, trigger = t, run_status = st, attempt = n, resumes = 0, run_error = None,
      run_created_at = n, started_at = None, settled_at = None\<rparr>"

definition example_event :: "issue_actor \<Rightarrow> issue_event_body \<Rightarrow> instant \<Rightarrow> issue_event_row" where
  "example_event a b t =
     \<lparr>event_id = ''ev'', event_issue = ''card'', event_project = ''proj'', event_number = 1, actor = a,
      body = b, client_msg_id = None, event_created_at = t\<rparr>"

lemma example_issue_sel [simp]:
  "issue_number (example_issue n st) = n" "status (example_issue n st) = st"
  "priority (example_issue n st) = NoPriority" "assignee (example_issue n st) = None"
  "position (example_issue n st) = 0" "blocked_reason (example_issue n st) = None"
  "parent_issue_id (example_issue n st) = None" "stage (example_issue n st) = 0"
  "cancelled_at (example_issue n st) = None" "updated_at (example_issue n st) = 0"
  "title (example_issue n st) = ''t''" "description (example_issue n st) = []"
  by (simp_all add: example_issue_def)

lemma example_run_sel [simp]:
  "run_id (example_run i t st n) = i" "agent_id (example_run i t st n) = ''dev-1''"
  "session_id (example_run i t st n) = None" "trigger (example_run i t st n) = t"
  "run_status (example_run i t st n) = st" "attempt (example_run i t st n) = n"
  "resumes (example_run i t st n) = 0" "run_created_at (example_run i t st n) = n"
  "settled_at (example_run i t st n) = None"
  by (simp_all add: example_run_def)

lemma example_event_sel [simp]:
  "actor (example_event a b t) = a" "body (example_event a b t) = b"
  "event_created_at (example_event a b t) = t"
  by (simp_all add: example_event_def)

section \<open>Codecs\<close>

interpretation status_codec: wire_codec issue_status_as_str issue_status_parse
  by unfold_locales
    (auto simp: issue_status_as_str_def issue_status_parse_def
      split: issue_status.splits if_splits)

interpretation priority_codec: wire_codec issue_priority_as_str issue_priority_parse
  by unfold_locales
    (auto simp: issue_priority_as_str_def issue_priority_parse_def
      split: issue_priority.splits if_splits)

interpretation trigger_codec: wire_codec run_trigger_as_str run_trigger_parse
  by unfold_locales
    (auto simp: run_trigger_as_str_def run_trigger_parse_def
      split: run_trigger.splits if_splits)

interpretation run_status_codec: wire_codec run_status_as_str run_status_parse
  by unfold_locales
    (auto simp: run_status_as_str_def run_status_parse_def split: run_status.splits if_splits)

lemma agent_profile_id_parse_Inr: "agent_profile_id_parse s = Inr i \<Longrightarrow> i = s"
  by (auto simp: agent_profile_id_parse_def split: list.splits if_splits)

lemma agent_handle_parse_Inr:
  "agent_handle_parse s = Inr h \<Longrightarrow>
   h = s \<and> s \<noteq> [] \<and> is_ascii_lowercase (hd s) \<and> list_all is_handle_char s \<and> last s \<noteq> CHR ''-'' \<and>
   length s \<le> MAX_AGENT_HANDLE_CHARS"
  by (auto simp: agent_handle_parse_def is_handle_char_def split: list.splits if_splits)

section \<open>Properties\<close>

text \<open>The storage spelling of every board enum (column, priority, run trigger, run status) is a
  bijection onto the strings its parser accepts: a value reads back as itself, nothing else reads
  as it, and every other string is refused.\<close>

lemma board_enums_roundtrip:
  "(issue_status_parse s = Some st \<longleftrightarrow> s = issue_status_as_str st) \<and>
   (issue_priority_parse s = Some p \<longleftrightarrow> s = issue_priority_as_str p) \<and>
   (run_trigger_parse s = Some t \<longleftrightarrow> s = run_trigger_as_str t) \<and>
   (run_status_parse s = Some rs \<longleftrightarrow> s = run_status_as_str rs)"
  by (simp add: status_codec.parse_iff priority_codec.parse_iff trigger_codec.parse_iff
      run_status_codec.parse_iff)

text \<open>A timeline actor reads back from storage as itself exactly when it is the operator, the
  board, or an agent whose id obeys the id grammar; in particular no agent can be stored under a
  spelling that reads back as the operator or the board.\<close>

lemma issue_actor_roundtrip:
  "issue_actor_parse s = Some a \<longleftrightarrow>
     s = issue_actor_to_storage a \<and>
     (case a of ActorAgent i \<Rightarrow> agent_profile_id_parse i = Inr i | _ \<Rightarrow> True)"
proof (cases a)
  case (ActorAgent i)
  have "ACTOR_AGENT_PREFIX @ i \<noteq> ''user''" and "ACTOR_AGENT_PREFIX @ i \<noteq> ''system''"
    by (simp_all add: ACTOR_AGENT_PREFIX_def)
  with ActorAgent show ?thesis
    by (auto simp: issue_actor_parse_def issue_actor_to_storage_def strip_prefix_iff
        split: option.splits sum.splits dest: agent_profile_id_parse_Inr)
qed (auto simp: issue_actor_parse_def issue_actor_to_storage_def ACTOR_AGENT_PREFIX_def
    split: option.splits sum.splits if_splits)

end
