(* ===== verification/BoardBudget.thy ===== *)
theory BoardBudget
  imports Complex_Main BoardTypes
begin

text \<open>
  \<open>crates/project/src/budget.rs\<close>: what a board may spend in a day. A money and a token ceiling
  share one window; either stops the board from starting work, only money stops a run in flight,
  and one of the two is what the operator is told about.
\<close>

record meter =
  spent :: int
  limit :: int

definition meter_of :: "int option \<Rightarrow> int \<Rightarrow> meter option" where
  "meter_of bound sp = map_option (\<lambda>l. \<lparr>spent = sp, limit = l\<rparr>) bound"

definition meter_exhausted :: "meter \<Rightarrow> bool" where
  "meter_exhausted m \<longleftrightarrow> spent m \<ge> limit m"

text \<open>The cross products are \<open>i128\<close> in the source; \<open>tighter_than_fits_i128\<close> shows they fit.\<close>

definition tighter_than :: "meter \<Rightarrow> meter \<Rightarrow> bool" where
  "tighter_than self other \<longleftrightarrow> spent self * limit other > spent other * limit self"

definition speaks_money :: "meter \<Rightarrow> meter \<Rightarrow> bool" where
  "speaks_money money tokens =
     (case (meter_exhausted money, meter_exhausted tokens) of
        (True, False) \<Rightarrow> True
      | (False, True) \<Rightarrow> False
      | _ \<Rightarrow> tighter_than money tokens)"

datatype figures = FiguresMoney int int | FiguresTokens int int

definition figures_money :: "meter \<Rightarrow> figures" where
  "figures_money m = FiguresMoney (spent m) (limit m)"

definition figures_tokens :: "meter \<Rightarrow> figures" where
  "figures_tokens m = FiguresTokens (spent m) (limit m)"

primrec exhausted_event :: "figures \<Rightarrow> issue_event_body" where
  "exhausted_event (FiguresMoney s l) = EvBudgetExhausted s l"
| "exhausted_event (FiguresTokens s l) = EvTokenBudgetExhausted s l"

primrec restored_event :: "figures \<Rightarrow> issue_event_body" where
  "restored_event (FiguresMoney s l) = EvBudgetRestored s l"
| "restored_event (FiguresTokens s l) = EvTokenBudgetRestored s l"

datatype headroom = Unlimited | Limited "meter option" "meter option"

primrec headroom_exhausted :: "headroom \<Rightarrow> bool" where
  "headroom_exhausted Unlimited = False"
| "headroom_exhausted (Limited money tokens) =
     ((case money of None \<Rightarrow> False | Some m \<Rightarrow> meter_exhausted m) \<or>
      (case tokens of None \<Rightarrow> False | Some m \<Rightarrow> meter_exhausted m))"

primrec headroom_money :: "headroom \<Rightarrow> meter option" where
  "headroom_money Unlimited = None"
| "headroom_money (Limited money tokens) = money"

definition money_exhausted :: "headroom \<Rightarrow> bool" where
  "money_exhausted h = (case headroom_money h of None \<Rightarrow> False | Some m \<Rightarrow> meter_exhausted m)"

primrec headroom_figures :: "headroom \<Rightarrow> figures option" where
  "headroom_figures Unlimited = None"
| "headroom_figures (Limited money tokens) =
     (case tokens of
        Some t \<Rightarrow>
          (case money of
             Some m \<Rightarrow> if speaks_money m t then Some (figures_money m) else Some (figures_tokens t)
           | None \<Rightarrow> Some (figures_tokens t))
      | None \<Rightarrow> map_option figures_money money)"

definition headroom_of :: "micro_usd option \<Rightarrow> int option \<Rightarrow> spend \<Rightarrow> headroom" where
  "headroom_of money_limit token_limit sp =
     (let money = meter_of (map_option into_micros money_limit) (into_micros (cost sp));
          tokens = meter_of token_limit (spend_tokens sp)
      in if money = None \<and> tokens = None then Unlimited else Limited money tokens)"

text \<open>Midnight UTC of the day of \<open>now\<close>.\<close>

definition day_start :: "instant \<Rightarrow> instant" where
  "day_start now = (now div hours 24) * hours 24"

section \<open>Lemmas\<close>

lemma tighter_than_fits_i128:
  assumes "in_i64 (spent a)" "in_i64 (limit a)" "in_i64 (spent b)" "in_i64 (limit b)"
  shows "in_i128 (spent a * limit b)" "in_i128 (spent b * limit a)"
  using assms by (auto intro: in_i128_mult)

text \<open>On positive ceilings the integer comparison is the comparison of the used fractions.\<close>

lemma tighter_than_fraction:
  assumes "0 < limit a" "0 < limit b"
  shows "tighter_than a b \<longleftrightarrow>
    (of_int (spent b) / of_int (limit b) :: rat) < of_int (spent a) / of_int (limit a)"
proof -
  have "tighter_than a b \<longleftrightarrow> (of_int (spent b * limit a) :: rat) < of_int (spent a * limit b)"
    by (simp only: tighter_than_def of_int_less_iff)
  also have "\<dots> \<longleftrightarrow>
      (of_int (spent b) / of_int (limit b) :: rat) < of_int (spent a) / of_int (limit a)"
    using assms by (simp add: divide_simps mult.commute)
  finally show ?thesis .
qed

lemma figures_exhausted:
  assumes "headroom_exhausted (Limited money tokens)"
  shows "\<exists>m. meter_exhausted m \<and>
     (money = Some m \<and> headroom_figures (Limited money tokens) = Some (figures_money m) \<or>
      tokens = Some m \<and> headroom_figures (Limited money tokens) = Some (figures_tokens m))"
  using assms by (auto simp: speaks_money_def split: option.splits bool.splits)

lemma window_of_multiple:
  fixes d :: int
  assumes "0 < d"
  shows "n div d * d \<le> n" and "n < n div d * d + d"
    and "t div d * d = n div d * d \<longleftrightarrow> n div d * d \<le> t \<and> t < n div d * d + d"
proof -
  have split: "m = m div d * d + m mod d" "0 \<le> m mod d" "m mod d < d" for m
    using assms by simp_all
  show "n div d * d \<le> n" and "n < n div d * d + d"
    using split [of n] by linarith+
  show "t div d * d = n div d * d \<longleftrightarrow> n div d * d \<le> t \<and> t < n div d * d + d"
  proof
    assume "t div d * d = n div d * d"
    then show "n div d * d \<le> t \<and> t < n div d * d + d" using split [of t] by linarith
  next
    assume t: "n div d * d \<le> t \<and> t < n div d * d + d"
    have "t div d = n div d"
      by (rule int_div_pos_eq [where r = "t - n div d * d"]) (use t in \<open>simp_all add: mult.commute\<close>)
    then show "t div d * d = n div d * d" by simp
  qed
qed

section \<open>Properties\<close>

text \<open>A board is held back exactly when a ceiling it has set is reached by what it spent, and
  whenever it is held back the figures the operator is shown belong to a ceiling that really is
  reached, never to the other one.\<close>

lemma headroom_names_the_reached_ceiling:
  "let h = headroom_of money_limit token_limit sp in
     (headroom_exhausted h \<longleftrightarrow>
        (\<exists>l. money_limit = Some l \<and> into_micros l \<le> into_micros (cost sp)) \<or>
        (\<exists>l. token_limit = Some l \<and> l \<le> spend_tokens sp)) \<and>
     (headroom_exhausted h =
        (\<exists>s l. l \<le> s \<and> (headroom_figures h = Some (FiguresMoney s l) \<or>
                        headroom_figures h = Some (FiguresTokens s l))))"
  by (cases money_limit; cases token_limit)
    (auto simp: Let_def headroom_of_def meter_of_def meter_exhausted_def speaks_money_def
      figures_money_def figures_tokens_def split: bool.splits)

text \<open>The window a daily ceiling measures starts at the last midnight: it never lies in the
  future, is less than a day long, is the same for every instant of one day and moves on with the
  next.\<close>

lemma day_start_window:
  "day_start now \<le> now \<and> now < day_start now + hours 24 \<and>
   (day_start t = day_start now \<longleftrightarrow> day_start now \<le> t \<and> t < day_start now + hours 24)"
proof -
  have "0 < hours 24" by (simp add: hours_def secs_def)
  from window_of_multiple [OF this] show ?thesis by (simp add: day_start_def)
qed

end
