(* ===== verification/BoardStages.thy ===== *)
theory BoardStages
  imports BoardTypes
begin

text \<open>
  \<open>crates/project/src/stages.rs\<close>: sub-issues and the barriers between their stages. A stage of a
  plan is reached when nothing earlier under the same parent is still open; the barrier rule asks
  this after a step finishes, the board's scheduler before one starts.
\<close>

definition is_finished :: "issue_row \<Rightarrow> bool" where
  "is_finished issue \<longleftrightarrow> status issue = Done \<or> cancelled_at issue \<noteq> None"

text \<open>The loop of \<open>stage_complete\<close>, with its \<open>seen\<close> flag and early return.\<close>

fun stage_complete_loop :: "bool \<Rightarrow> issue_row list \<Rightarrow> int \<Rightarrow> bool" where
  "stage_complete_loop seen [] s = seen"
| "stage_complete_loop seen (c # cs) s =
     (if stage c = s
      then if \<not> is_finished c then False else stage_complete_loop True cs s
      else stage_complete_loop seen cs s)"

definition stage_complete :: "issue_row list \<Rightarrow> int \<Rightarrow> bool" where
  "stage_complete children s = stage_complete_loop False children s"

definition stage_is_open :: "issue_row list \<Rightarrow> int \<Rightarrow> bool" where
  "stage_is_open siblings s \<longleftrightarrow>
     \<not> list_ex (\<lambda>sibling. \<not> is_finished sibling \<and> stage sibling < s) siblings"

definition barrier_opens :: "issue_row list \<Rightarrow> int \<Rightarrow> bool" where
  "barrier_opens children s \<longleftrightarrow> stage_complete children s \<and> stage_is_open children s"

definition progress :: "issue_row list \<Rightarrow> nat \<times> nat" where
  "progress children =
     (let live = filter (\<lambda>c. cancelled_at c = None) children;
          finished = length (filter (\<lambda>c. status c = Done) live)
      in (finished, length live))"

definition open_stages :: "issue_row list \<Rightarrow> int list" where
  "open_stages children = remdups_adj (sort (map stage (filter (\<lambda>c. \<not> is_finished c) children)))"

section \<open>Lemmas\<close>

lemma stage_complete_loop_iff:
  "stage_complete_loop seen cs s \<longleftrightarrow>
     (seen \<or> (\<exists>c \<in> set cs. stage c = s)) \<and> (\<forall>c \<in> set cs. stage c = s \<longrightarrow> is_finished c)"
  by (induction seen cs s rule: stage_complete_loop.induct) auto

lemma stage_complete_iff:
  "stage_complete cs s \<longleftrightarrow>
     (\<exists>c \<in> set cs. stage c = s) \<and> (\<forall>c \<in> set cs. stage c = s \<longrightarrow> is_finished c)"
  by (simp add: stage_complete_def stage_complete_loop_iff)

lemma stage_is_open_iff:
  "stage_is_open cs s \<longleftrightarrow> (\<forall>c \<in> set cs. stage c < s \<longrightarrow> is_finished c)"
  by (auto simp: stage_is_open_def list_ex_iff)

lemma set_open_stages: "set (open_stages cs) = {stage c | c. c \<in> set cs \<and> \<not> is_finished c}"
  by (auto simp: open_stages_def)

lemma strict_sorted_remdups_adj: "sorted xs \<Longrightarrow> sorted_wrt (<) (remdups_adj xs)"
  by (induction xs rule: remdups_adj.induct) (auto simp: order_less_le)

lemma sorted_open_stages: "sorted_wrt (<) (open_stages cs)"
  by (simp add: open_stages_def strict_sorted_remdups_adj)

lemma stage_is_open_open_stages:
  "stage_is_open cs s \<longleftrightarrow> (\<forall>t \<in> set (open_stages cs). s \<le> t)"
  by (auto simp: stage_is_open_iff set_open_stages not_less [symmetric])

text \<open>A card made unfinished-for-longer or moved between live columns does not change its plan's gates.\<close>

lemma stage_is_open_cong:
  assumes "map (\<lambda>c. (stage c, is_finished c)) cs = map (\<lambda>c. (stage c, is_finished c)) ds"
  shows "stage_is_open cs s = stage_is_open ds s"
proof -
  have "(\<lambda>c. (stage c, is_finished c)) ` set cs = (\<lambda>c. (stage c, is_finished c)) ` set ds"
    by (metis assms list.set_map)
  then show ?thesis
    unfolding stage_is_open_iff by (auto simp: set_eq_iff image_iff) metis+
qed

section \<open>Properties\<close>

text \<open>Finishing a step of stage \<open>s\<close> wakes the parent exactly when the stage has at least one
  step and every step up to and including \<open>s\<close> is finished; equivalently, when every stage the
  parent is then told is still open lies strictly after \<open>s\<close>.\<close>

lemma barrier_opens_exact:
  "barrier_opens children s \<longleftrightarrow>
     (\<exists>c \<in> set children. stage c = s) \<and> (\<forall>t \<in> set (open_stages children). s < t)"
  by (auto simp: barrier_opens_def stage_complete_iff stage_is_open_iff set_open_stages)
    (metis linorder_neqE_linordered_idom not_less_iff_gr_or_eq)+

lemma barrier_opens_exact_witness:
  "barrier_opens
     [(example_issue 1 Done)\<lparr>stage := 1\<rparr>, (example_issue 2 Done)\<lparr>stage := 2\<rparr>,
      (example_issue 3 Todo)\<lparr>stage := 3\<rparr>] 2"
  using barrier_opens_exact
    [of "[(example_issue 1 Done)\<lparr>stage := 1\<rparr>, (example_issue 2 Done)\<lparr>stage := 2\<rparr>,
      (example_issue 3 Todo)\<lparr>stage := 3\<rparr>]" 2]
  by (simp add: open_stages_def is_finished_def)

end
