(* ===== verification/BoardRuns.thy ===== *)
theory BoardRuns
  imports BoardStages
begin

text \<open>
  \<open>crates/project/src/runs.rs\<close>: which edit of a card starts a run, which card still takes runs,
  which earlier run a run continues, and what the recovery paths decide about a recorded row
  (\<open>verdict\<close>). Two one-line predicates of \<open>driver.rs\<close> that these rules read,
  \<open>board_may_start\<close> and \<open>is_live_work\<close>, are here too, so that the driver can build on this theory.
\<close>

record transition =
  before_status :: issue_status
  before_assignee :: "agent_profile_id option"
  after_status :: issue_status
  after_assignee :: "agent_profile_id option"

definition triggers_run :: "transition \<Rightarrow> run_trigger option" where
  "triggers_run t =
     (if after_status t \<noteq> InProgress \<or> after_assignee t = None then None
      else if before_status t \<noteq> InProgress then Some TrigStarted
      else if before_assignee t \<noteq> after_assignee t then Some TrigAssigned
      else None)"

definition accepts_runs :: "issue_row \<Rightarrow> bool" where
  "accepts_runs issue \<longleftrightarrow> \<not> is_finished issue"

datatype agent_framework = Baybo | Claude | Codex

definition can_host_a_session :: "agent_framework \<Rightarrow> bool" where
  "can_host_a_session framework \<longleftrightarrow> framework = Baybo"

definition transition_between :: "issue_row \<Rightarrow> issue_row \<Rightarrow> transition" where
  "transition_between before after =
     \<lparr>before_status = status before, before_assignee = assignee before,
      after_status = status after, after_assignee = assignee after\<rparr>"

definition transition_created :: "issue_row \<Rightarrow> transition" where
  "transition_created after =
     \<lparr>before_status = Backlog, before_assignee = None,
      after_status = status after, after_assignee = assignee after\<rparr>"

definition ever_ran :: "issue_run_row \<Rightarrow> bool" where
  "ever_ran run \<longleftrightarrow> was_claimed run"

definition is_unsettled :: "issue_run_row \<Rightarrow> bool" where
  "is_unsettled run \<longleftrightarrow> settled_at run = None"

definition unsettled :: "issue_run_row list \<Rightarrow> issue_run_row option" where
  "unsettled runs = find is_unsettled runs"

definition refused_itself :: "issue_run_row \<Rightarrow> issue_actor \<Rightarrow> bool" where
  "refused_itself holder a \<longleftrightarrow>
     run_status holder = RunRunning \<and>
     (case a of ActorAgent i \<Rightarrow> i = agent_id holder | _ \<Rightarrow> False)"

definition newest_run_that_ran :: "agent_profile_id \<Rightarrow> issue_run_row list \<Rightarrow> issue_run_row option"
  where
  "newest_run_that_ran agent runs =
     max_by_key attempt (filter (\<lambda>c. agent_id c = agent \<and> ever_ran c) runs)"

definition session_run_to_continue ::
    "issue_run_row \<Rightarrow> issue_run_row list \<Rightarrow> issue_run_row option" where
  "session_run_to_continue run runs = newest_run_that_ran (agent_id run) runs"

definition session_run_before :: "issue_run_row \<Rightarrow> issue_run_row list \<Rightarrow> issue_run_row option" where
  "session_run_before run runs =
     newest_run_that_ran (agent_id run) (filter (\<lambda>c. run_id c \<noteq> run_id run) runs)"

text \<open>\<open>fresh\<close> is the generated run id.\<close>

definition ledger_entry ::
    "run_id \<Rightarrow> issue_row \<Rightarrow> run_trigger \<Rightarrow> agent_profile_id \<Rightarrow> new_issue_run" where
  "ledger_entry fresh issue t agent =
     \<lparr>new_run_id = fresh, new_run_issue = issue_id issue, new_run_project = issue_project issue,
      new_run_number = issue_number issue, new_run_agent = agent, new_run_trigger = t\<rparr>"

definition MAX_RUN_RESUMES :: int where
  "MAX_RUN_RESUMES = 2"

definition MAX_QUEUED_WAIT_HOURS :: int where
  "MAX_QUEUED_WAIT_HOURS = 48"

datatype gave_up_on = GaveUpResumes | GaveUpQueuedWait

text \<open>The reasons are fixed sentences, one per constructor.\<close>

datatype verdict_reason = GAVE_UP_RESUMING | WAITED_TOO_LONG | PARKED_BY_A_BLOCK

datatype run_verdict =
    Stands
  | Park verdict_reason
  | CallOff
  | GiveUp gave_up_on verdict_reason

definition board_may_start :: "issue_row \<Rightarrow> bool" where
  "board_may_start issue \<longleftrightarrow> blocked_reason issue = None"

definition is_live_work :: "issue_status \<Rightarrow> bool" where
  "is_live_work st \<longleftrightarrow> st \<in> {Todo, InProgress, Review}"

definition survives_a_block :: "run_trigger \<Rightarrow> bool" where
  "survives_a_block t \<longleftrightarrow> t = TrigBlocked"

definition parked_by_a_block :: "issue_run_row \<Rightarrow> issue_row \<Rightarrow> bool" where
  "parked_by_a_block run issue \<longleftrightarrow>
     \<not> board_may_start issue \<and> \<not> survives_a_block (trigger run) \<and> run_status run \<noteq> RunRunning"

definition verdict :: "issue_run_row \<Rightarrow> issue_row option \<Rightarrow> instant \<Rightarrow> run_verdict" where
  "verdict run issue now =
     (if run_status run = RunRunning then Stands
      else case issue of
             None \<Rightarrow> CallOff
           | Some c \<Rightarrow>
               if \<not> accepts_runs c then CallOff
               else if parked_by_a_block run c then Park PARKED_BY_A_BLOCK
               else if run_status run \<noteq> RunQueued then Stands
               else if ever_ran run
               then if resumes run > MAX_RUN_RESUMES
                    then GiveUp GaveUpResumes GAVE_UP_RESUMING else Stands
               else if now - max (run_created_at run) (updated_at c) > hours MAX_QUEUED_WAIT_HOURS
               then GiveUp GaveUpQueuedWait WAITED_TOO_LONG
               else Stands)"

lemmas runs_defs [board_defs] =
  triggers_run_def accepts_runs_def ever_ran_def is_unsettled_def board_may_start_def
  is_live_work_def survives_a_block_def parked_by_a_block_def verdict_def
  transition_between_def transition_created_def

section \<open>Lemmas\<close>

lemma newest_run_that_ran_Some:
  "newest_run_that_ran a runs = Some r \<Longrightarrow>
     r \<in> set runs \<and> agent_id r = a \<and> was_claimed r \<and>
     (\<forall>c \<in> set runs. agent_id c = a \<and> was_claimed c \<longrightarrow> attempt c \<le> attempt r)"
  by (auto simp: newest_run_that_ran_def ever_ran_def dest!: max_by_key_Some)

lemma newest_run_that_ran_None:
  "newest_run_that_ran a runs = None \<longleftrightarrow> (\<forall>c \<in> set runs. agent_id c = a \<longrightarrow> \<not> was_claimed c)"
  by (auto simp: newest_run_that_ran_def ever_ran_def filter_empty_conv)

lemma unsettled_Some: "unsettled runs = Some r \<Longrightarrow> r \<in> set runs \<and> settled_at r = None"
  by (auto simp: unsettled_def is_unsettled_def find_Some_iff)

lemma verdict_running: "run_status run = RunRunning \<Longrightarrow> verdict run issue now = Stands"
  by (simp add: verdict_def)

section \<open>Properties\<close>

text \<open>An edit of a card starts a run exactly when the card ends In Progress with somebody on it
  and either it was not In Progress before (\<open>Started\<close>) or somebody else, or nobody, was on it
  (\<open>Assigned\<close>); re-saving a live card, unassigning it or moving it out of In Progress starts
  nothing.\<close>

lemma triggers_run_exact:
  "triggers_run (transition_between before after) =
     (if status after = InProgress \<and> assignee after \<noteq> None
         \<and> \<not> (status before = InProgress \<and> assignee before = assignee after)
      then Some (if status before = InProgress then TrigAssigned else TrigStarted)
      else None)"
  by (simp add: board_defs)

text \<open>What recovery decides about a recorded run. A running row is its executor's and always
  stands. A row that is not running is called off exactly when its card is gone or finished,
  parked exactly when a live card is blocked and the run is not the one that asks about the block,
  given up exactly when it is queued past a bound (more than two resumes once claimed, more than 48
  hours unclaimed since it was recorded or the card last changed), and stands otherwise; a
  budget-held row is never given up.\<close>

lemma verdict_exact:
  "(verdict run issue now = CallOff \<longleftrightarrow>
      run_status run \<noteq> RunRunning \<and> (case issue of None \<Rightarrow> True | Some c \<Rightarrow> is_finished c)) \<and>
   ((\<exists>why. verdict run issue now = Park why) \<longleftrightarrow>
      run_status run \<noteq> RunRunning \<and> trigger run \<noteq> TrigBlocked \<and>
      (\<exists>c. issue = Some c \<and> \<not> is_finished c \<and> blocked_reason c \<noteq> None)) \<and>
   ((\<exists>b why. verdict run issue now = GiveUp b why) \<longleftrightarrow>
      run_status run = RunQueued \<and>
      (\<exists>c. issue = Some c \<and> \<not> is_finished c \<and> (blocked_reason c = None \<or> trigger run = TrigBlocked) \<and>
           (if was_claimed run then 2 < resumes run
            else hours 48 < now - max (run_created_at run) (updated_at c))))"
  by (auto simp: board_defs MAX_RUN_RESUMES_def MAX_QUEUED_WAIT_HOURS_def split: option.splits)

text \<open>The run whose session a run continues is the newest claimed run of the same agent on the
  card, other than itself: it ran, no other claimed run of that agent has a higher attempt, and when
  none is returned that agent never ran there before, so a session is never shared between agents.\<close>

lemma session_run_before_newest:
  "(case session_run_before run runs of
      Some r \<Rightarrow> r \<in> set runs \<and> run_id r \<noteq> run_id run \<and> agent_id r = agent_id run \<and> was_claimed r \<and>
        (\<forall>c \<in> set runs. run_id c \<noteq> run_id run \<and> agent_id c = agent_id run \<and> was_claimed c \<longrightarrow>
           attempt c \<le> attempt r)
    | None \<Rightarrow> \<forall>c \<in> set runs. run_id c \<noteq> run_id run \<and> agent_id c = agent_id run \<longrightarrow> \<not> was_claimed c)"
proof (cases "session_run_before run runs")
  case None
  then have "\<forall>c \<in> set runs. run_id c \<noteq> run_id run \<and> agent_id c = agent_id run \<longrightarrow> \<not> was_claimed c"
    by (auto simp: session_run_before_def newest_run_that_ran_None)
  with None show ?thesis by simp
next
  case (Some r)
  then show ?thesis
    using newest_run_that_ran_Some [of "agent_id run" "filter (\<lambda>c. run_id c \<noteq> run_id run) runs" r]
    by (simp add: session_run_before_def)
qed

lemma session_run_before_newest_witness:
  "session_run_before (example_run ''r3'' TrigStarted RunQueued 3)
     [(example_run ''r1'' TrigStarted RunDone 1)\<lparr>session_id := Some ''s''\<rparr>,
      (example_run ''r2'' TrigRetry RunDone 2)\<lparr>session_id := Some ''s''\<rparr>,
      (example_run ''r4'' TrigRetry RunFailed 4)]
   = Some ((example_run ''r2'' TrigRetry RunDone 2)\<lparr>session_id := Some ''s''\<rparr>)"
  (is "session_run_before ?r ?rs = Some ?s")
  using session_run_before_newest [where run = ?r and runs = ?rs]
  by (simp add: session_run_before_def newest_run_that_ran_def ever_ran_def was_claimed_def)

end
