(* ===== verification/BoardDriver.thy ===== *)
theory BoardDriver
  imports BoardRuns "HOL-Library.Option_ord"
begin

text \<open>
  \<open>crates/project/src/driver.rs\<close>: what the board starts without being told to. A tick reads the
  cards and the ledger, promotes the \<open>slate\<close>, and asks the lead about the cards the lead
  questions name; \<open>already_asked\<close> bounds how often one question is put about one card, and
  \<open>ran_dry\<close>, \<open>nothing_has_happened_since_the_lead_looked\<close> and \<open>drain_anchor\<close> are the
  one question about the whole board. A \<open>BTreeSet<i64>\<close> of card numbers is an \<open>int set\<close>.
\<close>

section \<open>The rules\<close>

definition busy_set :: "int list \<Rightarrow> int set" where
  "busy_set runs = set runs"

definition is_waiting :: "issue_row \<Rightarrow> int set \<Rightarrow> int set \<Rightarrow> bool" where
  "is_waiting issue spoken_for held \<longleftrightarrow>
     status issue = Todo \<and> accepts_runs issue \<and> board_may_start issue \<and>
     issue_number issue \<notin> held \<and> issue_number issue \<notin> spoken_for"

text \<open>\<open>plans.entry(parent).or_default().push(issue)\<close> over the cards in order.\<close>

fun group_plans ::
    "(issue_id \<rightharpoonup> issue_row list) \<Rightarrow> issue_row list \<Rightarrow> (issue_id \<rightharpoonup> issue_row list)" where
  "group_plans plans [] = plans"
| "group_plans plans (issue # issues) =
     group_plans
       (case parent_issue_id issue of
          None \<Rightarrow> plans
        | Some parent \<Rightarrow>
            plans(parent \<mapsto> (case plans parent of None \<Rightarrow> [] | Some v \<Rightarrow> v) @ [issue]))
       issues"

definition held_by_a_stage :: "issue_row list \<Rightarrow> int set" where
  "held_by_a_stage issues =
     (let plans = group_plans Map.empty issues in
      set (map issue_number
        (filter (\<lambda>issue.
           case parent_issue_id issue of
             None \<Rightarrow> False
           | Some parent \<Rightarrow>
               (case plans parent of
                  None \<Rightarrow> False
                | Some siblings \<Rightarrow> \<not> stage_is_open siblings (stage issue))) issues)))"

definition board_may_take_up :: "issue_row \<Rightarrow> int set \<Rightarrow> bool" where
  "board_may_take_up issue agent_opened \<longleftrightarrow>
     accepts_runs issue \<and> (is_live_work (status issue) \<or> issue_number issue \<in> agent_opened)"

definition is_promotable :: "issue_row \<Rightarrow> int set \<Rightarrow> int set \<Rightarrow> bool" where
  "is_promotable issue spoken_for held \<longleftrightarrow> is_waiting issue spoken_for held \<and> assignee issue \<noteq> None"

definition needs_staffing :: "issue_row \<Rightarrow> int set \<Rightarrow> int set \<Rightarrow> bool" where
  "needs_staffing issue spoken_for held \<longleftrightarrow> is_waiting issue spoken_for held \<and> assignee issue = None"

definition promotion_order :: "issue_row \<Rightarrow> issue_row \<Rightarrow> ordering" where
  "promotion_order a b =
     (let rank = (\<lambda>p. position_of (\<lambda>slot. slot = p) all_priorities) in
      then_cmp
        (then_cmp (cmp_of (rank (priority a)) (rank (priority b)))
                  (cmp_of (position a) (position b)))
        (cmp_of (issue_number a) (issue_number b)))"

definition in_promotion_order :: "issue_row list \<Rightarrow> (issue_row \<Rightarrow> bool) \<Rightarrow> issue_row list" where
  "in_promotion_order issues keep = sort_by promotion_order (filter keep issues)"

definition slate :: "issue_row list \<Rightarrow> int set \<Rightarrow> nat \<Rightarrow> issue_row list" where
  "slate issues busy slots =
     (if slots = 0 then []
      else let held = held_by_a_stage issues;
               ready = in_promotion_order issues (\<lambda>i. is_promotable i busy held)
           in take slots ready)"

definition awaiting_triage :: "issue_row list \<Rightarrow> int set \<Rightarrow> issue_row list" where
  "awaiting_triage issues in_flight =
     (let held = held_by_a_stage issues
      in in_promotion_order issues (\<lambda>i. needs_staffing i in_flight held))"

definition takes_a_lead_question :: "issue_row \<Rightarrow> int set \<Rightarrow> agent_profile_id \<Rightarrow> bool" where
  "takes_a_lead_question issue in_flight lead \<longleftrightarrow>
     accepts_runs issue \<and> issue_number issue \<notin> in_flight \<and> assignee issue \<noteq> Some lead"

definition blocked :: "issue_row list \<Rightarrow> int set \<Rightarrow> agent_profile_id \<Rightarrow> issue_row list" where
  "blocked issues in_flight lead =
     in_promotion_order issues
       (\<lambda>i. \<not> board_may_start i \<and> takes_a_lead_question i in_flight lead)"

definition awaiting_review :: "issue_row list \<Rightarrow> int set \<Rightarrow> agent_profile_id \<Rightarrow> issue_row list" where
  "awaiting_review issues in_flight lead =
     in_promotion_order issues
       (\<lambda>i. status i = Review \<and> board_may_start i \<and> takes_a_lead_question i in_flight lead)"

definition stalled :: "issue_row list \<Rightarrow> int set \<Rightarrow> agent_profile_id \<Rightarrow> issue_row list" where
  "stalled issues in_flight lead =
     in_promotion_order issues
       (\<lambda>i. status i = InProgress \<and> board_may_start i \<and> takes_a_lead_question i in_flight lead)"

definition awaiting_grooming ::
    "issue_row list \<Rightarrow> int set \<Rightarrow> int set \<Rightarrow> agent_profile_id \<Rightarrow> issue_row list" where
  "awaiting_grooming issues in_flight agent_opened lead =
     in_promotion_order issues
       (\<lambda>i. status i = Backlog \<and> board_may_take_up i agent_opened \<and> board_may_start i \<and>
            takes_a_lead_question i in_flight lead)"

section \<open>What the timeline says of a stop\<close>

definition is_blocked_entry :: "issue_event_body \<Rightarrow> bool" where
  "is_blocked_entry b = (case b of EvBlocked _ \<Rightarrow> True | _ \<Rightarrow> False)"

definition is_agent_actor :: "issue_actor \<Rightarrow> bool" where
  "is_agent_actor a = (case a of ActorAgent _ \<Rightarrow> True | _ \<Rightarrow> False)"

definition newest_block :: "issue_event_row list \<Rightarrow> issue_event_row option" where
  "newest_block events = rfind (\<lambda>e. is_blocked_entry (body e)) events"

definition block_is_an_agents_question :: "issue_event_row list \<Rightarrow> bool" where
  "block_is_an_agents_question events =
     (case newest_block events of None \<Rightarrow> False | Some e \<Rightarrow> is_agent_actor (actor e))"

definition cancel_is_a_persons_stop :: "issue_event_row list \<Rightarrow> bool" where
  "cancel_is_a_persons_stop events =
     (case rfind (\<lambda>e. body e = EvCancelled \<or> body e = EvUncancelled) events of
        None \<Rightarrow> False
      | Some e \<Rightarrow> body e = EvCancelled \<and> \<not> is_agent_actor (actor e))"

definition blocked_at :: "issue_event_row list \<Rightarrow> instant option" where
  "blocked_at events = map_option event_created_at (newest_block events)"

definition a_block_was_lifted :: "issue_event_row list \<Rightarrow> bool" where
  "a_block_was_lifted events = list_ex (\<lambda>e. body e = EvUnblocked) events"

definition block_standing_at :: "issue_event_row list \<Rightarrow> instant \<Rightarrow> instant option" where
  "block_standing_at events at =
     (case rfind (\<lambda>e. event_created_at e \<le> at \<and>
                      (is_blocked_entry (body e) \<or> body e = EvUnblocked)) events of
        None \<Rightarrow> None
      | Some latest \<Rightarrow>
          if is_blocked_entry (body latest) then Some (event_created_at latest) else None)"

section \<open>The question about the board, and the bound on asking\<close>

definition ran_dry :: "issue_row list \<Rightarrow> int set \<Rightarrow> int set \<Rightarrow> nat \<Rightarrow> bool" where
  "ran_dry issues working agent_opened promoted \<longleftrightarrow>
     promoted = 0 \<and> working = {} \<and> list_ex (\<lambda>i. board_may_take_up i agent_opened) issues"

definition nothing_has_happened_since_the_lead_looked :: "drain_marks \<Rightarrow> instant \<Rightarrow> bool" where
  "nothing_has_happened_since_the_lead_looked marks rules_changed_at =
     (case looked_at marks of
        None \<Rightarrow> False
      | Some looked \<Rightarrow>
          rules_changed_at \<le> looked \<and>
          (case worked_at marks of None \<Rightarrow> True | Some worked \<Rightarrow> worked \<le> looked))"

definition drain_anchor :: "issue_row list \<Rightarrow> int set \<Rightarrow> int set \<Rightarrow> issue_row option" where
  "drain_anchor issues in_flight agent_opened =
     min_by promotion_order
       (filter (\<lambda>i. board_may_take_up i agent_opened \<and> board_may_start i \<and>
                    issue_number i \<notin> in_flight) issues)"

definition newest_run_was_cancelled :: "issue_run_row list \<Rightarrow> bool" where
  "newest_run_was_cancelled runs =
     (case max_by_key run_created_at runs of
        None \<Rightarrow> False
      | Some run \<Rightarrow> run_status run = RunCancelled)"

definition last_activity :: "issue_row \<Rightarrow> issue_run_row list \<Rightarrow> instant" where
  "last_activity issue runs =
     (let reopened = updated_at issue;
          settles = List.map_filter settled_at (filter (\<lambda>run. \<not> is_coordination (trigger run)) runs)
      in case max_by_key (\<lambda>t. t) settles of
           None \<Rightarrow> reopened
         | Some settled \<Rightarrow> max settled reopened)"

definition MAX_ASKS_PER_CARD_STATE :: nat where
  "MAX_ASKS_PER_CARD_STATE = 2"

definition already_asked :: "issue_row \<Rightarrow> issue_run_row list \<Rightarrow> run_trigger \<Rightarrow> bool" where
  "already_asked issue runs question =
     (let activity = last_activity issue runs;
          asks = filter (\<lambda>run. trigger run = question) runs;
          delivered = list_ex (\<lambda>run. run_created_at run \<ge> activity \<and>
                        \<not> (run_status run = RunFailed \<and> \<not> was_claimed run)) asks
      in delivered \<or>
         length (filter (\<lambda>run. run_created_at run \<ge> updated_at issue) asks)
           \<ge> MAX_ASKS_PER_CARD_STATE)"

lemmas driver_defs [board_defs] =
  is_waiting_def board_may_take_up_def is_promotable_def needs_staffing_def
  takes_a_lead_question_def in_promotion_order_def slate_def awaiting_triage_def blocked_def
  awaiting_review_def stalled_def awaiting_grooming_def ran_dry_def drain_anchor_def

section \<open>The order cards are taken in\<close>

lemma rank_of_priority: "position_of (\<lambda>slot. slot = p) all_priorities = Some (priority_rank p)"
  by (cases p) (simp_all add: all_priorities_def)

lemma promotion_order_alt:
  "promotion_order a b =
     then_cmp (then_cmp (cmp_of (priority_rank (priority a)) (priority_rank (priority b)))
        (cmp_of (position a) (position b))) (cmp_of (issue_number a) (issue_number b))"
  by (simp add: promotion_order_def rank_of_priority cmp_of_def)

lemma promotion_order_Greater:
  "promotion_order a b \<noteq> Greater \<longleftrightarrow>
     priority a < priority b \<or> priority a = priority b \<and>
     (position a < position b \<or> position a = position b \<and> issue_number a \<le> issue_number b)"
  by (auto simp: promotion_order_alt less_issue_priority_def priority_rank_inj)

lemma promotion_order_Less:
  "promotion_order a b = Less \<longleftrightarrow>
     priority a < priority b \<or> priority a = priority b \<and>
     (position a < position b \<or> position a = position b \<and> issue_number a < issue_number b)"
  by (auto simp: promotion_order_alt less_issue_priority_def priority_rank_inj)

lemma promotion_order_Equal: "promotion_order a b = Equal \<Longrightarrow> issue_number a = issue_number b"
  by (simp add: promotion_order_alt)

interpretation promotion: total_order promotion_order
proof
  fix a b c :: issue_row
  have swap: "then_cmp (reverse_ordering x) (reverse_ordering y) = reverse_ordering (then_cmp x y)"
    for x y by (cases x) auto
  have "cmp_of x y = reverse_ordering (cmp_of y x)" for x y :: "'c::linorder"
    by (auto simp: cmp_of_def)
  then show "promotion_order a b = reverse_ordering (promotion_order b a)"
    unfolding promotion_order_alt by (metis swap)
  assume "promotion_order a b \<noteq> Greater" and "promotion_order b c \<noteq> Greater"
  then show "promotion_order a c \<noteq> Greater"
    unfolding promotion_order_Greater by auto
qed

lemma sorted_in_promotion_order:
  "sorted_wrt (\<lambda>a b. promotion_order a b \<noteq> Greater) (in_promotion_order issues keep)"
  by (simp add: in_promotion_order_def promotion.sorted_sort_by)

lemma set_in_promotion_order [simp]:
  "set (in_promotion_order issues keep) = {i \<in> set issues. keep i}"
  by (simp add: in_promotion_order_def)

lemma in_promotion_order_perm:
  assumes "mset issues = mset issues'" and "inj_on issue_number (set issues)"
    and keep: "\<And>i. keep i = keep' i"
  shows "in_promotion_order issues keep = in_promotion_order issues' keep'"
proof -
  have "mset (filter keep issues) = mset (filter keep' issues')"
    using assms(1) keep by (simp add: mset_filter)
  then show ?thesis
    unfolding in_promotion_order_def
    by (rule promotion.sort_by_unique)
      (use assms(2) in \<open>auto dest!: promotion_order_Equal simp: inj_on_def\<close>)
qed

section \<open>The stage gate\<close>

lemma group_plans_lookup:
  "group_plans plans issues p =
     (let mine = filter (\<lambda>i. parent_issue_id i = Some p) issues in
      if mine = [] then plans p else Some ((case plans p of None \<Rightarrow> [] | Some v \<Rightarrow> v) @ mine))"
  by (induction plans issues rule: group_plans.induct) (auto simp: Let_def split: option.splits)

text \<open>Specification: the unfinished steps of an earlier stage under the same parent.\<close>

definition waits_for :: "issue_row list \<Rightarrow> issue_row \<Rightarrow> issue_row \<Rightarrow> bool" where
  "waits_for issues i j \<longleftrightarrow>
     j \<in> set issues \<and> parent_issue_id i \<noteq> None \<and> parent_issue_id j = parent_issue_id i \<and>
     stage j < stage i \<and> \<not> is_finished j"

lemma held_by_a_stage_iff:
  "n \<in> held_by_a_stage issues \<longleftrightarrow>
     (\<exists>i j. i \<in> set issues \<and> issue_number i = n \<and> waits_for issues i j)"
proof -
  have "(case parent_issue_id i of None \<Rightarrow> False
         | Some p \<Rightarrow> (case group_plans Map.empty issues p of None \<Rightarrow> False
            | Some sib \<Rightarrow> \<not> stage_is_open sib (stage i))) \<longleftrightarrow> (\<exists>j. waits_for issues i j)" for i
    by (auto simp: group_plans_lookup Let_def stage_is_open_iff waits_for_def filter_empty_conv
        split: option.splits)
  then show ?thesis
    unfolding held_by_a_stage_def Let_def by auto
qed

lemma held_by_a_stage_set:
  "set issues = set issues' \<Longrightarrow> held_by_a_stage issues = held_by_a_stage issues'"
  by (auto simp: set_eq_iff held_by_a_stage_iff waits_for_def)

lemma held_by_a_stage_unique:
  assumes "inj_on issue_number (set issues)" and "i \<in> set issues"
  shows "issue_number i \<in> held_by_a_stage issues \<longleftrightarrow> (\<exists>j. waits_for issues i j)"
  using assms by (auto simp: held_by_a_stage_iff dest: inj_onD)

text \<open>The unfinished steps of a plan with the lowest stage wait for nothing.\<close>

lemma lowest_stage_waits_for_nothing:
  assumes "i \<in> set issues" and "parent_issue_id i = Some p" and "\<not> is_finished i"
  shows "\<exists>k \<in> set issues. parent_issue_id k = Some p \<and> \<not> is_finished k \<and>
     (\<forall>j. \<not> waits_for issues k j)"
proof -
  let ?open = "{k \<in> set issues. parent_issue_id k = Some p \<and> \<not> is_finished k}"
  have fin: "finite (stage ` ?open)" and ne: "stage ` ?open \<noteq> {}" using assms by auto
  then obtain k where k: "k \<in> ?open" "stage k = Min (stage ` ?open)"
    using Min_in by (metis (no_types, lifting) imageE)
  moreover have "\<not> waits_for issues k j" for j
  proof
    assume "waits_for issues k j"
    then have "j \<in> ?open" and "stage j < stage k" using k by (auto simp: waits_for_def)
    with Min_le [OF fin imageI] k(2) show False by fastforce
  qed
  ultimately show ?thesis by blast
qed

section \<open>The slate\<close>

text \<open>Specification: the cards the board may start on its own.\<close>

definition startable :: "issue_row list \<Rightarrow> int set \<Rightarrow> issue_row \<Rightarrow> bool" where
  "startable issues busy i \<longleftrightarrow>
     i \<in> set issues \<and> status i = Todo \<and> cancelled_at i = None \<and> blocked_reason i = None \<and>
     assignee i \<noteq> None \<and> issue_number i \<notin> busy \<and> (\<nexists>j. waits_for issues i j)"

text \<open>Specification: the board after the promoted cards moved to In Progress.\<close>

definition after_promotion :: "issue_row list \<Rightarrow> issue_row list \<Rightarrow> issue_row list" where
  "after_promotion picked issues =
     map (\<lambda>i. if issue_number i \<in> issue_number ` set picked then i\<lparr>status := InProgress\<rparr> else i)
       issues"

lemma promotable_iff_startable:
  assumes "distinct (map issue_number issues)" and "i \<in> set issues"
  shows "is_promotable i busy (held_by_a_stage issues) \<longleftrightarrow> startable issues busy i"
  using assms
  by (auto simp: board_defs is_finished_def startable_def distinct_map held_by_a_stage_unique)

lemma slate_eq:
  assumes "distinct (map issue_number issues)"
  shows "slate issues busy slots = take slots (in_promotion_order issues (startable issues busy))"
proof -
  have "filter (\<lambda>i. is_promotable i busy (held_by_a_stage issues)) issues =
      filter (startable issues busy) issues"
    by (rule filter_cong) (simp_all add: promotable_iff_startable [OF assms])
  then show ?thesis by (simp add: slate_def in_promotion_order_def)
qed

lemma distinct_in_promotion_order: "distinct issues \<Longrightarrow> distinct (in_promotion_order issues keep)"
  by (metis distinct_filter in_promotion_order_def mset_eq_imp_distinct_iff mset_sort_by)

lemma strictly_sorted_in_promotion_order:
  assumes "distinct (map issue_number issues)"
  shows "sorted_wrt (\<lambda>a b. promotion_order a b = Less) (in_promotion_order issues keep)"
proof -
  let ?xs = "in_promotion_order issues keep"
  have d: "distinct ?xs"
    by (rule distinct_in_promotion_order) (use assms in \<open>simp add: distinct_map\<close>)
  have inj: "inj_on issue_number (set ?xs)"
    by (rule inj_on_subset [of _ "set issues"]) (use assms in \<open>auto simp: distinct_map\<close>)
  have "promotion_order (?xs ! i) (?xs ! j) = Less" if "i < j" "j < length ?xs" for i j
  proof -
    have "promotion_order (?xs ! i) (?xs ! j) \<noteq> Greater"
      by (rule sorted_wrt_nth_less [OF sorted_in_promotion_order that])
    moreover have "promotion_order (?xs ! i) (?xs ! j) \<noteq> Equal"
    proof
      assume "promotion_order (?xs ! i) (?xs ! j) = Equal"
      then have "issue_number (?xs ! i) = issue_number (?xs ! j)" by (rule promotion_order_Equal)
      then have "?xs ! i = ?xs ! j"
        by (rule inj_onD [OF inj]) (use that in \<open>simp_all del: set_in_promotion_order\<close>)
      with d that show False by (simp add: nth_eq_iff_index_eq)
    qed
    ultimately show ?thesis by (cases "promotion_order (?xs ! i) (?xs ! j)") auto
  qed
  then show ?thesis by (simp add: sorted_wrt_iff_nth_less)
qed

lemma sorted_wrt_take_drop:
  assumes "sorted_wrt P xs" and "x \<in> set (take n xs)" and "y \<in> set xs" and "y \<notin> set (take n xs)"
  shows "P x y"
proof -
  have "y \<in> set (drop n xs)"
    using assms(3,4) by (metis UnE append_take_drop_id set_append)
  with assms(1,2) show ?thesis
    by (metis append_take_drop_id sorted_wrt_append)
qed

lemma after_promotion_numbers [simp]:
  "map issue_number (after_promotion picked issues) = map issue_number issues"
  by (simp add: after_promotion_def)

lemma after_promotion_waits_for:
  assumes "waits_for issues i j" and "issue_number j \<in> issue_number ` set picked \<Longrightarrow> status j = Todo"
  shows "\<exists>j'. waits_for (after_promotion picked issues) i j'"
proof
  let ?j' = "if issue_number j \<in> issue_number ` set picked then j\<lparr>status := InProgress\<rparr> else j"
  show "waits_for (after_promotion picked issues) i ?j'"
    using assms by (auto simp: waits_for_def after_promotion_def is_finished_def)
qed

lemma startable_after_promotion:
  assumes "distinct (map issue_number issues)" and "set picked \<subseteq> {i. startable issues busy i}"
    and "startable (after_promotion picked issues) busy i"
  shows "startable issues busy i \<and> i \<notin> set picked"
proof -
  have i: "i \<in> set issues" "issue_number i \<notin> issue_number ` set picked"
    using assms(3) by (auto simp: startable_def after_promotion_def split: if_splits)
  have "\<not> waits_for issues i j" for j
  proof
    assume w: "waits_for issues i j"
    have "status j = Todo" if "issue_number j \<in> issue_number ` set picked"
    proof -
      from that obtain k where k: "issue_number j = issue_number k" "k \<in> set picked"
        by (rule imageE)
      then have "startable issues busy k" using assms(2) by auto
      moreover have "k = j"
        using assms(1) k w calculation
        by (intro inj_onD [of issue_number "set issues"])
          (auto simp: distinct_map startable_def waits_for_def)
      ultimately show ?thesis by (simp add: startable_def)
    qed
    from after_promotion_waits_for [OF w this] assms(3) show False
      by (auto simp: startable_def)
  qed
  with assms(3) i show ?thesis by (auto simp: startable_def)
qed

section \<open>Asking the lead\<close>

lemma lead_question_members:
  "i \<in> set (in_promotion_order issues (\<lambda>i. is_promotable i flying (held_by_a_stage issues))) \<longleftrightarrow>
     i \<in> set issues \<and> status i = Todo \<and> \<not> is_finished i \<and> blocked_reason i = None \<and>
     issue_number i \<notin> held_by_a_stage issues \<and> issue_number i \<notin> flying \<and> assignee i \<noteq> None"
  "i \<in> set (awaiting_triage issues flying) \<longleftrightarrow>
     i \<in> set issues \<and> status i = Todo \<and> \<not> is_finished i \<and> blocked_reason i = None \<and>
     issue_number i \<notin> held_by_a_stage issues \<and> issue_number i \<notin> flying \<and> assignee i = None"
  "i \<in> set (blocked issues flying lead) \<longleftrightarrow>
     i \<in> set issues \<and> \<not> is_finished i \<and> blocked_reason i \<noteq> None \<and>
     issue_number i \<notin> flying \<and> assignee i \<noteq> Some lead"
  "i \<in> set (awaiting_review issues flying lead) \<longleftrightarrow>
     i \<in> set issues \<and> status i = Review \<and> \<not> is_finished i \<and> blocked_reason i = None \<and>
     issue_number i \<notin> flying \<and> assignee i \<noteq> Some lead"
  "i \<in> set (stalled issues flying lead) \<longleftrightarrow>
     i \<in> set issues \<and> status i = InProgress \<and> \<not> is_finished i \<and> blocked_reason i = None \<and>
     issue_number i \<notin> flying \<and> assignee i \<noteq> Some lead"
  "i \<in> set (awaiting_grooming issues flying opened lead) \<longleftrightarrow>
     i \<in> set issues \<and> status i = Backlog \<and> \<not> is_finished i \<and> blocked_reason i = None \<and>
     issue_number i \<in> opened \<and> issue_number i \<notin> flying \<and> assignee i \<noteq> Some lead"
  by (auto simp: awaiting_triage_def blocked_def awaiting_review_def stalled_def
      awaiting_grooming_def is_promotable_def needs_staffing_def is_waiting_def
      takes_a_lead_question_def accepts_runs_def board_may_take_up_def board_may_start_def
      is_live_work_def)

text \<open>
  The life of a card's ledger while the card row itself stands unchanged: the board records
  question \<open>q\<close> only when \<open>already_asked\<close> declines, runs with other triggers are recorded at any
  time, and a recorded run may be rewritten (claimed, settled) but keeps its trigger and the time
  it was recorded.
\<close>

inductive asked_ledger :: "issue_row \<Rightarrow> run_trigger \<Rightarrow> issue_run_row list \<Rightarrow> bool"
  for issue :: issue_row and q :: run_trigger where
  edited: "\<forall>r \<in> set runs. run_created_at r < updated_at issue \<Longrightarrow> asked_ledger issue q runs"
| ask: "asked_ledger issue q runs \<Longrightarrow> \<not> already_asked issue runs q \<Longrightarrow> trigger r = q \<Longrightarrow>
    asked_ledger issue q (runs @ [r])"
| other: "asked_ledger issue q runs \<Longrightarrow> trigger r \<noteq> q \<Longrightarrow> asked_ledger issue q (runs @ [r])"
| rewritten: "asked_ledger issue q runs \<Longrightarrow> k < length runs \<Longrightarrow> trigger r = trigger (runs ! k) \<Longrightarrow>
    run_created_at r = run_created_at (runs ! k) \<Longrightarrow> asked_ledger issue q (runs[k := r])"

definition asks_since_edit :: "issue_row \<Rightarrow> run_trigger \<Rightarrow> issue_run_row list \<Rightarrow> nat" where
  "asks_since_edit issue q runs =
     length (filter (\<lambda>r. trigger r = q \<and> run_created_at r \<ge> updated_at issue) runs)"

lemma not_already_asked_count:
  "\<not> already_asked issue runs q \<Longrightarrow> asks_since_edit issue q runs < 2"
  by (simp add: already_asked_def Let_def asks_since_edit_def MAX_ASKS_PER_CARD_STATE_def
      conj_commute not_le)

lemma length_filter_update:
  "k < length xs \<Longrightarrow> P x = P (xs ! k) \<Longrightarrow> length (filter P (xs[k := x])) = length (filter P xs)"
  by (induction xs arbitrary: k) (auto split: nat.splits)

lemma delivered_ask_stands:
  assumes "trigger r = q" and "is_coordination q" and "last_activity issue runs \<le> run_created_at r"
    and "run_status r \<noteq> RunFailed \<or> was_claimed r"
  shows "already_asked issue (runs @ [r]) q"
proof -
  have "last_activity issue (runs @ [r]) = last_activity issue runs"
    using assms(1,2) by (simp add: last_activity_def)
  with assms show ?thesis by (auto simp: already_asked_def Let_def)
qed

section \<open>Properties\<close>

text \<open>C1: What the board starts in a tick. On a board whose cards have distinct numbers, the slate is
  a strictly ordered list of startable cards (in Todo, not cancelled, not blocked, staffed, without
  a run, and with no unfinished step of an earlier stage under the same parent); it is as long as
  the free slots and the startable cards allow; and every startable card left out comes after every
  card picked in the priority, position, number order.\<close>

theorem slate_best_startable:
  assumes "distinct (map issue_number issues)"
  shows "let picked = slate issues busy slots in
     sorted_wrt (\<lambda>a b. promotion_order a b = Less) picked \<and>
     (\<forall>i \<in> set picked. startable issues busy i) \<and>
     length picked = min slots (length (filter (startable issues busy) issues)) \<and>
     (\<forall>i j. i \<in> set picked \<and> startable issues busy j \<and> j \<notin> set picked \<longrightarrow>
        promotion_order i j = Less)"
proof -
  let ?all = "in_promotion_order issues (startable issues busy)"
  note sorted = strictly_sorted_in_promotion_order [OF assms, of "startable issues busy"]
  have "\<forall>i \<in> set (take slots ?all). startable issues busy i"
    using set_take_subset [of slots ?all] by auto
  moreover have "promotion_order i j = Less"
    if "i \<in> set (take slots ?all)" "startable issues busy j" "j \<notin> set (take slots ?all)" for i j
  proof -
    have "j \<in> set ?all" using that(2) by (simp add: startable_def)
    from sorted_wrt_take_drop [OF sorted that(1) this that(3)] show ?thesis .
  qed
  moreover have "length (take slots ?all) = min slots (length (filter (startable issues busy) issues))"
    by (simp add: in_promotion_order_def min.commute)
  ultimately show ?thesis
    unfolding Let_def slate_eq [OF assms] using sorted_wrt_take [OF sorted, of slots] by blast
qed

theorem slate_best_startable_witness:
  "let a = (example_issue 1 Todo)\<lparr>assignee := Some ''dev''\<rparr>;
       b = (example_issue 2 Todo)\<lparr>assignee := Some ''dev'', priority := Urgent\<rparr> in
   slate [a, b] {} 1 = [b] \<and> \<not> startable [a, b] {2} b \<and>
   sorted_wrt (\<lambda>a b. promotion_order a b = Less) (slate [a, b] {} 2)"
proof -
  let ?a = "(example_issue 1 Todo)\<lparr>assignee := Some ''dev''\<rparr>"
  let ?b = "(example_issue 2 Todo)\<lparr>assignee := Some ''dev'', priority := Urgent\<rparr>"
  have "distinct (map issue_number [?a, ?b])" by simp
  from slate_best_startable [OF this, where busy = "{}" and slots = 2]
  have "sorted_wrt (\<lambda>a b. promotion_order a b = Less) (slate [?a, ?b] {} 2)"
    by (simp only: Let_def)
  moreover have "slate [?a, ?b] {} 1 = [?b]" and "\<not> startable [?a, ?b] {2} ?b"
    by (simp_all add: board_defs is_finished_def held_by_a_stage_def promotion_order_alt cmp_of_def
        startable_def)
  ultimately show ?thesis by (simp only: Let_def simp_thms)
qed

text \<open>The slate is level-triggered: once the picked cards stand In Progress, a second tick over
  the same board with the slots that are left picks nothing.\<close>

lemma slate_level_triggered:
  assumes "distinct (map issue_number issues)"
  shows "slate (after_promotion (slate issues busy slots) issues) busy
           (slots - length (slate issues busy slots)) = []"
proof -
  let ?all = "in_promotion_order issues (startable issues busy)"
  let ?picked = "take slots ?all" and ?rest = "slots - length (take slots ?all)"
  let ?after = "after_promotion ?picked issues"
  have d: "distinct (map issue_number ?after)" using assms by simp
  have sub: "set ?picked \<subseteq> {i. startable issues busy i}"
    using set_take_subset [of slots ?all] by auto
  have "slate ?after busy ?rest = []"
  proof (cases "length ?all \<le> slots")
    case False
    then show ?thesis by (simp add: slate_def)
  next
    case True
    then have "set ?picked = {i. startable issues busy i}" by (auto simp: startable_def)
    then have "\<not> startable ?after busy i" for i
      using startable_after_promotion [OF assms sub, of i] by blast
    then have "set (in_promotion_order ?after (startable ?after busy)) = {}" by simp
    then have "in_promotion_order ?after (startable ?after busy) = []" by (simp only: set_empty)
    then show ?thesis unfolding slate_eq [OF d] by simp
  qed
  then show ?thesis by (simp add: slate_eq [OF assms])
qed

lemma slate_level_triggered_witness:
  "let a = (example_issue 1 Todo)\<lparr>assignee := Some ''dev''\<rparr>; b = example_issue 2 Todo in
   slate (after_promotion (slate [a, b] {} 3) [a, b]) {} (3 - length (slate [a, b] {} 3)) = []"
  using slate_level_triggered [where busy = "{}" and slots = 3 and
      issues = "[(example_issue 1 Todo)\<lparr>assignee := Some ''dev''\<rparr>, example_issue 2 Todo]"]
  by (simp add: Let_def)

text \<open>The slate and every lead question depend on which cards the store returned, never on the
  order it returned them in.\<close>

lemma board_rules_ignore_store_order:
  assumes "mset issues = mset issues'" and "distinct (map issue_number issues)"
  shows "slate issues busy slots = slate issues' busy slots \<and>
     awaiting_triage issues busy = awaiting_triage issues' busy \<and>
     blocked issues busy lead = blocked issues' busy lead \<and>
     awaiting_review issues busy lead = awaiting_review issues' busy lead \<and>
     stalled issues busy lead = stalled issues' busy lead \<and>
     awaiting_grooming issues busy opened lead = awaiting_grooming issues' busy opened lead"
proof -
  have "set issues = set issues'" using assms(1) by (metis set_mset_mset)
  then have held: "held_by_a_stage issues = held_by_a_stage issues'" by (rule held_by_a_stage_set)
  have inj: "inj_on issue_number (set issues)" using assms(2) by (simp add: distinct_map)
  have eq: "in_promotion_order issues keep = in_promotion_order issues' keep" for keep
    by (rule in_promotion_order_perm [OF assms(1) inj refl])
  show ?thesis
    by (simp add: slate_def awaiting_triage_def blocked_def awaiting_review_def stalled_def
        awaiting_grooming_def eq held)
qed

lemma board_rules_ignore_store_order_witness:
  "let a = (example_issue 1 Todo)\<lparr>assignee := Some ''dev''\<rparr>;
       b = (example_issue 2 Todo)\<lparr>assignee := Some ''dev''\<rparr> in
   slate [a, b] {} 1 = slate [b, a] {} 1"
  using board_rules_ignore_store_order [where busy = "{}" and slots = 1 and
      issues = "[(example_issue 1 Todo)\<lparr>assignee := Some ''dev''\<rparr>,
        (example_issue 2 Todo)\<lparr>assignee := Some ''dev''\<rparr>]" and
      issues' = "[(example_issue 2 Todo)\<lparr>assignee := Some ''dev''\<rparr>,
        (example_issue 1 Todo)\<lparr>assignee := Some ''dev''\<rparr>]"]
  by (simp add: Let_def add_mset_commute)

text \<open>C38: The stage gate holds a card exactly when its plan has an unfinished step of an earlier
  stage, and it cannot deadlock a plan: a plan with an unfinished step always has an unfinished
  step the gate does not hold.\<close>

theorem stage_gate_exact_and_live:
  assumes "distinct (map issue_number issues)" and "i \<in> set issues" and "parent_issue_id i = Some p"
  shows "(issue_number i \<in> held_by_a_stage issues \<longleftrightarrow>
            (\<exists>j \<in> set issues. parent_issue_id j = Some p \<and> stage j < stage i \<and> \<not> is_finished j)) \<and>
         (is_finished i \<or>
            (\<exists>k \<in> set issues. parent_issue_id k = Some p \<and> \<not> is_finished k \<and>
               issue_number k \<notin> held_by_a_stage issues))"
proof -
  have inj: "inj_on issue_number (set issues)" using assms(1) by (simp add: distinct_map)
  note held = held_by_a_stage_unique [OF inj]
  have "\<exists>k \<in> set issues. parent_issue_id k = Some p \<and> \<not> is_finished k \<and>
      issue_number k \<notin> held_by_a_stage issues" if "\<not> is_finished i"
    using lowest_stage_waits_for_nothing [OF assms(2,3) that] held by blast
  then show ?thesis
    using held [OF assms(2)] assms(2,3) by (auto simp: waits_for_def)
qed

theorem stage_gate_exact_and_live_witness:
  "let a = (example_issue 1 Todo)\<lparr>parent_issue_id := Some ''p'', stage := 1\<rparr>;
       b = (example_issue 2 Todo)\<lparr>parent_issue_id := Some ''p'', stage := 2\<rparr> in
   2 \<in> held_by_a_stage [a, b]"
proof -
  let ?a = "(example_issue 1 Todo)\<lparr>parent_issue_id := Some ''p'', stage := 1\<rparr>"
  let ?b = "(example_issue 2 Todo)\<lparr>parent_issue_id := Some ''p'', stage := 2\<rparr>"
  have "issue_number ?b \<in> held_by_a_stage [?a, ?b]"
    by (subst conjunct1 [OF stage_gate_exact_and_live [where p = "''p''"]])
      (simp_all add: is_finished_def)
  then show ?thesis by (simp add: Let_def)
qed

text \<open>The per-card rules split the board: no card is in two of the slate and the five lead
  questions at once, and with room for every card, a live card that nothing is running on and that
  is not the lead's own is in exactly one of them, unless it is unblocked and either held by its
  stage in Todo or parked in Backlog by a person.\<close>

lemma board_rules_partition:
  "let raised = filter (\<lambda>cards. i \<in> set cards)
         [slate issues flying slots, awaiting_triage issues flying, blocked issues flying lead,
          awaiting_review issues flying lead, stalled issues flying lead,
          awaiting_grooming issues flying opened lead] in
     length raised \<le> 1 \<and>
     (i \<in> set issues \<and> \<not> is_finished i \<and> issue_number i \<notin> flying \<and> assignee i \<noteq> Some lead \<and>
      length issues \<le> slots \<longrightarrow>
        length raised =
          (if blocked_reason i = None \<and>
              (status i = Todo \<and> issue_number i \<in> held_by_a_stage issues \<or>
               status i = Backlog \<and> issue_number i \<notin> opened)
           then 0 else 1))"
proof -
  let ?ready = "in_promotion_order issues (\<lambda>i. is_promotable i flying (held_by_a_stage issues))"
  have sub: "i \<in> set ?ready" if "i \<in> set (slate issues flying slots)"
    using that set_take_subset [of slots ?ready] by (auto simp: slate_def split: if_splits)
  have all: "set (slate issues flying slots) = set ?ready" if "length issues \<le> slots"
  proof -
    have "length ?ready \<le> slots"
      by (simp add: in_promotion_order_def) (rule le_trans [OF length_filter_le that])
    then show ?thesis by (cases "slots = 0") (simp_all add: slate_def)
  qed
  show ?thesis
  proof (cases "i \<in> set issues \<and> \<not> is_finished i")
    case False
    then show ?thesis using sub by (auto simp: lead_question_members)
  next
    case True
    then have "status i \<noteq> Done" by (simp add: is_finished_def)
    with True show ?thesis
      using sub [unfolded lead_question_members] all [THEN eqset_imp_iff, of i, unfolded lead_question_members]
      by (cases "status i"; cases "blocked_reason i"; cases "assignee i";
          cases "i \<in> set (slate issues flying slots)"; simp add: Let_def lead_question_members)
        blast
  qed
qed

lemma board_rules_partition_witness:
  "let a = example_issue 1 Review in
   length (filter (\<lambda>cards. a \<in> set cards)
      [slate [a] {} 1, awaiting_triage [a] {}, blocked [a] {} ''lead'',
       awaiting_review [a] {} ''lead'', stalled [a] {} ''lead'', awaiting_grooming [a] {} {} ''lead'']) = 1"
  using board_rules_partition [where i = "example_issue 1 Review" and issues = "[example_issue 1 Review]"
      and flying = "{}" and slots = 1 and lead = "''lead''" and opened = "{}"]
  by (simp add: Let_def is_finished_def del: filter.simps)

text \<open>The card the question about the whole board is filed against is the first, in the order
  columns are read, of the cards the board could act on: it is live, not blocked, has no run in
  flight and is not one a person parked in Backlog; there is none exactly when no card qualifies.\<close>

lemma drain_anchor_first_actionable:
  "let actionable = {i \<in> set issues. \<not> is_finished i \<and> blocked_reason i = None \<and>
         issue_number i \<notin> flying \<and> (status i = Backlog \<and> issue_number i \<in> opened \<or>
         status i \<in> {Todo, InProgress, Review})} in
     (case drain_anchor issues flying opened of
        None \<Rightarrow> actionable = {}
      | Some i \<Rightarrow> i \<in> actionable \<and> actionable \<subseteq> {j. promotion_order i j \<noteq> Greater})"
proof -
  let ?keep = "\<lambda>i. board_may_take_up i opened \<and> board_may_start i \<and> issue_number i \<notin> flying"
  let ?actionable = "{i \<in> set issues. \<not> is_finished i \<and> blocked_reason i = None \<and>
         issue_number i \<notin> flying \<and> (status i = Backlog \<and> issue_number i \<in> opened \<or>
         status i \<in> {Todo, InProgress, Review})}"
  have keep: "?keep i \<longleftrightarrow> \<not> is_finished i \<and> blocked_reason i = None \<and> issue_number i \<notin> flying \<and>
      (status i = Backlog \<and> issue_number i \<in> opened \<or> status i \<in> {Todo, InProgress, Review})" for i
    by (cases "status i") (auto simp: board_defs is_finished_def)
  then have set: "set (filter ?keep issues) = ?actionable" by auto
  show ?thesis
  proof (cases "drain_anchor issues flying opened")
    case None
    then have "filter ?keep issues = []" unfolding drain_anchor_def by simp
    with set None show ?thesis by (simp only: Let_def option.case list.set)
  next
    case (Some a)
    then have m: "min_by promotion_order (filter ?keep issues) = Some a"
      by (simp add: drain_anchor_def)
    have "a \<in> ?actionable" using min_by_in_set [OF m] by (simp only: set)
    moreover have "?actionable \<subseteq> {j. promotion_order a j \<noteq> Greater}"
      using promotion.min_by_least [OF m] by (simp only: set subset_iff mem_Collect_eq) simp
    ultimately show ?thesis using Some by (simp only: Let_def option.case simp_thms)
  qed
qed

text \<open>C20: One question costs at most two runs per card state: in every ledger the board can build
  while the card row stands unchanged, whatever other runs are recorded, claimed or settled in
  between, at most two runs put the same question since the card was last edited.\<close>

theorem at_most_two_asks_per_card_state:
  assumes "asked_ledger issue q runs"
  shows "asks_since_edit issue q runs \<le> 2"
  using assms
proof induction
  case (edited runs)
  then show ?case by (auto simp: asks_since_edit_def filter_empty_conv not_le)
next
  case (ask runs r)
  then show ?case using not_already_asked_count [of issue runs q] by (simp add: asks_since_edit_def)
next
  case (other runs r)
  then show ?case by (simp add: asks_since_edit_def)
next
  case (rewritten runs k r)
  then show ?case by (simp add: asks_since_edit_def length_filter_update)
qed

theorem at_most_two_asks_per_card_state_witness:
  "asks_since_edit (example_issue 1 Review) TrigReview
     [example_run ''a'' TrigReview RunFailed 1, example_run ''b'' TrigReview RunQueued 2] = 2 \<and>
   asks_since_edit (example_issue 1 Review) TrigReview
     [example_run ''a'' TrigReview RunFailed 1, example_run ''b'' TrigReview RunQueued 2] \<le> 2"
proof -
  let ?i = "example_issue 1 Review" and ?a = "example_run ''a'' TrigReview RunFailed 1"
  let ?b = "example_run ''b'' TrigReview RunQueued 2"
  have "asked_ledger ?i TrigReview []" by (rule asked_ledger.edited) simp
  then have "asked_ledger ?i TrigReview ([] @ [?a])"
    by (rule asked_ledger.ask)
      (simp_all add: already_asked_def last_activity_def MAX_ASKS_PER_CARD_STATE_def)
  then have "asked_ledger ?i TrigReview (([] @ [?a]) @ [?b])"
    by (rule asked_ledger.ask)
      (simp_all add: already_asked_def last_activity_def MAX_ASKS_PER_CARD_STATE_def
        was_claimed_def is_coordination_def map_filter_simps)
  from at_most_two_asks_per_card_state [OF this] show ?thesis
    by (simp add: asks_since_edit_def)
qed

end
