(* ===== verification/BoardTalk.thy ===== *)
theory BoardTalk
  imports BoardDriver
begin

text \<open>
  What is said on a card: where a comment goes (\<open>crates/project/src/comments.rs\<close>), whom it
  addresses (\<open>mentions.rs\<close>) and what an edit writes on the timeline (\<open>timeline.rs\<close>). The
  driver reads the timeline back to decide whose stop stands; the last part shows that what it
  reads is the state of the card.
\<close>

section \<open>Comments\<close>

datatype comment_delivery =
  RecordOnly | ParkedByABlock | Wake | WaitsForQueuedRun | AfterCurrentRun

definition comment_delivery_of :: "issue_row \<Rightarrow> run_status option \<Rightarrow> comment_delivery" where
  "comment_delivery_of issue live_run =
     (if assignee issue = None \<or> \<not> accepts_runs issue \<or> \<not> is_live_work (status issue)
      then RecordOnly
      else if \<not> board_may_start issue then ParkedByABlock
      else case live_run of
             Some RunHeld \<Rightarrow> WaitsForQueuedRun
           | Some RunQueued \<Rightarrow> WaitsForQueuedRun
           | Some RunRunning \<Rightarrow> AfterCurrentRun
           | _ \<Rightarrow> Wake)"

definition is_comment_entry :: "issue_event_body \<Rightarrow> bool" where
  "is_comment_entry b = (case b of EvComment _ _ \<Rightarrow> True | _ \<Rightarrow> False)"

definition somebody_asked_for_more :: "issue_event_row list \<Rightarrow> issue_actor \<Rightarrow> bool" where
  "somebody_asked_for_more window next_runner =
     list_ex (\<lambda>e. is_comment_entry (body e) \<and> actor e \<noteq> next_runner) window"

section \<open>Mentions\<close>

text \<open>What may stand before an \<open>@\<close> that addresses somebody: nothing, white space, \<open>(\<close> or \<open>@\<close>.\<close>

definition preceded_ok :: "char option \<Rightarrow> bool" where
  "preceded_ok prev =
     (case prev of
        None \<Rightarrow> True
      | Some b \<Rightarrow> is_ascii_whitespace b \<or> b = CHR ''('' \<or> b = CHR ''@'')"

definition trim_end_dashes :: "string \<Rightarrow> string" where
  "trim_end_dashes s = rev (dropWhile (\<lambda>c. c = CHR ''-'') (rev s))"

definition mention_candidate :: "string \<Rightarrow> string" where
  "mention_candidate rest = trim_end_dashes (takeWhile is_handle_char rest)"

text \<open>The loop over \<open>match_indices\<close>: \<open>prev\<close> is the byte before the suffix still to be scanned.\<close>

fun mentions_loop :: "char option \<Rightarrow> string \<Rightarrow> agent_handle list \<Rightarrow> agent_handle list" where
  "mentions_loop prev [] found = found"
| "mentions_loop prev (c # rest) found =
     mentions_loop (Some c) rest
       (if c = CHR ''@'' \<and> preceded_ok prev
        then case agent_handle_parse (mention_candidate rest) of
               Inl _ \<Rightarrow> found
             | Inr handle \<Rightarrow> if handle \<in> set found then found else found @ [handle]
        else found)"

definition mentions :: "string \<Rightarrow> agent_handle list" where
  "mentions text = mentions_loop None text []"

definition assigns_to :: "bool \<Rightarrow> string \<Rightarrow> agent_handle option" where
  "assigns_to assignee_is_set text =
     (if assignee_is_set then None
      else case mentions text of [] \<Rightarrow> None | handle # _ \<Rightarrow> Some handle)"

section \<open>The timeline\<close>

definition diff_events :: "issue_row \<Rightarrow> issue_row \<Rightarrow> issue_event_body list" where
  "diff_events before after =
     (if title before \<noteq> title after then [EvTitleChanged (title before) (title after)] else []) @
     (if description before \<noteq> description after then [EvDescriptionChanged] else []) @
     (if status before \<noteq> status after then [EvMoved (status before) (status after)] else []) @
     (if assignee before \<noteq> assignee after then [EvAssigned (assignee before) (assignee after)] else []) @
     (case (blocked_reason before, blocked_reason after) of
        (_, Some reason) \<Rightarrow> if blocked_reason before \<noteq> Some reason then [EvBlocked reason] else []
      | (Some _, None) \<Rightarrow> [EvUnblocked]
      | (None, None) \<Rightarrow> []) @
     (case (cancelled_at before, cancelled_at after) of
        (None, Some _) \<Rightarrow> [EvCancelled]
      | (Some _, None) \<Rightarrow> [EvUncancelled]
      | _ \<Rightarrow> [])"

definition left_a_mark :: "issue_event_body \<Rightarrow> bool" where
  "left_a_mark b =
     (case b of
        EvComment _ _ \<Rightarrow> True
      | EvTitleChanged _ _ \<Rightarrow> True
      | EvDescriptionChanged \<Rightarrow> True
      | EvMoved _ _ \<Rightarrow> True
      | EvAssigned _ _ \<Rightarrow> True
      | EvBlocked _ \<Rightarrow> True
      | EvUnblocked \<Rightarrow> True
      | EvCancelled \<Rightarrow> True
      | EvUncancelled \<Rightarrow> True
      | EvFiled _ \<Rightarrow> True
      | EvBranchMerged _ _ _ _ \<Rightarrow> True
      | _ \<Rightarrow> False)"

section \<open>What the timeline promises\<close>

text \<open>Specification: the part of a card its timeline spells out, and how an entry changes it.\<close>

record card_view =
  view_title :: string
  view_status :: issue_status
  view_assignee :: "agent_profile_id option"
  view_block :: "string option"
  view_cancelled :: bool

definition view_of :: "issue_row \<Rightarrow> card_view" where
  "view_of c =
     \<lparr>view_title = title c, view_status = status c, view_assignee = assignee c,
      view_block = blocked_reason c, view_cancelled = (cancelled_at c \<noteq> None)\<rparr>"

definition replay_entry :: "card_view \<Rightarrow> issue_event_body \<Rightarrow> card_view" where
  "replay_entry v b =
     (case b of
        EvTitleChanged _ t \<Rightarrow> v\<lparr>view_title := t\<rparr>
      | EvMoved _ s \<Rightarrow> v\<lparr>view_status := s\<rparr>
      | EvAssigned _ a \<Rightarrow> v\<lparr>view_assignee := a\<rparr>
      | EvBlocked r \<Rightarrow> v\<lparr>view_block := Some r\<rparr>
      | EvUnblocked \<Rightarrow> v\<lparr>view_block := None\<rparr>
      | EvCancelled \<Rightarrow> v\<lparr>view_cancelled := True\<rparr>
      | EvUncancelled \<Rightarrow> v\<lparr>view_cancelled := False\<rparr>
      | _ \<Rightarrow> v)"

text \<open>
  The history of one card: it is filed unblocked and not cancelled; an edit by \<open>a\<close> appends the
  entries of \<open>diff_events\<close> under that actor; anything that is not about a block or a cancel may be
  appended in between.
\<close>

inductive card_history :: "issue_row \<Rightarrow> issue_event_row list \<Rightarrow> bool" where
  filed: "blocked_reason c = None \<Longrightarrow> cancelled_at c = None \<Longrightarrow> card_history c []"
| edit: "card_history before evs \<Longrightarrow> map body es = diff_events before after \<Longrightarrow>
    \<forall>e \<in> set es. actor e = a \<Longrightarrow> card_history after (evs @ es)"
| note_entry: "card_history c evs \<Longrightarrow> \<not> is_blocked_entry (body e) \<Longrightarrow>
    body e \<notin> {EvUnblocked, EvCancelled, EvUncancelled} \<Longrightarrow> card_history c (evs @ [e])"

lemmas entry_defs = is_blocked_entry_def is_comment_entry_def replay_entry_def

lemma replay_diff_events: "foldl replay_entry (view_of before) (diff_events before after) = view_of after"
  by (auto simp: diff_events_def view_of_def replay_entry_def split: option.splits)

lemma diff_events_block_entries:
  "filter (\<lambda>b. is_blocked_entry b \<or> b = EvUnblocked) (diff_events before after) =
     (case blocked_reason after of
        None \<Rightarrow> if blocked_reason before = None then [] else [EvUnblocked]
      | Some r \<Rightarrow> if blocked_reason before = Some r then [] else [EvBlocked r])"
  by (auto simp: diff_events_def is_blocked_entry_def split: option.splits)

lemma diff_events_cancel_entries:
  "filter (\<lambda>b. b = EvCancelled \<or> b = EvUncancelled) (diff_events before after) =
     (if (cancelled_at before = None) = (cancelled_at after = None) then []
      else if cancelled_at after = None then [EvUncancelled] else [EvCancelled])"
  by (auto simp: diff_events_def split: option.splits)

lemma rfind_filter: "rfind P xs = (case rev (filter P xs) of [] \<Rightarrow> None | x # _ \<Rightarrow> Some x)"
  by (induction xs rule: rev_induct) auto

lemma rfind_map_body:
  "map_option body (rfind (\<lambda>e. P (body e)) es) = rfind P (map body es)"
  by (induction es rule: rev_induct) auto

lemma rfind_weaken:
  "rfind (\<lambda>x. P x \<or> Q x) xs = Some x \<Longrightarrow> P x \<Longrightarrow> rfind P xs = Some x"
  by (induction xs rule: rev_induct) (auto split: if_splits)

lemma rfind_cong_set: "(\<And>x. x \<in> set xs \<Longrightarrow> P x = Q x) \<Longrightarrow> rfind P xs = rfind Q xs"
  by (induction xs rule: rev_induct) auto

abbreviation block_entry :: "issue_event_body \<Rightarrow> bool" where
  "block_entry b \<equiv> is_blocked_entry b \<or> b = EvUnblocked"

abbreviation cancel_entry :: "issue_event_body \<Rightarrow> bool" where
  "cancel_entry b \<equiv> b = EvCancelled \<or> b = EvUncancelled"

lemma card_history_block:
  assumes "card_history c evs"
  shows "case blocked_reason c of
      None \<Rightarrow> rfind block_entry (map body evs) = None \<or>
              rfind block_entry (map body evs) = Some EvUnblocked
    | Some r \<Rightarrow> rfind block_entry (map body evs) = Some (EvBlocked r)"
  using assms
proof induction
  case (edit before evs es after a)
  have "rfind block_entry (map body es) = (case blocked_reason after of
      None \<Rightarrow> if blocked_reason before = None then None else Some EvUnblocked
    | Some r \<Rightarrow> if blocked_reason before = Some r then None else Some (EvBlocked r))"
    unfolding edit.hyps(2) rfind_filter diff_events_block_entries by (simp split: option.split)
  with edit.IH show ?case by (auto simp: rfind_append split: option.splits)
qed (auto split: option.splits)

lemma card_history_cancel:
  assumes "card_history c evs"
  shows "if cancelled_at c = None
    then rfind cancel_entry (map body evs) = None \<or> rfind cancel_entry (map body evs) = Some EvUncancelled
    else rfind cancel_entry (map body evs) = Some EvCancelled"
  using assms
proof induction
  case (edit before evs es after a)
  have "rfind cancel_entry (map body es) =
      (if (cancelled_at before = None) = (cancelled_at after = None) then None
       else if cancelled_at after = None then Some EvUncancelled else Some EvCancelled)"
    unfolding edit.hyps(2) rfind_filter diff_events_cancel_entries by simp
  with edit.IH show ?case by (auto simp: rfind_append split: option.splits if_splits)
qed auto

lemma mentions_loop_set:
  "set (mentions_loop prev w found) = set found \<union>
     {h. \<exists>u v. w = u @ CHR ''@'' # v \<and> preceded_ok (if u = [] then prev else Some (last u)) \<and>
               agent_handle_parse (mention_candidate v) = Inr h}"
proof (induction prev w found rule: mentions_loop.induct)
  case (1 prev found)
  then show ?case by simp
next
  case (2 prev c rest found)
  let ?here = "{h. c = CHR ''@'' \<and> preceded_ok prev \<and> agent_handle_parse (mention_candidate rest) = Inr h}"
  let ?at = "\<lambda>w prev h. \<exists>u v. w = u @ CHR ''@'' # v \<and>
     preceded_ok (if u = [] then prev else Some (last u)) \<and> agent_handle_parse (mention_candidate v) = Inr h"
  have "{h. ?at (c # rest) prev h} = ?here \<union> {h. ?at rest (Some c) h}"
  proof (intro equalityI subsetI)
    fix h assume "h \<in> {h. ?at (c # rest) prev h}"
    then obtain u v where uv: "c # rest = u @ CHR ''@'' # v"
      "preceded_ok (if u = [] then prev else Some (last u))"
      "agent_handle_parse (mention_candidate v) = Inr h" by blast
    show "h \<in> ?here \<union> {h. ?at rest (Some c) h}"
    proof (cases u)
      case Nil
      with uv show ?thesis by simp
    next
      case (Cons x us)
      with uv have "rest = us @ CHR ''@'' # v" "preceded_ok (if us = [] then Some c else Some (last us))"
        by (auto split: if_splits)
      with uv(3) show ?thesis by blast
    qed
  next
    fix h assume "h \<in> ?here \<union> {h. ?at rest (Some c) h}"
    then consider "h \<in> ?here" | u v where "rest = u @ CHR ''@'' # v"
      "preceded_ok (if u = [] then Some c else Some (last u))"
      "agent_handle_parse (mention_candidate v) = Inr h" by blast
    then show "h \<in> {h. ?at (c # rest) prev h}"
    proof cases
      case 1
      then have "c # rest = [] @ CHR ''@'' # rest" by simp
      with 1 show ?thesis by fastforce
    next
      case (2 u v)
      then have "c # rest = (c # u) @ CHR ''@'' # v" and
        "preceded_ok (if c # u = [] then prev else Some (last (c # u)))" by (auto split: if_splits)
      with 2(3) show ?thesis by blast
    qed
  qed
  with 2 show ?case by (auto split: sum.splits)
qed

lemma mentions_loop_distinct: "distinct found \<Longrightarrow> distinct (mentions_loop prev w found)"
  by (induction prev w found rule: mentions_loop.induct) (auto split: sum.splits)

lemma mention_candidate_handle:
  assumes "agent_handle_parse h = Inr h" and "v = [] \<or> \<not> is_handle_char (hd v)"
  shows "mention_candidate (h @ v) = h"
proof -
  note h = agent_handle_parse_Inr [OF assms(1)]
  have "takeWhile is_handle_char (h @ v) = h"
    using h assms(2) by (cases v) (auto simp: takeWhile_append list_all_iff)
  moreover have "trim_end_dashes h = h"
    using h by (cases h rule: rev_cases) (auto simp: trim_end_dashes_def)
  ultimately show ?thesis by (simp add: mention_candidate_def)
qed

section \<open>Properties\<close>

text \<open>A comment starts a run exactly when the card is live, staffed and unblocked and no recorded
  run is still open on it, so it can never put a second run on a card; when a run is open the
  comment waits for that run (still to be briefed, or executing); it is held back by the block
  exactly on a live staffed card that is blocked, and goes nowhere else only when nobody is on the
  card or the card is not live.\<close>

lemma comment_delivery_exact:
  "let live = (assignee c \<noteq> None \<and> cancelled_at c = None \<and> status c \<in> {Todo, InProgress, Review}) in
   (comment_delivery_of c r = RecordOnly \<longleftrightarrow> \<not> live) \<and>
   (comment_delivery_of c r = ParkedByABlock \<longleftrightarrow> live \<and> blocked_reason c \<noteq> None) \<and>
   (comment_delivery_of c r = Wake \<longleftrightarrow>
      live \<and> blocked_reason c = None \<and> (case r of None \<Rightarrow> True | Some s \<Rightarrow> is_settled s)) \<and>
   (comment_delivery_of c r = AfterCurrentRun \<longleftrightarrow>
      live \<and> blocked_reason c = None \<and> r = Some RunRunning)"
proof -
  have "live_work = (assignee c \<noteq> None \<and> accepts_runs c \<and> is_live_work (status c))"
    if "live_work = (assignee c \<noteq> None \<and> cancelled_at c = None \<and> status c \<in> {Todo, InProgress, Review})"
    for live_work
    using that by (cases "status c") (simp_all add: board_defs is_finished_def)
  from this [OF refl] show ?thesis
    unfolding Let_def
    by (cases r) (auto simp: comment_delivery_of_def board_may_start_def is_settled_def
        split: run_status.splits)
qed

text \<open>The handles a comment addresses, without repetition, are exactly the well-formed handles
  written right after an \<open>@\<close> that opens the text or follows white space, an opening parenthesis or
  another \<open>@\<close>; the handle is the longest run of handle characters there, less trailing dashes.\<close>

lemma mentions_exact:
  "distinct (mentions w) \<and>
   set (mentions w) =
     {h. \<exists>u v. w = u @ CHR ''@'' # v \<and> (u = [] \<or> preceded_ok (Some (last u))) \<and>
               h = trim_end_dashes (takeWhile is_handle_char v) \<and> agent_handle_parse h = Inr h}"
proof -
  have start: "preceded_ok (if u = [] then None else Some (last u)) \<longleftrightarrow>
      u = [] \<or> preceded_ok (Some (last u))" for u by (simp add: preceded_ok_def)
  have parse: "agent_handle_parse x = Inr h \<longleftrightarrow> h = x \<and> agent_handle_parse h = Inr h" for x h
    using agent_handle_parse_Inr by blast
  show ?thesis
    unfolding mentions_def mentions_loop_set start mention_candidate_def
    by (subst parse) (simp add: mentions_loop_distinct)
qed

text \<open>Writing \<open>@\<close> and a well-formed handle, where an address may start and before anything that
  cannot continue a handle, addresses that handle; and a comment that opens with it assigns the card
  to that handle when nobody is on the card, and changes nothing when somebody is.\<close>

lemma mention_reaches_the_handle:
  assumes "agent_handle_parse h = Inr h" and "u = [] \<or> preceded_ok (Some (last u))"
    and "v = [] \<or> \<not> is_handle_char (hd v)"
  shows "h \<in> set (mentions (u @ CHR ''@'' # h @ v)) \<and> assigns_to False (CHR ''@'' # h @ v) = Some h \<and>
     assigns_to True (CHR ''@'' # h @ v) = None"
proof -
  note candidate = mention_candidate_handle [OF assms(1,3)]
  have start: "preceded_ok (if u = [] then None else Some (last u))"
    using assms(2) by (auto simp: preceded_ok_def)
  have "h \<in> set (mentions (u @ CHR ''@'' # h @ v))"
    unfolding mentions_def mentions_loop_set
    by (rule UnI2, rule CollectI, rule exI [of _ u], rule exI [of _ "h @ v"])
      (simp add: start candidate assms(1))
  moreover have "\<exists>hs. mentions_loop p w (h # found) = h # hs" for p w found
    by (induction p w "h # found" arbitrary: found rule: mentions_loop.induct)
      (auto split: sum.splits)
  then have "assigns_to False (CHR ''@'' # h @ v) = Some h"
    using candidate assms(1)
    by (simp add: assigns_to_def mentions_def preceded_ok_def split: list.splits) (metis list.sel(1) list.distinct(1))
  ultimately show ?thesis by (simp add: assigns_to_def)
qed

lemma mention_reaches_the_handle_witness:
  "''dev-1'' \<in> set (mentions ''see (@dev-1, please)'')"
  using mention_reaches_the_handle [where h = "''dev-1''" and u = "''see (''" and v = "'', please)''"]
  by (simp add: agent_handle_parse_def preceded_ok_def is_handle_char_def is_ascii_lowercase_def
      is_ascii_digit_def char_code_def MAX_AGENT_HANDLE_CHARS_def)

text \<open>The entries an edit writes are faithful: replayed on the card before the edit they give the
  title, column, assignee, block and cancellation of the card after it; an edit writes nothing
  exactly when none of those, nor the description, changed; and every entry counts as a mark left
  on the card.\<close>

lemma diff_events_faithful:
  "foldl replay_entry (view_of before) (diff_events before after) = view_of after \<and>
   (diff_events before after = [] \<longleftrightarrow>
      view_of before = view_of after \<and> description before = description after) \<and>
   list_all left_a_mark (diff_events before after)"
proof (intro conjI)
  show "diff_events before after = [] \<longleftrightarrow>
      view_of before = view_of after \<and> description before = description after"
    by (auto simp: diff_events_def view_of_def split: option.splits)
  show "list_all left_a_mark (diff_events before after)"
    by (auto simp: diff_events_def left_a_mark_def split: option.splits)
qed (rule replay_diff_events)

text \<open>The stops the driver reads off a card's timeline are the ones standing on the card: after
  any history of edits, a block stands exactly when the card is blocked and the newest block entry
  carries its reason; a person's stop is reported only of a cancelled card, and of a cancelled card
  exactly when the entry that cancelled it last was not an agent's.\<close>

lemma timeline_tracks_the_card:
  assumes "card_history c evs" and "\<forall>e \<in> set evs. event_created_at e \<le> now"
  shows "(block_standing_at evs now = None \<longleftrightarrow> blocked_reason c = None) \<and>
     (\<forall>r. blocked_reason c = Some r \<longrightarrow> map_option body (newest_block evs) = Some (EvBlocked r)) \<and>
     (cancel_is_a_persons_stop evs \<longleftrightarrow> cancelled_at c \<noteq> None \<and>
        (\<exists>e. rfind (\<lambda>e. body e = EvCancelled) evs = Some e \<and> \<not> is_agent_actor (actor e)))"
proof (intro conjI)
  let ?b = "rfind (\<lambda>e. block_entry (body e)) evs" and ?c = "rfind (\<lambda>e. cancel_entry (body e)) evs"
  have "rfind (\<lambda>e. event_created_at e \<le> now \<and> block_entry (body e)) evs = ?b"
    using assms(2) by (intro rfind_cong_set) simp
  then have standing: "block_standing_at evs now =
      (case ?b of None \<Rightarrow> None | Some e \<Rightarrow> if is_blocked_entry (body e) then Some (event_created_at e) else None)"
    by (simp add: block_standing_at_def)
  have b: "map_option body ?b = rfind block_entry (map body evs)"
    and c: "map_option body ?c = rfind cancel_entry (map body evs)" 
    by (rule rfind_map_body [of block_entry], rule rfind_map_body [of cancel_entry])
  note block = card_history_block [OF assms(1), folded b]
  show "block_standing_at evs now = None \<longleftrightarrow> blocked_reason c = None"
    using block by (auto simp: standing is_blocked_entry_def split: option.splits)
  show "\<forall>r. blocked_reason c = Some r \<longrightarrow> map_option body (newest_block evs) = Some (EvBlocked r)"
  proof (intro allI impI)
    fix r assume "blocked_reason c = Some r"
    then obtain e where e: "?b = Some e" "body e = EvBlocked r" using block by auto
    have "rfind (\<lambda>e. is_blocked_entry (body e)) evs = Some e"
      by (rule rfind_weaken [where Q = "\<lambda>e. body e = EvUnblocked"])
        (use e in \<open>simp_all add: is_blocked_entry_def\<close>)
    with e show "map_option body (newest_block evs) = Some (EvBlocked r)"
      by (simp add: newest_block_def)
  qed
  note cancel = card_history_cancel [OF assms(1), folded c]
  have weak: "rfind (\<lambda>e. body e = EvCancelled) evs = Some e" if "?c = Some e" "body e = EvCancelled" for e
    using rfind_weaken [where Q = "\<lambda>e. body e = EvUncancelled", OF that(1)] that(2) by simp
  show "cancel_is_a_persons_stop evs \<longleftrightarrow> cancelled_at c \<noteq> None \<and>
      (\<exists>e. rfind (\<lambda>e. body e = EvCancelled) evs = Some e \<and> \<not> is_agent_actor (actor e))"
    using cancel weak
    by (auto simp: cancel_is_a_persons_stop_def split: option.splits if_splits)
qed

lemma timeline_tracks_the_card_witness:
  "let evs = [example_event ActorUser (EvBlocked ''why'') 5] in
   block_standing_at evs 9 = Some 5 \<and> map_option body (newest_block evs) = Some (EvBlocked ''why'')"
proof -
  let ?c = "example_issue 1 Todo" and ?e = "example_event ActorUser (EvBlocked ''why'') 5"
  let ?d = "?c\<lparr>blocked_reason := Some ''why''\<rparr>"
  have "card_history ?c []" by (rule card_history.filed) simp_all
  then have "card_history ?d ([] @ [?e])"
    by (rule card_history.edit [where a = ActorUser]) (simp_all add: diff_events_def)
  from timeline_tracks_the_card [OF this, of 9] show ?thesis
    by (simp add: Let_def block_standing_at_def rfind_def is_blocked_entry_def)
qed

end
