(* ===== verification/TurnMachine.thy ===== *)
theory TurnMachine
  imports Prelude
begin

text \<open>
  \<open>crates/turn/src/lib.rs\<close>, \<open>kind.rs\<close> and \<open>cancel.rs\<close>: one turn of the assistant and its state
  machine. The payload types the machine only carries (\<open>ContentBlock\<close>, \<open>serde_json::Value\<close>) are
  the type parameters \<open>'c\<close> and \<open>'v\<close>. A method on \<open>&mut self\<close> returns its result and the turn as the
  method leaves it, also when the result is an error.
\<close>

type_synonym turn_id = string
type_synonym turn_session_id = string
type_synonym span_id = string

section \<open>Statuses\<close>

datatype cancel_reason =
    UserPreempt | SystemCrash | SubagentTimeout | ParentCancelled | ParentDeleted
  | OperatorCancel | BudgetExhausted | UserStopped

definition cancel_reason_as_snake_case :: "cancel_reason \<Rightarrow> string" where
  "cancel_reason_as_snake_case r =
     (case r of
        UserPreempt \<Rightarrow> ''user_preempt''
      | SystemCrash \<Rightarrow> ''system_crash''
      | SubagentTimeout \<Rightarrow> ''subagent_timeout''
      | ParentCancelled \<Rightarrow> ''parent_cancelled''
      | ParentDeleted \<Rightarrow> ''parent_deleted''
      | OperatorCancel \<Rightarrow> ''operator_cancel''
      | BudgetExhausted \<Rightarrow> ''budget_exhausted''
      | UserStopped \<Rightarrow> ''user_stopped'')"

datatype turn_status =
    TPending
  | TInProgress
  | TStuck string
  | TCancelled cancel_reason "span_id list"
  | TFailed string
  | TCompleted

datatype turn_status_kind = KPending | KInProgress | KStuck | KCancelled | KFailed | KCompleted

definition status_kind :: "turn_status \<Rightarrow> turn_status_kind" where
  "status_kind s =
     (case s of
        TPending \<Rightarrow> KPending
      | TInProgress \<Rightarrow> KInProgress
      | TStuck _ \<Rightarrow> KStuck
      | TCancelled _ _ \<Rightarrow> KCancelled
      | TFailed _ \<Rightarrow> KFailed
      | TCompleted \<Rightarrow> KCompleted)"

definition allowed_transitions :: "turn_status_kind \<Rightarrow> turn_status_kind list" where
  "allowed_transitions k =
     (case k of
        KPending \<Rightarrow> [KInProgress, KCancelled, KFailed]
      | KInProgress \<Rightarrow> [KCompleted, KStuck, KFailed, KCancelled]
      | KStuck \<Rightarrow> [KInProgress, KFailed, KCancelled]
      | _ \<Rightarrow> [])"

definition can_transition_to :: "turn_status_kind \<Rightarrow> turn_status_kind \<Rightarrow> bool" where
  "can_transition_to k target \<longleftrightarrow> target \<in> set (allowed_transitions k)"

definition kind_is_terminal :: "turn_status_kind \<Rightarrow> bool" where
  "kind_is_terminal k \<longleftrightarrow> k \<in> {KCompleted, KFailed, KCancelled}"

definition kind_needs_recovery :: "turn_status_kind \<Rightarrow> bool" where
  "kind_needs_recovery k \<longleftrightarrow> k \<in> {KPending, KInProgress, KStuck}"

definition kind_as_snake_case :: "turn_status_kind \<Rightarrow> string" where
  "kind_as_snake_case k =
     (case k of
        KPending \<Rightarrow> ''pending''
      | KInProgress \<Rightarrow> ''in_progress''
      | KStuck \<Rightarrow> ''stuck''
      | KCancelled \<Rightarrow> ''cancelled''
      | KFailed \<Rightarrow> ''failed''
      | KCompleted \<Rightarrow> ''completed'')"

section \<open>Inputs and outputs\<close>

datatype trigger_kind = OriginUser | OriginCron | OriginSpawned | OriginIssue

datatype turn_input_kind =
    IkUserChat | IkCron | IkCronNotification | IkCompact | IkSpawned | IkSubagentNotification
  | IkIssueRun

definition kind_is_chat_turn :: "turn_input_kind \<Rightarrow> bool" where
  "kind_is_chat_turn k \<longleftrightarrow> k \<notin> {IkCompact, IkCronNotification}"

datatype ('c, 'v) turn_input =
    InUserChat "'c list"
  | InCron 'v
  | InCronNotification "'c list"
  | InCompact
  | InSpawned "'c list"
  | InSubagentNotification "'c list"
  | InIssueRun string "'c list"

definition input_kind :: "('c, 'v) turn_input \<Rightarrow> turn_input_kind" where
  "input_kind i =
     (case i of
        InUserChat _ \<Rightarrow> IkUserChat
      | InCron _ \<Rightarrow> IkCron
      | InCronNotification _ \<Rightarrow> IkCronNotification
      | InCompact \<Rightarrow> IkCompact
      | InSpawned _ \<Rightarrow> IkSpawned
      | InSubagentNotification _ \<Rightarrow> IkSubagentNotification
      | InIssueRun _ _ \<Rightarrow> IkIssueRun)"

datatype ('c, 'v) turn_output = OutMessage "'c list" "int option" | OutStructured 'v

section \<open>The turn\<close>

record ('c, 'v) turn =
  turn_id :: turn_id
  turn_session :: turn_session_id
  parent_turn_id :: "turn_id option"
  origin :: trigger_kind
  turn_input :: "('c, 'v) turn_input"
  turn_status :: turn_status
  final_result :: "('c, 'v) turn_output option"
  emitted_span_ids :: "span_id list"
  turn_created_at :: instant
  turn_started_at :: "instant option"
  turn_ended_at :: "instant option"

record turn_transition =
  tr_turn_id :: turn_id
  tr_from :: turn_status
  tr_to :: turn_status
  tr_reason :: "string option"
  tr_timestamp :: instant

text \<open>\<open>TurnError\<close>; the three \<open>InvalidTransition\<close> messages are told apart by their arguments.\<close>

datatype turn_error =
    NotFound turn_id
  | IllegalEdge turn_status_kind turn_status_kind turn_id
  | ResultOnlyOnCompleted turn_status_kind turn_status_kind turn_id
  | RecoverRequiresStuck turn_status_kind turn_id
  | StorageFailed

definition turn_new ::
    "turn_id \<Rightarrow> instant \<Rightarrow> turn_session_id \<Rightarrow> trigger_kind \<Rightarrow> ('c, 'v) turn_input \<Rightarrow> turn_id option \<Rightarrow>
     ('c, 'v) turn" where
  "turn_new fresh now session org inp parent =
     \<lparr>turn_id = fresh, turn_session = session, parent_turn_id = parent, origin = org,
      turn_input = inp, turn_status = TPending, final_result = None, emitted_span_ids = [],
      turn_created_at = now, turn_started_at = None, turn_ended_at = None\<rparr>"

definition turn_is_terminal :: "('c, 'v) turn \<Rightarrow> bool" where
  "turn_is_terminal t = kind_is_terminal (status_kind (turn_status t))"

definition is_chat_turn :: "('c, 'v) turn \<Rightarrow> bool" where
  "is_chat_turn t = kind_is_chat_turn (input_kind (turn_input t))"

definition transition_at ::
    "('c, 'v) turn \<Rightarrow> turn_status \<Rightarrow> ('c, 'v) turn_output option \<Rightarrow> string option \<Rightarrow> instant \<Rightarrow>
     (turn_error + turn_transition) \<times> ('c, 'v) turn" where
  "transition_at self target result reason at =
     (let from = turn_status self; fk = status_kind from; tk = status_kind target in
      if \<not> can_transition_to fk tk then (Inl (IllegalEdge fk tk (turn_id self)), self)
      else
        let self = (if target = TInProgress \<and> turn_started_at self = None
                    then self\<lparr>turn_started_at := Some at\<rparr> else self);
            self = (if kind_is_terminal tk then self\<lparr>turn_ended_at := Some at\<rparr> else self)
        in case result of
             Some out \<Rightarrow>
               if target \<noteq> TCompleted
               then (Inl (ResultOnlyOnCompleted fk tk (turn_id self)), self)
               else
                 (Inr \<lparr>tr_turn_id = turn_id self, tr_from = from, tr_to = target, tr_reason = reason,
                       tr_timestamp = at\<rparr>,
                  self\<lparr>final_result := Some out, turn_status := target\<rparr>)
           | None \<Rightarrow>
               (Inr \<lparr>tr_turn_id = turn_id self, tr_from = from, tr_to = target, tr_reason = reason,
                     tr_timestamp = at\<rparr>,
                self\<lparr>turn_status := target\<rparr>))"

type_synonym ('c, 'v) edge = "(turn_error + turn_transition) \<times> ('c, 'v) turn"

text \<open>\<open>transition\<close> is \<open>transition_at\<close> at \<open>Utc::now()\<close>: the edge methods take \<open>now\<close>.\<close>

definition turn_start :: "instant \<Rightarrow> ('c, 'v) turn \<Rightarrow> ('c, 'v) edge" where
  "turn_start now t = transition_at t TInProgress None None now"

definition turn_complete :: "instant \<Rightarrow> ('c, 'v) turn_output \<Rightarrow> ('c, 'v) turn \<Rightarrow> ('c, 'v) edge" where
  "turn_complete now out t = transition_at t TCompleted (Some out) None now"

definition turn_fail :: "instant \<Rightarrow> string \<Rightarrow> ('c, 'v) turn \<Rightarrow> ('c, 'v) edge" where
  "turn_fail now reason t = transition_at t (TFailed reason) None (Some reason) now"

definition turn_cancel :: "instant \<Rightarrow> cancel_reason \<Rightarrow> span_id list \<Rightarrow> ('c, 'v) turn \<Rightarrow> ('c, 'v) edge"
  where
  "turn_cancel now reason partial t = transition_at t (TCancelled reason partial) None None now"

definition turn_cancel_at ::
    "cancel_reason \<Rightarrow> span_id list \<Rightarrow> instant \<Rightarrow> ('c, 'v) turn \<Rightarrow> ('c, 'v) edge" where
  "turn_cancel_at reason partial at t = transition_at t (TCancelled reason partial) None None at"

definition turn_stuck :: "instant \<Rightarrow> string \<Rightarrow> ('c, 'v) turn \<Rightarrow> ('c, 'v) edge" where
  "turn_stuck now reason t = transition_at t (TStuck reason) None (Some reason) now"

definition turn_recover :: "instant \<Rightarrow> string \<Rightarrow> ('c, 'v) turn \<Rightarrow> ('c, 'v) edge" where
  "turn_recover now reason t =
     (if status_kind (turn_status t) \<noteq> KStuck
      then (Inl (RecoverRequiresStuck (status_kind (turn_status t)) (turn_id t)), t)
      else transition_at t TInProgress None (Some reason) now)"

section \<open>The machine\<close>

text \<open>The edge methods as operations, and the turn each leaves behind.\<close>

datatype ('c, 'v) turn_op =
    OpStart instant
  | OpComplete instant "('c, 'v) turn_output"
  | OpFail instant string
  | OpCancel instant cancel_reason "span_id list"
  | OpCancelAt cancel_reason "span_id list" instant
  | OpStuck instant string
  | OpRecover instant string

primrec turn_edge :: "('c, 'v) turn_op \<Rightarrow> ('c, 'v) turn \<Rightarrow> ('c, 'v) edge" where
  "turn_edge (OpStart now) t = turn_start now t"
| "turn_edge (OpComplete now out) t = turn_complete now out t"
| "turn_edge (OpFail now reason) t = turn_fail now reason t"
| "turn_edge (OpCancel now reason partial) t = turn_cancel now reason partial t"
| "turn_edge (OpCancelAt reason partial at) t = turn_cancel_at reason partial at t"
| "turn_edge (OpStuck now reason) t = turn_stuck now reason t"
| "turn_edge (OpRecover now reason) t = turn_recover now reason t"

definition turn_step :: "('c, 'v) turn \<Rightarrow> ('c, 'v) turn_op \<Rightarrow> ('c, 'v) turn" where
  "turn_step t a = snd (turn_edge a t)"

primrec op_target :: "('c, 'v) turn_op \<Rightarrow> turn_status" where
  "op_target (OpStart _) = TInProgress"
| "op_target (OpComplete _ _) = TCompleted"
| "op_target (OpFail _ reason) = TFailed reason"
| "op_target (OpCancel _ reason partial) = TCancelled reason partial"
| "op_target (OpCancelAt reason partial _) = TCancelled reason partial"
| "op_target (OpStuck _ reason) = TStuck reason"
| "op_target (OpRecover _ _) = TInProgress"

definition turn_wf :: "('c, 'v) turn \<Rightarrow> bool" where
  "turn_wf t \<longleftrightarrow>
     (final_result t \<noteq> None \<longleftrightarrow> turn_status t = TCompleted) \<and>
     (turn_ended_at t \<noteq> None \<longleftrightarrow> turn_is_terminal t) \<and>
     (turn_status t = TPending \<longrightarrow> turn_started_at t = None) \<and>
     (status_kind (turn_status t) \<in> {KInProgress, KStuck, KCompleted} \<longrightarrow> turn_started_at t \<noteq> None)"

lemmas edge_defs =
  turn_start_def turn_complete_def turn_fail_def turn_cancel_def turn_cancel_at_def turn_stuck_def
  turn_recover_def

lemma status_kind_simps [simp]:
  "status_kind TPending = KPending" "status_kind TInProgress = KInProgress"
  "status_kind (TStuck r) = KStuck" "status_kind (TCancelled c ps) = KCancelled"
  "status_kind (TFailed r) = KFailed" "status_kind TCompleted = KCompleted"
  by (simp_all add: status_kind_def)

lemma status_kind_iff [simp]:
  "status_kind s = KPending \<longleftrightarrow> s = TPending" "status_kind s = KInProgress \<longleftrightarrow> s = TInProgress"
  "status_kind s = KStuck \<longleftrightarrow> (\<exists>r. s = TStuck r)"
  "status_kind s = KCancelled \<longleftrightarrow> (\<exists>c ps. s = TCancelled c ps)"
  "status_kind s = KFailed \<longleftrightarrow> (\<exists>r. s = TFailed r)" "status_kind s = KCompleted \<longleftrightarrow> s = TCompleted"
  by (cases s; simp)+

lemma can_transition_to_simps [simp]:
  "can_transition_to k KPending = False"
  "can_transition_to k KInProgress \<longleftrightarrow> k = KPending \<or> k = KStuck"
  "can_transition_to k KStuck \<longleftrightarrow> k = KInProgress"
  "can_transition_to k KCompleted \<longleftrightarrow> k = KInProgress"
  "can_transition_to k KFailed \<longleftrightarrow> \<not> kind_is_terminal k"
  "can_transition_to k KCancelled \<longleftrightarrow> \<not> kind_is_terminal k"
  by (cases k; simp add: can_transition_to_def allowed_transitions_def kind_is_terminal_def)+

lemma terminal_no_exit: "kind_is_terminal k \<Longrightarrow> \<not> can_transition_to k k'"
  by (cases k; cases k') (simp_all add: kind_is_terminal_def)

lemma transition_at_plain:
  assumes "res = None \<or> target = TCompleted"
  shows "fst (transition_at t target res reason at) =
      (if can_transition_to (status_kind (turn_status t)) (status_kind target)
       then Inr \<lparr>tr_turn_id = turn_id t, tr_from = turn_status t, tr_to = target, tr_reason = reason,
                 tr_timestamp = at\<rparr>
       else Inl (IllegalEdge (status_kind (turn_status t)) (status_kind target) (turn_id t)))"
    and "snd (transition_at t target res reason at) =
      (if can_transition_to (status_kind (turn_status t)) (status_kind target)
       then t\<lparr>turn_started_at := (if target = TInProgress \<and> turn_started_at t = None then Some at
                               else turn_started_at t),
              turn_ended_at := (if kind_is_terminal (status_kind target) then Some at
                             else turn_ended_at t),
              final_result := (if res = None then final_result t else res),
              turn_status := target\<rparr>
       else t)"
  using assms by (auto simp: transition_at_def Let_def split: option.splits)

lemma turn_edge_ok_iff:
  "isl (fst (turn_edge a t)) \<longleftrightarrow>
     \<not> (can_transition_to (status_kind (turn_status t)) (status_kind (op_target a)) \<and>
        (\<forall>now r. a = OpRecover now r \<longrightarrow> status_kind (turn_status t) = KStuck))"
  by (cases a) (simp_all add: edge_defs transition_at_plain)

lemma turn_edge_refused: "isl (fst (turn_edge a t)) \<Longrightarrow> snd (turn_edge a t) = t"
  by (cases a) (simp_all add: edge_defs transition_at_plain split: if_splits)

lemma turn_edge_status:
  "\<not> isl (fst (turn_edge a t)) \<Longrightarrow> turn_status (snd (turn_edge a t)) = op_target a"
  by (cases a) (auto simp: edge_defs transition_at_plain split: if_splits)

lemma turn_wf_new: "turn_wf (turn_new i now session org inp parent)"
  by (simp add: turn_wf_def turn_new_def turn_is_terminal_def kind_is_terminal_def)

interpretation turn_machine: invariant_machine turn_step turn_wf
proof
  fix t :: "('a, 'b) turn" and a :: "('a, 'b) turn_op"
  assume "turn_wf t"
  then show "turn_wf (turn_step t a)"
    by (cases a; cases "turn_status t")
      (auto simp: turn_step_def edge_defs transition_at_plain turn_wf_def turn_is_terminal_def
        kind_is_terminal_def)
qed

lemma turn_step_started: "turn_started_at t = Some s \<Longrightarrow> turn_started_at (turn_step t a) = Some s"
  by (cases a) (simp_all add: turn_step_def edge_defs transition_at_plain)

lemma turn_step_terminal: "turn_is_terminal t \<Longrightarrow> turn_step t a = t"
  using turn_edge_refused [of a t] terminal_no_exit
  by (auto simp: turn_step_def turn_edge_ok_iff turn_is_terminal_def)

section \<open>Properties\<close>

text \<open>Every call that changes a turn: the edge methods, and the public \<open>transition\<close> and \<open>transition_at\<close> under them.\<close>

datatype ('c, 'v) turn_change =
    ByEdge "('c, 'v) turn_op"
  | ByTransition turn_status "('c, 'v) turn_output option" "string option" instant

primrec make_change :: "('c, 'v) turn_change \<Rightarrow> ('c, 'v) turn \<Rightarrow> ('c, 'v) edge" where
  "make_change (ByEdge a) t = turn_edge a t"
| "make_change (ByTransition target result reason at) t = transition_at t target result reason at"

definition change_step :: "('c, 'v) turn \<Rightarrow> ('c, 'v) turn_change \<Rightarrow> ('c, 'v) turn" where
  "change_step t a = snd (make_change a t)"

text \<open>A change that goes with its status: a completion has a result, nothing else has.\<close>

definition fitting :: "('c, 'v) turn_change \<Rightarrow> bool" where
  "fitting a \<longleftrightarrow>
     (case a of ByEdge _ \<Rightarrow> True | ByTransition target result _ _ \<Rightarrow> (result \<noteq> None) = (target = TCompleted))"

definition turn_kept :: "('c, 'v) turn \<Rightarrow> bool" where
  "turn_kept t \<longleftrightarrow>
     (final_result t \<noteq> None \<longrightarrow> turn_status t = TCompleted) \<and>
     (turn_is_terminal t \<longrightarrow> turn_ended_at t \<noteq> None) \<and>
     (status_kind (turn_status t) \<in> {KInProgress, KStuck, KCompleted} \<longrightarrow> turn_started_at t \<noteq> None)"

lemma edge_kept: "turn_kept t \<Longrightarrow> turn_kept (turn_step t a)"
  by (cases a; cases "turn_status t")
    (auto simp: turn_step_def edge_defs transition_at_plain turn_kept_def turn_is_terminal_def kind_is_terminal_def)

lemma transition_kept: "turn_kept t \<Longrightarrow> turn_kept (snd (transition_at t target result reason at))"
  by (cases "turn_status t"; cases target)
    (auto simp: transition_at_def Let_def turn_kept_def turn_is_terminal_def kind_is_terminal_def split: option.splits)

interpretation change_machine: invariant_machine change_step turn_kept
proof
  fix t :: "('a, 'b) turn" and a :: "('a, 'b) turn_change"
  assume "turn_kept t"
  then show "turn_kept (change_step t a)"
    using edge_kept transition_kept by (cases a) (auto simp: change_step_def turn_step_def)
qed

lemma fitting_wf: "turn_wf t \<Longrightarrow> fitting a \<Longrightarrow> turn_wf (change_step t a)"
proof (cases a)
  case (ByEdge b)
  then show "turn_wf t \<Longrightarrow> turn_wf (change_step t a)"
    using turn_machine.step_inv [of t b] by (simp add: change_step_def turn_step_def)
next
  case (ByTransition target result reason at)
  then show "turn_wf t \<Longrightarrow> fitting a \<Longrightarrow> turn_wf (change_step t a)"
    by (cases "turn_status t"; cases target)
      (auto simp: change_step_def fitting_def transition_at_def Let_def turn_wf_def turn_is_terminal_def kind_is_terminal_def
        split: option.splits)
qed

text \<open>C39: Whatever calls are made on a new turn, the edge methods and the public transitions, in whatever order and with whatever
  arguments, refused or not: a final result is present only on a completed turn, a terminal turn has an end time, and one that
  runs, is stuck or completed a start time. When every transition is given a result exactly for a completion, as the edge
  methods do, these hold in both directions and a pending turn has no start time.\<close>

theorem turn_reachable_wf:
  "let t = foldl change_step (turn_new i now session org inp parent) calls in
     (final_result t \<noteq> None \<longrightarrow> turn_status t = TCompleted) \<and>
     (turn_is_terminal t \<longrightarrow> turn_ended_at t \<noteq> None) \<and>
     (turn_status t \<in> {TInProgress, TCompleted} \<or> (\<exists>r. turn_status t = TStuck r) \<longrightarrow> turn_started_at t \<noteq> None) \<and>
     (list_all fitting calls \<longrightarrow>
        (turn_status t = TCompleted \<longrightarrow> final_result t \<noteq> None) \<and>
        (turn_ended_at t \<noteq> None \<longrightarrow> turn_is_terminal t) \<and>
        (turn_status t = TPending \<longrightarrow> turn_started_at t = None))"
proof -
  let ?t0 = "turn_new i now session org inp parent"
  have "turn_kept ?t0" using turn_wf_new [of i now session org inp parent] by (auto simp: turn_kept_def turn_wf_def)
  then have kept: "turn_kept (foldl change_step ?t0 calls)" by (rule change_machine.run_inv)
  have fits: "turn_wf t \<Longrightarrow> list_all fitting cs \<Longrightarrow> turn_wf (foldl change_step t cs)" for t cs
    by (induction cs arbitrary: t) (simp_all add: fitting_wf)
  have wf: "turn_wf (foldl change_step ?t0 calls)" if "list_all fitting calls" using fits [OF turn_wf_new that] .
  show ?thesis
    using kept wf by (auto simp: Let_def turn_kept_def turn_wf_def)
qed

theorem turn_reachable_wf_witness:
  "let t = foldl change_step (turn_new ''t'' 0 ''s'' OriginUser (InUserChat [()]) None)
             [ByEdge (OpStart 1), ByTransition (TStuck ''wait'') None None 2, ByEdge (OpRecover 3 ''go''),
              ByTransition TCompleted (Some (OutStructured ())) None 4] in
   final_result t = Some (OutStructured ()) \<and> turn_started_at t \<noteq> None \<and> turn_ended_at t = Some 4"
  using turn_reachable_wf [where i = "''t''" and now = 0 and session = "''s''" and org = OriginUser
      and inp = "InUserChat [()]" and parent = None
      and calls = "[ByEdge (OpStart 1), ByTransition (TStuck ''wait'') None None 2, ByEdge (OpRecover 3 ''go''),
              ByTransition TCompleted (Some (OutStructured ())) None 4]"]
  by (simp add: Let_def change_step_def fitting_def edge_defs transition_at_def turn_new_def kind_is_terminal_def)

text \<open>A terminal turn is absorbing: after any further calls it is the same turn, and every
  one of those calls is refused.\<close>

lemma terminal_turn_absorbing:
  assumes "turn_is_terminal t"
  shows "foldl turn_step t ops = t \<and> (\<forall>a \<in> set ops. isl (fst (turn_edge a t)))"
proof
  show "foldl turn_step t ops = t"
    by (induction ops) (simp_all add: turn_step_terminal [OF assms])
  show "\<forall>a \<in> set ops. isl (fst (turn_edge a t))"
    using assms terminal_no_exit by (auto simp: turn_edge_ok_iff turn_is_terminal_def)
qed

lemma terminal_turn_absorbing_witness:
  "let t = snd (turn_fail 1 ''boom'' (turn_new ''t'' 0 ''s'' OriginUser (InCron ()) None)) in
   (foldl turn_step t [OpStart 2, OpCancel 3 UserStopped []] :: (unit, unit) turn) = t"
  using terminal_turn_absorbing [where ops = "[OpStart 2, OpCancel 3 UserStopped []]" and
      t = "snd (turn_fail 1 ''boom'' (turn_new ''t'' 0 ''s'' OriginUser (InCron ()) None)) :: (unit, unit) turn"]
  by (simp add: Let_def turn_fail_def transition_at_plain turn_new_def turn_is_terminal_def
      kind_is_terminal_def)

text \<open>An edge method succeeds exactly along the edges of the status graph (\<open>recover\<close> from a stuck
  turn only), then leaves the turn in the method's status with a receipt naming the edge; refused, it
  leaves the turn as it was. A recorded start time is never moved.\<close>

lemma turn_edge_legality:
  "(case fst (turn_edge a t) of
      Inr receipt \<Rightarrow>
        can_transition_to (status_kind (turn_status t)) (status_kind (op_target a)) \<and>
        turn_status (turn_step t a) = op_target a \<and>
        tr_from receipt = turn_status t \<and> tr_to receipt = op_target a \<and> tr_turn_id receipt = turn_id t
    | Inl e \<Rightarrow>
        (if \<exists>now r. a = OpRecover now r then \<not> (\<exists>r. turn_status t = TStuck r)
         else \<not> can_transition_to (status_kind (turn_status t)) (status_kind (op_target a))) \<and>
        turn_step t a = t) \<and>
   (turn_started_at t = None \<or> turn_started_at (turn_step t a) = turn_started_at t)"
proof (intro conjI)
  show "turn_started_at t = None \<or> turn_started_at (turn_step t a) = turn_started_at t"
    using turn_step_started by (metis not_None_eq)
qed (cases a; auto simp: turn_step_def edge_defs transition_at_plain split: if_splits)

text \<open>\<open>transition_at\<close> itself does not keep that promise: along a legal edge to \<open>Failed\<close> or
  \<open>Cancelled\<close> with a final result it is refused, but the turn already carries an end time while its
  status is still the old, non-terminal one.\<close>

lemma refused_transition_leaves_ended_at:
  assumes "\<not> turn_is_terminal t" and "target = TFailed why \<or> target = TCancelled c ps"
  shows "let (r, t') = transition_at t target (Some out) reason at in
     isl r \<and> turn_ended_at t' = Some at \<and> turn_status t' = turn_status t \<and> \<not> turn_is_terminal t'"
  using assms by (auto simp: transition_at_def Let_def turn_is_terminal_def kind_is_terminal_def)

lemma refused_transition_leaves_ended_at_witness:
  "let (r, t') = transition_at (turn_new ''t'' 0 ''s'' OriginUser (InCron ()) None :: (unit, unit) turn)
                   (TFailed ''boom'') (Some (OutStructured ())) None 7 in
   isl r \<and> turn_ended_at t' = Some 7 \<and> turn_status t' = TPending"
  using refused_transition_leaves_ended_at [where target = "TFailed ''boom''" and why = "''boom''" and
      t = "turn_new ''t'' 0 ''s'' OriginUser (InCron ()) None :: (unit, unit) turn" and
      out = "OutStructured ()" and reason = None and at = 7]
  by (simp add: turn_new_def turn_is_terminal_def kind_is_terminal_def split: prod.splits)

end
