(* ===== verification/TurnLifecycle.thy ===== *)
theory TurnLifecycle
  imports TurnMachine
begin

text \<open>
  \<open>crates/turn/src/lifecycle.rs\<close> and \<open>cancellation_registry.rs\<close>: the orchestration over the turn
  store. The state is the stored rows in insertion order, the registry of cancellation tokens of
  running turns (a token is the flag saying whether it has been tripped) and the events published
  on the broadcast bus so far. A row's \<open>data\<close> column holds the serialised turn, so a row is the turn
  itself. The store may fail: \<open>store_io\<close> says whether reads and writes of a call succeed. Nothing locks
  a turn between the awaits of a call: a call is the point it waits at, and calls interleave there.
\<close>

datatype turn_phase = PhStarted | PhCompleted "int option" | PhFailed | PhCancelled

definition terminal_status :: "turn_phase \<Rightarrow> turn_status_kind option" where
  "terminal_status p =
     (case p of
        PhStarted \<Rightarrow> None
      | PhCompleted _ \<Rightarrow> Some KCompleted
      | PhFailed \<Rightarrow> Some KFailed
      | PhCancelled \<Rightarrow> Some KCancelled)"

record turn_lifecycle_event =
  ev_turn_id :: turn_id
  ev_session :: turn_session_id
  ev_parent :: "turn_id option"
  ev_phase :: turn_phase
  ev_kind :: turn_input_kind

record ('c, 'v) turn_lifecycle =
  turn_rows :: "('c, 'v) turn list"
  cancel_tokens :: "turn_id \<rightharpoonup> bool"
  lifecycle_events :: "turn_lifecycle_event list"

record store_io =
  read_ok :: bool
  write_ok :: bool

definition lifecycle_new :: "('c, 'v) turn_lifecycle" where
  "lifecycle_new = \<lparr>turn_rows = [], cancel_tokens = Map.empty, lifecycle_events = []\<rparr>"

section \<open>The cancellation registry\<close>

definition registry_register :: "(turn_id \<rightharpoonup> bool) \<Rightarrow> turn_id \<Rightarrow> bool \<Rightarrow> (turn_id \<rightharpoonup> bool)" where
  "registry_register tokens i token = tokens(i \<mapsto> token)"

definition registry_unregister :: "(turn_id \<rightharpoonup> bool) \<Rightarrow> turn_id \<Rightarrow> (turn_id \<rightharpoonup> bool)" where
  "registry_unregister tokens i = tokens(i := None)"

definition registry_cancel :: "(turn_id \<rightharpoonup> bool) \<Rightarrow> turn_id \<Rightarrow> bool \<times> (turn_id \<rightharpoonup> bool)" where
  "registry_cancel tokens i =
     (case tokens i of None \<Rightarrow> (False, tokens) | Some _ \<Rightarrow> (True, tokens(i \<mapsto> True)))"

definition is_registered :: "(turn_id \<rightharpoonup> bool) \<Rightarrow> turn_id \<Rightarrow> bool" where
  "is_registered tokens i \<longleftrightarrow> tokens i \<noteq> None"

section \<open>The store calls\<close>

definition store_get :: "('c, 'v) turn list \<Rightarrow> turn_id \<Rightarrow> ('c, 'v) turn option" where
  "store_get rows i = find (\<lambda>t. turn_id t = i) rows"

definition store_save :: "('c, 'v) turn list \<Rightarrow> ('c, 'v) turn \<Rightarrow> ('c, 'v) turn list" where
  "store_save rows t = map (\<lambda>r. if turn_id r = turn_id t then t else r) rows"

section \<open>The operations\<close>

definition load_turn ::
    "store_io \<Rightarrow> ('c, 'v) turn_lifecycle \<Rightarrow> turn_id \<Rightarrow> turn_error + ('c, 'v) turn" where
  "load_turn io lc i =
     (if \<not> read_ok io then Inl StorageFailed
      else case store_get (turn_rows lc) i of None \<Rightarrow> Inl (NotFound i) | Some t \<Rightarrow> Inr t)"

definition lc_apply ::
    "store_io \<Rightarrow> ('c, 'v) turn_lifecycle \<Rightarrow> turn_id \<Rightarrow> (('c, 'v) turn \<Rightarrow> ('c, 'v) edge) \<Rightarrow>
     turn_error + ('c, 'v) turn" where
  "lc_apply io lc i f =
     (case load_turn io lc i of
        Inl e \<Rightarrow> Inl e
      | Inr t \<Rightarrow> (case f t of (Inl e, _) \<Rightarrow> Inl e | (Inr _, t') \<Rightarrow> Inr t'))"

definition persist ::
    "store_io \<Rightarrow> ('c, 'v) turn_lifecycle \<Rightarrow> ('c, 'v) turn \<Rightarrow>
     (turn_error + unit) \<times> ('c, 'v) turn_lifecycle" where
  "persist io lc t =
     (if \<not> write_ok io \<or> store_get (turn_rows lc) (turn_id t) = None then (Inl StorageFailed, lc)
      else (Inr (), lc\<lparr>turn_rows := store_save (turn_rows lc) t\<rparr>))"

definition event_of :: "('c, 'v) turn \<Rightarrow> turn_phase \<Rightarrow> turn_lifecycle_event" where
  "event_of t phase =
     \<lparr>ev_turn_id = turn_id t, ev_session = turn_session t, ev_parent = parent_turn_id t,
      ev_phase = phase, ev_kind = input_kind (turn_input t)\<rparr>"

definition publish :: "('c, 'v) turn_lifecycle \<Rightarrow> turn_lifecycle_event \<Rightarrow> ('c, 'v) turn_lifecycle" where
  "publish lc e = lc\<lparr>lifecycle_events := lifecycle_events lc @ [e]\<rparr>"

definition register_running ::
    "('c, 'v) turn_lifecycle \<Rightarrow> turn_id \<Rightarrow> bool \<Rightarrow> ('c, 'v) turn_lifecycle" where
  "register_running lc i token = lc\<lparr>cancel_tokens := registry_register (cancel_tokens lc) i token\<rparr>"

definition guard_drop :: "('c, 'v) turn_lifecycle \<Rightarrow> turn_id \<Rightarrow> ('c, 'v) turn_lifecycle" where
  "guard_drop lc i = lc\<lparr>cancel_tokens := registry_unregister (cancel_tokens lc) i\<rparr>"

text \<open>\<open>start_turn\<close>: the id is generated (\<open>fresh\<close>); the store refuses an id it already has.\<close>

definition start_turn ::
    "store_io \<Rightarrow> turn_id \<Rightarrow> instant \<Rightarrow> ('c, 'v) turn_lifecycle \<Rightarrow> turn_session_id \<Rightarrow> trigger_kind \<Rightarrow>
     ('c, 'v) turn_input \<Rightarrow> turn_id option \<Rightarrow>
     (turn_error + ('c, 'v) turn) \<times> ('c, 'v) turn_lifecycle" where
  "start_turn io fresh now lc session org inp parent =
     (let t = turn_new fresh now session org inp parent in
      if \<not> write_ok io \<or> store_get (turn_rows lc) fresh \<noteq> None then (Inl StorageFailed, lc)
      else (Inr t, lc\<lparr>turn_rows := turn_rows lc @ [t]\<rparr>))"

text \<open>
  The points a call waits at: before the read that asks whether the turn is over already, before the read of \<open>apply\<close>, before the
  save of the turn it holds in memory, before the announcement. The instants of the edges are \<open>Utc::now()\<close> of \<open>apply\<close>.
\<close>

datatype ('c, 'v) turn_call =
    AtCheck turn_id "('c, 'v) turn_op"
  | AtApply turn_id "('c, 'v) turn_op" "turn_phase option"
  | AtSave "('c, 'v) turn" "turn_phase option"
  | AtPublish turn_lifecycle_event
  | Returned "turn_error + unit"

definition reply_ordinal :: "('c, 'v) turn_output \<Rightarrow> int option" where
  "reply_ordinal out = (case out of OutMessage _ ordinal \<Rightarrow> ordinal | OutStructured _ \<Rightarrow> None)"

definition lc_start :: "instant \<Rightarrow> turn_id \<Rightarrow> ('c, 'v) turn_call" where
  "lc_start now i = AtApply i (OpStart now) (Some PhStarted)"

definition lc_complete :: "instant \<Rightarrow> turn_id \<Rightarrow> ('c, 'v) turn_output \<Rightarrow> ('c, 'v) turn_call" where
  "lc_complete now i out = AtApply i (OpComplete now out) (Some (PhCompleted (reply_ordinal out)))"

definition lc_fail :: "instant \<Rightarrow> turn_id \<Rightarrow> string \<Rightarrow> ('c, 'v) turn_call" where
  "lc_fail now i reason = AtApply i (OpFail now reason) (Some PhFailed)"

definition lc_stuck :: "instant \<Rightarrow> turn_id \<Rightarrow> string \<Rightarrow> ('c, 'v) turn_call" where
  "lc_stuck now i reason = AtApply i (OpStuck now reason) None"

definition lc_recover :: "instant \<Rightarrow> turn_id \<Rightarrow> string \<Rightarrow> ('c, 'v) turn_call" where
  "lc_recover now i reason = AtApply i (OpRecover now reason) None"

text \<open>\<open>cancel\<close> trips the token before its first await.\<close>

definition lc_cancel ::
    "instant \<Rightarrow> turn_id \<Rightarrow> cancel_reason \<Rightarrow> span_id list \<Rightarrow> ('c, 'v) turn_lifecycle \<Rightarrow>
     ('c, 'v) turn_call \<times> ('c, 'v) turn_lifecycle" where
  "lc_cancel now i reason partial lc =
     (AtCheck i (OpCancel now reason partial), lc\<lparr>cancel_tokens := snd (registry_cancel (cancel_tokens lc) i)\<rparr>)"

definition lc_cancel_at :: "turn_id \<Rightarrow> cancel_reason \<Rightarrow> span_id list \<Rightarrow> instant \<Rightarrow> ('c, 'v) turn_call" where
  "lc_cancel_at i reason partial at = AtCheck i (OpCancelAt reason partial at)"

text \<open>What a call does from one await to the next.\<close>

definition after_check ::
    "store_io \<Rightarrow> ('c, 'v) turn_lifecycle \<Rightarrow> turn_id \<Rightarrow> ('c, 'v) turn_op \<Rightarrow> ('c, 'v) turn_call" where
  "after_check io lc i op =
     (case load_turn io lc i of
        Inl e \<Rightarrow> Returned (Inl e)
      | Inr t \<Rightarrow> if turn_is_terminal t then Returned (Inr ()) else AtApply i op (Some PhCancelled))"

definition after_apply ::
    "store_io \<Rightarrow> ('c, 'v) turn_lifecycle \<Rightarrow> turn_id \<Rightarrow> ('c, 'v) turn_op \<Rightarrow> turn_phase option \<Rightarrow> ('c, 'v) turn_call" where
  "after_apply io lc i op phase =
     (case lc_apply io lc i (turn_edge op) of
        Inl e \<Rightarrow> Returned (Inl e)
      | Inr t \<Rightarrow> AtSave t phase)"

definition after_save ::
    "store_io \<Rightarrow> ('c, 'v) turn_lifecycle \<Rightarrow> ('c, 'v) turn \<Rightarrow> turn_phase option \<Rightarrow>
     ('c, 'v) turn_call \<times> ('c, 'v) turn_lifecycle" where
  "after_save io lc t phase =
     (case persist io lc t of
        (Inl e, lc') \<Rightarrow> (Returned (Inl e), lc')
      | (Inr _, lc') \<Rightarrow>
          (case phase of
             None \<Rightarrow> (Returned (Inr ()), lc')
           | Some p \<Rightarrow> (AtPublish (event_of t p), lc')))"

primrec resume_call ::
    "store_io \<Rightarrow> ('c, 'v) turn_lifecycle \<Rightarrow> ('c, 'v) turn_call \<Rightarrow> ('c, 'v) turn_call \<times> ('c, 'v) turn_lifecycle" where
  "resume_call io lc (AtCheck i op) = (after_check io lc i op, lc)"
| "resume_call io lc (AtApply i op phase) = (after_apply io lc i op phase, lc)"
| "resume_call io lc (AtSave t phase) = after_save io lc t phase"
| "resume_call io lc (AtPublish e) = (Returned (Inr ()), publish lc e)"
| "resume_call io lc (Returned r) = (Returned r, lc)"

section \<open>The queries\<close>

definition list_active_by_session ::
    "('c, 'v) turn_lifecycle \<Rightarrow> turn_session_id \<Rightarrow> ('c, 'v) turn list" where
  "list_active_by_session lc session =
     filter (\<lambda>t. turn_session t = session \<and> kind_needs_recovery (status_kind (turn_status t)))
       (turn_rows lc)"

definition list_active_chat_turns_by_session ::
    "('c, 'v) turn_lifecycle \<Rightarrow> turn_session_id \<Rightarrow> ('c, 'v) turn list" where
  "list_active_chat_turns_by_session lc session =
     filter is_chat_turn (list_active_by_session lc session)"

definition active_turn_started_at ::
    "('c, 'v) turn_lifecycle \<Rightarrow> turn_session_id \<Rightarrow> instant option" where
  "active_turn_started_at lc session =
     max_by_key (\<lambda>x. x)
       (map (\<lambda>t. case turn_started_at t of None \<Rightarrow> turn_created_at t | Some s \<Rightarrow> s)
         (list_active_chat_turns_by_session lc session))"

section \<open>Histories of calls\<close>

datatype ('c, 'v) call_request =
    CallStart instant turn_id
  | CallComplete instant turn_id "('c, 'v) turn_output"
  | CallFail instant turn_id string
  | CallCancel instant turn_id cancel_reason "span_id list"
  | CallCancelAt turn_id cancel_reason "span_id list" instant
  | CallStuck instant turn_id string
  | CallRecover instant turn_id string

primrec begin_call ::
    "('c, 'v) turn_lifecycle \<Rightarrow> ('c, 'v) call_request \<Rightarrow> ('c, 'v) turn_call \<times> ('c, 'v) turn_lifecycle" where
  "begin_call lc (CallStart now i) = (lc_start now i, lc)"
| "begin_call lc (CallComplete now i out) = (lc_complete now i out, lc)"
| "begin_call lc (CallFail now i reason) = (lc_fail now i reason, lc)"
| "begin_call lc (CallCancel now i reason partial) = lc_cancel now i reason partial lc"
| "begin_call lc (CallCancelAt i reason partial at) = (lc_cancel_at i reason partial at, lc)"
| "begin_call lc (CallStuck now i reason) = (lc_stuck now i reason, lc)"
| "begin_call lc (CallRecover now i reason) = (lc_recover now i reason, lc)"

text \<open>The manager with its calls, the n-th begun at position n; a move lets one of them run up to its next await.\<close>

type_synonym ('c, 'v) turn_system = "('c, 'v) turn_lifecycle \<times> ('c, 'v) turn_call list"

datatype ('c, 'v) turn_move =
    Create store_io turn_id instant turn_session_id trigger_kind "('c, 'v) turn_input" "turn_id option"
  | Begin "('c, 'v) call_request"
  | Resume nat store_io
  | Register turn_id bool
  | DropGuard turn_id

fun turn_system_step :: "('c, 'v) turn_system \<Rightarrow> ('c, 'v) turn_move \<Rightarrow> ('c, 'v) turn_system" where
  "turn_system_step (lc, calls) (Create io fresh now session org inp parent) =
     (snd (start_turn io fresh now lc session org inp parent), calls)"
| "turn_system_step (lc, calls) (Begin req) = (case begin_call lc req of (c, lc') \<Rightarrow> (lc', calls @ [c]))"
| "turn_system_step (lc, calls) (Resume k io) =
     (if k < length calls then (case resume_call io lc (calls ! k) of (c, lc') \<Rightarrow> (lc', calls[k := c])) else (lc, calls))"
| "turn_system_step (lc, calls) (Register i token) = (register_running lc i token, calls)"
| "turn_system_step (lc, calls) (DropGuard i) = (guard_drop lc i, calls)"

definition turn_system_new :: "('c, 'v) turn_system" where
  "turn_system_new = (lifecycle_new, [])"

text \<open>The turn a call that has not returned is about, and the histories in which no two such calls are about \<open>i\<close>.\<close>

primrec call_turn :: "('c, 'v) turn_call \<Rightarrow> turn_id option" where
  "call_turn (AtCheck i op) = Some i"
| "call_turn (AtApply i op phase) = Some i"
| "call_turn (AtSave t phase) = Some (turn_id t)"
| "call_turn (AtPublish e) = Some (ev_turn_id e)"
| "call_turn (Returned r) = None"

definition idle :: "turn_id \<Rightarrow> ('c, 'v) turn_call list \<Rightarrow> bool" where
  "idle i calls \<longleftrightarrow> list_all (\<lambda>c. call_turn c \<noteq> Some i) calls"

fun one_call_at_a_time :: "turn_id \<Rightarrow> ('c, 'v) turn_system \<Rightarrow> ('c, 'v) turn_move list \<Rightarrow> bool" where
  "one_call_at_a_time i s [] = True"
| "one_call_at_a_time i s (a # as) =
     ((case a of
         Begin req \<Rightarrow> call_turn (fst (begin_call (fst s) req)) = Some i \<longrightarrow> idle i (snd s)
       | _ \<Rightarrow> True) \<and>
      one_call_at_a_time i (turn_system_step s a) as)"

definition phases_of :: "('c, 'v) turn_lifecycle \<Rightarrow> turn_id \<Rightarrow> turn_phase list" where
  "phases_of lc i = map ev_phase (filter (\<lambda>e. ev_turn_id e = i) (lifecycle_events lc))"

text \<open>What the bus has said of a turn, given the turn's row.\<close>

definition phases_ok :: "('c, 'v) turn \<Rightarrow> turn_phase list \<Rightarrow> bool" where
  "phases_ok t ps \<longleftrightarrow>
     (\<exists>n. ps = replicate n PhStarted @
        (case turn_status t of
           TPending \<Rightarrow> []
         | TInProgress \<Rightarrow> []
         | TStuck _ \<Rightarrow> []
         | TCompleted \<Rightarrow> [PhCompleted (case final_result t of None \<Rightarrow> None | Some out \<Rightarrow> reply_ordinal out)]
         | TFailed _ \<Rightarrow> [PhFailed]
         | TCancelled _ _ \<Rightarrow> [PhCancelled]) \<and>
        (turn_status t = TPending \<longrightarrow> n = 0) \<and>
        (status_kind (turn_status t) \<in> {KInProgress, KStuck, KCompleted} \<longrightarrow> 0 < n))"

lemma store_get_Some:
  "store_get rows i = Some t \<Longrightarrow> t \<in> set rows \<and> turn_id t = i"
  by (auto simp: store_get_def find_Some_iff)

text \<open>The phase each edge method is published under.\<close>

primrec op_phase :: "('c, 'v) turn_op \<Rightarrow> turn_phase option" where
  "op_phase (OpStart _) = Some PhStarted"
| "op_phase (OpComplete _ out) = Some (PhCompleted (reply_ordinal out))"
| "op_phase (OpFail _ _) = Some PhFailed"
| "op_phase (OpCancel _ _ _) = Some PhCancelled"
| "op_phase (OpCancelAt _ _ _) = Some PhCancelled"
| "op_phase (OpStuck _ _) = None"
| "op_phase (OpRecover _ _) = None"

lemma turn_edge_id: "turn_id (snd (turn_edge a t)) = turn_id t"
  by (cases a) (simp_all add: edge_defs transition_at_plain)

lemma edge_phases:
  assumes "turn_wf t" and "\<not> isl (fst (turn_edge a t))" and "phases_ok t ps"
  shows "phases_ok (snd (turn_edge a t)) (ps @ (case op_phase a of None \<Rightarrow> [] | Some p \<Rightarrow> [p]))"
proof -
  have live: "\<not> kind_is_terminal (status_kind (turn_status t))"
    using assms(2) by (auto simp: turn_edge_ok_iff dest: terminal_no_exit)
  obtain n where ps: "ps = replicate n PhStarted"
    and n: "turn_status t = TPending \<longrightarrow> n = 0"
      "status_kind (turn_status t) \<in> {KInProgress, KStuck, KCompleted} \<longrightarrow> 0 < n"
    using assms(3) live unfolding phases_ok_def
    by (auto split: turn_status.splits simp: kind_is_terminal_def)
  have snoc: "replicate n PhStarted @ [PhStarted] = replicate (Suc n) PhStarted"
    by (simp add: replicate_append_same)
  have one: "replicate 0 PhStarted @ [PhStarted] = replicate (Suc 0) PhStarted" by simp
  show ?thesis
    using assms(1,2) n unfolding ps
    by (cases a; cases "turn_status t")
      (auto simp: phases_ok_def edge_defs transition_at_plain snoc one kind_is_terminal_def
        simp del: replicate.simps intro!: exI [of _ n] exI [of _ "Suc n"])
qed


section \<open>One call of a turn\<close>

text \<open>The row and the announcements of a turn agree, but for what the one call about it still has to do.\<close>

definition settled :: "('c, 'v) turn_lifecycle \<Rightarrow> turn_id \<Rightarrow> turn_phase list \<Rightarrow> bool" where
  "settled lc i left \<longleftrightarrow>
     (case store_get (turn_rows lc) i of
        None \<Rightarrow> phases_of lc i @ left = []
      | Some t \<Rightarrow> turn_wf t \<and> phases_ok t (phases_of lc i @ left))"

definition agrees :: "('c, 'v) turn_lifecycle \<Rightarrow> turn_id \<Rightarrow> ('c, 'v) turn_call \<Rightarrow> bool" where
  "agrees lc i c \<longleftrightarrow>
     (case c of
        AtSave t' phase \<Rightarrow> settled lc i [] \<and>
          (\<exists>t op. store_get (turn_rows lc) i = Some t \<and> t' = snd (turn_edge op t) \<and> \<not> isl (fst (turn_edge op t)) \<and>
             phase = op_phase op)
      | AtPublish e \<Rightarrow> settled lc i [ev_phase e]
      | _ \<Rightarrow> settled lc i [])"

definition well_posed :: "('c, 'v) turn_call \<Rightarrow> bool" where
  "well_posed c \<longleftrightarrow>
     (case c of
        AtCheck i op \<Rightarrow> op_phase op = Some PhCancelled
      | AtApply i op phase \<Rightarrow> phase = op_phase op
      | _ \<Rightarrow> True)"

definition call_at :: "turn_id \<Rightarrow> ('c, 'v) turn_call list \<Rightarrow> nat \<Rightarrow> ('c, 'v) turn_call" where
  "call_at i calls k =
     (if k < length calls \<and> call_turn (calls ! k) = Some i then calls ! k else Returned (Inr ()))"

definition one_call :: "turn_id \<Rightarrow> ('c, 'v) turn_system \<Rightarrow> bool" where
  "one_call i s \<longleftrightarrow>
     list_all well_posed (snd s) \<and>
     (\<exists>k. (\<forall>j < length (snd s). call_turn (snd s ! j) = Some i \<longrightarrow> j = k) \<and> agrees (fst s) i (call_at i (snd s) k))"

lemma settled_cong:
  "store_get (turn_rows lc') i = store_get (turn_rows lc) i \<Longrightarrow> phases_of lc' i = phases_of lc i \<Longrightarrow>
   settled lc' i = settled lc i"
  by (rule ext) (simp add: settled_def split: option.split)

lemma agrees_cong:
  assumes "store_get (turn_rows lc') i = store_get (turn_rows lc) i" and "phases_of lc' i = phases_of lc i"
  shows "agrees lc' i c = agrees lc i c"
  using assms settled_cong [OF assms] by (simp add: agrees_def split: turn_call.splits)

lemma save_get:
  "store_get (store_save rows t) i =
     (if i = turn_id t \<and> store_get rows i \<noteq> None then Some t else store_get rows i)"
  by (induction rows) (auto simp: store_get_def store_save_def)

lemma phases_publish: "phases_of (publish lc e) i = phases_of lc i @ (if ev_turn_id e = i then [ev_phase e] else [])"
  by (simp add: phases_of_def publish_def)

lemma loaded: "load_turn io lc i = Inr t \<Longrightarrow> store_get (turn_rows lc) i = Some t \<and> turn_id t = i"
  by (auto simp: load_turn_def dest: store_get_Some split: if_splits option.splits)

lemma applied:
  assumes "lc_apply io lc i (turn_edge op) = Inr t'"
  obtains t where "store_get (turn_rows lc) i = Some t" "turn_id t = i" "t' = snd (turn_edge op t)"
    "\<not> isl (fst (turn_edge op t))" "turn_id t' = i"
proof -
  from assms obtain t r where t: "load_turn io lc i = Inr t" "turn_edge op t = (Inr r, t')"
    by (auto simp: lc_apply_def split: sum.splits prod.splits)
  then have "turn_id t' = i" using turn_edge_id [of op t] loaded [OF t(1)] by simp
  then show thesis using that [of t] loaded [OF t(1)] t(2) by simp
qed

lemma resume_posed: "resume_call io lc c = (c', lc') \<Longrightarrow> well_posed c \<Longrightarrow> well_posed c'"
  by (cases c) (auto simp: after_check_def after_apply_def after_save_def well_posed_def
      split: sum.splits option.splits prod.splits)

lemma resume_turn: "resume_call io lc c = (c', lc') \<Longrightarrow> call_turn c' = None \<or> call_turn c' = call_turn c"
  by (cases c)
    (auto simp: after_check_def after_apply_def after_save_def event_of_def elim: applied
      split: sum.splits option.splits prod.splits if_splits)

lemma resume_other:
  assumes "resume_call io lc c = (c', lc')" and "call_turn c \<noteq> Some i"
  shows "store_get (turn_rows lc') i = store_get (turn_rows lc) i" and "phases_of lc' i = phases_of lc i"
proof -
  have "store_get (turn_rows lc') i = store_get (turn_rows lc) i \<and> phases_of lc' i = phases_of lc i"
    using assms
    by (cases c)
      (auto simp: after_save_def persist_def save_get phases_publish phases_of_def publish_def
        split: if_splits option.splits)
  then show "store_get (turn_rows lc') i = store_get (turn_rows lc) i" and "phases_of lc' i = phases_of lc i" by simp_all
qed

text \<open>A saved edge leaves the row and the bus agreeing but for the announcement of its phase.\<close>

lemma saved_edge:
  assumes "settled lc i []" and "store_get (turn_rows lc) i = Some t" and "\<not> isl (fst (turn_edge op t))"
  shows "settled (lc\<lparr>turn_rows := store_save (turn_rows lc) (snd (turn_edge op t))\<rparr>) i
     (case op_phase op of None \<Rightarrow> [] | Some p \<Rightarrow> [p])"
proof -
  have wf: "turn_wf t" and ok: "phases_ok t (phases_of lc i)" using assms(1,2) by (simp_all add: settled_def)
  have i: "turn_id (snd (turn_edge op t)) = i" using store_get_Some [OF assms(2)] by (simp add: turn_edge_id)
  have "turn_wf (snd (turn_edge op t))" using turn_machine.step_inv [OF wf, of op] by (simp add: turn_step_def)
  then show ?thesis
    using edge_phases [OF wf assms(3) ok] i assms(2) by (simp add: settled_def save_get phases_of_def)
qed

lemma resume_this:
  assumes run: "resume_call io lc c = (c', lc')" and posed: "well_posed c" and ok: "agrees lc i c"
    and i: "call_turn c = Some i"
  shows "agrees lc' i (if call_turn c' = Some i then c' else Returned (Inr ()))"
proof (cases c)
  case (AtCheck j op)
  then show ?thesis
    using run ok by (auto simp: agrees_def after_check_def split: sum.splits if_splits)
next
  case (AtApply j op phase)
  have j: "j = i" and st: "settled lc i []" and lc: "lc' = lc" using AtApply i ok run by (simp_all add: agrees_def)
  show ?thesis
  proof (cases "lc_apply io lc i (turn_edge op)")
    case (Inl e)
    then have "c' = Returned (Inl e)" using AtApply run j by (simp add: after_apply_def)
    then show ?thesis using st lc by (simp add: agrees_def)
  next
    case (Inr t')
    then obtain t where t: "store_get (turn_rows lc) i = Some t" "t' = snd (turn_edge op t)"
        "\<not> isl (fst (turn_edge op t))" "turn_id t' = i"
      by (rule applied)
    have "c' = AtSave t' phase" using AtApply run j Inr by (simp add: after_apply_def)
    moreover have "phase = op_phase op" using posed AtApply by (simp add: well_posed_def)
    ultimately show ?thesis using t st lc by (auto simp: agrees_def)
  qed
next
  case (AtSave t' phase)
  have i': "turn_id t' = i" using AtSave i by simp
  obtain t op where st: "settled lc i []" and t: "store_get (turn_rows lc) i = Some t" "t' = snd (turn_edge op t)"
      "\<not> isl (fst (turn_edge op t))" "phase = op_phase op"
    using ok AtSave by (auto simp: agrees_def)
  show ?thesis
  proof (cases "write_ok io")
    case False
    then show ?thesis using AtSave run st by (auto simp: after_save_def persist_def agrees_def)
  next
    case True
    let ?lc = "lc\<lparr>turn_rows := store_save (turn_rows lc) t'\<rparr>"
    have "persist io lc t' = (Inr (), ?lc)" using True t(1) i' by (simp add: persist_def)
    then have c': "lc' = ?lc"
        "c' = (case phase of None \<Rightarrow> Returned (Inr ()) | Some p \<Rightarrow> AtPublish (event_of t' p))"
      using run AtSave by (auto simp: after_save_def split: option.splits)
    show ?thesis
      using saved_edge [OF st t(1,3)] c' t i' by (auto simp: agrees_def event_of_def split: option.splits)
  qed
next
  case (AtPublish e)
  have e: "ev_turn_id e = i" and st: "settled lc i [ev_phase e]" using AtPublish i ok by (simp_all add: agrees_def)
  have "turn_rows (publish lc e) = turn_rows lc" by (simp add: publish_def)
  then have "settled (publish lc e) i []" using st e by (simp add: settled_def phases_publish split: option.splits)
  then show ?thesis using AtPublish run by (auto simp: agrees_def)
next
  case (Returned r)
  then show ?thesis using i by simp
qed

lemma one_call_same_lc:
  assumes "one_call i (lc, calls)" and "store_get (turn_rows lc') i = store_get (turn_rows lc) i"
    and "phases_of lc' i = phases_of lc i"
  shows "one_call i (lc', calls)"
  using assms(1) agrees_cong [OF assms(2,3)] by (simp add: one_call_def)

lemma one_call_resume:
  assumes inv: "one_call i (lc, calls)" and j: "j < length calls" and run: "resume_call io lc (calls ! j) = (c', lc')"
  shows "one_call i (lc', calls[j := c'])"
proof -
  obtain k where posed: "list_all well_posed calls"
      and only: "\<And>n. n < length calls \<Longrightarrow> call_turn (calls ! n) = Some i \<Longrightarrow> n = k"
      and ok: "agrees lc i (call_at i calls k)"
    using inv by (auto simp: one_call_def)
  have "well_posed (calls ! j)" using posed j by (simp add: list_all_length)
  then have posed': "list_all well_posed (calls[j := c'])"
    using posed resume_posed [OF run] j by (auto simp: list_all_length nth_list_update)
  have only': "n = k" if "n < length calls" "call_turn (calls[j := c'] ! n) = Some i" for n
    using that only resume_turn [OF run] j by (cases "n = j") (auto simp: nth_list_update)
  have "agrees lc' i (call_at i (calls[j := c']) k)"
  proof (cases "call_turn (calls ! j) = Some i")
    case True
    then have "j = k" using only j by blast
    then have "agrees lc i (calls ! j)" using ok True j by (simp add: call_at_def)
    note resume_this [OF run \<open>well_posed (calls ! j)\<close> this True]
    then show ?thesis
      using \<open>j = k\<close> j by (cases "call_turn c' = Some i") (simp_all add: call_at_def)
  next
    case False
    have "call_turn c' \<noteq> Some i" using resume_turn [OF run] False by auto
    then have "call_at i (calls[j := c']) k = call_at i calls k"
      using False j by (auto simp: call_at_def nth_list_update)
    then show ?thesis using ok agrees_cong [OF resume_other [OF run False]] by simp
  qed
  then show ?thesis using posed' only' by (auto simp: one_call_def)
qed

lemma begun:
  assumes "begin_call lc req = (c, lc')"
  shows "turn_rows lc' = turn_rows lc" "lifecycle_events lc' = lifecycle_events lc" "well_posed c"
    "(\<exists>i op. c = AtCheck i op) \<or> (\<exists>i op phase. c = AtApply i op phase)"
proof -
  have "turn_rows lc' = turn_rows lc \<and> lifecycle_events lc' = lifecycle_events lc \<and> well_posed c \<and>
      ((\<exists>i op. c = AtCheck i op) \<or> (\<exists>i op phase. c = AtApply i op phase))"
    using assms
    by (cases req) (force simp: lc_start_def lc_complete_def lc_fail_def lc_cancel_def lc_cancel_at_def lc_stuck_def
        lc_recover_def well_posed_def)+
  then show "turn_rows lc' = turn_rows lc" "lifecycle_events lc' = lifecycle_events lc" "well_posed c"
    "(\<exists>i op. c = AtCheck i op) \<or> (\<exists>i op phase. c = AtApply i op phase)" by blast+
qed

lemma one_call_begin:
  assumes inv: "one_call i (lc, calls)" and run: "begin_call lc req = (c, lc')"
    and free: "call_turn c = Some i \<Longrightarrow> idle i calls"
  shows "one_call i (lc', calls @ [c])"
proof -
  have "store_get (turn_rows lc') i = store_get (turn_rows lc) i" "phases_of lc' i = phases_of lc i"
    using begun(1,2) [OF run] by (simp_all add: phases_of_def)
  then have same: "agrees lc' i x = agrees lc i x" for x by (rule agrees_cong)
  obtain k where posed: "list_all well_posed calls"
      and only: "\<And>n. n < length calls \<Longrightarrow> call_turn (calls ! n) = Some i \<Longrightarrow> n = k"
      and ok: "agrees lc i (call_at i calls k)"
    using inv by (auto simp: one_call_def)
  have posed': "list_all well_posed (calls @ [c])" using posed begun(3) [OF run] by simp
  show ?thesis
  proof (cases "call_turn c = Some i")
    case True
    have none: "call_turn (calls ! n) \<noteq> Some i" if "n < length calls" for n
      using free [OF True] that by (simp add: idle_def list_all_length)
    have "agrees lc i (Returned (Inr ()))" using ok none by (simp add: call_at_def split: if_splits)
    then have "settled lc i []" by (simp add: agrees_def)
    then have "agrees lc i c" using begun(4) [OF run] by (auto simp: agrees_def)
    then have "agrees lc' i c" by (simp only: same)
    then have "agrees lc' i (call_at i (calls @ [c]) (length calls))" using True by (simp add: call_at_def)
    moreover have "n = length calls" if "n < length (calls @ [c])" "call_turn ((calls @ [c]) ! n) = Some i" for n
      using that none by (auto simp: nth_append less_Suc_eq)
    ultimately show ?thesis using posed' by (auto simp: one_call_def)
  next
    case False
    have "call_at i (calls @ [c]) k = call_at i calls k" using False by (auto simp: call_at_def nth_append)
    moreover have "n = k" if "n < length (calls @ [c])" "call_turn ((calls @ [c]) ! n) = Some i" for n
      using that only False by (auto simp: nth_append less_Suc_eq split: if_splits)
    ultimately show ?thesis using posed' ok same by (auto simp: one_call_def intro!: exI [of _ k])
  qed
qed

lemma one_call_create:
  assumes inv: "one_call i (lc, calls)"
  shows "one_call i (snd (start_turn io fresh now lc session org inp parent), calls)"
proof (cases "write_ok io \<and> store_get (turn_rows lc) fresh = None")
  case False
  then show ?thesis using inv by (auto simp: start_turn_def Let_def)
next
  case True
  let ?t = "turn_new fresh now session org inp parent"
  let ?lc = "lc\<lparr>turn_rows := turn_rows lc @ [?t]\<rparr>"
  have lc': "snd (start_turn io fresh now lc session org inp parent) = ?lc" using True by (simp add: start_turn_def Let_def)
  have get: "store_get (turn_rows ?lc) i = (if i = fresh then Some ?t else store_get (turn_rows lc) i)"
    using True by (auto simp: store_get_def turn_new_def find_append split: option.splits)
  have same: "phases_of ?lc i = phases_of lc i" by (simp add: phases_of_def)
  show ?thesis
  proof (cases "i = fresh")
    case False
    then show ?thesis using one_call_same_lc [OF inv, of ?lc] get same lc' by simp
  next
    case fresh: True
    obtain k where posed: "list_all well_posed calls"
        and only: "\<forall>n < length calls. call_turn (calls ! n) = Some i \<longrightarrow> n = k"
        and ok: "agrees lc i (call_at i calls k)"
      using inv by (auto simp: one_call_def)
    have none: "store_get (turn_rows lc) i = None" using True fresh by simp
    have "settled lc i [] \<and> (\<exists>j op phase. call_at i calls k = AtCheck j op \<or> call_at i calls k = AtApply j op phase
        \<or> (\<exists>r. call_at i calls k = Returned r))"
      using ok none by (auto simp: agrees_def settled_def split: turn_call.splits)
    moreover from this have "phases_of ?lc i = []" using none same by (simp add: settled_def)
    then have "settled ?lc i []"
      using get fresh turn_wf_new [of fresh now session org inp parent] by (simp add: settled_def phases_ok_def turn_new_def)
    ultimately have "agrees ?lc i (call_at i calls k)" by (auto simp: agrees_def)
    then show ?thesis using posed only lc' by (auto simp: one_call_def)
  qed
qed

lemma one_call_step:
  assumes "one_call i s" and "one_call_at_a_time i s [a]"
  shows "one_call i (turn_system_step s a)"
proof -
  obtain lc calls where s: "s = (lc, calls)" by (cases s)
  show ?thesis
  proof (cases a)
    case (Begin req)
    obtain c lc' where "begin_call lc req = (c, lc')" by (cases "begin_call lc req")
    then show ?thesis using one_call_begin [of i lc calls req c lc'] assms s Begin by simp
  next
    case (Resume k io)
    obtain c lc' where "resume_call io lc (calls ! k) = (c, lc')" by (cases "resume_call io lc (calls ! k)")
    then show ?thesis using one_call_resume [of i lc calls k io c lc'] assms s Resume by simp
  next
    case (Create io fresh now session org inp parent)
    then show ?thesis using one_call_create assms s by simp
  qed (use assms s one_call_same_lc [of i lc calls] in \<open>simp_all add: register_running_def guard_drop_def phases_of_def\<close>)
qed

lemma one_call_run:
  "one_call i s \<Longrightarrow> one_call_at_a_time i s as \<Longrightarrow> one_call i (foldl turn_system_step s as)"
proof (induction as arbitrary: s)
  case (Cons a as)
  then have "one_call i (turn_system_step s a)" by (intro one_call_step) simp_all
  then show ?case using Cons by simp
qed simp

section \<open>Properties\<close>

text \<open>C2: Whatever calls are made and however they interleave at their awaits, with any store failures in between: for a turn
  no two calls of which overlap, what the bus says once none is in flight is what the row says. The turn is announced as
  started before anything else, a terminal announcement is made exactly when it is terminal, once and last, with the row's
  status, and a completed turn is announced with the ordinal of the reply its row holds.\<close>

theorem lifecycle_event_stream:
  assumes "one_call_at_a_time i turn_system_new moves"
    and "foldl turn_system_step turn_system_new moves = (lc, calls)" and "idle i calls"
    and "store_get (turn_rows lc) i = Some t"
  shows "let ps = phases_of lc i in
     (if turn_is_terminal t
      then \<exists>n p. ps = replicate n PhStarted @ [p] \<and> terminal_status p = Some (status_kind (turn_status t)) \<and>
             (turn_status t = TCompleted \<longrightarrow>
                0 < n \<and> (\<exists>out. final_result t = Some out \<and> p = PhCompleted (reply_ordinal out)))
      else \<exists>n. ps = replicate n PhStarted \<and> (n = 0 \<longleftrightarrow> turn_status t = TPending))"
proof -
  have "one_call i (turn_system_new :: ('a, 'b) turn_system)"
    by (simp add: one_call_def turn_system_new_def call_at_def agrees_def settled_def lifecycle_new_def store_get_def
        phases_of_def)
  from one_call_run [OF this assms(1)] obtain k where "agrees lc i (call_at i calls k)"
    using assms(2) by (auto simp: one_call_def)
  moreover have "call_at i calls k = Returned (Inr ())" using assms(3) by (auto simp: call_at_def idle_def list_all_length)
  ultimately have "turn_wf t" and "phases_ok t (phases_of lc i)"
    using assms(4) by (simp_all add: agrees_def settled_def)
  then show ?thesis
    by (cases "turn_status t")
      (auto simp: Let_def phases_ok_def turn_wf_def turn_is_terminal_def kind_is_terminal_def terminal_status_def)
qed

lemmas call_evaluation =
  lc_start_def lc_complete_def lc_cancel_def after_check_def after_apply_def after_save_def lc_apply_def load_turn_def
  persist_def event_of_def reply_ordinal_def Let_def

theorem lifecycle_event_stream_witness:
  "let io = \<lparr>read_ok = True, write_ok = True\<rparr>;
       moves = [Create io ''t'' 0 ''s'' OriginUser (InUserChat [()]) None, Create io ''u'' 0 ''s'' OriginUser InCompact None,
         Begin (CallStart 1 ''t''), Begin (CallCancel 1 ''u'' UserStopped []), Resume 0 io, Resume 1 io, Resume 0 io, Resume 0 io,
         Begin (CallComplete 2 ''t'' (OutMessage [()] (Some 7))), Resume 2 io, Resume 1 io, Resume 2 io, Resume 2 io]
         :: (unit, unit) turn_move list in
   phases_of (fst (foldl turn_system_step turn_system_new moves)) ''t'' = [PhStarted, PhCompleted (Some 7)]"
proof -
  let ?io = "\<lparr>read_ok = True, write_ok = True\<rparr>"
  let ?moves = "[Create ?io ''t'' 0 ''s'' OriginUser (InUserChat [()]) None, Create ?io ''u'' 0 ''s'' OriginUser InCompact None,
    Begin (CallStart 1 ''t''), Begin (CallCancel 1 ''u'' UserStopped []), Resume 0 ?io, Resume 1 ?io, Resume 0 ?io, Resume 0 ?io,
    Begin (CallComplete 2 ''t'' (OutMessage [()] (Some 7))), Resume 2 ?io, Resume 1 ?io, Resume 2 ?io, Resume 2 ?io]
    :: (unit, unit) turn_move list"
  let ?t = "\<lparr>turn_id = ''t'', turn_session = ''s'', parent_turn_id = None, origin = OriginUser,
      turn_input = InUserChat [()], turn_status = TCompleted,
      final_result = Some (OutMessage [()] (Some 7)), emitted_span_ids = [],
      turn_created_at = 0, turn_started_at = Some 1, turn_ended_at = Some 2\<rparr> :: (unit, unit) turn"
  obtain lc calls where run: "foldl turn_system_step turn_system_new ?moves = (lc, calls)" by (cases "foldl turn_system_step turn_system_new ?moves")
  note eval = call_evaluation store_get_def store_save_def start_turn_def turn_new_def lifecycle_new_def turn_system_new_def
    edge_defs transition_at_def kind_is_terminal_def turn_is_terminal_def registry_cancel_def publish_def
  have alone: "one_call_at_a_time ''t'' turn_system_new ?moves" by (simp add: eval idle_def)
  have rest: "idle ''t'' calls" "store_get (turn_rows lc) ''t'' = Some ?t"
      "phases_of lc ''t'' = [PhStarted, PhCompleted (Some 7)]"
    using run by (auto simp: eval idle_def phases_of_def)
  from lifecycle_event_stream [OF alone run rest(1,2)] rest(3) run show ?thesis by (simp add: Let_def)
qed



text \<open>Cancelling trips the token of a running turn before the first await, whatever becomes of the call. Undisturbed, it
  succeeds on a turn that is over already and changes neither a row nor the bus; a live turn ends in a cancelled row with that
  reason and one announcement.\<close>

lemma lc_cancel_undisturbed:
  assumes "store_get (turn_rows lc) i = Some t" and "read_ok io" and "write_ok io"
  shows "let (c, lc0) = lc_cancel now i why ps lc;
       (c', lc') = ((\<lambda>(c, lc). resume_call io lc c) ^^ 4) (c, lc0)
     in (is_registered (cancel_tokens lc) i \<longrightarrow> cancel_tokens lc0 i = Some True) \<and> c' = Returned (Inr ()) \<and>
        (if turn_is_terminal t
         then turn_rows lc' = turn_rows lc \<and> lifecycle_events lc' = lifecycle_events lc
         else turn_rows lc' = store_save (turn_rows lc) (t\<lparr>turn_ended_at := Some now, turn_status := TCancelled why ps\<rparr>) \<and>
           map ev_phase (lifecycle_events lc') = map ev_phase (lifecycle_events lc) @ [PhCancelled])"
proof -
  have i: "turn_id t = i" using store_get_Some [OF assms(1)] by simp
  have four: "f ^^ 4 = f \<circ> f \<circ> f \<circ> f" for f :: "'x \<Rightarrow> 'x" by (simp add: numeral_eq_Suc comp_assoc)
  show ?thesis
    using assms i
    by (auto simp: four call_evaluation turn_cancel_def transition_at_def turn_is_terminal_def kind_is_terminal_def publish_def
        registry_cancel_def is_registered_def split: option.splits turn_status.splits)
qed

text \<open>A session is reported idle exactly when every turn of it is terminal or shows no reply
  (a compaction, a delivered cron result); otherwise the instant reported is the latest start of such
  a live turn, a still pending one counting from its creation.\<close>

lemma active_turn_started_at_exact:
  "let live = {t \<in> set (turn_rows lc). turn_session t = session \<and> \<not> turn_is_terminal t \<and> is_chat_turn t};
       since = (\<lambda>t. case turn_started_at t of None \<Rightarrow> turn_created_at t | Some s \<Rightarrow> s) in
   (case active_turn_started_at lc session of
      None \<Rightarrow> live = {}
    | Some m \<Rightarrow> m \<in> since ` live \<and> since ` live \<subseteq> {..m})"
proof -
  have live: "set (list_active_chat_turns_by_session lc session) =
      {t \<in> set (turn_rows lc). turn_session t = session \<and> \<not> turn_is_terminal t \<and> is_chat_turn t}"
  proof -
    have "kind_needs_recovery k \<longleftrightarrow> \<not> kind_is_terminal k" for k
      by (cases k) (simp_all add: kind_needs_recovery_def kind_is_terminal_def)
    then show ?thesis
      by (auto simp: list_active_chat_turns_by_session_def list_active_by_session_def turn_is_terminal_def)
  qed
  show ?thesis
    unfolding Let_def live [symmetric]
    by (cases "active_turn_started_at lc session")
      (auto simp: active_turn_started_at_def dest!: max_by_key_Some)
qed

end
