(* ===== verification/InboundDedup.thy ===== *)
theory InboundDedup
  imports Prelude
begin

text \<open>
  \<open>crates/channels/src/dedup.rs\<close>: the window of recently seen platform message ids that keeps a
  replayed inbound event from becoming a second agent turn. A channel type is its name.
\<close>

record dedup_key =
  channel_type :: string
  bot_id :: string
  msg_id :: string

record inbound_dedup =
  seen :: "dedup_key set"
  fifo :: "dedup_key list"
  capacity :: nat

definition DEFAULT_CAPACITY :: nat where
  "DEFAULT_CAPACITY = 8192"

definition with_capacity :: "nat \<Rightarrow> inbound_dedup" where
  "with_capacity n = \<lparr>seen = {}, fifo = [], capacity = n\<rparr>"

definition dedup_new :: inbound_dedup where
  "dedup_new = with_capacity DEFAULT_CAPACITY"

text \<open>The \<open>while\<close> loop of \<open>check_and_record\<close>: evict from the front until the ring fits.\<close>

fun evict :: "nat \<Rightarrow> dedup_key set \<Rightarrow> dedup_key list \<Rightarrow> dedup_key set \<times> dedup_key list" where
  "evict n s [] = (s, [])"
| "evict n s (k # ks) = (if length (k # ks) > n then evict n (s - {k}) ks else (s, k # ks))"

definition check_and_record :: "inbound_dedup \<Rightarrow> string \<Rightarrow> string \<Rightarrow> string \<Rightarrow> bool \<times> inbound_dedup" where
  "check_and_record self ch who msg =
     (if msg = [] then (True, self)
      else
        let key = \<lparr>channel_type = ch, bot_id = who, msg_id = msg\<rparr> in
        if key \<in> seen self then (False, self)
        else let (s, q) = evict (capacity self) (insert key (seen self)) (fifo self @ [key])
             in (True, self\<lparr>seen := s, fifo := q\<rparr>))"

definition dedup_remove :: "inbound_dedup \<Rightarrow> string \<Rightarrow> string \<Rightarrow> string \<Rightarrow> inbound_dedup" where
  "dedup_remove self ch who msg =
     (if msg = [] then self
      else
        let key = \<lparr>channel_type = ch, bot_id = who, msg_id = msg\<rparr> in
        if key \<in> seen self
        then self\<lparr>seen := seen self - {key}, fifo := filter (\<lambda>k. k \<noteq> key) (fifo self)\<rparr>
        else self)"

section \<open>Invariant\<close>

datatype dedup_op = DCheck string string string | DRemove string string string

primrec dedup_step :: "inbound_dedup \<Rightarrow> dedup_op \<Rightarrow> inbound_dedup" where
  "dedup_step d (DCheck ch who msg) = snd (check_and_record d ch who msg)"
| "dedup_step d (DRemove ch who msg) = dedup_remove d ch who msg"

definition dedup_inv :: "inbound_dedup \<Rightarrow> bool" where
  "dedup_inv d \<longleftrightarrow> distinct (fifo d) \<and> seen d = set (fifo d) \<and> length (fifo d) \<le> capacity d"

lemma evict_drop:
  "distinct ks \<Longrightarrow> evict n (set ks) ks = (set (drop (length ks - n) ks), drop (length ks - n) ks)"
proof (induction ks)
  case Nil
  then show ?case by simp
next
  case (Cons k ks)
  show ?case
  proof (cases "length (k # ks) > n")
    case True
    then have "length (k # ks) - n = Suc (length ks - n)" by simp
    moreover have "set (k # ks) - {k} = set ks" using Cons.prems by auto
    ultimately show ?thesis using True Cons by simp
  next
    case False
    then show ?thesis by simp
  qed
qed

lemma check_and_record_eq:
  assumes "dedup_inv d"
  shows "check_and_record d ch who msg =
    (let key = \<lparr>channel_type = ch, bot_id = who, msg_id = msg\<rparr>;
         w = fifo d @ [key]; w' = drop (length w - capacity d) w in
     if msg = [] then (True, d)
     else if key \<in> set (fifo d) then (False, d)
     else (True, d\<lparr>seen := set w', fifo := w'\<rparr>))"
proof -
  let ?key = "\<lparr>channel_type = ch, bot_id = who, msg_id = msg\<rparr>"
  have "evict (capacity d) (insert ?key (seen d)) (fifo d @ [?key]) =
      (let w = fifo d @ [?key]; w' = drop (length w - capacity d) w in (set w', w'))"
    if "?key \<notin> seen d"
    using assms that evict_drop [of "fifo d @ [?key]" "capacity d"]
    by (simp add: dedup_inv_def Let_def insert_commute)
  then show ?thesis using assms by (simp add: check_and_record_def Let_def dedup_inv_def)
qed

interpretation dedup_machine: invariant_machine dedup_step dedup_inv
proof
  fix d :: inbound_dedup and a :: dedup_op
  assume inv: "dedup_inv d"
  show "dedup_inv (dedup_step d a)"
  proof (cases a)
    case (DCheck ch who msg)
    let ?w = "fifo d @ [\<lparr>channel_type = ch, bot_id = who, msg_id = msg\<rparr>]"
    have "distinct (drop n ?w)" if "\<lparr>channel_type = ch, bot_id = who, msg_id = msg\<rparr> \<notin> set (fifo d)" for n
      using inv that by (intro distinct_drop) (simp add: dedup_inv_def)
    then show ?thesis
      using inv DCheck by (auto simp: check_and_record_eq [OF inv] Let_def dedup_inv_def simp del: drop_append)
  next
    case (DRemove ch who msg)
    then show ?thesis
      using inv by (auto simp: dedup_remove_def Let_def dedup_inv_def intro: le_trans [OF length_filter_le])
  qed
qed

lemma dedup_inv_with_capacity: "dedup_inv (with_capacity n)"
  by (simp add: dedup_inv_def with_capacity_def)

lemma dedup_capacity [simp]: "capacity (dedup_step d a) = capacity d"
  by (cases a) (simp_all add: check_and_record_def dedup_remove_def Let_def split: prod.splits)

lemma dedup_run_capacity: "capacity (foldl dedup_step d ops) = capacity d"
  by (induction ops arbitrary: d) simp_all

lemma dedup_run_inv:
  "dedup_inv (foldl dedup_step (with_capacity n) ops) \<and>
   capacity (foldl dedup_step (with_capacity n) ops) = n"
  using dedup_machine.run_inv [OF dedup_inv_with_capacity, of n ops] dedup_run_capacity
  by (simp add: with_capacity_def)

text \<open>The messages of a stream that are let through, in order.\<close>

fun admitted :: "inbound_dedup \<Rightarrow> dedup_key list \<Rightarrow> dedup_key list" where
  "admitted d [] = []"
| "admitted d (k # ks) =
     (let (fresh, d') = check_and_record d (channel_type k) (bot_id k) (msg_id k)
      in if fresh then k # admitted d' ks else admitted d' ks)"

definition first_occurrences :: "'a list \<Rightarrow> 'a list" where
  "first_occurrences xs = rev (remdups (rev xs))"

lemma remdups_snoc: "remdups (xs @ [k]) = filter (\<lambda>x. x \<noteq> k) (remdups xs) @ [k]"
  by (induction xs) auto

lemma first_occurrences_Cons [simp]:
  "first_occurrences (k # ks) = k # filter (\<lambda>x. x \<noteq> k) (first_occurrences ks)"
  by (simp add: first_occurrences_def remdups_snoc rev_filter)

lemma first_occurrences_Nil [simp]: "first_occurrences [] = []"
  by (simp add: first_occurrences_def)

lemma admitted_filter:
  assumes "dedup_inv d" and "card (set (fifo d) \<union> set ks) \<le> capacity d"
    and "\<forall>k \<in> set ks. msg_id k \<noteq> []"
  shows "admitted d ks = filter (\<lambda>k. k \<notin> set (fifo d)) (first_occurrences ks)"
  using assms
proof (induction ks arbitrary: d)
  case Nil
  then show ?case by simp
next
  case (Cons k ks)
  have k: "\<lparr>channel_type = channel_type k, bot_id = bot_id k, msg_id = msg_id k\<rparr> = k" by simp
  note check = check_and_record_eq [OF Cons.prems(1), of "channel_type k" "bot_id k" "msg_id k",
      unfolded k Let_def]
  show ?case
  proof (cases "k \<in> set (fifo d)")
    case True
    have "insert k (set (fifo d) \<union> set ks) = set (fifo d) \<union> set ks" using True by auto
    then have "admitted d ks = filter (\<lambda>k. k \<notin> set (fifo d)) (first_occurrences ks)"
      using Cons by simp
    moreover have "filter (\<lambda>x. x \<notin> set (fifo d)) (filter (\<lambda>x. x \<noteq> k) xs) =
        filter (\<lambda>x. x \<notin> set (fifo d)) xs" for xs using True by (auto simp: filter_filter intro: filter_cong)
    ultimately show ?thesis using True Cons.prems(3) check by simp
  next
    case False
    have "length (fifo d @ [k]) = card (set (fifo d @ [k]))"
      using Cons.prems(1) False by (simp add: dedup_inv_def distinct_card)
    also have "\<dots> \<le> card (set (fifo d) \<union> set (k # ks))" by (rule card_mono) auto
    also have "\<dots> \<le> capacity d" by (rule Cons.prems(2))
    finally have fits: "length (fifo d @ [k]) - capacity d = 0" by simp
    let ?d = "d\<lparr>seen := set (fifo d @ [k]), fifo := fifo d @ [k]\<rparr>"
    have step: "check_and_record d (channel_type k) (bot_id k) (msg_id k) = (True, ?d)"
      using False Cons.prems(3) fits by (simp add: check)
    have "dedup_inv ?d" using dedup_machine.step_inv [OF Cons.prems(1),
        of "DCheck (channel_type k) (bot_id k) (msg_id k)"] step by simp
    moreover have "set (fifo ?d) \<union> set ks = set (fifo d) \<union> set (k # ks)" by auto
    ultimately have "admitted ?d ks = filter (\<lambda>x. x \<notin> set (fifo ?d)) (first_occurrences ks)"
      using Cons.prems(2,3) by (intro Cons.IH) (simp_all del: set_append)
    then show ?thesis using False by (simp add: step filter_filter conj_commute)
  qed
qed

section \<open>Properties\<close>

text \<open>Replay safety: a stream of identified messages with no more distinct ids than the window
  holds is let through exactly once per message, at its first occurrence and in order, however often
  and wherever a message is replayed.\<close>

lemma each_message_admitted_once:
  assumes "card (set ks) \<le> n" and "\<forall>k \<in> set ks. msg_id k \<noteq> []"
  shows "admitted (with_capacity n) ks = first_occurrences ks"
  using admitted_filter [OF dedup_inv_with_capacity, of n ks] assms
  by (simp add: with_capacity_def)

lemma each_message_admitted_once_witness:
  "let k = (\<lambda>m. \<lparr>channel_type = ''tg'', bot_id = ''b'', msg_id = m\<rparr>) in
   admitted (with_capacity 2) [k ''1'', k ''2'', k ''1'', k ''2'', k ''1''] = [k ''1'', k ''2'']"
  using each_message_admitted_once [where n = 2 and
      ks = "[\<lparr>channel_type = ''tg'', bot_id = ''b'', msg_id = ''1''\<rparr>,
        \<lparr>channel_type = ''tg'', bot_id = ''b'', msg_id = ''2''\<rparr>,
        \<lparr>channel_type = ''tg'', bot_id = ''b'', msg_id = ''1''\<rparr>,
        \<lparr>channel_type = ''tg'', bot_id = ''b'', msg_id = ''2''\<rparr>,
        \<lparr>channel_type = ''tg'', bot_id = ''b'', msg_id = ''1''\<rparr>]"]
  by (simp add: Let_def card_insert_if del: admitted.simps)

text \<open>After any history of records and removals the lookup set holds exactly the ring's keys, each
  once, and at most the capacity; a message is refused exactly when it carries an id still in the ring;
  and a key that was removed is let through again.\<close>

lemma dedup_window_exact:
  "let d = foldl dedup_step (with_capacity n) ops;
       key = \<lparr>channel_type = ch, bot_id = who, msg_id = msg\<rparr> in
     seen d = set (fifo d) \<and> distinct (fifo d) \<and> length (fifo d) \<le> n \<and>
     (\<not> fst (check_and_record d ch who msg) \<longleftrightarrow> msg \<noteq> [] \<and> key \<in> set (fifo d)) \<and>
     fst (check_and_record (dedup_remove d ch who msg) ch who msg)"
proof -
  let ?d = "foldl dedup_step (with_capacity n) ops"
  note inv = dedup_run_inv [of n ops]
  have "fst (check_and_record (dedup_remove ?d ch who msg) ch who msg)"
    by (simp add: check_and_record_def dedup_remove_def Let_def split: prod.splits)
  with inv show ?thesis
    by (auto simp: Let_def dedup_inv_def check_and_record_def split: prod.splits if_splits)
qed

end
