(* ===== verification/HashMaps.thy ===== *)
theory HashMaps
  imports Prelude
begin

text \<open>
  \<open>HashMap<K, V>\<close> as the relay registries use it: an association list with distinct keys, \<open>hash_map\<close>
  when the keys are strings. The locale \<open>keyed_map\<close> states the laws the registries rely on; they are discharged for the lists here
  and the registries' proofs use the interpreted facts.
\<close>

type_synonym ('k, 'v) table = "('k \<times> 'v) list"
type_synonym 'v hash_map = "(string, 'v) table"

definition hm_get :: "('k, 'v) table \<Rightarrow> 'k \<Rightarrow> 'v option" where
  "hm_get m k = map_of m k"

definition hm_remove :: "'k \<Rightarrow> ('k, 'v) table \<Rightarrow> ('k, 'v) table" where
  "hm_remove k m = filter (\<lambda>p. fst p \<noteq> k) m"

definition hm_insert :: "'k \<Rightarrow> 'v \<Rightarrow> ('k, 'v) table \<Rightarrow> ('k, 'v) table" where
  "hm_insert k v m = (k, v) # hm_remove k m"

definition hm_retain :: "('k \<Rightarrow> 'v \<Rightarrow> bool) \<Rightarrow> ('k, 'v) table \<Rightarrow> ('k, 'v) table" where
  "hm_retain P m = filter (\<lambda>p. P (fst p) (snd p)) m"

definition hm_ok :: "('k, 'v) table \<Rightarrow> bool" where
  "hm_ok m \<longleftrightarrow> distinct (map fst m)"

locale keyed_map =
  fixes get :: "'m \<Rightarrow> 'k \<Rightarrow> 'v option"
    and insert_entry :: "'k \<Rightarrow> 'v \<Rightarrow> 'm \<Rightarrow> 'm"
    and remove_entry :: "'k \<Rightarrow> 'm \<Rightarrow> 'm"
    and len :: "'m \<Rightarrow> nat"
    and ok :: "'m \<Rightarrow> bool"
  assumes get_insert: "get (insert_entry k v m) j = (if j = k then Some v else get m j)"
    and get_remove: "get (remove_entry k m) j = (if j = k then None else get m j)"
    and ok_insert: "ok m \<Longrightarrow> ok (insert_entry k v m)"
    and ok_remove: "ok m \<Longrightarrow> ok (remove_entry k m)"
    and len_remove: "ok m \<Longrightarrow> len (remove_entry k m) = len m - (if get m k = None then 0 else 1)"
    and len_insert: "len (insert_entry k v m) = Suc (len (remove_entry k m))"
    and len_pos: "get m k \<noteq> None \<Longrightarrow> 0 < len m"
begin

lemma len_insert_le: "ok m \<Longrightarrow> len (insert_entry k v m) \<le> Suc (len m)"
  by (simp add: len_insert len_remove)

lemma len_insert_new: "ok m \<Longrightarrow> get m k = None \<Longrightarrow> len (insert_entry k v m) = Suc (len m)"
  by (simp add: len_insert len_remove)

lemma len_insert_old: "ok m \<Longrightarrow> get m k \<noteq> None \<Longrightarrow> len (insert_entry k v m) = len m"
  using len_pos [of m k] by (simp add: len_insert len_remove)

lemma get_remove_insert: "get (remove_entry k (insert_entry k v m)) j = get (remove_entry k m) j"
  by (simp add: get_remove get_insert)

end

lemma hm_get_Some: "hm_ok m \<Longrightarrow> hm_get m k = Some v \<longleftrightarrow> (k, v) \<in> set m"
  by (simp add: hm_get_def hm_ok_def)

lemma hm_get_None: "hm_get m k = None \<longleftrightarrow> k \<notin> fst ` set m"
  by (simp add: hm_get_def map_of_eq_None_iff)

lemma set_hm_remove [simp]: "set (hm_remove k m) = {p \<in> set m. fst p \<noteq> k}"
  by (auto simp: hm_remove_def)

lemma hm_get_remove [simp]: "hm_get (hm_remove k m) j = (if j = k then None else hm_get m j)"
  by (induction m) (auto simp: hm_remove_def hm_get_def)

lemma hm_get_insert [simp]: "hm_get (hm_insert k v m) j = (if j = k then Some v else hm_get m j)"
  using hm_get_remove [of k m j] by (simp add: hm_insert_def hm_get_def)

lemma hm_ok_remove [simp]: "hm_ok m \<Longrightarrow> hm_ok (hm_remove k m)"
  by (simp add: hm_ok_def hm_remove_def distinct_map_filter)

lemma hm_ok_retain [simp]: "hm_ok m \<Longrightarrow> hm_ok (hm_retain P m)"
  by (simp add: hm_ok_def hm_retain_def distinct_map_filter)

lemma hm_ok_insert [simp]: "hm_ok m \<Longrightarrow> hm_ok (hm_insert k v m)"
  using hm_ok_remove [of m k] by (auto simp: hm_insert_def hm_ok_def)

lemma hm_get_retain:
  "hm_ok m \<Longrightarrow> hm_get (hm_retain P m) k =
     (case hm_get m k of None \<Rightarrow> None | Some v \<Rightarrow> if P k v then Some v else None)"
  by (induction m) (force simp: hm_retain_def hm_get_def hm_ok_def split: option.splits dest: map_of_SomeD)+

lemma length_hm_remove:
  "hm_ok m \<Longrightarrow> length (hm_remove k m) = length m - (if hm_get m k = None then 0 else 1)"
proof (induction m)
  case Nil
  then show ?case by (simp add: hm_remove_def)
next
  case (Cons p m)
  have ok: "hm_ok m" using Cons.prems by (simp add: hm_ok_def)
  show ?case
  proof (cases "fst p = k")
    case True
    then have "k \<notin> fst ` set m" using Cons.prems by (auto simp: hm_ok_def)
    then have "hm_remove k m = m" by (auto simp: hm_remove_def filter_id_conv)
    with True show ?thesis by (cases p) (simp add: hm_remove_def hm_get_def)
  next
    case False
    have "hm_get m k \<noteq> None \<Longrightarrow> 0 < length m" by (cases m) (auto simp: hm_get_def)
    with False Cons.IH [OF ok] show ?thesis
      by (cases p) (auto simp: hm_remove_def hm_get_def)
  qed
qed

interpretation hash_map: keyed_map hm_get hm_insert hm_remove length hm_ok
proof
  show "hm_get m k \<noteq> None \<Longrightarrow> 0 < length m" for m :: "('a, 'b) table" and k
    by (cases m) (auto simp: hm_get_def)
qed (simp_all add: length_hm_remove, simp add: hm_insert_def)

end
