(* ===== verification/RelayBroker.thy ===== *)
theory RelayBroker
  imports HashMaps
begin

text \<open>
  \<open>remote-host/crates/relay/src/broker.rs\<close>: the broker that matches two relay legs by key and
  splices them. Every \<open>mpsc::channel\<close> call makes a new channel; a channel is its number, a sender or
  receiver half is the number of its channel, and \<open>next_channel\<close> is the source of fresh numbers.
  The frames themselves are never looked at.
\<close>

record relay_leg =
  to_peer :: nat
  from_peer :: nat

datatype park_outcome = Parked relay_leg | Occupied | AtCapacity

record pending_half =
  from_first :: nat
  to_first :: nat
  parked_at :: instant

record relay_broker =
  pending :: "pending_half hash_map"
  max_pending :: nat
  next_channel :: nat

definition PENDING_TTL :: duration where
  "PENDING_TTL = secs 120"

definition MAX_PENDING_LEGS :: nat where
  "MAX_PENDING_LEGS = 1024"

definition broker_new :: relay_broker where
  "broker_new = \<lparr>pending = [], max_pending = MAX_PENDING_LEGS, next_channel = 0\<rparr>"

definition with_max_pending :: "relay_broker \<Rightarrow> nat \<Rightarrow> relay_broker" where
  "with_max_pending self n = self\<lparr>max_pending := max n 1\<rparr>"

text \<open>\<open>Instant::duration_since\<close> is zero when the argument is later.\<close>

definition duration_since :: "instant \<Rightarrow> instant \<Rightarrow> duration" where
  "duration_since now earlier = max 0 (now - earlier)"

definition sweep_pending ::
    "instant \<Rightarrow> pending_half hash_map \<Rightarrow> duration \<Rightarrow> nat \<times> pending_half hash_map" where
  "sweep_pending now m ttl =
     (let kept = hm_retain (\<lambda>_ half. duration_since now (parked_at half) < ttl) m
      in (length m - length kept, kept))"

definition second_leg :: "pending_half \<Rightarrow> relay_leg" where
  "second_leg half = \<lparr>to_peer = to_first half, from_peer = from_first half\<rparr>"

text \<open>Two fresh channels, the half that waits and the leg the parking caller gets.\<close>

definition park_new :: "instant \<Rightarrow> relay_broker \<Rightarrow> pending_half hash_map \<Rightarrow> string \<Rightarrow> relay_leg \<times> relay_broker"
  where
  "park_new now self m key =
     (let c1 = next_channel self; c2 = Suc c1 in
      (\<lparr>to_peer = c1, from_peer = c2\<rparr>,
       self\<lparr>pending := hm_insert key \<lparr>from_first = c1, to_first = c2, parked_at = now\<rparr> m,
            next_channel := Suc c2\<rparr>))"

definition broker_join :: "instant \<Rightarrow> relay_broker \<Rightarrow> string \<Rightarrow> relay_leg option \<times> relay_broker" where
  "broker_join now self key =
     (case hm_get (pending self) key of
        Some half \<Rightarrow> (Some (second_leg half), self\<lparr>pending := hm_remove key (pending self)\<rparr>)
      | None \<Rightarrow>
          let m = snd (sweep_pending now (pending self) PENDING_TTL) in
          if length m \<ge> max_pending self then (None, self\<lparr>pending := m\<rparr>)
          else let (leg, self') = park_new now self m key in (Some leg, self'))"

definition broker_park :: "instant \<Rightarrow> relay_broker \<Rightarrow> string \<Rightarrow> park_outcome \<times> relay_broker" where
  "broker_park now self key =
     (let m = snd (sweep_pending now (pending self) PENDING_TTL) in
      if hm_get m key \<noteq> None then (Occupied, self\<lparr>pending := m\<rparr>)
      else if length m \<ge> max_pending self then (AtCapacity, self\<lparr>pending := m\<rparr>)
      else let (leg, self') = park_new now self m key in (Parked leg, self'))"

definition broker_sweep :: "instant \<Rightarrow> relay_broker \<Rightarrow> duration \<Rightarrow> nat \<times> relay_broker" where
  "broker_sweep now self ttl =
     (let (n, m) = sweep_pending now (pending self) ttl in (n, self\<lparr>pending := m\<rparr>))"

definition try_match :: "relay_broker \<Rightarrow> string \<Rightarrow> relay_leg option \<times> relay_broker" where
  "try_match self key =
     (map_option second_leg (hm_get (pending self) key),
      self\<lparr>pending := hm_remove key (pending self)\<rparr>)"

definition broker_cancel :: "relay_broker \<Rightarrow> string \<Rightarrow> bool \<times> relay_broker" where
  "broker_cancel self key =
     (hm_get (pending self) key \<noteq> None, self\<lparr>pending := hm_remove key (pending self)\<rparr>)"

definition pending_len :: "relay_broker \<Rightarrow> nat" where
  "pending_len self = length (pending self)"

section \<open>Histories\<close>

text \<open>The callers: a content leg joins, a pairing host parks, an app matches.\<close>

datatype leg_caller = ContentLeg | HostLeg | AppLeg

datatype broker_op =
    BJoin instant string
  | BPark instant string
  | BTryMatch string
  | BCancel string
  | BSweep instant duration

text \<open>A leg that was handed out: under which key, to whom, and whether it was matched to a waiting one.\<close>

record issued_leg =
  leg_key :: string
  leg_to :: leg_caller
  leg_matched :: bool
  leg :: relay_leg

type_synonym broker_run = "relay_broker \<times> issued_leg list"

fun broker_step :: "broker_run \<Rightarrow> broker_op \<Rightarrow> broker_run" where
  "broker_step (b, out) (BJoin now key) =
     (case broker_join now b key of
        (None, b') \<Rightarrow> (b', out)
      | (Some l, b') \<Rightarrow>
          (b', out @ [\<lparr>leg_key = key, leg_to = ContentLeg,
                       leg_matched = (hm_get (pending b) key \<noteq> None), leg = l\<rparr>]))"
| "broker_step (b, out) (BPark now key) =
     (case broker_park now b key of
        (Parked l, b') \<Rightarrow>
          (b', out @ [\<lparr>leg_key = key, leg_to = HostLeg, leg_matched = False, leg = l\<rparr>])
      | (_, b') \<Rightarrow> (b', out))"
| "broker_step (b, out) (BTryMatch key) =
     (case try_match b key of
        (None, b') \<Rightarrow> (b', out)
      | (Some l, b') \<Rightarrow>
          (b', out @ [\<lparr>leg_key = key, leg_to = AppLeg, leg_matched = True, leg = l\<rparr>]))"
| "broker_step (b, out) (BCancel key) = (snd (broker_cancel b key), out)"
| "broker_step (b, out) (BSweep now ttl) = (snd (broker_sweep now b ttl), out)"

text \<open>The channel from the parking leg to its partner identifies a pair of channels.\<close>

definition leg_pair :: "issued_leg \<Rightarrow> nat" where
  "leg_pair i = (if leg_matched i then from_peer (leg i) else to_peer (leg i))"

definition leg_ok :: "issued_leg \<Rightarrow> bool" where
  "leg_ok i \<longleftrightarrow>
     even (leg_pair i) \<and>
     leg i = (if leg_matched i then \<lparr>to_peer = Suc (leg_pair i), from_peer = leg_pair i\<rparr>
              else \<lparr>to_peer = leg_pair i, from_peer = Suc (leg_pair i)\<rparr>) \<and>
     (leg_to i = HostLeg \<longrightarrow> \<not> leg_matched i)"

text \<open>The legs handed out use distinct halves of pairs below \<open>n\<close>, and a pair belongs to one key.\<close>

definition legs_ok :: "nat \<Rightarrow> issued_leg list \<Rightarrow> bool" where
  "legs_ok n out \<longleftrightarrow>
     (\<forall>i \<in> set out. leg_ok i \<and> leg_pair i < n) \<and>
     distinct (map (\<lambda>i. (leg_matched i, leg_pair i)) out) \<and>
     (\<forall>i \<in> set out. \<forall>j \<in> set out. leg_pair i = leg_pair j \<longrightarrow> leg_key i = leg_key j)"

text \<open>A waiting half belongs to a leg parked under its key and its pair is not matched yet.\<close>

definition half_ok :: "issued_leg list \<Rightarrow> string \<Rightarrow> pending_half \<Rightarrow> bool" where
  "half_ok out k h \<longleftrightarrow>
     to_first h = Suc (from_first h) \<and>
     (\<exists>i \<in> set out. \<not> leg_matched i \<and> leg_key i = k \<and> leg_pair i = from_first h) \<and>
     (\<forall>i \<in> set out. leg_matched i \<longrightarrow> leg_pair i \<noteq> from_first h)"

fun broker_inv :: "broker_run \<Rightarrow> bool" where
  "broker_inv (b, out) \<longleftrightarrow>
     hm_ok (pending b) \<and> length (pending b) \<le> max_pending b \<and> even (next_channel b) \<and>
     legs_ok (next_channel b) out \<and> (\<forall>k h. (k, h) \<in> set (pending b) \<longrightarrow> half_ok out k h)"

lemma legs_ok_key:
  "legs_ok n out \<Longrightarrow> i \<in> set out \<Longrightarrow> j \<in> set out \<Longrightarrow> leg_pair i = leg_pair j \<Longrightarrow> leg_key i = leg_key j"
  unfolding legs_ok_def by blast

lemma legs_ok_leg: "legs_ok n out \<Longrightarrow> i \<in> set out \<Longrightarrow> leg_ok i \<and> leg_pair i < n"
  unfolding legs_ok_def by blast

lemma legs_ok_distinct: "legs_ok n out \<Longrightarrow> distinct (map (\<lambda>i. (leg_matched i, leg_pair i)) out)"
  unfolding legs_ok_def by blast

lemma legs_ok_snoc:
  assumes "legs_ok n out" and "n \<le> n'" and "leg_ok i" and "leg_pair i < n'"
    and "\<And>j. j \<in> set out \<Longrightarrow> leg_pair j = leg_pair i \<Longrightarrow> leg_matched j \<noteq> leg_matched i \<and> leg_key j = leg_key i"
  shows "legs_ok n' (out @ [i])"
proof -
  have new: "(leg_matched i, leg_pair i) \<notin> (\<lambda>i. (leg_matched i, leg_pair i)) ` set out"
  proof
    assume "(leg_matched i, leg_pair i) \<in> (\<lambda>i. (leg_matched i, leg_pair i)) ` set out"
    then obtain j where "(leg_matched i, leg_pair i) = (leg_matched j, leg_pair j)" and j: "j \<in> set out"
      by (rule imageE)
    with assms(5) [OF j] show False by simp
  qed
  moreover have "leg_key x = leg_key y"
    if xy: "x \<in> set (out @ [i])" "y \<in> set (out @ [i])" "leg_pair x = leg_pair y" for x y
  proof -
    consider "x = i" "y = i" | "x = i" "y \<in> set out" | "y = i" "x \<in> set out"
      | "x \<in> set out" "y \<in> set out" using xy(1,2) by auto
    then show ?thesis
    proof cases
      case 2
      then show ?thesis using assms(5) [of y] xy(3) by simp
    next
      case 3
      then show ?thesis using assms(5) [of x] xy(3) by simp
    next
      case 4
      then show ?thesis using legs_ok_key [OF assms(1)] xy(3) by blast
    qed simp
  qed
  moreover have "leg_ok x \<and> leg_pair x < n'" if "x \<in> set (out @ [i])" for x
    using that legs_ok_leg [OF assms(1), of x] assms(2-4) by auto
  moreover have "distinct (map (\<lambda>i. (leg_matched i, leg_pair i)) (out @ [i]))"
    using legs_ok_distinct [OF assms(1)] new by simp
  ultimately show ?thesis unfolding legs_ok_def by blast
qed

lemma half_ok_snoc:
  "half_ok out k h \<Longrightarrow> (leg_matched i \<Longrightarrow> leg_pair i \<noteq> from_first h) \<Longrightarrow> half_ok (out @ [i]) k h"
  by (auto simp: half_ok_def)

lemma broker_inv_shrink:
  assumes "broker_inv (b, out)" and "set m \<subseteq> set (pending b)" and "hm_ok m"
    and "length m \<le> length (pending b)"
  shows "broker_inv (b\<lparr>pending := m\<rparr>, out)"
  using assms by (simp add: subset_iff)

lemma broker_inv_park:
  assumes inv: "broker_inv (b, out)" and free: "hm_get (pending b) key = None"
    and room: "length (pending b) < max_pending b" and l: "park_new now b (pending b) key = (l, b')"
  shows "broker_inv (b', out @ [\<lparr>leg_key = key, leg_to = caller, leg_matched = False, leg = l\<rparr>])"
    (is "broker_inv (b', out @ [?i])")
proof -
  let ?c = "next_channel b"
  let ?h = "\<lparr>from_first = ?c, to_first = Suc ?c, parked_at = now\<rparr>"
  have b': "b' = b\<lparr>pending := hm_insert key ?h (pending b), next_channel := Suc (Suc ?c)\<rparr>"
    and leg: "l = \<lparr>to_peer = ?c, from_peer = Suc ?c\<rparr>"
    using l by (auto simp: park_new_def Let_def)
  have ok: "hm_ok (pending b)" and legs: "legs_ok ?c out" and ev: "even ?c" using inv by simp_all
  have old: "leg_pair i < ?c" if "i \<in> set out" for i using legs_ok_leg [OF legs that] by simp
  have pair: "leg_pair ?i = ?c" by (simp add: leg_pair_def leg)
  have "legs_ok (Suc (Suc ?c)) (out @ [?i])"
  proof (rule legs_ok_snoc [OF legs])
    show "leg_ok ?i" using ev by (simp add: leg_ok_def leg_pair_def leg)
    show "leg_matched j \<noteq> leg_matched ?i \<and> leg_key j = leg_key ?i"
      if "j \<in> set out" "leg_pair j = leg_pair ?i" for j
      using old [OF that(1)] that(2) pair by simp
  qed (simp_all add: pair)
  moreover have "half_ok (out @ [?i]) k h" if "(k, h) \<in> set (hm_insert key ?h (pending b))" for k h
  proof (cases "(k, h) \<in> set (pending b)")
    case True
    then show ?thesis using inv by (intro half_ok_snoc) auto
  next
    case False
    then have "k = key" "h = ?h" using that by (auto simp: hm_insert_def)
    then show ?thesis using pair old by (fastforce simp: half_ok_def)
  qed
  moreover have "length (pending b') \<le> max_pending b"
    using hash_map.len_insert_new [OF ok free] room by (simp add: b')
  ultimately show ?thesis using ok ev by (simp add: b')
qed

lemma broker_inv_match:
  assumes inv: "broker_inv (b, out)" and h: "hm_get (pending b) key = Some half" and "caller \<noteq> HostLeg"
  shows "broker_inv (b\<lparr>pending := hm_remove key (pending b)\<rparr>,
     out @ [\<lparr>leg_key = key, leg_to = caller, leg_matched = True, leg = second_leg half\<rparr>])"
    (is "broker_inv (?b, out @ [?i])")
proof -
  let ?c = "from_first half"
  have ok: "hm_ok (pending b)" and legs: "legs_ok (next_channel b) out" using inv by simp_all
  have "(key, half) \<in> set (pending b)" using h by (simp add: hm_get_Some [OF ok])
  then have "half_ok out key half" using inv by simp
  then obtain j where j: "j \<in> set out" "\<not> leg_matched j" "leg_key j = key" "leg_pair j = ?c"
    and half: "to_first half = Suc ?c" and unused: "\<And>i. i \<in> set out \<Longrightarrow> leg_matched i \<Longrightarrow> leg_pair i \<noteq> ?c"
    by (auto simp: half_ok_def)
  have key: "leg_key i = key" if "i \<in> set out" "leg_pair i = ?c" for i
    using legs_ok_key [OF legs that(1) j(1)] that(2) j(3,4) by simp
  have pair: "leg_pair ?i = ?c" by (simp add: leg_pair_def second_leg_def)
  have "even ?c" and c: "?c < next_channel b"
    using legs_ok_leg [OF legs j(1)] j(4) by (simp_all add: leg_ok_def)
  have "legs_ok (next_channel b) (out @ [?i])"
  proof (rule legs_ok_snoc [OF legs])
    show "leg_ok ?i" using \<open>even ?c\<close> half assms(3) by (simp add: leg_ok_def leg_pair_def second_leg_def)
    show "leg_matched j \<noteq> leg_matched ?i \<and> leg_key j = leg_key ?i"
      if "j \<in> set out" "leg_pair j = leg_pair ?i" for j
      using unused [OF that(1)] key [OF that(1)] that(2) pair by auto
  qed (simp_all add: pair c)
  moreover have "half_ok (out @ [?i]) k g" if g: "(k, g) \<in> set (pending b)" "k \<noteq> key" for k g
  proof (rule half_ok_snoc)
    show "half_ok out k g" using inv g by simp
    then obtain x where "x \<in> set out" "leg_key x = k" "leg_pair x = from_first g"
      by (auto simp: half_ok_def)
    then show "leg_pair ?i \<noteq> from_first g" using key [of x] g(2) pair by auto
  qed
  moreover have "length (hm_remove key (pending b)) \<le> length (pending b)"
    by (simp add: hm_remove_def)
  ultimately show ?thesis using inv ok by (auto intro: le_trans)
qed

lemma broker_inv_sweep:
  "broker_inv (b, out) \<Longrightarrow> broker_inv (b\<lparr>pending := snd (sweep_pending now (pending b) ttl)\<rparr>, out)"
  by (rule broker_inv_shrink) (simp_all add: sweep_pending_def Let_def hm_retain_def hm_ok_def
      distinct_map_filter subset_iff)

lemma broker_inv_remove:
  "broker_inv (b, out) \<Longrightarrow> broker_inv (b\<lparr>pending := hm_remove key (pending b)\<rparr>, out)"
  by (rule broker_inv_shrink) (simp_all add: subset_iff, simp add: hm_remove_def)

lemma hm_get_sweep:
  "hm_ok m \<Longrightarrow> hm_get (snd (sweep_pending now m ttl)) key =
     (case hm_get m key of None \<Rightarrow> None
      | Some h \<Rightarrow> if duration_since now (parked_at h) < ttl then Some h else None)"
  by (simp add: sweep_pending_def Let_def hm_get_retain)

lemma park_new_pending [simp]: "park_new now (b\<lparr>pending := x\<rparr>) m key = park_new now b m key"
  by (simp add: park_new_def Let_def)

interpretation broker_machine: invariant_machine broker_step broker_inv
proof
  fix s :: broker_run and a :: broker_op
  assume "broker_inv s"
  moreover obtain b out where s: "s = (b, out)" by (cases s)
  ultimately have inv: "broker_inv (b, out)" by simp
  have ok: "hm_ok (pending b)" using inv by simp
  show "broker_inv (broker_step s a)"
  proof (cases a)
    case (BJoin now key)
    let ?m = "snd (sweep_pending now (pending b) PENDING_TTL)"
    show ?thesis
    proof (cases "hm_get (pending b) key")
      case (Some half)
      then show ?thesis
        using broker_inv_match [OF inv Some] by (simp add: BJoin s broker_join_def del: broker_inv.simps)
    next
      case None
      obtain l b' where l: "park_new now b ?m key = (l, b')" by fastforce
      have "broker_inv (b', out @ [\<lparr>leg_key = key, leg_to = ContentLeg, leg_matched = False, leg = l\<rparr>])"
        if "length ?m < max_pending b"
        by (rule broker_inv_park [where now = now, OF broker_inv_sweep [OF inv]])
          (use that None l ok in \<open>simp_all add: hm_get_sweep\<close>)
      then show ?thesis
        using None l broker_inv_sweep [OF inv]
        by (simp add: BJoin s broker_join_def Let_def not_le del: broker_inv.simps)
    qed
  next
    case (BPark now key)
    let ?m = "snd (sweep_pending now (pending b) PENDING_TTL)"
    obtain l b' where l: "park_new now b ?m key = (l, b')" by fastforce
    have "broker_inv (b', out @ [\<lparr>leg_key = key, leg_to = HostLeg, leg_matched = False, leg = l\<rparr>])"
      if "length ?m < max_pending b" "hm_get ?m key = None"
      by (rule broker_inv_park [where now = now, OF broker_inv_sweep [OF inv]])
        (use that l in simp_all)
    then show ?thesis
      using l broker_inv_sweep [OF inv]
      by (simp add: BPark s broker_park_def Let_def not_le del: broker_inv.simps)
  next
    case (BTryMatch key)
    then show ?thesis
      using inv broker_inv_remove [OF inv, of key] broker_inv_match [OF inv, of key _ AppLeg]
      by (cases "hm_get (pending b) key") (simp_all add: s try_match_def del: broker_inv.simps)
  next
    case (BCancel key)
    then show ?thesis
      using broker_inv_remove [OF inv] by (simp add: s broker_cancel_def del: broker_inv.simps)
  next
    case (BSweep now ttl)
    then show ?thesis
      using broker_inv_sweep [OF inv, of now ttl]
      by (simp add: s broker_sweep_def case_prod_beta del: broker_inv.simps)
  qed
qed

lemma broker_inv_start: "broker_inv (with_max_pending broker_new n, [])"
  by (simp add: with_max_pending_def broker_new_def legs_ok_def hm_ok_def)

lemma broker_step_max: "max_pending (fst (broker_step s a)) = max_pending (fst s)"
proof -
  obtain b out where s: "s = (b, out)" by (cases s)
  show ?thesis
    by (cases a) (auto simp: s broker_join_def broker_park_def park_new_def try_match_def
        broker_cancel_def broker_sweep_def Let_def split: option.splits prod.splits park_outcome.splits)
qed

lemma broker_run_max: "max_pending (fst (foldl broker_step s ops)) = max_pending (fst s)"
  by (induction ops arbitrary: s) (simp_all add: broker_step_max)

lemma leg_ok_shape:
  "leg_ok i \<Longrightarrow> even (leg_pair i) \<and> to_peer (leg i) = leg_pair i + (if leg_matched i then 1 else 0) \<and>
     from_peer (leg i) = leg_pair i + (if leg_matched i then 0 else 1)"
  unfolding leg_ok_def
  by (cases "leg_matched i") simp_all

section \<open>Properties\<close>

text \<open>C17: The broker only ever joins two legs, of one key. Whatever the callers do, in whatever order,
  every channel is sent into by one leg and read by one leg; if what a leg sends reaches another, that
  one's frames reach the first, both were opened under the same key, exactly one of them had been
  waiting for the other, and they are never two pairing hosts. No more legs wait than the ceiling
  allows.\<close>

theorem broker_splices_pairs:
  assumes "foldl broker_step (with_max_pending broker_new n, []) ops = (b, out)"
  shows "distinct (map (\<lambda>i. to_peer (leg i)) out) \<and> distinct (map (\<lambda>i. from_peer (leg i)) out) \<and>
     (\<forall>x \<in> set out. \<forall>y \<in> set out. to_peer (leg x) = from_peer (leg y) \<longrightarrow>
        to_peer (leg y) = from_peer (leg x) \<and> leg_key x = leg_key y \<and> leg_matched x \<noteq> leg_matched y \<and>
        \<not> (leg_to x = HostLeg \<and> leg_to y = HostLeg)) \<and>
     pending_len b \<le> max n 1"
proof -
  have inv: "broker_inv (b, out)"
    using broker_machine.run_inv [OF broker_inv_start, of n ops] assms by simp
  then have legs: "legs_ok (next_channel b) out" by simp
  have shape: "even (leg_pair i)" "to_peer (leg i) = leg_pair i + (if leg_matched i then 1 else 0)"
    "from_peer (leg i) = leg_pair i + (if leg_matched i then 0 else 1)" if "i \<in> set out" for i
    using legs_ok_leg [OF legs that] leg_ok_shape by blast+
  have parity: "x + (if a then 1 else 0) = y + (if b then 1 else 0) \<longleftrightarrow> x = y \<and> a = b"
    if "even x" "even y" for x y :: nat and a b using that by (cases a; cases b) (auto dest: arg_cong [of _ _ even])
  have inj: "inj_on (\<lambda>i. (leg_matched i, leg_pair i)) (set out)" and d: "distinct out"
    using legs_ok_distinct [OF legs] by (auto simp: distinct_map)
  have "to_peer (leg y) = from_peer (leg x) \<and> leg_key x = leg_key y \<and> leg_matched x \<noteq> leg_matched y \<and>
      \<not> (leg_to x = HostLeg \<and> leg_to y = HostLeg)"
    if x: "x \<in> set out" and y: "y \<in> set out" and eq: "to_peer (leg x) = from_peer (leg y)" for x y
  proof -
    have "leg_pair x + (if leg_matched x then 1 else 0) = leg_pair y + (if \<not> leg_matched y then 1 else 0)"
      using eq shape [OF x] shape [OF y] by (cases "leg_matched y") simp_all
    then have pair: "leg_pair x = leg_pair y" and m: "leg_matched x \<noteq> leg_matched y"
      using parity [OF shape(1) [OF x] shape(1) [OF y]] by blast+
    have "to_peer (leg y) = from_peer (leg x)"
      using shape [OF x] shape [OF y] pair m by (cases "leg_matched y") simp_all
    moreover have "\<not> (leg_to x = HostLeg \<and> leg_to y = HostLeg)"
      using legs_ok_leg [OF legs x] legs_ok_leg [OF legs y] m unfolding leg_ok_def by blast
    ultimately show ?thesis using m legs_ok_key [OF legs x y pair] by blast
  qed
  moreover have "inj_on (\<lambda>i. to_peer (leg i)) (set out)" "inj_on (\<lambda>i. from_peer (leg i)) (set out)"
  proof -
    show "inj_on (\<lambda>i. to_peer (leg i)) (set out)"
      by (rule inj_onI, rule inj_onD [OF inj]) (use shape parity in \<open>simp_all add: parity\<close>)
    show "inj_on (\<lambda>i. from_peer (leg i)) (set out)"
    proof (rule inj_onI, rule inj_onD [OF inj])
      fix x y assume x: "x \<in> set out" and y: "y \<in> set out" and "from_peer (leg x) = from_peer (leg y)"
      then have "leg_pair x + (if \<not> leg_matched x then 1 else 0) = leg_pair y + (if \<not> leg_matched y then 1 else 0)"
        using shape [OF x] shape [OF y] by (cases "leg_matched x"; cases "leg_matched y") simp_all
      then show "(leg_matched x, leg_pair x) = (leg_matched y, leg_pair y)"
        using parity [OF shape(1) [OF x] shape(1) [OF y]] by blast
    qed
  qed
  moreover have "pending_len b \<le> max n 1"
    using inv broker_run_max [of "(with_max_pending broker_new n, [])" ops] assms
    by (simp add: pending_len_def with_max_pending_def)
  ultimately show ?thesis unfolding distinct_map using d by blast
qed

theorem broker_splices_pairs_witness:
  "let (b, out) = foldl broker_step (with_max_pending broker_new 4, [])
                    [BPark 0 ''r'', BPark 1 ''r'', BTryMatch ''r''] in
   map leg_to out = [HostLeg, AppLeg] \<and> pending_len b \<le> 4 \<and>
   to_peer (leg (out ! 0)) = from_peer (leg (out ! 1)) \<and> to_peer (leg (out ! 1)) = from_peer (leg (out ! 0))"
proof -
  let ?ops = "[BPark 0 ''r'', BPark 1 ''r'', BTryMatch ''r'']"
  let ?h = "\<lparr>leg_key = ''r'', leg_to = HostLeg, leg_matched = False, leg = \<lparr>to_peer = 0, from_peer = 1\<rparr>\<rparr>"
  let ?a = "\<lparr>leg_key = ''r'', leg_to = AppLeg, leg_matched = True, leg = \<lparr>to_peer = 1, from_peer = 0\<rparr>\<rparr>"
  have run: "foldl broker_step (with_max_pending broker_new 4, []) ?ops =
      (\<lparr>pending = [], max_pending = 4, next_channel = 2\<rparr>, [?h, ?a])"
    by (simp add: broker_park_def try_match_def park_new_def sweep_pending_def hm_retain_def hm_get_def
        hm_insert_def hm_remove_def second_leg_def with_max_pending_def broker_new_def duration_since_def
        PENDING_TTL_def secs_def Let_def)
  from broker_splices_pairs [OF run] show ?thesis unfolding run by simp
qed

text \<open>Whoever parks first under a key is spliced to the next to ask for that key: a join and an app
  match both return exactly the other ends of the channels the parked leg got, and remove it, so a
  third caller under the same key is not connected to either.\<close>

lemma broker_match_completes:
  assumes "broker_join now b key = (Some l, b')" and "hm_get (pending b) key = None"
  shows "let other = Some \<lparr>to_peer = from_peer l, from_peer = to_peer l\<rparr> in
     fst (broker_join later b' key) = other \<and> fst (try_match b' key) = other \<and>
     fst (try_match (snd (broker_join later b' key)) key) = None \<and>
     fst (try_match (snd (try_match b' key)) key) = None"
  using assms
  by (auto simp: broker_join_def park_new_def try_match_def second_leg_def Let_def split: if_splits)

lemma broker_match_completes_witness:
  "fst (try_match (snd (broker_join 0 broker_new ''k'')) ''k'') = Some \<lparr>to_peer = 1, from_peer = 0\<rparr>"
proof -
  have "broker_join 0 broker_new ''k'' =
      (Some \<lparr>to_peer = 0, from_peer = 1\<rparr>, snd (broker_join 0 broker_new ''k''))"
    by (simp add: broker_join_def broker_new_def hm_get_def sweep_pending_def hm_retain_def park_new_def
        MAX_PENDING_LEGS_def)
  from broker_match_completes [OF this] show ?thesis
    by (simp add: Let_def broker_new_def hm_get_def)
qed

text \<open>A leg is turned away only when it has to be: a join exactly when nobody waits under its key
  and the legs that have waited less than the two minutes already fill the ceiling; a host exactly when
  such a live host holds its key, or when they fill the ceiling. An expired leg blocks nobody.\<close>

lemma broker_refusals_exact:
  "let live = filter (\<lambda>(k, h). duration_since now (parked_at h) < secs 120) (pending b) in
     (fst (broker_join now b key) = None \<longleftrightarrow>
        key \<notin> fst ` set (pending b) \<and> max_pending b \<le> length live) \<and>
     (fst (broker_park now b key) = Occupied \<longleftrightarrow> key \<in> fst ` set live) \<and>
     (fst (broker_park now b key) = AtCapacity \<longleftrightarrow>
        key \<notin> fst ` set live \<and> max_pending b \<le> length live)"
proof -
  let ?live = "filter (\<lambda>(k, h). duration_since now (parked_at h) < secs 120) (pending b)"
  have live: "snd (sweep_pending now (pending b) PENDING_TTL) = ?live"
    by (simp add: sweep_pending_def Let_def hm_retain_def PENDING_TTL_def case_prod_unfold)
  have mem: "key \<in> fst ` set m \<longleftrightarrow> hm_get m key \<noteq> None" for m :: "pending_half hash_map"
    by (simp add: hm_get_None)
  show ?thesis
    unfolding Let_def broker_join_def broker_park_def live mem
    by (cases "hm_get (pending b) key"; cases "hm_get ?live key"; simp add: park_new_def Let_def)
qed

end
