(* ===== verification/RelayConns.thy ===== *)
theory RelayConns
  imports HashMaps
begin

text \<open>
  \<open>remote-host/crates/relay/src/conns.rs\<close>: the live relay connections of every admitted key, their
  caps, and the kick that drops the connections of revoked keys. The inner map from connection id to
  kick channel is the list of its ids; firing or dropping a kick channel is removing the id.
\<close>

type_synonym conn_id = nat

record connection_registry =
  conns :: "conn_id list hash_map"
  next_id :: nat
  max_per_key :: nat

definition DEFAULT_MAX_CONNS_PER_KEY :: nat where
  "DEFAULT_MAX_CONNS_PER_KEY = 200"

definition CHAT_CONN_RESERVE :: nat where
  "CHAT_CONN_RESERVE = 4"

definition registry_new :: connection_registry where
  "registry_new = \<lparr>conns = [], next_id = 0, max_per_key = DEFAULT_MAX_CONNS_PER_KEY\<rparr>"

definition with_max_per_key :: "connection_registry \<Rightarrow> nat \<Rightarrow> connection_registry" where
  "with_max_per_key self n = self\<lparr>max_per_key := max n 1\<rparr>"

text \<open>\<open>entry(key).or_default()\<close>: the entry's ids, and the map in which it exists.\<close>

definition entry_or_default ::
    "string \<Rightarrow> conn_id list hash_map \<Rightarrow> conn_id list \<times> conn_id list hash_map" where
  "entry_or_default key m =
     (case hm_get m key of Some ids \<Rightarrow> (ids, m) | None \<Rightarrow> ([], hm_insert key [] m))"

text \<open>The guard is the connection's key and id.\<close>

definition register_capped ::
    "connection_registry \<Rightarrow> string \<Rightarrow> nat \<Rightarrow> (string \<times> conn_id) option \<times> connection_registry" where
  "register_capped self key cap =
     (let (entry, m) = entry_or_default key (conns self) in
      if length entry \<ge> cap then (None, self\<lparr>conns := m\<rparr>)
      else let i = next_id self in
           (Some (key, i), self\<lparr>conns := hm_insert key (i # entry) m, next_id := Suc i\<rparr>))"

definition conn_register ::
    "connection_registry \<Rightarrow> string \<Rightarrow> nat option \<Rightarrow> (string \<times> conn_id) option \<times> connection_registry" where
  "conn_register self key max_override =
     (let cap = (case max_override of None \<Rightarrow> max_per_key self | Some n \<Rightarrow> n)
      in register_capped self key cap)"

definition register_background ::
    "connection_registry \<Rightarrow> string \<Rightarrow> nat option \<Rightarrow> (string \<times> conn_id) option \<times> connection_registry" where
  "register_background self key max_override =
     (let cap = max ((case max_override of None \<Rightarrow> max_per_key self | Some n \<Rightarrow> n) - CHAT_CONN_RESERVE) 1
      in register_capped self key cap)"

definition register_unchecked ::
    "connection_registry \<Rightarrow> string \<Rightarrow> (string \<times> conn_id) \<times> connection_registry" where
  "register_unchecked self key =
     (let i = next_id self; (entry, m) = entry_or_default key (conns self) in
      ((key, i), self\<lparr>conns := hm_insert key (i # entry) m, next_id := Suc i\<rparr>))"

fun kick_loop :: "string list \<Rightarrow> nat \<Rightarrow> conn_id list hash_map \<Rightarrow> nat \<times> conn_id list hash_map" where
  "kick_loop [] kicked m = (kicked, m)"
| "kick_loop (key # revoked) kicked m =
     (case hm_get m key of
        Some ids \<Rightarrow> kick_loop revoked (kicked + length ids) (hm_remove key m)
      | None \<Rightarrow> kick_loop revoked kicked m)"

text \<open>\<open>revoked\<close> is a set of keys; it is visited in some order, each key once.\<close>

definition kick :: "connection_registry \<Rightarrow> string list \<Rightarrow> nat \<times> connection_registry" where
  "kick self revoked =
     (if revoked = [] then (0, self)
      else let (kicked, m) = kick_loop revoked 0 (conns self) in (kicked, self\<lparr>conns := m\<rparr>))"

definition live_total :: "connection_registry \<Rightarrow> nat" where
  "live_total self = sum_list (map (\<lambda>(k, ids). length ids) (conns self))"

definition live_for :: "connection_registry \<Rightarrow> string \<Rightarrow> nat" where
  "live_for self key = (case hm_get (conns self) key of None \<Rightarrow> 0 | Some ids \<Rightarrow> length ids)"

definition live_counts :: "connection_registry \<Rightarrow> nat hash_map" where
  "live_counts self = map (\<lambda>(k, ids). (k, length ids)) (conns self)"

definition deregister :: "connection_registry \<Rightarrow> string \<Rightarrow> conn_id \<Rightarrow> connection_registry" where
  "deregister self key i =
     (case hm_get (conns self) key of
        None \<Rightarrow> self
      | Some ids \<Rightarrow>
          let ids' = filter (\<lambda>j. j \<noteq> i) ids in
          if ids' = [] then self\<lparr>conns := hm_remove key (conns self)\<rparr>
          else self\<lparr>conns := hm_insert key ids' (conns self)\<rparr>)"

section \<open>Specification: the set of live connections\<close>

definition live_set :: "connection_registry \<Rightarrow> (string \<times> conn_id) set" where
  "live_set self = {(k, i). \<exists>ids. hm_get (conns self) k = Some ids \<and> i \<in> set ids}"

datatype conn_op =
    CRegister string "nat option"
  | CBackground string "nat option"
  | CUnchecked string
  | CDrop string conn_id
  | CKick "string list"

primrec conn_step :: "connection_registry \<Rightarrow> conn_op \<Rightarrow> connection_registry" where
  "conn_step r (CRegister key ov) = snd (conn_register r key ov)"
| "conn_step r (CBackground key ov) = snd (register_background r key ov)"
| "conn_step r (CUnchecked key) = snd (register_unchecked r key)"
| "conn_step r (CDrop key i) = deregister r key i"
| "conn_step r (CKick revoked) = snd (kick r revoked)"

definition conns_inv :: "connection_registry \<Rightarrow> bool" where
  "conns_inv r \<longleftrightarrow> hm_ok (conns r) \<and>
     (\<forall>k ids. hm_get (conns r) k = Some ids \<longrightarrow> distinct ids \<and> (\<forall>i \<in> set ids. i < next_id r))"

lemma entry_or_default_simps:
  "fst (entry_or_default key m) = (case hm_get m key of None \<Rightarrow> [] | Some ids \<Rightarrow> ids)"
  "hm_ok m \<Longrightarrow> hm_ok (snd (entry_or_default key m))"
  "hm_get (snd (entry_or_default key m)) j =
     (if j = key then Some (case hm_get m key of None \<Rightarrow> [] | Some ids \<Rightarrow> ids) else hm_get m j)"
  by (auto simp: entry_or_default_def split: option.splits)

lemma kick_loop_get:
  "hm_get (snd (kick_loop revoked n m)) j = (if j \<in> set revoked then None else hm_get m j)"
  by (induction revoked n m rule: kick_loop.induct) (auto split: option.splits)

lemma kick_loop_ok: "hm_ok m \<Longrightarrow> hm_ok (snd (kick_loop revoked n m))"
  by (induction revoked n m rule: kick_loop.induct) (auto split: option.splits)

lemma kick_loop_count:
  "distinct revoked \<Longrightarrow> fst (kick_loop revoked n m) =
     n + (\<Sum>k\<leftarrow>revoked. case hm_get m k of None \<Rightarrow> 0 | Some ids \<Rightarrow> length ids)"
proof (induction revoked n m rule: kick_loop.induct)
  case (2 key revoked kicked m)
  have "(\<Sum>k\<leftarrow>revoked. case hm_get (hm_remove key m) k of None \<Rightarrow> 0 | Some ids \<Rightarrow> length ids) =
      (\<Sum>k\<leftarrow>revoked. case hm_get m k of None \<Rightarrow> 0 | Some ids \<Rightarrow> length ids)"
    using 2(3) by (intro arg_cong [of _ _ sum_list] map_cong) auto
  with 2 show ?case by (simp split: option.splits)
qed simp

lemma register_capped_get:
  "hm_get (conns (snd (register_capped r key cap))) j =
     (if j = key
      then Some ((if live_for r key < cap then [next_id r] else []) @
                 (case hm_get (conns r) key of None \<Rightarrow> [] | Some ids \<Rightarrow> ids))
      else hm_get (conns r) j)"
  by (auto simp: register_capped_def Let_def case_prod_beta entry_or_default_simps live_for_def
      split: option.splits)

lemma register_capped_result:
  "fst (register_capped r key cap) = (if live_for r key < cap then Some (key, next_id r) else None)"
  "next_id (snd (register_capped r key cap)) = (if live_for r key < cap then Suc (next_id r) else next_id r)"
  "max_per_key (snd (register_capped r key cap)) = max_per_key r"
  by (auto simp: register_capped_def Let_def case_prod_beta entry_or_default_simps live_for_def
      split: option.splits)

lemma register_capped_ok: "hm_ok (conns r) \<Longrightarrow> hm_ok (conns (snd (register_capped r key cap)))"
  by (simp add: register_capped_def Let_def case_prod_beta entry_or_default_simps)

lemma register_unchecked_capped:
  "register_unchecked r key =
     (the (fst (register_capped r key (Suc (live_for r key)))), snd (register_capped r key (Suc (live_for r key))))"
  by (auto simp: register_unchecked_def register_capped_def Let_def case_prod_beta live_for_def
      entry_or_default_simps split: option.splits)

lemma conns_inv_register: "conns_inv r \<Longrightarrow> conns_inv (snd (register_capped r key cap))"
  unfolding conns_inv_def
  by (auto simp: register_capped_ok register_capped_get register_capped_result less_Suc_eq
      split: option.splits if_splits)

lemma deregister_get:
  "hm_get (conns (deregister r key i)) j =
     (if j = key
      then (case hm_get (conns r) key of
              None \<Rightarrow> None
            | Some ids \<Rightarrow>
                if filter (\<lambda>j. j \<noteq> i) ids = [] then None else Some (filter (\<lambda>j. j \<noteq> i) ids))
      else hm_get (conns r) j)"
  by (auto simp: deregister_def Let_def split: option.splits)

lemma deregister_frame [simp]: "next_id (deregister r key i) = next_id r"
  by (simp add: deregister_def Let_def split: option.splits)

lemma deregister_ok: "hm_ok (conns r) \<Longrightarrow> hm_ok (conns (deregister r key i))"
  by (simp add: deregister_def Let_def split: option.splits)

lemma kick_get: "hm_get (conns (snd (kick r revoked))) j = (if j \<in> set revoked then None else hm_get (conns r) j)"
  by (simp add: kick_def case_prod_beta kick_loop_get)

lemma kick_frame [simp]: "next_id (snd (kick r revoked)) = next_id r"
  by (simp add: kick_def case_prod_beta)

lemma kick_ok: "hm_ok (conns r) \<Longrightarrow> hm_ok (conns (snd (kick r revoked)))"
  by (simp add: kick_def case_prod_beta kick_loop_ok)

interpretation conn_machine: invariant_machine conn_step conns_inv
proof
  fix r :: connection_registry and a :: conn_op
  assume inv: "conns_inv r"
  show "conns_inv (conn_step r a)"
  proof (cases a)
    case (CDrop key i)
    then show ?thesis
      using inv unfolding conns_inv_def
      by (auto simp: deregister_get deregister_ok split: option.splits if_splits)
  next
    case (CKick revoked)
    then show ?thesis
      using inv unfolding conns_inv_def by (auto simp: kick_get kick_ok split: if_splits)
  qed (use inv in \<open>simp_all add: conn_register_def register_background_def register_unchecked_capped
        conns_inv_register\<close>)
qed

lemma conns_inv_new: "conns_inv (with_max_per_key registry_new n)"
  by (simp add: conns_inv_def with_max_per_key_def registry_new_def hm_ok_def hm_get_def)

lemma live_set_register:
  "live_set (snd (register_capped r key cap)) =
     live_set r \<union> (if live_for r key < cap then {(key, next_id r)} else {})"
  by (auto simp: live_set_def register_capped_get split: option.splits if_splits)

lemma live_set_deregister: "live_set (deregister r key i) = live_set r - {(key, i)}"
  by (auto simp: live_set_def deregister_get filter_empty_conv split: option.splits if_splits)

lemma live_set_kick: "live_set (snd (kick r revoked)) = {(k, i) \<in> live_set r. k \<notin> set revoked}"
  by (auto simp: live_set_def kick_get split: if_splits)

lemma live_for_card: "conns_inv r \<Longrightarrow> live_for r key = card {i. (key, i) \<in> live_set r}"
proof (cases "hm_get (conns r) key")
  case (Some ids)
  assume "conns_inv r"
  then have "distinct ids" using Some by (simp add: conns_inv_def)
  with Some show ?thesis by (simp add: live_for_def live_set_def distinct_card)
qed (simp add: live_for_def live_set_def)

section \<open>Properties\<close>

text \<open>Registering a connection. It is admitted exactly while the key holds fewer connections than
  its cap (its own, or the default); an admitted one gets an id never used before and adds one live
  connection to this key and nothing to any other; a refused one changes no count.\<close>

lemma conn_register_exact:
  assumes "r = foldl conn_step (with_max_per_key registry_new n) ops"
  shows "let cap = (case ov of None \<Rightarrow> max_per_key r | Some m \<Rightarrow> m); (g, r') = conn_register r key ov in
     (case g of
        Some (k, i) \<Rightarrow>
          live_for r key < cap \<and> k = key \<and> (\<forall>j. (j, i) \<notin> live_set r) \<and>
          live_for r' key = Suc (live_for r key) \<and> live_set r' = insert (key, i) (live_set r)
      | None \<Rightarrow> cap \<le> live_for r key \<and> live_set r' = live_set r) \<and>
     (\<forall>j. j = key \<or> live_for r' j = live_for r j)"
proof -
  have "conns_inv r" using conn_machine.run_inv [OF conns_inv_new] assms by simp
  then have "(j, next_id r) \<notin> live_set r" for j
    by (auto simp: live_set_def conns_inv_def)
  then show ?thesis
    by (auto simp: conn_register_def Let_def case_prod_beta register_capped_result live_set_register
        live_for_def register_capped_get split: option.splits)
qed

lemma conn_register_exact_witness:
  "let r = foldl conn_step (with_max_per_key registry_new 1) [CUnchecked ''k''] in
   fst (conn_register r ''k'' None) = None \<and> max_per_key r \<le> live_for r ''k''"
proof -
  let ?r = "foldl conn_step (with_max_per_key registry_new 1) [CUnchecked ''k'']"
  have r: "?r = \<lparr>conns = [(''k'', [0])], next_id = 1, max_per_key = 1\<rparr>"
    by (simp add: with_max_per_key_def registry_new_def register_unchecked_def entry_or_default_def
        hm_get_def hm_insert_def hm_remove_def)
  have g: "conn_register ?r ''k'' None = (None, ?r)"
    unfolding r by (simp add: conn_register_def register_capped_def entry_or_default_def hm_get_def)
  have "max_per_key ?r \<le> live_for ?r ''k''"
    using conn_register_exact [OF refl, where n = 1 and ops = "[CUnchecked ''k'']" and key = "''k''" and ov = None]
    unfolding Let_def g by simp
  with g show ?thesis by (simp only: Let_def fst_conv simp_thms)
qed

text \<open>Background transfers leave room for chat: an admitted background connection never fills a
  key beyond its cap less the reserve of four (one, where the cap leaves none), so on a cap above four
  the next interactive connection of that key is admitted.\<close>

lemma background_leaves_the_reserve:
  assumes "register_background r key ov = (Some g, r')"
    and "cap = (case ov of None \<Rightarrow> max_per_key r | Some m \<Rightarrow> m)"
  shows "live_for r' key \<le> max (cap - 4) 1 \<and>
     (4 < cap \<longrightarrow> live_for r' key + 4 \<le> cap \<and> fst (conn_register r' key ov) \<noteq> None)"
proof -
  let ?c = "max (cap - 4) 1"
  have r': "r' = snd (register_capped r key ?c)" and lt: "live_for r key < ?c"
    using assms register_capped_result(1) [of r key ?c]
    by (auto simp: register_background_def CHAT_CONN_RESERVE_def Let_def split: if_splits)
  have "live_for r' key = Suc (live_for r key)"
    using lt by (simp add: r' live_for_def register_capped_get split: option.splits)
  moreover have "max_per_key r' = max_per_key r" by (simp add: r' register_capped_result)
  ultimately show ?thesis
    using lt assms(2) by (auto simp: conn_register_def Let_def register_capped_result split: option.splits)
qed

lemma background_leaves_the_reserve_witness:
  "fst (conn_register (snd (register_background registry_new ''k'' (Some 5))) ''k'' (Some 5)) \<noteq> None"
proof -
  have "register_background registry_new ''k'' (Some 5) =
      (Some (''k'', 0), snd (register_background registry_new ''k'' (Some 5)))"
    by (simp add: register_background_def register_capped_def registry_new_def CHAT_CONN_RESERVE_def
        entry_or_default_def hm_get_def)
  from background_leaves_the_reserve [OF this refl] show ?thesis by simp
qed

text \<open>C37: The registry implements a set of live connections. Ending a connection removes exactly it,
  so the clean-up of a connection that was kicked and replaced cannot end the replacement; revoking
  keys removes exactly their connections and reports how many there were; the counts a key is shown
  with are the sizes of its part of the set.\<close>

theorem registry_implements_live_set:
  assumes "r = foldl conn_step (with_max_per_key registry_new n) ops" and "distinct revoked"
  shows "live_set (deregister r key i) = live_set r - {(key, i)} \<and>
     live_set (snd (kick r revoked)) = {(k, j) \<in> live_set r. k \<notin> set revoked} \<and>
     fst (kick r revoked) = (\<Sum>k\<leftarrow>revoked. live_for r k) \<and>
     live_for r key = card {j. (key, j) \<in> live_set r}"
proof -
  have "conns_inv r" using conn_machine.run_inv [OF conns_inv_new] assms by simp
  moreover have "fst (kick r revoked) = (\<Sum>k\<leftarrow>revoked. live_for r k)"
    using kick_loop_count [OF assms(2)] by (simp add: kick_def case_prod_beta live_for_def)
  ultimately show ?thesis
    by (simp add: live_set_deregister live_set_kick live_for_card)
qed

theorem registry_implements_live_set_witness:
  "let r = foldl conn_step (with_max_per_key registry_new 3) [CUnchecked ''a'', CUnchecked ''b'', CUnchecked ''a''] in
   fst (kick r [''a'']) = 2 \<and> live_set (deregister r ''b'' 0) = live_set r - {(''b'', 0)}"
  using registry_implements_live_set [OF refl, where n = 3 and revoked = "[''a'']" and key = "''b''" and i = 0
      and ops = "[CUnchecked ''a'', CUnchecked ''b'', CUnchecked ''a'']"]
  by (simp add: Let_def with_max_per_key_def registry_new_def register_unchecked_def entry_or_default_def
      hm_get_def hm_insert_def hm_remove_def live_for_def)

text \<open>A refused registration leaves the registry as it was, except for a key with no entry, which
  is only refused under a cap of zero and then gets an empty entry that the counts report.\<close>

lemma refused_registration_leaves_empty_entry:
  "fst (register_capped r key cap) = None \<longleftrightarrow>
     (if hm_get (conns r) key = None
      then cap = 0 \<and> hm_get (live_counts (snd (register_capped r key cap))) key = Some 0
      else cap \<le> live_for r key \<and> snd (register_capped r key cap) = r)"
proof -
  have "hm_get (map (\<lambda>(k, ids). (k, length ids)) m) key = map_option length (hm_get m key)" for m :: "conn_id list hash_map"
    by (induction m) (auto simp: hm_get_def)
  then show ?thesis
    by (auto simp: register_capped_result live_for_def live_counts_def register_capped_get
        register_capped_def entry_or_default_def Let_def split: option.splits)
qed

end
