(* ===== verification/AddressPolicy.thy ===== *)
theory AddressPolicy
  imports Prelude "HOL-Library.Word"
begin

text \<open>
  \<open>remote-host/crates/protocol/src/relay/address.rs\<close>: the classes of the addresses a direct carrier may
  use, and the keys the relay's per-source and per-client budgets are counted under. An IPv4 address is
  its 32-bit and an IPv6 address its 128-bit big-endian number, as \<open>u32::from\<close> and \<open>u128::from\<close> read
  them. The table with the test ranges and the production table are the two values of \<open>test_ranges\<close>.
\<close>

unbundle bit_operations_syntax

section \<open>Addresses\<close>

type_synonym ipv4_addr = "32 word"
type_synonym ipv6_addr = "128 word"

datatype ip_addr = V4 ipv4_addr | V6 ipv6_addr

definition ipv4_new :: "8 word \<Rightarrow> 8 word \<Rightarrow> 8 word \<Rightarrow> 8 word \<Rightarrow> ipv4_addr" where
  "ipv4_new a b c d =
     push_bit 24 (ucast a) OR push_bit 16 (ucast b) OR push_bit 8 (ucast c) OR ucast d"

fun ipv6_new :: "16 word list \<Rightarrow> ipv6_addr" where
  "ipv6_new segs = foldl (\<lambda>n s. push_bit 16 n OR ucast s) 0 segs"

definition ipv6_localhost :: ipv6_addr where
  "ipv6_localhost = ipv6_new [0, 0, 0, 0, 0, 0, 0, 1]"

text \<open>\<open>Ipv6Addr::to_ipv4_mapped\<close>: the addresses whose upper 96 bits are \<open>ffff\<close>.\<close>

definition to_ipv4_mapped :: "ipv6_addr \<Rightarrow> ipv4_addr option" where
  "to_ipv4_mapped ip = (if drop_bit 32 ip = 65535 then Some (ucast ip) else None)"

datatype address_class = Lan | Public

record address_policy =
  test_ranges :: bool

datatype source_key = SourceKey ip_addr

section \<open>Ranges\<close>

type_synonym v4_range = "ipv4_addr \<times> nat"
type_synonym v6_range = "ipv6_addr \<times> nat"

definition IPV4_LAN :: "v4_range list" where
  "IPV4_LAN =
     [(ipv4_new 10 0 0 0, 8), (ipv4_new 172 16 0 0, 12), (ipv4_new 192 168 0 0, 16),
      (ipv4_new 100 64 0 0, 10), (ipv4_new 169 254 0 0, 16)]"

definition IPV4_EXCLUDED :: "v4_range list" where
  "IPV4_EXCLUDED =
     [(ipv4_new 0 0 0 0, 8), (ipv4_new 127 0 0 0, 8), (ipv4_new 192 0 0 0, 24),
      (ipv4_new 192 88 99 0, 24), (ipv4_new 198 18 0 0, 15), (ipv4_new 192 0 2 0, 24),
      (ipv4_new 198 51 100 0, 24), (ipv4_new 203 0 113 0, 24), (ipv4_new 224 0 0 0, 4),
      (ipv4_new 240 0 0 0, 4)]"

definition IPV4_TEST_PUBLIC :: "v4_range list" where
  "IPV4_TEST_PUBLIC = [(ipv4_new 127 0 0 0, 8), (ipv4_new 198 18 0 0, 15)]"

definition IPV6_LAN :: v6_range where
  "IPV6_LAN = (ipv6_new [0xfc00, 0, 0, 0, 0, 0, 0, 0], 7)"

definition IPV6_GLOBAL_UNICAST :: v6_range where
  "IPV6_GLOBAL_UNICAST = (ipv6_new [0x2000, 0, 0, 0, 0, 0, 0, 0], 3)"

definition IPV6_EXCLUDED_GLOBAL :: "v6_range list" where
  "IPV6_EXCLUDED_GLOBAL =
     [(ipv6_new [0x2001, 0x0db8, 0, 0, 0, 0, 0, 0], 32), (ipv6_new [0x2001, 0x0002, 0, 0, 0, 0, 0, 0], 48),
      (ipv6_new [0x2001, 0, 0, 0, 0, 0, 0, 0], 32), (ipv6_new [0x2002, 0, 0, 0, 0, 0, 0, 0], 16)]"

definition IPV6_TEST_PUBLIC :: v6_range where
  "IPV6_TEST_PUBLIC = (ipv6_new [0x2001, 0x0002, 0, 0, 0, 0, 0, 0], 48)"

definition SOURCE_KEY_IPV6_PREFIX_LEN :: nat where
  "SOURCE_KEY_IPV6_PREFIX_LEN = 64"

definition CLIENT_KEY_IPV6_PREFIX_LEN :: nat where
  "CLIENT_KEY_IPV6_PREFIX_LEN = 48"

text \<open>\<open>checked_shl\<close> answers \<open>None\<close> for a shift of the whole width. Prefix lengths are at most the width.\<close>

definition in_v4 :: "ipv4_addr \<Rightarrow> v4_range \<Rightarrow> bool" where
  "in_v4 ip r =
     (case r of (network, prefix_len) \<Rightarrow>
        let k = 32 - prefix_len; mask = (if k < 32 then push_bit k (- 1) else 0)
        in ip AND mask = network)"

definition v6_mask :: "nat \<Rightarrow> ipv6_addr" where
  "v6_mask prefix_len = (let k = 128 - prefix_len in if k < 128 then push_bit k (- 1) else 0)"

definition in_v6 :: "ipv6_addr \<Rightarrow> v6_range \<Rightarrow> bool" where
  "in_v6 ip r = (case r of (network, prefix_len) \<Rightarrow> ip AND v6_mask prefix_len = network)"

section \<open>Operations\<close>

primrec canonical_ip :: "ip_addr \<Rightarrow> ip_addr" where
  "canonical_ip (V6 v6) = (case to_ipv4_mapped v6 of Some v4 \<Rightarrow> V4 v4 | None \<Rightarrow> V6 v6)"
| "canonical_ip (V4 v4) = V4 v4"

definition classify_v4 :: "address_policy \<Rightarrow> ipv4_addr \<Rightarrow> address_class option" where
  "classify_v4 self ip =
     (if test_ranges self \<and> list_ex (in_v4 ip) IPV4_TEST_PUBLIC then Some Public
      else if list_ex (in_v4 ip) IPV4_LAN then Some Lan
      else if list_ex (in_v4 ip) IPV4_EXCLUDED then None
      else Some Public)"

definition classify_v6 :: "address_policy \<Rightarrow> ipv6_addr \<Rightarrow> address_class option" where
  "classify_v6 self ip =
     (if test_ranges self \<and> ip = ipv6_localhost then Some Lan
      else if test_ranges self \<and> in_v6 ip IPV6_TEST_PUBLIC then Some Public
      else if in_v6 ip IPV6_LAN then Some Lan
      else if in_v6 ip IPV6_GLOBAL_UNICAST \<and> \<not> list_ex (in_v6 ip) IPV6_EXCLUDED_GLOBAL then Some Public
      else None)"

definition classify :: "address_policy \<Rightarrow> ip_addr \<Rightarrow> address_class option" where
  "classify self ip =
     (case canonical_ip ip of V4 ip \<Rightarrow> classify_v4 self ip | V6 ip \<Rightarrow> classify_v6 self ip)"

definition public_v4 :: "address_policy \<Rightarrow> ip_addr \<Rightarrow> ipv4_addr option" where
  "public_v4 self ip =
     (case canonical_ip ip of
        V4 ip \<Rightarrow> if classify_v4 self ip = Some Public then Some ip else None
      | V6 _ \<Rightarrow> None)"

definition prefix_key :: "ip_addr \<Rightarrow> nat \<Rightarrow> source_key" where
  "prefix_key ip ipv6_prefix_len =
     (case canonical_ip ip of
        V4 v4 \<Rightarrow> SourceKey (V4 v4)
      | V6 v6 \<Rightarrow> SourceKey (V6 (v6 AND v6_mask ipv6_prefix_len)))"

definition source_key :: "ip_addr \<Rightarrow> source_key" where
  "source_key ip = prefix_key ip SOURCE_KEY_IPV6_PREFIX_LEN"

definition client_key :: "ip_addr \<Rightarrow> source_key" where
  "client_key ip = prefix_key ip CLIENT_KEY_IPV6_PREFIX_LEN"

section \<open>Masks and ranges\<close>

lemma and_high_mask: "(x :: 'a::len word) AND push_bit k (- 1) = push_bit k (drop_bit k x)"
  by (rule bit_eqI) (auto simp: bit_simps)

lemma push_drop_eq_iff:
  "push_bit k (drop_bit k x) = push_bit k (drop_bit k y) \<longleftrightarrow> drop_bit k x = drop_bit k (y :: 'a::len word)"
proof
  assume "push_bit k (drop_bit k x) = push_bit k (drop_bit k y)"
  then have "drop_bit k (push_bit k (drop_bit k x)) = drop_bit k (push_bit k (drop_bit k y))" by simp
  moreover have "drop_bit k (push_bit k (drop_bit k z)) = drop_bit k z" for z :: "'a word"
    by (rule bit_eqI) (auto simp: bit_simps dest: bit_imp_le_length)
  ultimately show "drop_bit k x = drop_bit k y" by simp
qed simp

text \<open>A prefix range of an aligned network is an interval of numbers.\<close>

lemma same_block_iff:
  fixes a b :: nat
  assumes "b mod m = 0" and "0 < m"
  shows "a div m = b div m \<longleftrightarrow> b \<le> a \<and> a < b + m"
proof -
  have b: "b = b div m * m" using div_mult_mod_eq [of b m] assms(1) by simp
  have "a div m = q \<longleftrightarrow> q * m \<le> a \<and> a < q * m + m" for q
    using dividend_less_div_times [OF assms(2), of a] by (auto intro: div_nat_eqI simp: algebra_simps)
  from this [of "b div m"] show ?thesis using b by simp
qed

lemma prefix_range_interval:
  fixes x n :: "'a::len word"
  assumes "push_bit k (drop_bit k n) = n"
  shows "x AND push_bit k (- 1) = n \<longleftrightarrow> unat n \<le> unat x \<and> unat x < unat n + 2 ^ k"
proof -
  have al: "unat n mod 2 ^ k = 0"
  proof -
    have "take_bit k n = take_bit k (push_bit k (drop_bit k n))" using assms by simp
    then have "take_bit k n = 0" by (simp add: take_bit_push_bit)
    then have "take_bit k (unat n) = 0" by (simp flip: unsigned_take_bit_eq)
    then show ?thesis by (simp add: take_bit_eq_mod)
  qed
  have "x AND push_bit k (- 1) = n \<longleftrightarrow> drop_bit k x = drop_bit k n"
    unfolding and_high_mask using push_drop_eq_iff [of k x n] assms by simp
  also have "\<dots> \<longleftrightarrow> unat x div 2 ^ k = unat n div 2 ^ k"
    unfolding word_unat_eq_iff unat_drop_bit_eq by (simp add: drop_bit_eq_div)
  also have "\<dots> \<longleftrightarrow> unat n \<le> unat x \<and> unat x < unat n + 2 ^ k"
    using al by (rule same_block_iff) simp
  finally show ?thesis .
qed

lemma in_v4_interval:
  assumes "0 < len" "len \<le> 32" "push_bit (32 - len) (drop_bit (32 - len) net) = net"
  shows "in_v4 ip (net, len) \<longleftrightarrow> unat net \<le> unat ip \<and> unat ip < unat net + 2 ^ (32 - len)"
  unfolding in_v4_def using assms prefix_range_interval [OF assms(3), of ip] by (simp add: Let_def)

lemma in_v6_interval:
  assumes "0 < len" "len \<le> 128" "push_bit (128 - len) (drop_bit (128 - len) net) = net"
  shows "in_v6 ip (net, len) \<longleftrightarrow> unat net \<le> unat ip \<and> unat ip < unat net + 2 ^ (128 - len)"
  unfolding in_v6_def v6_mask_def using assms prefix_range_interval [OF assms(3), of ip]
  by (simp add: Let_def)

text \<open>The tables as the intervals they stand for.\<close>

definition v4_block :: "nat \<Rightarrow> nat \<Rightarrow> nat \<Rightarrow> nat \<Rightarrow> nat \<Rightarrow> nat set" where
  "v4_block a b c d k = (let n = ((a * 256 + b) * 256 + c) * 256 + d in {n ..< n + 2 ^ k})"

definition v6_block :: "nat \<Rightarrow> nat \<Rightarrow> nat \<Rightarrow> nat \<Rightarrow> nat set" where
  "v6_block a b c k = (let n = ((a * 65536 + b) * 65536 + c) * 2 ^ 80 in {n ..< n + 2 ^ k})"

definition v4_lan :: "nat set" where
  "v4_lan = v4_block 10 0 0 0 24 \<union> v4_block 172 16 0 0 20 \<union> v4_block 192 168 0 0 16
     \<union> v4_block 100 64 0 0 22 \<union> v4_block 169 254 0 0 16"

definition v4_test :: "nat set" where
  "v4_test = v4_block 127 0 0 0 24 \<union> v4_block 198 18 0 0 17"

definition v4_excluded :: "nat set" where
  "v4_excluded = v4_block 0 0 0 0 24 \<union> v4_block 192 0 0 0 8 \<union> v4_block 192 88 99 0 8
     \<union> v4_block 192 0 2 0 8 \<union> v4_block 198 51 100 0 8 \<union> v4_block 203 0 113 0 8
     \<union> v4_block 224 0 0 0 28 \<union> v4_block 240 0 0 0 28 \<union> v4_test"

definition v6_test :: "nat set" where
  "v6_test = v6_block 0x2001 2 0 80"

definition v6_public :: "nat set" where
  "v6_public = v6_block 0x2000 0 0 125 - v6_block 0x2001 0xdb8 0 96 - v6_block 0x2001 0 0 96 - v6_test
     - v6_block 0x2002 0 0 112"

lemma in_v4_tables:
  "list_ex (in_v4 ip) IPV4_LAN \<longleftrightarrow> unat ip \<in> v4_lan"
  "list_ex (in_v4 ip) IPV4_EXCLUDED \<longleftrightarrow> unat ip \<in> v4_excluded"
  "list_ex (in_v4 ip) IPV4_TEST_PUBLIC \<longleftrightarrow> unat ip \<in> v4_test"
  by (auto simp: IPV4_LAN_def IPV4_EXCLUDED_def IPV4_TEST_PUBLIC_def v4_lan_def v4_excluded_def v4_test_def
        v4_block_def ipv4_new_def in_v4_interval)

lemma in_v6_tables:
  "in_v6 ip IPV6_TEST_PUBLIC \<longleftrightarrow> unat ip \<in> v6_test"
  "in_v6 ip IPV6_LAN \<longleftrightarrow> unat ip \<in> v6_block 0xfc00 0 0 121"
  "in_v6 ip IPV6_GLOBAL_UNICAST \<and> \<not> list_ex (in_v6 ip) IPV6_EXCLUDED_GLOBAL \<longleftrightarrow> unat ip \<in> v6_public"
  by (auto simp: IPV6_TEST_PUBLIC_def IPV6_LAN_def IPV6_GLOBAL_UNICAST_def IPV6_EXCLUDED_GLOBAL_def
        v6_test_def v6_public_def v6_block_def in_v6_interval)

lemma v4_tables_disjoint: "v4_lan \<inter> v4_excluded = {}" "v4_test \<subseteq> v4_excluded"
  by (auto simp: v4_lan_def v4_excluded_def v4_test_def v4_block_def)

lemma v6_tables_disjoint:
  "v6_block 0xfc00 0 0 121 \<inter> v6_test = {}" "v6_block 0xfc00 0 0 121 \<inter> v6_public = {}"
  "1 \<notin> v6_test" "1 \<notin> v6_public"
  by (auto simp: v6_public_def v6_test_def v6_block_def)

section \<open>Keys\<close>

lemma and_v6_mask:
  assumes "0 < len" "len \<le> 128"
  shows "x AND v6_mask len = push_bit (128 - len) (drop_bit (128 - len) x)"
  unfolding v6_mask_def Let_def using assms by (simp add: and_high_mask [symmetric])

lemma masked_not_mapped:
  assumes "0 < len" "len \<le> 64"
  shows "canonical_ip (V6 (x AND v6_mask len)) = V6 (x AND v6_mask len)"
proof -
  have "bit (drop_bit 32 (x AND v6_mask len)) 0 = False"
    using assms by (auto simp: and_v6_mask bit_simps simp del: bit_0)
  moreover have "bit (65535 :: 128 word) 0 = True" by simp
  ultimately have "drop_bit 32 (x AND v6_mask len) \<noteq> 65535" by metis
  then show ?thesis by (simp add: to_ipv4_mapped_def)
qed

lemma canonical_canonical [simp]: "canonical_ip (canonical_ip ip) = canonical_ip ip"
  by (cases ip) (simp_all split: option.splits)

lemma prefix_key_eq_iff:
  assumes "0 < len" "len \<le> 128"
  shows "prefix_key x len = prefix_key y len \<longleftrightarrow>
     (case (canonical_ip x, canonical_ip y) of
        (V4 a, V4 b) \<Rightarrow> a = b
      | (V6 a, V6 b) \<Rightarrow> drop_bit (128 - len) a = drop_bit (128 - len) b
      | _ \<Rightarrow> False)"
  by (simp add: prefix_key_def and_v6_mask [OF assms] push_drop_eq_iff split: ip_addr.splits)

lemma mask_mask:
  assumes "0 < m" "m \<le> n" "n \<le> 128"
  shows "(x AND v6_mask n) AND v6_mask m = x AND v6_mask m"
  using assms by (intro bit_eqI) (auto simp: and_v6_mask bit_simps)

section \<open>Properties\<close>

text \<open>The classes are exactly the published ranges, read as intervals of addresses, whatever the
  order the tables are searched in: LAN wins, of the excluded ranges the test table gives back its
  own, every other IPv4 address is public, and IPv6 is public only inside 2000::/3 without its
  documentation, benchmarking, Teredo and 6to4 blocks.\<close>

lemma address_classes_exact:
  "classify p ip =
     (case canonical_ip ip of
        V4 a \<Rightarrow>
          (if unat a \<in> v4_lan then Some Lan
           else if unat a \<in> v4_excluded - (if test_ranges p then v4_test else {}) then None
           else Some Public)
      | V6 a \<Rightarrow>
          (if unat a \<in> v6_public \<union> (if test_ranges p then v6_test else {}) then Some Public
           else if unat a \<in> v6_block 0xfc00 0 0 121 \<union> (if test_ranges p then {1} else {}) then Some Lan
           else None))"
proof -
  have one: "a = ipv6_localhost \<longleftrightarrow> unat a = 1" for a
    by (simp add: ipv6_localhost_def word_unat_eq_iff)
  show ?thesis
    using v4_tables_disjoint v6_tables_disjoint
    by (auto simp: classify_def classify_v4_def classify_v6_def in_v4_tables in_v6_tables one
          split: ip_addr.splits)
qed

text \<open>An IPv4 client cannot pass as another one by its IPv4-mapped spelling: \<open>::ffff:a.b.c.d\<close> has the
  canonical form, the class and both budget keys of \<open>a.b.c.d\<close>, and an address is reported as a public
  IPv4 address exactly when its canonical form is one and is classed public.\<close>

lemma mapped_spelling_is_the_address:
  "(let m = V6 (push_bit 32 65535 OR ucast a) in
    canonical_ip m = V4 a \<and> classify p m = classify p (V4 a) \<and>
    source_key m = source_key (V4 a) \<and> client_key m = client_key (V4 a)) \<and>
   (public_v4 p ip = Some b \<longleftrightarrow> canonical_ip ip = V4 b \<and> classify p ip = Some Public)"
proof -
  let ?m = "push_bit 32 65535 OR ucast a :: ipv6_addr"
  have high: "drop_bit 32 ?m = 65535"
    by (rule bit_eqI) (auto simp: bit_simps dest: bit_imp_le_length)
  have low: "ucast (push_bit 32 w OR ucast a) = a" for w :: ipv6_addr
    by (rule bit_eqI) (auto simp: bit_simps)
  have "canonical_ip (V6 ?m) = V4 a"
    by (simp only: canonical_ip.simps to_ipv4_mapped_def high low if_True option.case simp_thms)
  then show ?thesis
    by (auto simp: classify_def source_key_def client_key_def prefix_key_def public_v4_def
          split: ip_addr.splits)
qed

text \<open>The budgets are keyed by exactly what one client is taken to hold. Two addresses share the source
  key when they are the same IPv4 address or lie in one IPv6 /64, the client key with one IPv6 /48 for
  it, and the client key is a function of the source key: rotating through a /64, or through the /64s
  of a /48, earns no second budget.\<close>

lemma budget_keys_exact:
  "(source_key x = source_key y \<longleftrightarrow>
      (case (canonical_ip x, canonical_ip y) of
         (V4 a, V4 b) \<Rightarrow> a = b | (V6 a, V6 b) \<Rightarrow> drop_bit 64 a = drop_bit 64 b | _ \<Rightarrow> False)) \<and>
   (client_key x = client_key y \<longleftrightarrow>
      (case (canonical_ip x, canonical_ip y) of
         (V4 a, V4 b) \<Rightarrow> a = b | (V6 a, V6 b) \<Rightarrow> drop_bit 80 a = drop_bit 80 b | _ \<Rightarrow> False)) \<and>
   (case source_key x of SourceKey k \<Rightarrow> client_key k = client_key x)"
proof -
  have "case source_key x of SourceKey k \<Rightarrow> client_key k = client_key x"
    by (auto simp: source_key_def client_key_def prefix_key_def SOURCE_KEY_IPV6_PREFIX_LEN_def
          CLIENT_KEY_IPV6_PREFIX_LEN_def masked_not_mapped mask_mask simp del: canonical_ip.simps(1)
          split: ip_addr.splits)
  then show ?thesis
    by (simp add: source_key_def client_key_def prefix_key_eq_iff SOURCE_KEY_IPV6_PREFIX_LEN_def
          CLIENT_KEY_IPV6_PREFIX_LEN_def split: ip_addr.splits)
qed

end
