(* ===== verification/ProbeCodec.thy ===== *)
theory ProbeCodec
  imports AddressPolicy
begin

text \<open>
  \<open>remote-host/crates/protocol/src/relay/probe.rs\<close>: the UDP datagrams of the relay's rendezvous and of
  the punches between gateway and device, and the rendezvous tags. An array \<open>[u8; N]\<close> is the list of its
  bytes, its length a well-formedness condition. HMAC-SHA256 is code outside the repository: the
  parameter \<open>hmac\<close>, which answers \<open>None\<close> for a key it refuses.
\<close>

type_synonym byte = "8 word"
type_synonym punch_id = "byte list"
type_synonym rendezvous_key = "byte list"
type_synonym socket_addr_v4 = "ipv4_addr \<times> 16 word"
type_synonym mac = "byte list \<Rightarrow> byte list \<Rightarrow> byte list option"

text \<open>\<open>relay.rs\<close>: what a data leg is for.\<close>

datatype leg_class = ChatLeg | ApiLeg | BlobLeg

section \<open>Constants\<close>

definition PUNCH_ID_LEN :: nat where
  "PUNCH_ID_LEN = 16"

definition PROBE_DATAGRAM_MAGIC :: byte where
  "PROBE_DATAGRAM_MAGIC = 0x0b"

definition QUIC_FIRST_BYTE_MASK :: byte where
  "QUIC_FIRST_BYTE_MASK = 0x80 OR 0x40"

definition REGISTER_DATAGRAM_LEN :: nat where
  "REGISTER_DATAGRAM_LEN = 64"

definition PUNCH_TAG_LEN :: nat where
  "PUNCH_TAG_LEN = 16"

definition RENDEZVOUS_TAG_LEN :: nat where
  "RENDEZVOUS_TAG_LEN = 16"

definition RENDEZVOUS_TAG_DOMAIN :: "byte list" where
  "RENDEZVOUS_TAG_DOMAIN = map of_char ''baybo/direct/rendezvous/v1''"

definition HEADER_LEN :: nat where
  "HEADER_LEN = 2"

definition KIND_REGISTER :: byte where
  "KIND_REGISTER = 1"

definition KIND_REGISTERED :: byte where
  "KIND_REGISTERED = 2"

definition KIND_PEER :: byte where
  "KIND_PEER = 3"

definition KIND_PUNCH :: byte where
  "KIND_PUNCH = 4"

definition ROLE_GATEWAY :: byte where
  "ROLE_GATEWAY = 1"

definition ROLE_DEVICE :: byte where
  "ROLE_DEVICE = 2"

definition ROLE_LEN :: nat where
  "ROLE_LEN = 1"

definition IPV4_LEN :: nat where
  "IPV4_LEN = 4"

definition PORT_LEN :: nat where
  "PORT_LEN = 2"

definition SEQ_LEN :: nat where
  "SEQ_LEN = 2"

definition REGISTERED_LEN :: nat where
  "REGISTERED_LEN = HEADER_LEN + PUNCH_ID_LEN + RENDEZVOUS_TAG_LEN"

definition PEER_LEN :: nat where
  "PEER_LEN = HEADER_LEN + PUNCH_ID_LEN + IPV4_LEN + PORT_LEN + RENDEZVOUS_TAG_LEN"

definition PUNCH_LEN :: nat where
  "PUNCH_LEN = HEADER_LEN + SEQ_LEN + PUNCH_TAG_LEN"

section \<open>Bytes\<close>

text \<open>\<open>to_be_bytes\<close>, \<open>octets\<close> and their inverses; \<open>split_first_chunk\<close>.\<close>

definition u16_to_be :: "16 word \<Rightarrow> byte list" where
  "u16_to_be n = [ucast (drop_bit 8 n), ucast n]"

definition u16_from_be :: "byte list \<Rightarrow> 16 word" where
  "u16_from_be bs = push_bit 8 (ucast (bs ! 0)) OR ucast (bs ! 1)"

definition octets :: "ipv4_addr \<Rightarrow> byte list" where
  "octets ip = [ucast (drop_bit 24 ip), ucast (drop_bit 16 ip), ucast (drop_bit 8 ip), ucast ip]"

definition ipv4_from :: "byte list \<Rightarrow> ipv4_addr" where
  "ipv4_from bs = ipv4_new (bs ! 0) (bs ! 1) (bs ! 2) (bs ! 3)"

definition split_first_chunk :: "nat \<Rightarrow> 'a list \<Rightarrow> ('a list \<times> 'a list) option" where
  "split_first_chunk n xs = (if n \<le> length xs then Some (take n xs, drop n xs) else None)"

definition first_chunk :: "nat \<Rightarrow> 'a list \<Rightarrow> 'a list option" where
  "first_chunk n xs = map_option fst (split_first_chunk n xs)"

section \<open>Datagrams\<close>

datatype punch_role = Gateway | Device

datatype probe_datagram =
    Register punch_id punch_role "byte list"
  | Registered punch_id "byte list"
  | Peer punch_id socket_addr_v4 "byte list"
  | Punch "16 word" "byte list"

datatype probe_decode_error =
    NotProbe
  | UnknownKind byte
  | LengthError byte nat nat
  | RoleError byte
  | Padding

definition is_probe_datagram :: "byte list \<Rightarrow> bool" where
  "is_probe_datagram datagram =
     (case datagram of [] \<Rightarrow> False | first # _ \<Rightarrow> first AND QUIC_FIRST_BYTE_MASK = 0)"

primrec to_byte :: "punch_role \<Rightarrow> byte" where
  "to_byte Gateway = ROLE_GATEWAY"
| "to_byte Device = ROLE_DEVICE"

definition from_byte :: "byte \<Rightarrow> probe_decode_error + punch_role" where
  "from_byte r =
     (if r = ROLE_GATEWAY then Inr Gateway
      else if r = ROLE_DEVICE then Inr Device
      else Inl (RoleError r))"

definition header :: "byte \<Rightarrow> byte list" where
  "header kind = [PROBE_DATAGRAM_MAGIC, kind]"

definition push_register_fields :: "byte list \<Rightarrow> punch_id \<Rightarrow> punch_role \<Rightarrow> byte list" where
  "push_register_fields out pid r = out @ pid @ [to_byte r]"

definition push_peer_fields :: "byte list \<Rightarrow> punch_id \<Rightarrow> socket_addr_v4 \<Rightarrow> byte list" where
  "push_peer_fields out pid srflx = out @ pid @ octets (fst srflx) @ u16_to_be (snd srflx)"

text \<open>\<open>Vec::resize\<close> also truncates.\<close>

definition resize :: "nat \<Rightarrow> 'a \<Rightarrow> 'a list \<Rightarrow> 'a list" where
  "resize n x xs = (if length xs < n then xs @ replicate (n - length xs) x else take n xs)"

primrec encode :: "probe_datagram \<Rightarrow> byte list" where
  "encode (Register pid r tg) =
     resize REGISTER_DATAGRAM_LEN 0 (push_register_fields (header KIND_REGISTER) pid r @ tg)"
| "encode (Registered pid tg) = header KIND_REGISTERED @ pid @ tg"
| "encode (Peer pid srflx tg) = push_peer_fields (header KIND_PEER) pid srflx @ tg"
| "encode (Punch seq tg) = header KIND_PUNCH @ u16_to_be seq @ tg"

definition expected_len :: "byte \<Rightarrow> nat option" where
  "expected_len kind =
     (if kind = KIND_REGISTER then Some REGISTER_DATAGRAM_LEN
      else if kind = KIND_REGISTERED then Some REGISTERED_LEN
      else if kind = KIND_PEER then Some PEER_LEN
      else if kind = KIND_PUNCH then Some PUNCH_LEN
      else None)"

definition chunk :: "probe_decode_error \<Rightarrow> nat \<Rightarrow> byte list \<Rightarrow> (byte list \<times> byte list \<Rightarrow> probe_decode_error + 'a) \<Rightarrow>
     probe_decode_error + 'a" where
  "chunk length_error n bs k = (case split_first_chunk n bs of None \<Rightarrow> Inl length_error | Some p \<Rightarrow> k p)"

definition decode_register :: "probe_decode_error \<Rightarrow> byte list \<Rightarrow> probe_decode_error + probe_datagram" where
  "decode_register length_error body =
     chunk length_error PUNCH_ID_LEN body (\<lambda>(pid, rest).
     chunk length_error ROLE_LEN rest (\<lambda>(r, rest).
     chunk length_error RENDEZVOUS_TAG_LEN rest (\<lambda>(tg, padding).
       if list_ex (\<lambda>b. b \<noteq> 0) padding then Inl Padding
       else case from_byte (r ! 0) of Inl e \<Rightarrow> Inl e | Inr r \<Rightarrow> Inr (Register pid r tg))))"

definition decode_registered :: "probe_decode_error \<Rightarrow> byte list \<Rightarrow> probe_decode_error + probe_datagram" where
  "decode_registered length_error body =
     chunk length_error PUNCH_ID_LEN body (\<lambda>(pid, rest).
     chunk length_error RENDEZVOUS_TAG_LEN rest (\<lambda>(tg, _). Inr (Registered pid tg)))"

definition decode_peer :: "probe_decode_error \<Rightarrow> byte list \<Rightarrow> probe_decode_error + probe_datagram" where
  "decode_peer length_error body =
     chunk length_error PUNCH_ID_LEN body (\<lambda>(pid, rest).
     chunk length_error IPV4_LEN rest (\<lambda>(ip, rest).
     chunk length_error PORT_LEN rest (\<lambda>(port, rest).
     chunk length_error RENDEZVOUS_TAG_LEN rest (\<lambda>(tg, _).
       Inr (Peer pid (ipv4_from ip, u16_from_be port) tg)))))"

definition decode_punch :: "probe_decode_error \<Rightarrow> byte list \<Rightarrow> probe_decode_error + probe_datagram" where
  "decode_punch length_error body =
     chunk length_error SEQ_LEN body (\<lambda>(seq, rest).
     chunk length_error PUNCH_TAG_LEN rest (\<lambda>(tg, _). Inr (Punch (u16_from_be seq) tg)))"

definition decode :: "byte list \<Rightarrow> probe_decode_error + probe_datagram" where
  "decode datagram =
     (case datagram of
        magic # kind # body \<Rightarrow>
          if magic \<noteq> PROBE_DATAGRAM_MAGIC then Inl NotProbe
          else case expected_len kind of
            None \<Rightarrow> Inl (UnknownKind kind)
          | Some expected \<Rightarrow>
              let length_error = LengthError kind (length datagram) expected in
              if length datagram \<noteq> expected then Inl length_error
              else if kind = KIND_REGISTER then decode_register length_error body
              else if kind = KIND_REGISTERED then decode_registered length_error body
              else if kind = KIND_PEER then decode_peer length_error body
              else decode_punch length_error body
      | _ \<Rightarrow> Inl NotProbe)"

section \<open>Tags\<close>

primrec rendezvous_tag :: "probe_datagram \<Rightarrow> byte list option" where
  "rendezvous_tag (Register _ _ tg) = Some tg"
| "rendezvous_tag (Registered _ tg) = Some tg"
| "rendezvous_tag (Peer _ _ tg) = Some tg"
| "rendezvous_tag (Punch _ _) = None"

definition key_tag :: "mac \<Rightarrow> rendezvous_key \<Rightarrow> byte list \<Rightarrow> byte list option" where
  "key_tag hmac key body =
     (case hmac key (RENDEZVOUS_TAG_DOMAIN @ body) of
        None \<Rightarrow> None
      | Some digest \<Rightarrow> first_chunk RENDEZVOUS_TAG_LEN digest)"

definition key_register :: "mac \<Rightarrow> rendezvous_key \<Rightarrow> punch_id \<Rightarrow> punch_role \<Rightarrow> probe_datagram option" where
  "key_register hmac key pid r =
     map_option (Register pid r) (key_tag hmac key (push_register_fields (header KIND_REGISTER) pid r))"

definition key_registered :: "mac \<Rightarrow> rendezvous_key \<Rightarrow> punch_id \<Rightarrow> probe_datagram option" where
  "key_registered hmac key pid =
     map_option (Registered pid) (key_tag hmac key (header KIND_REGISTERED @ pid))"

definition key_peer :: "mac \<Rightarrow> rendezvous_key \<Rightarrow> punch_id \<Rightarrow> socket_addr_v4 \<Rightarrow> probe_datagram option" where
  "key_peer hmac key pid srflx =
     map_option (Peer pid srflx) (key_tag hmac key (push_peer_fields (header KIND_PEER) pid srflx))"

definition verifies :: "mac \<Rightarrow> rendezvous_key \<Rightarrow> probe_datagram \<Rightarrow> bool" where
  "verifies hmac key datagram =
     (let expected = (case datagram of
            Register pid r _ \<Rightarrow> key_register hmac key pid r
          | Registered pid _ \<Rightarrow> key_registered hmac key pid
          | Peer pid srflx _ \<Rightarrow> key_peer hmac key pid srflx
          | Punch _ _ \<Rightarrow> None)
      in case expected of
           None \<Rightarrow> False
         | Some e \<Rightarrow> rendezvous_tag e \<noteq> None \<and> rendezvous_tag e = rendezvous_tag datagram)"

section \<open>Hex identifiers\<close>

text \<open>\<open>remote-host/crates/protocol/src/relay/ids.rs\<close>: ids and keys travel as lowercase hex.\<close>

definition LOWER_HEX_DIGITS :: string where
  "LOWER_HEX_DIGITS = ''0123456789abcdef''"

fun push_lower_hex :: "string \<Rightarrow> byte list \<Rightarrow> string" where
  "push_lower_hex out [] = out"
| "push_lower_hex out (b # bs) =
     push_lower_hex (out @ [LOWER_HEX_DIGITS ! unat (drop_bit 4 b), LOWER_HEX_DIGITS ! unat (b AND 0x0f)]) bs"

definition encode_lower_hex :: "byte list \<Rightarrow> string" where
  "encode_lower_hex bs = push_lower_hex [] bs"

definition lower_hex_nibble :: "char \<Rightarrow> byte option" where
  "lower_hex_nibble c =
     (if 48 \<le> char_code c \<and> char_code c \<le> 57 then Some (of_char c - 48)
      else if 97 \<le> char_code c \<and> char_code c \<le> 102 then Some (of_char c - 97 + 10)
      else None)"

definition is_lower_hex :: "string \<Rightarrow> nat \<Rightarrow> bool" where
  "is_lower_hex value raw_len \<longleftrightarrow>
     length value = raw_len * 2 \<and> list_all (\<lambda>c. lower_hex_nibble c \<noteq> None) value"

text \<open>The loop over \<open>chunks_exact(2)\<close>.\<close>

fun decode_pairs :: "string \<Rightarrow> byte list option" where
  "decode_pairs (h # l # cs) =
     (case (lower_hex_nibble h, lower_hex_nibble l, decode_pairs cs) of
        (Some high, Some low, Some bs) \<Rightarrow> Some ((push_bit 4 high OR low) # bs)
      | _ \<Rightarrow> None)"
| "decode_pairs _ = Some []"

definition decode_lower_hex :: "nat \<Rightarrow> string \<Rightarrow> byte list option" where
  "decode_lower_hex n value = (if length value \<noteq> n * 2 then None else decode_pairs value)"

section \<open>The codec\<close>

lemmas probe_len_defs = PUNCH_ID_LEN_def REGISTER_DATAGRAM_LEN_def PUNCH_TAG_LEN_def RENDEZVOUS_TAG_LEN_def
  HEADER_LEN_def ROLE_LEN_def IPV4_LEN_def PORT_LEN_def SEQ_LEN_def REGISTERED_LEN_def PEER_LEN_def PUNCH_LEN_def

lemmas probe_kind_defs = KIND_REGISTER_def KIND_REGISTERED_def KIND_PEER_def KIND_PUNCH_def

primrec datagram_ok :: "probe_datagram \<Rightarrow> bool" where
  "datagram_ok (Register pid r tg) \<longleftrightarrow> length pid = PUNCH_ID_LEN \<and> length tg = RENDEZVOUS_TAG_LEN"
| "datagram_ok (Registered pid tg) \<longleftrightarrow> length pid = PUNCH_ID_LEN \<and> length tg = RENDEZVOUS_TAG_LEN"
| "datagram_ok (Peer pid srflx tg) \<longleftrightarrow> length pid = PUNCH_ID_LEN \<and> length tg = RENDEZVOUS_TAG_LEN"
| "datagram_ok (Punch seq tg) \<longleftrightarrow> length tg = PUNCH_TAG_LEN"

lemma length_u16_to_be [simp]: "length (u16_to_be n) = 2"
  by (simp add: u16_to_be_def)

lemma length_octets [simp]: "length (octets ip) = 4"
  by (simp add: octets_def)

lemma u16_roundtrip [simp]: "u16_from_be (u16_to_be n) = n"
  unfolding u16_from_be_def u16_to_be_def by (rule bit_eqI) (auto simp: bit_simps)

lemma u16_to_from:
  assumes "length bs = 2"
  shows "u16_to_be (u16_from_be bs) = bs"
proof -
  obtain a b where bs: "bs = [a, b]" using assms by (auto simp: length_Suc_conv numeral_2_eq_2)
  have "ucast (drop_bit 8 (push_bit 8 (ucast a) OR ucast b :: 16 word)) = a"
    by (rule bit_eqI) (auto simp: bit_simps dest: bit_imp_le_length)
  moreover have "ucast (push_bit 8 (ucast a) OR ucast b :: 16 word) = b"
    by (rule bit_eqI) (auto simp: bit_simps)
  ultimately show ?thesis by (simp add: u16_to_be_def u16_from_be_def bs)
qed

lemma ipv4_roundtrip [simp]: "ipv4_from (octets ip) = ip"
proof (rule bit_eqI)
  fix n
  assume "possible_bit TYPE(32 word) n"
  then have "n < 32" by simp
  then consider "n < 8" | "8 \<le> n" "n < 16" | "16 \<le> n" "n < 24" | "24 \<le> n" "n < 32" by linarith
  then show "bit (ipv4_from (octets ip)) n = bit ip n"
    unfolding ipv4_from_def octets_def ipv4_new_def by cases (auto simp: bit_simps)
qed

lemma octets_from:
  assumes "length bs = 4"
  shows "octets (ipv4_from bs) = bs"
proof -
  obtain a b c d where bs: "bs = [a, b, c, d]" using assms by (auto simp: length_Suc_conv eval_nat_numeral)
  have "ucast (drop_bit 24 (ipv4_new a b c d)) = a" "ucast (drop_bit 16 (ipv4_new a b c d)) = b"
    "ucast (drop_bit 8 (ipv4_new a b c d)) = c" "ucast (ipv4_new a b c d) = d"
    unfolding ipv4_new_def by (rule bit_eqI; auto simp: bit_simps dest: bit_imp_le_length)+
  then show ?thesis by (simp add: octets_def ipv4_from_def bs)
qed

lemma from_byte_iff: "from_byte b = Inr r \<longleftrightarrow> b = to_byte r"
  by (cases r) (auto simp: from_byte_def ROLE_GATEWAY_def ROLE_DEVICE_def)

lemma chunk_append: "length xs = n \<Longrightarrow> chunk e n (xs @ ys) k = k (xs, ys)"
  by (simp add: chunk_def split_first_chunk_def)

lemma chunk_all: "length xs = n \<Longrightarrow> chunk e n xs k = k (xs, [])"
  by (simp add: chunk_def split_first_chunk_def)

lemma chunk_Inr: "chunk e n bs k = Inr d \<longleftrightarrow> (\<exists>xs ys. bs = xs @ ys \<and> length xs = n \<and> k (xs, ys) = Inr d)"
proof
  assume "chunk e n bs k = Inr d"
  then have "n \<le> length bs" "k (take n bs, drop n bs) = Inr d"
    by (auto simp: chunk_def split_first_chunk_def split: if_splits)
  then show "\<exists>xs ys. bs = xs @ ys \<and> length xs = n \<and> k (xs, ys) = Inr d"
    by (intro exI [of _ "take n bs"] exI [of _ "drop n bs"]) simp
next
  assume "\<exists>xs ys. bs = xs @ ys \<and> length xs = n \<and> k (xs, ys) = Inr d"
  then show "chunk e n bs k = Inr d" by (auto simp: chunk_append)
qed

lemma all_zero_iff: "(\<not> list_ex (\<lambda>b. b \<noteq> 0) xs) \<longleftrightarrow> xs = replicate (length xs) (0 :: byte)"
  by (auto simp: list_ex_iff replicate_eqI intro: replicate_eqI) (metis in_set_replicate)

lemma decode_register_iff:
  assumes "length body = 62"
  shows "decode_register e body = Inr d \<longleftrightarrow>
     (\<exists>pid r tg. d = Register pid r tg \<and> datagram_ok d \<and> encode d = header KIND_REGISTER @ body)"
proof
  assume "decode_register e body = Inr d"
  then obtain pid r rs tg pad where body: "body = pid @ rs @ tg @ pad"
    and len: "length pid = 16" "length rs = 1" "length tg = 16"
    and pad: "pad = replicate (length pad) 0" and r: "from_byte (rs ! 0) = Inr r"
    and d: "d = Register pid r tg"
    by (auto simp: decode_register_def chunk_Inr probe_len_defs all_zero_iff [symmetric]
        split: if_splits sum.splits)
  have "rs = [to_byte r]" using len(2) r by (auto simp: length_Suc_conv from_byte_iff)
  moreover have "pad = replicate 29 0" using pad assms len by (simp add: body)
  ultimately have "encode d = header KIND_REGISTER @ body"
    using len by (simp add: d body resize_def push_register_fields_def header_def probe_len_defs)
  then show "\<exists>pid r tg. d = Register pid r tg \<and> datagram_ok d \<and> encode d = header KIND_REGISTER @ body"
    using d len by (auto simp: probe_len_defs)
next
  assume "\<exists>pid r tg. d = Register pid r tg \<and> datagram_ok d \<and> encode d = header KIND_REGISTER @ body"
  then obtain pid r tg where d: "d = Register pid r tg" and len: "length pid = 16" "length tg = 16"
    and enc: "encode d = header KIND_REGISTER @ body"
    by (auto simp: probe_len_defs)
  have "body = pid @ [to_byte r] @ tg @ replicate 29 0"
    using enc len by (simp add: d resize_def push_register_fields_def header_def probe_len_defs)
  moreover have "\<not> list_ex (\<lambda>b. b \<noteq> 0) (replicate 29 (0 :: byte))" by (simp add: all_zero_iff)
  moreover have "from_byte (to_byte r) = Inr r" by (simp add: from_byte_iff)
  ultimately show "decode_register e body = Inr d"
    using len d by (simp add: decode_register_def chunk_append probe_len_defs del: append_Cons)
qed

lemma decode_registered_iff:
  assumes "length body = 32"
  shows "decode_registered e body = Inr d \<longleftrightarrow>
     (\<exists>pid tg. d = Registered pid tg \<and> datagram_ok d \<and> encode d = header KIND_REGISTERED @ body)"
  using assms by (auto simp: decode_registered_def chunk_Inr probe_len_defs)

lemma decode_peer_iff:
  assumes "length body = 38"
  shows "decode_peer e body = Inr d \<longleftrightarrow>
     (\<exists>pid srflx tg. d = Peer pid srflx tg \<and> datagram_ok d \<and> encode d = header KIND_PEER @ body)"
proof
  assume "decode_peer e body = Inr d"
  then show "\<exists>pid srflx tg. d = Peer pid srflx tg \<and> datagram_ok d \<and> encode d = header KIND_PEER @ body"
    using assms by (auto simp: decode_peer_def chunk_Inr probe_len_defs push_peer_fields_def u16_to_from octets_from)
next
  assume "\<exists>pid srflx tg. d = Peer pid srflx tg \<and> datagram_ok d \<and> encode d = header KIND_PEER @ body"
  then obtain pid srflx tg where d: "d = Peer pid srflx tg" and len: "length pid = 16" "length tg = 16"
    and "body = pid @ octets (fst srflx) @ u16_to_be (snd srflx) @ tg"
    by (auto simp: push_peer_fields_def probe_len_defs)
  then show "decode_peer e body = Inr d"
    by (simp add: decode_peer_def chunk_append chunk_all probe_len_defs)
qed

lemma decode_punch_iff:
  assumes "length body = 18"
  shows "decode_punch e body = Inr d \<longleftrightarrow>
     (\<exists>seq tg. d = Punch seq tg \<and> datagram_ok d \<and> encode d = header KIND_PUNCH @ body)"
proof
  assume "decode_punch e body = Inr d"
  then show "\<exists>seq tg. d = Punch seq tg \<and> datagram_ok d \<and> encode d = header KIND_PUNCH @ body"
    using assms by (auto simp: decode_punch_def chunk_Inr probe_len_defs u16_to_from)
next
  assume "\<exists>seq tg. d = Punch seq tg \<and> datagram_ok d \<and> encode d = header KIND_PUNCH @ body"
  then obtain seq tg where d: "d = Punch seq tg" and len: "length tg = 16"
    and "body = u16_to_be seq @ tg"
    by (auto simp: probe_len_defs)
  then show "decode_punch e body = Inr d"
    by (simp add: decode_punch_def chunk_append chunk_all probe_len_defs)
qed

text \<open>The length of a well-formed datagram.\<close>

lemma length_encode:
  "datagram_ok d \<Longrightarrow> length (encode d) = (case d of Register _ _ _ \<Rightarrow> 64 | Registered _ _ \<Rightarrow> 34
     | Peer _ _ _ \<Rightarrow> 40 | Punch _ _ \<Rightarrow> 20)"
  by (cases d) (simp_all add: resize_def push_register_fields_def push_peer_fields_def header_def probe_len_defs)

lemma decode_iff: "decode bs = Inr d \<longleftrightarrow> datagram_ok d \<and> encode d = bs"
proof (cases "\<exists>kind body. bs = header kind @ body")
  case False
  have "decode bs \<noteq> Inr d" using False
    by (auto simp: decode_def header_def split: list.splits)
  moreover have "\<exists>kind body. encode d = header kind @ body" if "datagram_ok d"
    using that by (cases d) (auto simp: header_def push_register_fields_def push_peer_fields_def resize_def probe_len_defs)
  ultimately show ?thesis using False by metis
next
  case True
  then obtain kind body where bs: "bs = header kind @ body" by blast
  have kinds: "encode d = header kind @ body \<Longrightarrow> datagram_ok d \<Longrightarrow>
      kind = (case d of Register _ _ _ \<Rightarrow> KIND_REGISTER | Registered _ _ \<Rightarrow> KIND_REGISTERED
        | Peer _ _ _ \<Rightarrow> KIND_PEER | Punch _ _ \<Rightarrow> KIND_PUNCH)"
    by (cases d) (auto simp: header_def push_register_fields_def push_peer_fields_def resize_def probe_len_defs)
  consider "kind = KIND_REGISTER" | "kind = KIND_REGISTERED" | "kind = KIND_PEER" | "kind = KIND_PUNCH"
    | "expected_len kind = None"
    unfolding expected_len_def by metis
  then show ?thesis
  proof cases
    case 1
    then show ?thesis
      using decode_register_iff [of body _ d] length_encode [of d] kinds
      by (auto simp: decode_def bs header_def expected_len_def probe_len_defs probe_kind_defs Let_def
          split: probe_datagram.splits)
  next
    case 2
    then show ?thesis
      using decode_registered_iff [of body _ d] length_encode [of d] kinds
      by (auto simp: decode_def bs header_def expected_len_def probe_len_defs probe_kind_defs Let_def
          split: probe_datagram.splits)
  next
    case 3
    then show ?thesis
      using decode_peer_iff [of body _ d] length_encode [of d] kinds
      by (auto simp: decode_def bs header_def expected_len_def probe_len_defs probe_kind_defs Let_def
          split: probe_datagram.splits)
  next
    case 4
    then show ?thesis
      using decode_punch_iff [of body _ d] length_encode [of d] kinds
      by (auto simp: decode_def bs header_def expected_len_def probe_len_defs probe_kind_defs Let_def
          split: probe_datagram.splits)
  next
    case 5
    then show ?thesis
      using kinds
      by (auto simp: decode_def bs header_def expected_len_def split: probe_datagram.splits if_splits)
  qed
qed

section \<open>Hex\<close>

lemma push_lower_hex_append: "push_lower_hex out bs = out @ push_lower_hex [] bs"
proof (induction bs arbitrary: out)
  case Nil
  then show ?case by simp
next
  case (Cons b bs)
  show ?case
    unfolding push_lower_hex.simps by (subst Cons.IH, subst (2) Cons.IH) simp
qed

lemma encode_lower_hex_simps [simp]:
  "encode_lower_hex [] = []"
  "encode_lower_hex (b # bs) =
     LOWER_HEX_DIGITS ! unat (drop_bit 4 b) # LOWER_HEX_DIGITS ! unat (b AND 0x0f) # encode_lower_hex bs"
  by (simp_all add: encode_lower_hex_def push_lower_hex_append [of "[_, _]"])

lemma length_encode_lower_hex [simp]: "length (encode_lower_hex bs) = length bs * 2"
  by (induction bs) simp_all

lemma nibble_digit_nat: "n < 16 \<Longrightarrow> lower_hex_nibble (LOWER_HEX_DIGITS ! n) = Some (of_nat n)"
proof -
  have "\<forall>n \<in> set [0..<16]. lower_hex_nibble (LOWER_HEX_DIGITS ! n) = Some (of_nat n)" by code_simp
  then show "n < 16 \<Longrightarrow> ?thesis" by simp
qed

lemma nibble_of_digit: "lower_hex_nibble c = Some d \<longleftrightarrow> unat d < 16 \<and> c = LOWER_HEX_DIGITS ! unat d"
proof
  have all: "\<forall>n \<in> set ([48..<58] @ [97..<103]).
      lower_hex_nibble (char_of (n :: nat)) = Some (of_nat (if n < 58 then n - 48 else n - 87)) \<and>
      char_of n = LOWER_HEX_DIGITS ! (if n < 58 then n - 48 else n - 87)"
    by code_simp
  assume c: "lower_hex_nibble c = Some d"
  then have "char_code c \<in> set ([48..<58] @ [97..<103])"
    unfolding set_append set_upt Un_iff atLeastLessThan_iff lower_hex_nibble_def by (simp split: if_splits)
  moreover have "char_of (char_code c) = c" by (simp add: char_code_def)
  moreover have "(if n < 58 then n - 48 else n - 87) < 16" if "n \<in> set ([48..<58] @ [97..<103])" for n :: nat
    using that by auto
  ultimately obtain k where "k < 16" "lower_hex_nibble c = Some (of_nat k)" "c = LOWER_HEX_DIGITS ! k"
    using all by metis
  then show "unat d < 16 \<and> c = LOWER_HEX_DIGITS ! unat d" using c by (auto simp: unat_of_nat)
next
  assume "unat d < 16 \<and> c = LOWER_HEX_DIGITS ! unat d"
  then show "lower_hex_nibble c = Some d" by (simp add: nibble_digit_nat)
qed

lemma and_low_nibble: "(b :: byte) AND 0x0f = take_bit 4 b"
proof -
  have "(0x0f :: byte) = mask 4" by (simp add: mask_eq_exp_minus_1)
  then show ?thesis by (simp only: take_bit_eq_mask)
qed

lemma nibbles_of_byte:
  "unat (drop_bit 4 (b :: byte)) < 16" "unat (b AND 0x0f) < 16" "push_bit 4 (drop_bit 4 b) OR (b AND 0x0f) = b"
proof -
  have "unat b < 256" using unsigned_less [of b] by simp
  then show "unat (drop_bit 4 b) < 16"
    unfolding unat_drop_bit_eq by (simp add: drop_bit_eq_div less_mult_imp_div_less)
  have "take_bit 4 (unat b) < 16" by (simp add: take_bit_eq_mod)
  then show "unat (b AND 0x0f) < 16" unfolding and_low_nibble by (simp flip: unsigned_take_bit_eq)
  show "push_bit 4 (drop_bit 4 b) OR (b AND 0x0f) = b"
    unfolding and_low_nibble by (intro bit_eqI) (auto simp: bit_simps)
qed

lemma join_nibbles:
  fixes high low :: byte
  assumes "unat high < 16" "unat low < 16"
  shows "drop_bit 4 (push_bit 4 high OR low) = high" "(push_bit 4 high OR low) AND 0x0f = low"
proof -
  have low4: "take_bit 4 x = x" if "unat x < 16" for x :: byte
    by (rule word_unat_eq_iff [THEN iffD2]) (use that in \<open>simp add: unsigned_take_bit_eq take_bit_nat_eq_self\<close>)
  have bits: "bit x n \<Longrightarrow> n < 4" if "unat x < 16" for x :: byte and n
    using low4 [OF that] bit_take_bit_iff [of 4 x n] by metis
  show "drop_bit 4 (push_bit 4 high OR low) = high"
    using bits [OF assms(1)] bits [OF assms(2)] by (intro bit_eqI) (fastforce simp: bit_simps)
  show "(push_bit 4 high OR low) AND 0x0f = low"
    unfolding and_low_nibble using bits [OF assms(2)] by (intro bit_eqI) (auto simp: bit_simps)
qed

lemma decode_pairs_iff:
  "length s = length bs * 2 \<Longrightarrow> decode_pairs s = Some bs \<longleftrightarrow> s = encode_lower_hex bs"
proof (induction s arbitrary: bs rule: decode_pairs.induct)
  case (1 h l cs)
  then obtain b bs' where bs: "bs = b # bs'" by (cases bs) auto
  have IH: "decode_pairs cs = Some bs' \<longleftrightarrow> cs = encode_lower_hex bs'" using 1 bs by simp
  show ?case
  proof
    assume "decode_pairs (h # l # cs) = Some bs"
    then obtain high low where n: "lower_hex_nibble h = Some high" "lower_hex_nibble l = Some low"
      and b: "b = push_bit 4 high OR low" and cs: "decode_pairs cs = Some bs'"
      by (auto simp: bs split: option.splits)
    have r: "unat high < 16" "h = LOWER_HEX_DIGITS ! unat high" "unat low < 16" "l = LOWER_HEX_DIGITS ! unat low"
      using n by (simp_all add: nibble_of_digit)
    have "drop_bit 4 b = high" "b AND 0x0f = low"
      unfolding b using join_nibbles r by blast+
    then show "h # l # cs = encode_lower_hex bs" using r IH cs by (simp add: bs)
  next
    assume "h # l # cs = encode_lower_hex bs"
    then show "decode_pairs (h # l # cs) = Some bs"
      using IH nibbles_of_byte [of b] by (simp add: bs nibble_digit_nat)
  qed
qed auto

section \<open>Properties\<close>

text \<open>The datagram codec is exact. A byte string decodes to a datagram exactly when it is that
  datagram's encoding, so every datagram survives the wire, no byte of a received one is ignored, and
  no two encodings stand for one datagram; every encoding is told apart from QUIC by its first byte.\<close>

lemma datagram_codec_exact:
  "(decode bs = Inr d \<longleftrightarrow> datagram_ok d \<and> encode d = bs) \<and> is_probe_datagram (encode d)"
proof -
  have "is_probe_datagram (encode d)"
    by (cases d)
      (simp_all add: is_probe_datagram_def header_def push_register_fields_def push_peer_fields_def
        resize_def probe_len_defs PROBE_DATAGRAM_MAGIC_def QUIC_FIRST_BYTE_MASK_def)
  then show ?thesis by (simp add: decode_iff)
qed

text \<open>Ids and keys survive their hex form exactly: a string is read as \<open>n\<close> bytes exactly when it is
  the lowercase hex of those bytes; an uppercase digit, another length or another character is
  refused.\<close>

lemma hex_ids_exact:
  "(decode_lower_hex n s = Some bs \<longleftrightarrow> length bs = n \<and> s = encode_lower_hex bs) \<and>
   (is_lower_hex s n \<longleftrightarrow> decode_lower_hex n s \<noteq> None)"
proof
  have len: "length bs * 2 = length s \<or> length bs * 2 + 1 = length s" if "decode_pairs s = Some bs" for s bs
    using that by (induction s arbitrary: bs rule: decode_pairs.induct) (auto split: option.splits)
  show "decode_lower_hex n s = Some bs \<longleftrightarrow> length bs = n \<and> s = encode_lower_hex bs"
    using len [of s bs] decode_pairs_iff [of s bs] by (auto simp: decode_lower_hex_def)
  have "even (length s) \<Longrightarrow> list_all (\<lambda>c. lower_hex_nibble c \<noteq> None) s \<longleftrightarrow> decode_pairs s \<noteq> None"
    by (induction s rule: decode_pairs.induct) (auto split: option.splits)
  then show "is_lower_hex s n \<longleftrightarrow> decode_lower_hex n s \<noteq> None"
    by (auto simp: is_lower_hex_def decode_lower_hex_def)
qed

text \<open>The tag of a datagram covers every field of it: what was signed for one message is not what is
  signed for another kind, role, punch or mapping.\<close>

primrec signed_body :: "probe_datagram \<Rightarrow> byte list" where
  "signed_body (Register pid r _) = push_register_fields (header KIND_REGISTER) pid r"
| "signed_body (Registered pid _) = header KIND_REGISTERED @ pid"
| "signed_body (Peer pid srflx _) = push_peer_fields (header KIND_PEER) pid srflx"
| "signed_body (Punch seq _) = []"

lemma verifies_iff:
  "verifies hmac key d \<longleftrightarrow>
     rendezvous_tag d \<noteq> None \<and> rendezvous_tag d = key_tag hmac key (signed_body d)"
  by (cases d) (auto simp: verifies_def key_register_def key_registered_def key_peer_def split: option.splits)

lemma to_byte_inject: "to_byte r = to_byte q \<longleftrightarrow> r = q"
  by (cases r; cases q) (simp_all add: ROLE_GATEWAY_def ROLE_DEVICE_def)

lemma octets_inject: "octets a = octets b \<longleftrightarrow> a = b"
  by (metis ipv4_roundtrip)

lemma u16_inject: "u16_to_be a = u16_to_be b \<longleftrightarrow> a = b"
  by (metis u16_roundtrip)

text \<open>A verified datagram says what was signed: two verified ones over the same signed bytes are equal.\<close>

lemma signed_body_binds:
  assumes "datagram_ok d" "datagram_ok d'" and "verifies hmac key d" "verifies hmac key d'"
  shows "signed_body d = signed_body d' \<longleftrightarrow> d = d'"
proof
  assume eq: "signed_body d = signed_body d'"
  then have "rendezvous_tag d = rendezvous_tag d'" "rendezvous_tag d \<noteq> None"
    using assms(3,4) by (metis verifies_iff)+
  with eq show "d = d'"
    using assms(1,2)
    by (cases d; cases d')
      (auto simp: push_register_fields_def push_peer_fields_def header_def probe_len_defs
        probe_kind_defs to_byte_inject octets_inject u16_inject append_eq_append_conv)
qed simp

end
