(* ===== verification/PunchRegistry.thy ===== *)
theory PunchRegistry
  imports HashMaps ProbeCodec
begin

text \<open>
  \<open>remote-host/crates/relay/src/punch.rs\<close> and the reply of \<open>udp.rs\<close>: the relay's table of punches, the
  offer budgets that admit them, the POSTs waiting for a gateway's report, and the UDP rendezvous. A
  one-shot channel is the sender held by the punch (\<open>pu_answer\<close>) and the inbox of the POST; a POST that
  is gone has dropped its receiver. \<open>PunchId::generate\<close> is the sequence \<open>draws\<close> of the ids it yields,
  \<open>RendezvousKey::generate\<close> the two keys passed to \<open>admit\<close>. What is only logged is left out.
\<close>

section \<open>Constants and types\<close>

definition DIRECT_ANSWER_TIMEOUT :: duration where
  "DIRECT_ANSWER_TIMEOUT = secs 3"

definition MAX_DATAGRAMS_PER_PUNCH :: nat where
  "MAX_DATAGRAMS_PER_PUNCH = 64"

definition DIRECT_OFFERS_PER_SOURCE_PER_MINUTE :: nat where
  "DIRECT_OFFERS_PER_SOURCE_PER_MINUTE = 6"

definition DIRECT_OFFERS_PER_NODE_PER_MINUTE :: nat where
  "DIRECT_OFFERS_PER_NODE_PER_MINUTE = 30"

definition MAX_PENDING_PUNCHES :: nat where
  "MAX_PENDING_PUNCHES = 4096"

definition MAX_PENDING_PUNCHES_PER_CLIENT :: nat where
  "MAX_PENDING_PUNCHES_PER_CLIENT = 64"

definition REGISTRATION_GRACE :: duration where
  "REGISTRATION_GRACE = secs 3"

definition OFFER_BUDGET_WINDOW :: duration where
  "OFFER_BUDGET_WINDOW = secs 60"

definition MAX_SEALED_CANDIDATES_BYTES :: nat where
  "MAX_SEALED_CANDIDATES_BYTES = 2048"

definition PUNCH_TTL :: duration where
  "PUNCH_TTL = secs 20"

definition MAX_INFLIGHT_PUNCHES_PER_NODE :: nat where
  "MAX_INFLIGHT_PUNCHES_PER_NODE = 2"

definition PEER_WAIT :: duration where
  "PEER_WAIT = secs 5"

type_synonym node_id = string
type_synonym api_key = string

record sealed_candidates =
  sc_n :: string
  sc_enc :: string

definition is_within_bounds :: "sealed_candidates \<Rightarrow> bool" where
  "is_within_bounds s \<longleftrightarrow> length (sc_n s) + length (sc_enc s) \<le> MAX_SEALED_CANDIDATES_BYTES"

record udp_rendezvous =
  ur_address :: string
  ur_key :: rendezvous_key

datatype control_report = DirectAnswer punch_id sealed_candidates | DirectDeclined punch_id

datatype direct_reply = Answer sealed_candidates | Declined

record role_keys =
  rk_gateway :: rendezvous_key
  rk_device :: rendezvous_key

definition for_role :: "role_keys \<Rightarrow> punch_role \<Rightarrow> rendezvous_key" where
  "for_role k r = (case r of Gateway \<Rightarrow> rk_gateway k | Device \<Rightarrow> rk_device k)"

definition other_role :: "punch_role \<Rightarrow> punch_role" where
  "other_role r = (case r of Gateway \<Rightarrow> Device | Device \<Rightarrow> Gateway)"

record role_state =
  rs_source :: "socket_addr_v4 option"
  peer_sent :: bool

definition role_default :: role_state where
  "role_default = \<lparr>rs_source = None, peer_sent = False\<rparr>"

record punch =
  pu_node :: node_id
  pu_key :: api_key
  pu_token :: nat
  pu_answer :: bool
  pu_keys :: "role_keys option"
  pu_client :: "source_key option"
  pu_gateway :: role_state
  pu_device :: role_state
  pu_datagrams :: nat
  pu_created :: instant
  pu_answered_at :: "instant option"
  pu_paired_at :: "instant option"

definition expires_at :: "punch \<Rightarrow> instant" where
  "expires_at p =
     (let ttl = pu_created p + PUNCH_TTL;
          early = (case (pu_paired_at p, pu_answered_at p) of
                     (Some paired, _) \<Rightarrow> Some (paired + PEER_WAIT)
                   | (None, Some answered) \<Rightarrow>
                       if rs_source (pu_device p) = None then Some (answered + REGISTRATION_GRACE) else None
                   | (None, None) \<Rightarrow> None)
      in case early of None \<Rightarrow> ttl | Some e \<Rightarrow> min e ttl)"

definition punch_is_live :: "punch \<Rightarrow> instant \<Rightarrow> bool" where
  "punch_is_live p now \<longleftrightarrow> now < expires_at p"

definition in_flight :: "punch \<Rightarrow> bool" where
  "in_flight p \<longleftrightarrow> \<not> (peer_sent (pu_gateway p) \<and> peer_sent (pu_device p))"

definition punch_role_state :: "punch \<Rightarrow> punch_role \<Rightarrow> role_state" where
  "punch_role_state p r = (case r of Gateway \<Rightarrow> pu_gateway p | Device \<Rightarrow> pu_device p)"

definition role_mut :: "punch_role \<Rightarrow> (role_state \<Rightarrow> role_state) \<Rightarrow> punch \<Rightarrow> punch" where
  "role_mut r f p =
     (case r of Gateway \<Rightarrow> p\<lparr>pu_gateway := f (pu_gateway p)\<rparr> | Device \<Rightarrow> p\<lparr>pu_device := f (pu_device p)\<rparr>)"

type_synonym source_budget_key = "node_id \<times> source_key option"

record offer_budget =
  per_node :: "(node_id, instant list) table"
  per_source :: "(source_budget_key, instant list) table"

record punch_table =
  pt_punches :: "(punch_id, punch) table"
  budget :: offer_budget

record punch_request =
  pr_node :: node_id
  pr_key :: api_key
  pr_token :: nat
  pr_source :: "source_key option"
  pr_rendezvous :: "string option"
  pr_timeout :: duration

datatype offer_limit = SourceRate | NodeRate | InFlight | ClientPending

datatype punch_refusal = PLimited offer_limit duration | PAtCapacity duration

record new_punch =
  np_id :: punch_id
  np_register :: "udp_rendezvous option"
  np_device :: "udp_rendezvous option"

datatype report_outcome = Delivered | UnknownPunch | Foreign | AlreadySettled | OversizedAnswer

section \<open>Offer budgets\<close>

definition saturating_since :: "instant \<Rightarrow> instant \<Rightarrow> duration" where
  "saturating_since t now = max 0 (t - now)"

text \<open>\<open>Iterator::min\<close>.\<close>

fun iter_min :: "int list \<Rightarrow> int option" where
  "iter_min [] = None"
| "iter_min (x # xs) = Some (case iter_min xs of None \<Rightarrow> x | Some m \<Rightarrow> min x m)"

definition budget_wait :: "instant list option \<Rightarrow> nat \<Rightarrow> instant \<Rightarrow> duration option" where
  "budget_wait window cap now =
     (case window of
        None \<Rightarrow> None
      | Some w \<Rightarrow>
          if length w < cap then None
          else case w of [] \<Rightarrow> None | oldest # _ \<Rightarrow> Some (saturating_since (oldest + OFFER_BUDGET_WINDOW) now))"

definition node_wait :: "offer_budget \<Rightarrow> node_id \<Rightarrow> instant \<Rightarrow> duration option" where
  "node_wait b node now = budget_wait (hm_get (per_node b) node) DIRECT_OFFERS_PER_NODE_PER_MINUTE now"

definition source_wait :: "offer_budget \<Rightarrow> source_budget_key \<Rightarrow> instant \<Rightarrow> duration option" where
  "source_wait b key now = budget_wait (hm_get (per_source b) key) DIRECT_OFFERS_PER_SOURCE_PER_MINUTE now"

text \<open>\<open>entry(k).or_default().push_back(now)\<close>.\<close>

definition push_window :: "'k \<Rightarrow> instant \<Rightarrow> ('k, instant list) table \<Rightarrow> ('k, instant list) table" where
  "push_window k now m = hm_insert k ((case hm_get m k of None \<Rightarrow> [] | Some w \<Rightarrow> w) @ [now]) m"

definition budget_record :: "offer_budget \<Rightarrow> source_budget_key \<Rightarrow> instant \<Rightarrow> offer_budget" where
  "budget_record b source now =
     b\<lparr>per_node := push_window (fst source) now (per_node b),
       per_source := push_window source now (per_source b)\<rparr>"

definition prune_window :: "instant \<Rightarrow> instant list \<Rightarrow> instant list" where
  "prune_window now w = dropWhile (\<lambda>oldest. oldest + OFFER_BUDGET_WINDOW \<le> now) w"

definition prune_windows :: "instant \<Rightarrow> ('k, instant list) table \<Rightarrow> ('k, instant list) table" where
  "prune_windows now m = hm_retain (\<lambda>_ w. w \<noteq> []) (map (\<lambda>(k, w). (k, prune_window now w)) m)"

definition budget_prune :: "offer_budget \<Rightarrow> instant \<Rightarrow> offer_budget" where
  "budget_prune b now =
     b\<lparr>per_node := prune_windows now (per_node b), per_source := prune_windows now (per_source b)\<rparr>"

section \<open>The table\<close>

definition table_sweep :: "punch_table \<Rightarrow> instant \<Rightarrow> punch_table" where
  "table_sweep t now =
     t\<lparr>budget := budget_prune (budget t) now,
       pt_punches := hm_retain (\<lambda>_ p. punch_is_live p now) (pt_punches t)\<rparr>"

definition in_flight_wait :: "punch_table \<Rightarrow> node_id \<Rightarrow> instant \<Rightarrow> duration option" where
  "in_flight_wait t node now =
     (let held = filter (\<lambda>p. pu_node p = node \<and> in_flight p) (map snd (pt_punches t)) in
      if length held < MAX_INFLIGHT_PUNCHES_PER_NODE then None
      else map_option (\<lambda>e. saturating_since e now) (iter_min (map expires_at held)))"

definition client_wait :: "punch_table \<Rightarrow> source_key option \<Rightarrow> instant \<Rightarrow> duration option" where
  "client_wait t cl now =
     (case cl of
        None \<Rightarrow> None
      | Some c \<Rightarrow>
          let held = filter (\<lambda>p. pu_client p = Some c) (map snd (pt_punches t)) in
          if length held < MAX_PENDING_PUNCHES_PER_CLIENT then None
          else map_option (\<lambda>e. saturating_since e now) (iter_min (map expires_at held)))"

definition capacity_wait :: "punch_table \<Rightarrow> instant \<Rightarrow> duration option" where
  "capacity_wait t now =
     (if length (pt_punches t) < MAX_PENDING_PUNCHES then None
      else iter_min (map (\<lambda>p. saturating_since (expires_at (snd p)) now) (pt_punches t)))"

text \<open>The loop that draws an id until one is free, from the \<open>i\<close>-th draw on.\<close>

partial_function (option) fresh_punch_id ::
    "(nat \<Rightarrow> punch_id) \<Rightarrow> (punch_id, punch) table \<Rightarrow> nat \<Rightarrow> punch_id option" where
  "fresh_punch_id draws ps i =
     (if hm_get ps (draws i) = None then Some (draws i) else fresh_punch_id draws ps (Suc i))"

definition offer_waits :: "punch_table \<Rightarrow> punch_request \<Rightarrow> instant \<Rightarrow> (offer_limit \<times> duration) list" where
  "offer_waits t req now =
     List.map_filter (\<lambda>(l, w). map_option (Pair l) w)
       [(SourceRate, source_wait (budget t) (pr_node req, pr_source req) now),
        (NodeRate, node_wait (budget t) (pr_node req) now),
        (InFlight, in_flight_wait t (pr_node req) now),
        (ClientPending, client_wait t (pr_source req) now)]"

definition new_punch_of :: "punch_request \<Rightarrow> role_keys option \<Rightarrow> instant \<Rightarrow> punch" where
  "new_punch_of req ks now =
     \<lparr>pu_node = pr_node req, pu_key = pr_key req, pu_token = pr_token req, pu_answer = True, pu_keys = ks,
      pu_client = pr_source req, pu_gateway = role_default, pu_device = role_default, pu_datagrams = 0,
      pu_created = now, pu_answered_at = None, pu_paired_at = None\<rparr>"

text \<open>\<open>None\<close> when the drawing loop does not end.\<close>

definition table_admit ::
    "(nat \<Rightarrow> punch_id) \<Rightarrow> role_keys \<Rightarrow> punch_table \<Rightarrow> punch_request \<Rightarrow> instant \<Rightarrow>
     ((punch_refusal + new_punch) \<times> punch_table) option" where
  "table_admit draws generated t req now =
     (case offer_waits t req now of
        (l, w) # refusals \<Rightarrow> Some (Inl (PLimited l (foldl (\<lambda>longest (_, w). max longest w) w refusals)), t)
      | [] \<Rightarrow>
          (case capacity_wait t now of
             Some retry_after \<Rightarrow> Some (Inl (PAtCapacity retry_after), t)
           | None \<Rightarrow>
               let t = t\<lparr>budget := budget_record (budget t) (pr_node req, pr_source req) now\<rparr> in
               (case fresh_punch_id draws (pt_punches t) 0 of
                  None \<Rightarrow> None
                | Some pid \<Rightarrow>
                    let ks = map_option (\<lambda>_. generated) (pr_rendezvous req);
                        rendezvous_for = (\<lambda>r. map_option
                          (\<lambda>address. \<lparr>ur_address = address, ur_key = for_role generated r\<rparr>) (pr_rendezvous req))
                    in Some (Inr \<lparr>np_id = pid, np_register = rendezvous_for Gateway,
                                   np_device = rendezvous_for Device\<rparr>,
                             t\<lparr>pt_punches := hm_insert pid (new_punch_of req ks now) (pt_punches t)\<rparr>))))"

section \<open>The registry and the POSTs\<close>

record pending_offer =
  po_inbox :: "direct_reply option"
  po_device :: "udp_rendezvous option"
  po_timeout :: duration

record punch_world =
  pw_table :: punch_table
  posts :: "(punch_id, pending_offer) table"

definition punch_world_new :: punch_world where
  "punch_world_new =
     \<lparr>pw_table = \<lparr>pt_punches = [], budget = \<lparr>per_node = [], per_source = []\<rparr>\<rparr>, posts = []\<rparr>"

abbreviation live_punches :: "punch_world \<Rightarrow> (punch_id, punch) table" where
  "live_punches w \<equiv> pt_punches (pw_table w)"

definition set_punches :: "(punch_id, punch) table \<Rightarrow> punch_world \<Rightarrow> punch_world" where
  "set_punches ps w = w\<lparr>pw_table := (pw_table w)\<lparr>pt_punches := ps\<rparr>\<rparr>"

definition punch_sweep :: "punch_world \<Rightarrow> instant \<Rightarrow> punch_world" where
  "punch_sweep w now = w\<lparr>pw_table := table_sweep (pw_table w) now\<rparr>"

definition punch_admit ::
    "(nat \<Rightarrow> punch_id) \<Rightarrow> role_keys \<Rightarrow> instant \<Rightarrow> punch_request \<Rightarrow> punch_world \<Rightarrow>
     ((punch_refusal + punch_id \<times> udp_rendezvous option) \<times> punch_world) option" where
  "punch_admit draws generated now req w =
     (let w = punch_sweep w now in
      case table_admit draws generated (pw_table w) req now of
        None \<Rightarrow> None
      | Some (Inl refusal, t) \<Rightarrow> Some (Inl refusal, w\<lparr>pw_table := t\<rparr>)
      | Some (Inr new, t) \<Rightarrow>
          Some (Inr (np_id new, np_register new),
                w\<lparr>pw_table := t,
                  posts := hm_insert (np_id new)
                    \<lparr>po_inbox = None, po_device = np_device new, po_timeout = pr_timeout req\<rparr> (posts w)\<rparr>))"

definition resolve :: "punch_world \<Rightarrow> node_id \<Rightarrow> nat \<Rightarrow> control_report \<Rightarrow> report_outcome \<times> punch_world" where
  "resolve w node tok report =
     (case (case report of
              DirectAnswer pid answer \<Rightarrow> if is_within_bounds answer then Some (pid, Answer answer) else None
            | DirectDeclined pid \<Rightarrow> Some (pid, Declined)) of
        None \<Rightarrow> (OversizedAnswer, w)
      | Some (pid, reply) \<Rightarrow>
          (case hm_get (live_punches w) pid of
             None \<Rightarrow> (UnknownPunch, w)
           | Some p \<Rightarrow>
               if pu_node p \<noteq> node \<or> pu_token p \<noteq> tok then (Foreign, w)
               else
                 let w' = set_punches (hm_insert pid (p\<lparr>pu_answer := False\<rparr>) (live_punches w)) w in
                 (if \<not> pu_answer p then (AlreadySettled, w')
                  else case hm_get (posts w') pid of
                    None \<Rightarrow> (AlreadySettled, w')
                  | Some po \<Rightarrow>
                      (Delivered, w'\<lparr>posts := hm_insert pid (po\<lparr>po_inbox := Some reply\<rparr>) (posts w')\<rparr>))))"

definition punch_drop_control :: "node_id \<Rightarrow> nat \<Rightarrow> punch_world \<Rightarrow> punch_world" where
  "punch_drop_control node tok w =
     set_punches (hm_retain (\<lambda>_ p. \<not> (pu_token p = tok \<and> pu_node p = node)) (live_punches w)) w"

definition register_datagram ::
    "mac \<Rightarrow> punch_world \<Rightarrow> probe_datagram \<Rightarrow> socket_addr_v4 \<Rightarrow> instant \<Rightarrow>
     probe_datagram option \<times> punch_world" where
  "register_datagram hmac w register source now =
     (case register of
        Register pid r _ \<Rightarrow>
          (case hm_get (live_punches w) pid of
             None \<Rightarrow> (None, w)
           | Some p \<Rightarrow>
               if \<not> punch_is_live p now then (None, w)
               else case pu_keys p of
                 None \<Rightarrow> (None, w)
               | Some ks \<Rightarrow>
                   let key = for_role ks r; own = rs_source (punch_role_state p r) in
                   if \<not> verifies hmac key register then (None, w)
                   else if own \<noteq> None \<and> own \<noteq> Some source then (None, w)
                   else
                     let p = role_mut r (\<lambda>s. s\<lparr>rs_source := Some source\<rparr>) p;
                         store = (\<lambda>p. set_punches (hm_insert pid p (live_punches w)) w) in
                     if pu_datagrams p \<ge> MAX_DATAGRAMS_PER_PUNCH then (None, store p)
                     else
                       let p = p\<lparr>pu_datagrams := pu_datagrams p + 1\<rparr> in
                       (case rs_source (punch_role_state p (other_role r)) of
                          None \<Rightarrow> (key_registered hmac key pid, store p)
                        | Some srflx \<Rightarrow>
                            let p = role_mut r (\<lambda>s. s\<lparr>peer_sent := True\<rparr>) p;
                                p = p\<lparr>pu_paired_at := Some (case pu_paired_at p of None \<Rightarrow> now | Some t \<Rightarrow> t)\<rparr>
                            in (key_peer hmac key pid srflx, store p)))
      | _ \<Rightarrow> (None, w))"

definition mark_answered :: "punch_world \<Rightarrow> punch_id \<Rightarrow> instant \<Rightarrow> punch_world" where
  "mark_answered w pid now =
     (case hm_get (live_punches w) pid of
        None \<Rightarrow> w
      | Some p \<Rightarrow>
          set_punches (hm_insert pid
            (p\<lparr>pu_answered_at := Some (case pu_answered_at p of None \<Rightarrow> now | Some t \<Rightarrow> t)\<rparr>) (live_punches w)) w)"

definition punch_remove :: "punch_world \<Rightarrow> punch_id \<Rightarrow> punch_world" where
  "punch_remove w pid = set_punches (hm_remove pid (live_punches w)) w"

record direct_offer_response =
  or_punch_id :: punch_id
  or_answer :: sealed_candidates
  or_rendezvous :: "udp_rendezvous option"

datatype offer_outcome = Answered direct_offer_response | OfferDeclined | NoAnswer

text \<open>
  A POST that ends: \<open>outcome\<close> and the drop of its \<open>PendingOffer\<close>. An empty inbox means that the answer
  timeout ran out, the punch and with it the sender is gone, or the POST itself was abandoned.
\<close>

definition post_ends :: "punch_world \<Rightarrow> punch_id \<Rightarrow> instant \<Rightarrow> offer_outcome option \<times> punch_world" where
  "post_ends w pid now =
     (case hm_get (posts w) pid of
        None \<Rightarrow> (None, w)
      | Some po \<Rightarrow>
          let w = w\<lparr>posts := hm_remove pid (posts w)\<rparr> in
          (case po_inbox po of
             Some (Answer answer) \<Rightarrow>
               let keep = po_device po \<noteq> None;
                   w = (if keep then mark_answered w pid now else w)
               in (Some (Answered \<lparr>or_punch_id = pid, or_answer = answer, or_rendezvous = po_device po\<rparr>),
                   if keep then w else punch_remove w pid)
           | Some Declined \<Rightarrow> (Some OfferDeclined, punch_remove w pid)
           | None \<Rightarrow> (Some NoAnswer, punch_remove w pid)))"

text \<open>\<open>reply_to\<close> of \<open>udp.rs\<close>: only a \<open>Register\<close> from a public IPv4 source reaches the table.\<close>

definition reply_to ::
    "mac \<Rightarrow> address_policy \<Rightarrow> punch_world \<Rightarrow> byte list \<Rightarrow> ip_addr \<times> 16 word \<Rightarrow> instant \<Rightarrow>
     byte list option \<times> punch_world" where
  "reply_to hmac policy w datagram source now =
     (case decode datagram of
        Inr (Register pid r tg) \<Rightarrow>
          (case canonical_ip (fst source) of
             V6 _ \<Rightarrow> (None, w)
           | V4 observed \<Rightarrow>
               if snd source = 0 \<or> public_v4 policy (V4 observed) = None then (None, w)
               else case register_datagram hmac w (Register pid r tg) (observed, snd source) now of
                 (reply, w) \<Rightarrow> (map_option encode reply, w))
      | _ \<Rightarrow> (None, w))"

section \<open>Histories\<close>

text \<open>
  The calls on the registry, and time passing without one. Each comes \<open>elapsed\<close> nanoseconds after the one before it: the clock
  (\<open>Instant\<close>) does not go back. Beside the world the history keeps what it is judged against: the
  admissions, oldest first, and the datagrams that reached the table.
\<close>

datatype punch_op =
    PAdmit "nat \<Rightarrow> punch_id" role_keys punch_request
  | PResolve node_id nat control_report
  | PDrop node_id nat
  | PDatagram probe_datagram socket_addr_v4
  | PSweep
  | PEnd punch_id
  | PTick

record punch_history =
  clock :: instant
  admitted :: "(source_budget_key \<times> instant) list"
  arrived :: "(probe_datagram \<times> socket_addr_v4) list"
  world :: punch_world

definition history_new :: "instant \<Rightarrow> punch_history" where
  "history_new t = \<lparr>clock = t, admitted = [], arrived = [], world = punch_world_new\<rparr>"

definition punch_step :: "mac \<Rightarrow> punch_history \<Rightarrow> nat \<times> punch_op \<Rightarrow> punch_history" where
  "punch_step hmac s eo =
     (case eo of (elapsed, a) \<Rightarrow>
      let now = clock s + int elapsed; s = s\<lparr>clock := now\<rparr>; w = world s in
      case a of
        PAdmit draws ks req \<Rightarrow>
          (case punch_admit draws ks now req w of
             None \<Rightarrow> s
           | Some (Inl _, w) \<Rightarrow> s\<lparr>world := w\<rparr>
           | Some (Inr _, w) \<Rightarrow>
               s\<lparr>world := w, admitted := admitted s @ [((pr_node req, pr_source req), now)]\<rparr>)
      | PResolve node tok report \<Rightarrow> s\<lparr>world := snd (resolve w node tok report)\<rparr>
      | PDrop node tok \<Rightarrow> s\<lparr>world := punch_drop_control node tok w\<rparr>
      | PDatagram d source \<Rightarrow>
          s\<lparr>world := snd (register_datagram hmac w d source now), arrived := arrived s @ [(d, source)]\<rparr>
      | PSweep \<Rightarrow> s\<lparr>world := punch_sweep w now\<rparr>
      | PEnd pid \<Rightarrow> s\<lparr>world := snd (post_ends w pid now)\<rparr>
      | PTick \<Rightarrow> s)"

section \<open>Counting punches\<close>

definition count_punches :: "(punch \<Rightarrow> bool) \<Rightarrow> (punch_id, punch) table \<Rightarrow> nat" where
  "count_punches P ps = length (filter P (map snd ps))"

lemma count_punches_alt: "count_punches P ps = length (filter (\<lambda>x. P (snd x)) ps)"
  by (simp add: count_punches_def filter_map comp_def)

lemma count_retain: "count_punches P (hm_retain Q ps) \<le> count_punches P ps"
  unfolding count_punches_alt hm_retain_def by (induction ps) auto

lemma count_remove: "count_punches P (hm_remove k ps) \<le> count_punches P ps"
  unfolding count_punches_alt hm_remove_def by (induction ps) auto

lemma hm_remove_absent: "hm_get ps k = None \<Longrightarrow> hm_remove k ps = ps"
  by (auto simp: hm_remove_def hm_get_None filter_id_conv)

lemma set_hm_insert: "set (hm_insert k v m) = insert (k, v) {x \<in> set m. fst x \<noteq> k}"
  by (simp add: hm_insert_def)

lemma count_insert_new:
  "hm_get ps k = None \<Longrightarrow> count_punches P (hm_insert k p ps) = count_punches P ps + (if P p then 1 else 0)"
  by (simp add: hm_insert_def hm_remove_absent count_punches_alt)

lemma count_insert_old:
  assumes "hm_get ps k = Some p" and "P p' \<Longrightarrow> P p"
  shows "count_punches P (hm_insert k p' ps) \<le> count_punches P ps"
proof -
  have "count_punches P (hm_remove k ps) + (if P p then 1 else 0) \<le> count_punches P ps"
    using assms(1)
  proof (induction ps)
    case Nil
    then show ?case by (simp add: hm_get_def)
  next
    case (Cons x ps)
    show ?case
    proof (cases "fst x = k")
      case True
      then have "snd x = p" using Cons.prems by (cases x) (simp add: hm_get_def)
      moreover have "count_punches P (hm_remove k (x # ps)) = count_punches P (hm_remove k ps)"
        using True by (simp add: hm_remove_def)
      ultimately show ?thesis using count_remove [of P k ps] by (simp add: count_punches_alt)
    next
      case False
      then have "hm_get ps k = Some p" using Cons.prems by (cases x) (simp add: hm_get_def)
      with False Cons.IH show ?thesis by (simp add: count_punches_alt hm_remove_def)
    qed
  qed
  then show ?thesis using assms(2) by (auto simp: hm_insert_def count_punches_alt)
qed

lemma iter_min_None [simp]: "iter_min xs = None \<longleftrightarrow> xs = []"
  by (cases xs) auto

lemma iter_min_Some: "iter_min xs = Some m \<Longrightarrow> m \<in> set xs \<and> (\<forall>x \<in> set xs. m \<le> x)"
proof (induction xs arbitrary: m)
  case Nil
  then show ?case by simp
next
  case (Cons x xs)
  show ?case
  proof (cases "iter_min xs")
    case None
    with Cons.prems show ?thesis by simp
  next
    case (Some n)
    with Cons.prems Cons.IH [OF Some] show ?thesis by (auto simp: min_def split: if_splits)
  qed
qed

section \<open>Windows\<close>

definition window_of :: "('k, instant list) table \<Rightarrow> 'k \<Rightarrow> instant list" where
  "window_of m k = (case hm_get m k of None \<Rightarrow> [] | Some w \<Rightarrow> w)"

definition recent :: "instant \<Rightarrow> instant list \<Rightarrow> instant list" where
  "recent now ts = filter (\<lambda>t. now < t + OFFER_BUDGET_WINDOW) ts"

lemma hm_get_map_value: "hm_get (map (\<lambda>(k, v). (k, f v)) m) k = map_option f (hm_get m k)"
  by (induction m) (auto simp: hm_get_def)

lemma hm_ok_map_value: "hm_ok (map (\<lambda>(k, v). (k, f v)) m) = hm_ok m"
  by (simp add: hm_ok_def case_prod_unfold comp_def)

lemma prune_window_recent: "sorted ts \<Longrightarrow> prune_window now ts = recent now ts"
proof (induction ts)
  case Nil
  then show ?case by (simp add: prune_window_def recent_def)
next
  case (Cons t ts)
  show ?case
  proof (cases "t + OFFER_BUDGET_WINDOW \<le> now")
    case True
    with Cons show ?thesis by (simp add: prune_window_def recent_def)
  next
    case False
    then have "\<forall>x \<in> set (t # ts). now < x + OFFER_BUDGET_WINDOW" using Cons.prems by force
    then show ?thesis using False by (simp add: prune_window_def recent_def)
  qed
qed

lemma window_of_prune:
  assumes "hm_ok m" and "sorted (window_of m k)"
  shows "window_of (prune_windows now m) k = recent now (window_of m k)"
  using assms prune_window_recent
  by (auto simp: window_of_def prune_windows_def hm_get_retain hm_ok_map_value hm_get_map_value recent_def
      split: option.splits)

lemma window_of_push: "window_of (push_window k now m) j = (if j = k then window_of m k @ [now] else window_of m j)"
  by (simp add: window_of_def push_window_def)

lemma recent_recent: "pr \<le> now \<Longrightarrow> recent now (recent pr ts) = recent now ts"
  by (auto simp: recent_def intro: filter_cong)

lemma sorted_recent: "sorted ts \<Longrightarrow> sorted (recent pr ts)"
  unfolding recent_def by (induction ts) auto

lemma budget_wait_window:
  "0 < cap \<Longrightarrow> budget_wait (hm_get m k) cap now =
     (if length (window_of m k) < cap then None
      else Some (saturating_since (hd (window_of m k) + OFFER_BUDGET_WINDOW) now))"
  by (auto simp: budget_wait_def window_of_def split: option.splits list.splits)

section \<open>Invariants\<close>

definition punches_inv :: "(punch_id, punch) table \<Rightarrow> bool" where
  "punches_inv ps \<longleftrightarrow>
     hm_ok ps \<and> length ps \<le> MAX_PENDING_PUNCHES \<and>
     (\<forall>c. count_punches (\<lambda>p. pu_client p = Some c) ps \<le> MAX_PENDING_PUNCHES_PER_CLIENT) \<and>
     (\<forall>n. count_punches (\<lambda>p. pu_node p = n \<and> in_flight p) ps \<le> MAX_INFLIGHT_PUNCHES_PER_NODE) \<and>
     (\<forall>x \<in> set ps. pu_datagrams (snd x) \<le> MAX_DATAGRAMS_PER_PUNCH)"

lemma punches_inv_retain:
  assumes "punches_inv ps"
  shows "punches_inv (hm_retain Q ps)"
proof -
  have "length (hm_retain Q ps) \<le> length ps" and "set (hm_retain Q ps) \<subseteq> set ps"
    by (simp_all add: hm_retain_def)
  then show ?thesis
    using assms unfolding punches_inv_def by (auto intro: le_trans [OF count_retain])
qed

lemma punches_inv_remove: "punches_inv ps \<Longrightarrow> punches_inv (hm_remove k ps)"
proof -
  have "hm_remove k ps = hm_retain (\<lambda>j _. j \<noteq> k) ps" by (simp add: hm_remove_def hm_retain_def)
  then show "punches_inv ps \<Longrightarrow> punches_inv (hm_remove k ps)" by (simp add: punches_inv_retain)
qed

lemma punches_inv_update:
  assumes "punches_inv ps" and "hm_get ps k = Some p"
    and "pu_node p' = pu_node p" "pu_client p' = pu_client p" "in_flight p' \<Longrightarrow> in_flight p"
    and "pu_datagrams p' \<le> MAX_DATAGRAMS_PER_PUNCH"
  shows "punches_inv (hm_insert k p' ps)"
proof -
  have ok: "hm_ok ps" using assms(1) by (simp add: punches_inv_def)
  have "length (hm_insert k p' ps) = length ps"
    using hash_map.len_insert_old [OF ok, of k p'] assms(2) by simp
  moreover have "count_punches (\<lambda>p. pu_client p = Some c) (hm_insert k p' ps) \<le> MAX_PENDING_PUNCHES_PER_CLIENT" for c
    using assms(1) by (intro le_trans [OF count_insert_old [OF assms(2)]]) (simp_all add: assms punches_inv_def)
  moreover have "count_punches (\<lambda>p. pu_node p = n \<and> in_flight p) (hm_insert k p' ps) \<le> MAX_INFLIGHT_PUNCHES_PER_NODE" for n
    using assms(1) by (intro le_trans [OF count_insert_old [OF assms(2)]]) (simp_all add: assms punches_inv_def)
  ultimately show ?thesis
    using assms(1,6) ok unfolding punches_inv_def set_hm_insert by auto
qed

lemma punches_inv_new:
  assumes "punches_inv ps" and "hm_get ps k = None" and "length ps < MAX_PENDING_PUNCHES"
    and "\<And>c. pu_client p = Some c \<Longrightarrow>
      count_punches (\<lambda>p. pu_client p = Some c) ps < MAX_PENDING_PUNCHES_PER_CLIENT"
    and "count_punches (\<lambda>q. pu_node q = pu_node p \<and> in_flight q) ps < MAX_INFLIGHT_PUNCHES_PER_NODE"
    and "pu_datagrams p \<le> MAX_DATAGRAMS_PER_PUNCH"
  shows "punches_inv (hm_insert k p ps)"
proof -
  have ok: "hm_ok ps" using assms(1) by (simp add: punches_inv_def)
  have "length (hm_insert k p ps) = Suc (length ps)"
    using hash_map.len_insert_new [OF ok assms(2)] .
  then show ?thesis
    using assms ok unfolding punches_inv_def count_insert_new [OF assms(2)] set_hm_insert
    by (auto simp: Suc_le_eq)
qed

definition source_times :: "(source_budget_key \<times> instant) list \<Rightarrow> source_budget_key \<Rightarrow> instant list" where
  "source_times log k = map snd (filter (\<lambda>e. fst e = k) log)"

definition node_times :: "(source_budget_key \<times> instant) list \<Rightarrow> node_id \<Rightarrow> instant list" where
  "node_times log n = map snd (filter (\<lambda>e. fst (fst e) = n) log)"

definition rate_ok :: "nat \<Rightarrow> instant list \<Rightarrow> bool" where
  "rate_ok cap ts \<longleftrightarrow> (\<forall>u. length (filter (\<lambda>t. u < t + OFFER_BUDGET_WINDOW \<and> t \<le> u) ts) \<le> cap)"

definition windows_inv ::
    "instant \<Rightarrow> nat \<Rightarrow> ('k \<Rightarrow> instant list) \<Rightarrow> ('k, instant list) table \<Rightarrow> bool" where
  "windows_inv pr cap ts_of m \<longleftrightarrow>
     hm_ok m \<and> (\<forall>k. window_of m k = recent pr (ts_of k) \<and> sorted (ts_of k) \<and> rate_ok cap (ts_of k))"

definition budget_inv :: "instant \<Rightarrow> (source_budget_key \<times> instant) list \<Rightarrow> offer_budget \<Rightarrow> bool" where
  "budget_inv now log b \<longleftrightarrow>
     (\<forall>e \<in> set log. snd e \<le> now) \<and>
     (\<exists>pr \<le> now. windows_inv pr DIRECT_OFFERS_PER_SOURCE_PER_MINUTE (source_times log) (per_source b) \<and>
        windows_inv pr DIRECT_OFFERS_PER_NODE_PER_MINUTE (node_times log) (per_node b))"

lemma windows_inv_prune:
  assumes "windows_inv pr cap ts_of m" and "pr \<le> now"
  shows "windows_inv now cap ts_of (prune_windows now m)"
proof -
  have "hm_ok (prune_windows now m)" using assms(1) by (simp add: windows_inv_def prune_windows_def hm_ok_map_value)
  moreover have "window_of (prune_windows now m) k = recent now (ts_of k)" for k
    using assms by (simp add: windows_inv_def window_of_prune sorted_recent recent_recent)
  ultimately show ?thesis using assms(1) by (simp add: windows_inv_def)
qed

lemma rate_ok_snoc:
  assumes "rate_ok cap ts" and "\<forall>t \<in> set ts. t \<le> now" and "length (recent now ts) < cap"
  shows "rate_ok cap (ts @ [now])"
  unfolding rate_ok_def
proof
  fix u
  let ?P = "\<lambda>u t. u < t + OFFER_BUDGET_WINDOW \<and> t \<le> u"
  show "length (filter (?P u) (ts @ [now])) \<le> cap"
  proof (cases "now \<le> u")
    case True
    have "length (filter (?P u) ts) \<le> length (recent now ts)"
      unfolding recent_def using True assms(2) by (induction ts) auto
    then show ?thesis using assms(3) by simp
  next
    case False
    then show ?thesis using assms(1) by (simp add: rate_ok_def)
  qed
qed

lemma windows_inv_push:
  assumes "windows_inv now cap ts_of m" and "\<forall>t \<in> set (ts_of k). t \<le> now"
    and "length (window_of m k) < cap"
    and "ts_of' = ts_of(k := ts_of k @ [now])"
  shows "windows_inv now cap ts_of' (push_window k now m)"
proof -
  have "recent now (ts_of k @ [now]) = window_of m k @ [now]"
    using assms(1) by (simp add: windows_inv_def recent_def OFFER_BUDGET_WINDOW_def secs_def)
  moreover have "rate_ok cap (ts_of k @ [now])"
    using assms by (intro rate_ok_snoc) (simp_all add: windows_inv_def)
  moreover have "sorted (ts_of k @ [now])" using assms by (simp add: windows_inv_def sorted_append)
  moreover have "hm_ok (push_window k now m)" using assms(1) by (simp add: windows_inv_def push_window_def)
  ultimately show ?thesis using assms(1,4) by (simp add: windows_inv_def window_of_push)
qed

text \<open>Whatever source a role is latched to, its \<open>Register\<close> arrived and verified under the role's key.\<close>

definition latched_inv ::
    "mac \<Rightarrow> (probe_datagram \<times> socket_addr_v4) list \<Rightarrow> (punch_id, punch) table \<Rightarrow> bool" where
  "latched_inv hmac seen ps \<longleftrightarrow>
     (\<forall>pid p r src. hm_get ps pid = Some p \<longrightarrow> rs_source (punch_role_state p r) = Some src \<longrightarrow>
        (\<exists>ks tg. pu_keys p = Some ks \<and> verifies hmac (for_role ks r) (Register pid r tg) \<and>
           (Register pid r tg, src) \<in> set seen))"

lemma latched_inv_sub:
  assumes "latched_inv hmac seen ps"
    and "\<And>pid p. hm_get qs pid = Some p \<Longrightarrow> hm_get ps pid = Some p"
  shows "latched_inv hmac seen qs"
  using assms unfolding latched_inv_def by metis

lemma latched_inv_retain: "latched_inv hmac seen ps \<Longrightarrow> hm_ok ps \<Longrightarrow> latched_inv hmac seen (hm_retain Q ps)"
  by (erule latched_inv_sub) (simp add: hm_get_retain split: option.splits if_splits)

lemma latched_inv_remove: "latched_inv hmac seen ps \<Longrightarrow> latched_inv hmac seen (hm_remove k ps)"
  by (erule latched_inv_sub) (simp split: if_splits)

lemma latched_inv_insert:
  assumes "latched_inv hmac seen ps"
    and "\<And>r src. rs_source (punch_role_state p r) = Some src \<Longrightarrow>
      \<exists>ks tg. pu_keys p = Some ks \<and> verifies hmac (for_role ks r) (Register k r tg) \<and>
        (Register k r tg, src) \<in> set seen"
  shows "latched_inv hmac seen (hm_insert k p ps)"
  unfolding latched_inv_def
proof (intro allI impI)
  fix pid q r src
  assume got: "hm_get (hm_insert k p ps) pid = Some q" and src: "rs_source (punch_role_state q r) = Some src"
  consider "pid = k" "q = p" | "hm_get ps pid = Some q"
    using got by (cases "pid = k") simp_all
  then show "\<exists>ks tg. pu_keys q = Some ks \<and> verifies hmac (for_role ks r) (Register pid r tg) \<and>
      (Register pid r tg, src) \<in> set seen"
  proof cases
    case 1
    then show ?thesis using assms(2) src by simp
  next
    case 2
    then show ?thesis using assms(1) src unfolding latched_inv_def by blast
  qed
qed

lemma latched_inv_update:
  assumes "latched_inv hmac seen ps" and "hm_get ps k = Some p"
    and "pu_keys p' = pu_keys p" and "\<And>r. rs_source (punch_role_state p' r) = rs_source (punch_role_state p r)"
  shows "latched_inv hmac seen (hm_insert k p' ps)"
  using assms(1,2) by (intro latched_inv_insert) (auto simp: assms(3,4) latched_inv_def)

lemma latched_inv_mono: "latched_inv hmac seen ps \<Longrightarrow> latched_inv hmac (seen @ xs) ps"
  unfolding latched_inv_def by (metis Un_iff set_append)

lemma live_punches_set [simp]: "live_punches (set_punches ps w) = ps"
  by (simp add: set_punches_def)

lemma budget_set_punches [simp]: "budget (pw_table (set_punches ps w)) = budget (pw_table w)"
  by (simp add: set_punches_def)

definition history_inv :: "mac \<Rightarrow> punch_history \<Rightarrow> bool" where
  "history_inv hmac s \<longleftrightarrow>
     punches_inv (live_punches (world s)) \<and>
     budget_inv (clock s) (admitted s) (budget (pw_table (world s))) \<and>
     latched_inv hmac (arrived s) (live_punches (world s))"

lemma history_inv_new: "history_inv hmac (history_new t)"
  by (auto simp: history_inv_def history_new_def punch_world_new_def punches_inv_def hm_ok_def count_punches_def
      budget_inv_def windows_inv_def source_times_def node_times_def window_of_def hm_get_def recent_def
      rate_ok_def latched_inv_def)

lemma budget_inv_later: "budget_inv now log b \<Longrightarrow> now \<le> later \<Longrightarrow> budget_inv later log b"
  unfolding budget_inv_def by (meson order_trans)

lemma budget_inv_prune:
  "budget_inv now log b \<Longrightarrow>
     windows_inv now DIRECT_OFFERS_PER_SOURCE_PER_MINUTE (source_times log) (per_source (budget_prune b now)) \<and>
     windows_inv now DIRECT_OFFERS_PER_NODE_PER_MINUTE (node_times log) (per_node (budget_prune b now)) \<and>
     budget_inv now log (budget_prune b now)"
  unfolding budget_inv_def budget_prune_def by (auto intro: windows_inv_prune)

lemma budget_inv_rates:
  assumes "budget_inv now log b"
  shows "rate_ok DIRECT_OFFERS_PER_SOURCE_PER_MINUTE (source_times log k)"
    and "rate_ok DIRECT_OFFERS_PER_NODE_PER_MINUTE (node_times log n)"
  using assms unfolding budget_inv_def windows_inv_def by blast+

section \<open>Each operation\<close>

lemma role_mut_sel [simp]:
  "pu_node (role_mut r f p) = pu_node p" "pu_client (role_mut r f p) = pu_client p"
  "pu_keys (role_mut r f p) = pu_keys p" "pu_datagrams (role_mut r f p) = pu_datagrams p"
  "pu_token (role_mut r f p) = pu_token p" "pu_paired_at (role_mut r f p) = pu_paired_at p"
  "pu_key (role_mut r f p) = pu_key p" "pu_created (role_mut r f p) = pu_created p" "pu_answered_at (role_mut r f p) = pu_answered_at p"
  by (simp_all add: role_mut_def split: punch_role.splits)

lemma role_state_role_mut [simp]:
  "punch_role_state (role_mut r f p) q = (if q = r then f (punch_role_state p r) else punch_role_state p q)"
  by (cases r; cases q) (simp_all add: role_mut_def punch_role_state_def)

lemma role_state_other [simp]:
  "punch_role_state (p\<lparr>pu_datagrams := n\<rparr>) r = punch_role_state p r"
  "punch_role_state (p\<lparr>pu_paired_at := t\<rparr>) r = punch_role_state p r"
  "punch_role_state (p\<lparr>pu_answered_at := t\<rparr>) r = punch_role_state p r"
  "punch_role_state (p\<lparr>pu_answer := b\<rparr>) r = punch_role_state p r"
  by (cases r; simp add: punch_role_state_def)+

lemma in_flight_roles: "in_flight p \<longleftrightarrow> \<not> (\<forall>r. peer_sent (punch_role_state p r))"
  by (auto simp: in_flight_def punch_role_state_def split: punch_role.splits) (metis punch_role.exhaust)

text \<open>A datagram is dropped without a trace, or it is its role's verified \<open>Register\<close> from its source.\<close>

lemma register_datagram_cases:
  assumes "register_datagram hmac w d src now = (reply, w')"
  obtains "reply = None" "w' = w"
  | pid r tg p ks p' where "d = Register pid r tg" "hm_get (live_punches w) pid = Some p"
      "punch_is_live p now" "pu_keys p = Some ks" "verifies hmac (for_role ks r) d"
      "rs_source (punch_role_state p r) \<in> {None, Some src}"
      "w' = set_punches (hm_insert pid p' (live_punches w)) w"
      "pu_node p' = pu_node p" "pu_client p' = pu_client p" "pu_keys p' = pu_keys p" "pu_token p' = pu_token p"
      "pu_datagrams p \<le> MAX_DATAGRAMS_PER_PUNCH \<Longrightarrow> pu_datagrams p' \<le> MAX_DATAGRAMS_PER_PUNCH"
      "rs_source (punch_role_state p' r) = Some src"
      "rs_source (punch_role_state p' (other_role r)) = rs_source (punch_role_state p (other_role r))"
      "\<And>q. peer_sent (punch_role_state p q) \<Longrightarrow> peer_sent (punch_role_state p' q)"
      "reply = (if pu_datagrams p \<ge> MAX_DATAGRAMS_PER_PUNCH then None
                else case rs_source (punch_role_state p (other_role r)) of
                  None \<Rightarrow> key_registered hmac (for_role ks r) pid
                | Some srflx \<Rightarrow> key_peer hmac (for_role ks r) pid srflx)"
      "pu_key p' = pu_key p"
proof (cases "reply = None \<and> w' = w")
  case True
  then show thesis using that(1) by blast
next
  case False
  have other: "other_role r \<noteq> r" for r by (cases r) (simp_all add: other_role_def)
  obtain pid r tg where d: "d = Register pid r tg"
    using assms False by (cases d) (auto simp: register_datagram_def)
  obtain p where p: "hm_get (live_punches w) pid = Some p"
    using assms False by (cases "hm_get (live_punches w) pid") (auto simp: register_datagram_def d)
  have live: "punch_is_live p now"
    using assms False by (auto simp: register_datagram_def d p split: if_splits)
  obtain ks where ks: "pu_keys p = Some ks"
    using assms False by (cases "pu_keys p") (auto simp: register_datagram_def d p split: if_splits)
  have ver: "verifies hmac (for_role ks r) d"
    using assms False by (auto simp: register_datagram_def d p ks live Let_def split: if_splits)
  have own: "rs_source (punch_role_state p r) \<in> {None, Some src}"
  proof (rule ccontr)
    assume "rs_source (punch_role_state p r) \<notin> {None, Some src}"
    then have "register_datagram hmac w d src now = (None, w)"
      using ver by (simp add: register_datagram_def d p ks live Let_def)
    then show False using assms False by simp
  qed
  define p1 where "p1 = role_mut r (\<lambda>s. s\<lparr>rs_source := Some src\<rparr>) p"
  define p2 where "p2 = p1\<lparr>pu_datagrams := pu_datagrams p1 + 1\<rparr>"
  define p3 where "p3 = role_mut r (\<lambda>s. s\<lparr>peer_sent := True\<rparr>) p2"
  define p4 where "p4 = p3\<lparr>pu_paired_at := Some (case pu_paired_at p3 of None \<Rightarrow> now | Some t \<Rightarrow> t)\<rparr>"
  have eq: "(reply, w') =
      (if pu_datagrams p1 \<ge> MAX_DATAGRAMS_PER_PUNCH then (None, set_punches (hm_insert pid p1 (live_punches w)) w)
       else case rs_source (punch_role_state p2 (other_role r)) of
         None \<Rightarrow> (key_registered hmac (for_role ks r) pid, set_punches (hm_insert pid p2 (live_punches w)) w)
       | Some srflx \<Rightarrow> (key_peer hmac (for_role ks r) pid srflx, set_punches (hm_insert pid p4 (live_punches w)) w))"
    unfolding assms [symmetric] register_datagram_def Let_def p4_def p3_def p2_def p1_def
    using ver own
    by (auto simp: d p ks live simp del: role_mut_sel role_state_role_mut role_state_other)
  consider (spent) "pu_datagrams p1 \<ge> MAX_DATAGRAMS_PER_PUNCH"
    | (first) "pu_datagrams p1 < MAX_DATAGRAMS_PER_PUNCH" "rs_source (punch_role_state p2 (other_role r)) = None"
    | (pair) srflx where "pu_datagrams p1 < MAX_DATAGRAMS_PER_PUNCH"
        "rs_source (punch_role_state p2 (other_role r)) = Some srflx"
    by (meson not_None_eq not_le)
  then show thesis
  proof cases
    case spent
    show thesis
      by (rule that(2) [OF d p live ks ver own, of p1]) (use eq spent other in \<open>auto simp: p1_def\<close>)
  next
    case first
    show thesis
      by (rule that(2) [OF d p live ks ver own, of p2]) (use eq first other in \<open>auto simp: p1_def p2_def\<close>)
  next
    case (pair srflx)
    show thesis
      by (rule that(2) [OF d p live ks ver own, of p4])
        (use eq pair other in \<open>auto simp: p1_def p2_def p3_def p4_def\<close>)
  qed
qed

lemma register_datagram_inv:
  assumes "punches_inv (live_punches w)" and "latched_inv hmac seen (live_punches w)"
    and "register_datagram hmac w d src now = (reply, w')"
  shows "punches_inv (live_punches w') \<and> latched_inv hmac (seen @ [(d, src)]) (live_punches w') \<and>
    budget (pw_table w') = budget (pw_table w)"
  using assms(3)
proof (cases rule: register_datagram_cases)
  case 1
  then show ?thesis using assms by (simp add: latched_inv_mono)
next
  case (2 pid r tg p ks p')
  have "(pid, p) \<in> set (live_punches w)"
    using assms(1) 2(2) by (simp add: punches_inv_def hm_get_Some)
  then have "pu_datagrams p' \<le> MAX_DATAGRAMS_PER_PUNCH"
    using assms(1) 2(12) unfolding punches_inv_def by fastforce
  moreover have "in_flight p' \<Longrightarrow> in_flight p" using 2(15) by (auto simp: in_flight_roles)
  ultimately have "punches_inv (hm_insert pid p' (live_punches w))"
    using 2 by (intro punches_inv_update [OF assms(1) 2(2)]) simp_all
  moreover have "latched_inv hmac (seen @ [(d, src)]) (hm_insert pid p' (live_punches w))"
  proof (rule latched_inv_insert [OF latched_inv_mono [OF assms(2)]])
    fix q s
    assume s: "rs_source (punch_role_state p' q) = Some s"
    show "\<exists>ks tg. pu_keys p' = Some ks \<and> verifies hmac (for_role ks q) (Register pid q tg) \<and>
        (Register pid q tg, s) \<in> set (seen @ [(d, src)])"
    proof (cases "q = r")
      case True
      then show ?thesis using s 2 by auto
    next
      case False
      then have "q = other_role r" by (cases q; cases r) (simp_all add: other_role_def)
      then have "rs_source (punch_role_state p q) = Some s" using s 2(14) by simp
      then show ?thesis using assms(2) 2(2,10) unfolding latched_inv_def by fastforce
    qed
  qed
  ultimately show ?thesis using 2(7) by simp
qed

text \<open>The part of the invariant that lives in the world, for the calls that touch no budget.\<close>

definition world_inv :: "mac \<Rightarrow> (probe_datagram \<times> socket_addr_v4) list \<Rightarrow> punch_world \<Rightarrow> bool" where
  "world_inv hmac seen w \<longleftrightarrow> punches_inv (live_punches w) \<and> latched_inv hmac seen (live_punches w)"

lemma world_inv_posts [simp]: "world_inv hmac seen (w\<lparr>posts := ps\<rparr>) = world_inv hmac seen w"
  by (simp add: world_inv_def)

lemma world_inv_update:
  assumes "world_inv hmac seen w" and "hm_get (live_punches w) k = Some p"
    and "pu_node p' = pu_node p" "pu_client p' = pu_client p" "pu_keys p' = pu_keys p"
    and "pu_datagrams p' = pu_datagrams p" and "\<And>r. punch_role_state p' r = punch_role_state p r"
  shows "world_inv hmac seen (set_punches (hm_insert k p' (live_punches w)) w)"
proof -
  have "(k, p) \<in> set (live_punches w)" using assms(1,2) by (simp add: world_inv_def punches_inv_def hm_get_Some)
  then have "pu_datagrams p' \<le> MAX_DATAGRAMS_PER_PUNCH"
    using assms(1,6) unfolding world_inv_def punches_inv_def by fastforce
  moreover have "in_flight p' = in_flight p" using assms(7) by (simp add: in_flight_roles)
  ultimately show ?thesis
    using assms punches_inv_update [of "live_punches w" k p p'] latched_inv_update [of hmac seen "live_punches w" k p p']
    by (simp add: world_inv_def)
qed

lemma world_inv_retain:
  "world_inv hmac seen w \<Longrightarrow> world_inv hmac seen (set_punches (hm_retain Q (live_punches w)) w)"
  using punches_inv_retain latched_inv_retain by (auto simp: world_inv_def punches_inv_def)

lemma world_inv_remove: "world_inv hmac seen w \<Longrightarrow> world_inv hmac seen (punch_remove w k)"
  using punches_inv_remove latched_inv_remove by (auto simp: world_inv_def punch_remove_def)

lemma resolve_inv:
  assumes "world_inv hmac seen w"
  shows "world_inv hmac seen (snd (resolve w node tok report))"
    and "budget (pw_table (snd (resolve w node tok report))) = budget (pw_table w)"
proof -
  have upd: "world_inv hmac seen (set_punches (hm_insert pid (p\<lparr>pu_answer := False\<rparr>) (live_punches w)) w)"
    if "hm_get (live_punches w) pid = Some p" for pid p
    by (rule world_inv_update [OF assms that]) simp_all
  show "world_inv hmac seen (snd (resolve w node tok report))"
    using assms upd by (auto simp: resolve_def Let_def split: option.splits control_report.splits)
  show "budget (pw_table (snd (resolve w node tok report))) = budget (pw_table w)"
    by (auto simp: resolve_def Let_def split: option.splits control_report.splits)
qed

lemma mark_answered_inv:
  assumes "world_inv hmac seen w"
  shows "world_inv hmac seen (mark_answered w pid now)"
    and "budget (pw_table (mark_answered w pid now)) = budget (pw_table w)"
proof -
  have upd: "world_inv hmac seen (set_punches (hm_insert pid (p\<lparr>pu_answered_at := t\<rparr>) (live_punches w)) w)"
    if "hm_get (live_punches w) pid = Some p" for p t
    by (rule world_inv_update [OF assms that]) simp_all
  show "world_inv hmac seen (mark_answered w pid now)"
    using assms upd by (simp add: mark_answered_def split: option.splits)
  show "budget (pw_table (mark_answered w pid now)) = budget (pw_table w)"
    by (simp add: mark_answered_def split: option.splits)
qed

lemma post_ends_inv:
  assumes "world_inv hmac seen w"
  shows "world_inv hmac seen (snd (post_ends w pid now))"
    and "budget (pw_table (snd (post_ends w pid now))) = budget (pw_table w)"
proof -
  let ?w = "w\<lparr>posts := hm_remove pid (posts w)\<rparr>"
  have w: "world_inv hmac seen ?w" using assms by simp
  show "world_inv hmac seen (snd (post_ends w pid now))"
    using assms mark_answered_inv(1) [OF w, of pid now] world_inv_remove [OF w, of pid]
    by (simp add: post_ends_def Let_def split: option.splits direct_reply.splits)
  show "budget (pw_table (snd (post_ends w pid now))) = budget (pw_table w)"
    using mark_answered_inv(2) [OF w, of pid now]
    by (simp add: post_ends_def Let_def punch_remove_def split: option.splits direct_reply.splits)
qed

lemma sweep_live: "live_punches (punch_sweep w now) = hm_retain (\<lambda>_ p. punch_is_live p now) (live_punches w)"
  by (simp add: punch_sweep_def table_sweep_def)

lemma sweep_budget: "budget (pw_table (punch_sweep w now)) = budget_prune (budget (pw_table w)) now"
  by (simp add: punch_sweep_def table_sweep_def)

lemma world_inv_sweep: "world_inv hmac seen w \<Longrightarrow> world_inv hmac seen (punch_sweep w now)"
  using world_inv_retain [of hmac seen w "\<lambda>_ p. punch_is_live p now"] by (simp add: world_inv_def sweep_live)

section \<open>Admission\<close>

lemma fresh_punch_id_free:
  assumes "fresh_punch_id draws ps i = Some pid"
  shows "hm_get ps pid = None"
  by (rule fresh_punch_id.raw_induct [of "\<lambda>_ ps _ y. hm_get ps y = None", OF _ assms]) (auto split: if_splits)

text \<open>An offer is limited exactly by what it is told it is limited by; otherwise there is room.\<close>

lemma offer_waits_Nil:
  "offer_waits t req now = [] \<longleftrightarrow>
     source_wait (budget t) (pr_node req, pr_source req) now = None \<and> node_wait (budget t) (pr_node req) now = None \<and>
     in_flight_wait t (pr_node req) now = None \<and> client_wait t (pr_source req) now = None"
  by (simp add: offer_waits_def map_filter_def)

lemma in_flight_wait_None:
  "in_flight_wait t node now = None \<longleftrightarrow>
     count_punches (\<lambda>p. pu_node p = node \<and> in_flight p) (pt_punches t) < MAX_INFLIGHT_PUNCHES_PER_NODE"
  by (auto simp: in_flight_wait_def count_punches_def Let_def MAX_INFLIGHT_PUNCHES_PER_NODE_def
      simp del: length_filter_map)

lemma client_wait_None:
  "client_wait t (Some c) now = None \<longleftrightarrow>
     count_punches (\<lambda>p. pu_client p = Some c) (pt_punches t) < MAX_PENDING_PUNCHES_PER_CLIENT"
  by (auto simp: client_wait_def count_punches_def Let_def MAX_PENDING_PUNCHES_PER_CLIENT_def
      simp del: length_filter_map)

lemma capacity_wait_None: "capacity_wait t now = None \<longleftrightarrow> length (pt_punches t) < MAX_PENDING_PUNCHES"
  by (auto simp: capacity_wait_def MAX_PENDING_PUNCHES_def)

lemma source_wait_None:
  "source_wait b k now = None \<longleftrightarrow> length (window_of (per_source b) k) < DIRECT_OFFERS_PER_SOURCE_PER_MINUTE"
  by (simp add: source_wait_def budget_wait_window DIRECT_OFFERS_PER_SOURCE_PER_MINUTE_def)

lemma node_wait_None:
  "node_wait b n now = None \<longleftrightarrow> length (window_of (per_node b) n) < DIRECT_OFFERS_PER_NODE_PER_MINUTE"
  by (simp add: node_wait_def budget_wait_window DIRECT_OFFERS_PER_NODE_PER_MINUTE_def)

lemma table_admit_cases:
  assumes "table_admit draws ks t req now = Some (res, t')"
  obtains (limited) l d where "res = Inl (PLimited l d)" "t' = t" "offer_waits t req now \<noteq> []"
  | (full) d where "res = Inl (PAtCapacity d)" "t' = t" "offer_waits t req now = []" "capacity_wait t now = Some d"
  | (admitted) new rks where "res = Inr new" "offer_waits t req now = []" "capacity_wait t now = None"
      "hm_get (pt_punches t) (np_id new) = None"
      "t' = t\<lparr>budget := budget_record (budget t) (pr_node req, pr_source req) now,
              pt_punches := hm_insert (np_id new) (new_punch_of req rks now) (pt_punches t)\<rparr>"
proof (cases "offer_waits t req now")
  case (Cons x xs)
  obtain l d where "x = (l, d)" by (cases x)
  then show thesis using assms limited Cons by (auto simp: table_admit_def)
next
  case Nil
  show thesis
  proof (cases "capacity_wait t now")
    case (Some d)
    then show thesis using assms full Nil by (auto simp: table_admit_def)
  next
    case None
    let ?b = "t\<lparr>budget := budget_record (budget t) (pr_node req, pr_source req) now\<rparr>"
    obtain pid where pid: "fresh_punch_id draws (pt_punches t) 0 = Some pid"
      using assms Nil None by (cases "fresh_punch_id draws (pt_punches t) 0") (auto simp: table_admit_def Let_def)
    obtain new where new: "res = Inr new" "np_id new = pid"
      and t': "t' = ?b\<lparr>pt_punches := hm_insert pid
          (new_punch_of req (map_option (\<lambda>_. ks) (pr_rendezvous req)) now) (pt_punches t)\<rparr>"
      using assms Nil None pid by (auto simp: table_admit_def Let_def)
    then show thesis
      using admitted [OF new(1) Nil None] fresh_punch_id_free [OF pid] by (simp add: new(2))
  qed
qed

lemma punch_admit_cases:
  assumes "punch_admit draws ks now req w = Some (res, w')"
  obtains (refused) e where "res = Inl e" "w' = punch_sweep w now"
      "table_admit draws ks (pw_table (punch_sweep w now)) req now = Some (Inl e, pw_table (punch_sweep w now))"
  | (minted) new :: new_punch and rks where "res = Inr (np_id new, np_register new)"
      "offer_waits (pw_table (punch_sweep w now)) req now = []"
      "capacity_wait (pw_table (punch_sweep w now)) now = None"
      "hm_get (live_punches (punch_sweep w now)) (np_id new) = None"
      "live_punches w' = hm_insert (np_id new) (new_punch_of req rks now) (live_punches (punch_sweep w now))"
      "budget (pw_table w') = budget_record (budget (pw_table (punch_sweep w now))) (pr_node req, pr_source req) now"
      "posts w' = hm_insert (np_id new)
         \<lparr>po_inbox = None, po_device = np_device new, po_timeout = pr_timeout req\<rparr> (posts w)"
proof -
  let ?w = "punch_sweep w now"
  obtain ares t' where adm: "table_admit draws ks (pw_table ?w) req now = Some (ares, t')"
    using assms by (auto simp: punch_admit_def Let_def split: option.splits)
  have posts: "posts ?w = posts w" by (simp add: punch_sweep_def)
  from adm show thesis
  proof (cases rule: table_admit_cases)
    case (limited l d)
    then show thesis using refused assms adm by (auto simp: punch_admit_def Let_def)
  next
    case (full d)
    then show thesis using refused assms adm by (auto simp: punch_admit_def Let_def)
  next
    case (admitted new rks)
    have w': "res = Inr (np_id new, np_register new)"
      "w' = ?w\<lparr>pw_table := t', posts := hm_insert (np_id new)
         \<lparr>po_inbox = None, po_device = np_device new, po_timeout = pr_timeout req\<rparr> (posts ?w)\<rparr>"
      using assms adm admitted(1) by (auto simp: punch_admit_def Let_def)
    show thesis
      by (rule minted [OF w'(1) admitted(2,3,4), of rks]) (simp_all add: w'(2) admitted(5) posts)
  qed
qed

lemma source_times_snoc: "source_times (log @ [(k, t)]) = (source_times log)(k := source_times log k @ [t])"
  by (auto simp: source_times_def)

lemma node_times_snoc: "node_times (log @ [(k, t)]) = (node_times log)(fst k := node_times log (fst k) @ [t])"
  by (auto simp: node_times_def)

lemma budget_inv_record:
  assumes inv: "budget_inv now log b"
    and "source_wait (budget_prune b now) k now = None" and "node_wait (budget_prune b now) (fst k) now = None"
  shows "budget_inv now (log @ [(k, now)]) (budget_record (budget_prune b now) k now)"
proof -
  let ?b = "budget_prune b now"
  have ts: "\<forall>t \<in> set (source_times log k). t \<le> now" "\<forall>t \<in> set (node_times log (fst k)). t \<le> now"
    using inv by (auto simp: budget_inv_def source_times_def node_times_def)
  have w: "windows_inv now DIRECT_OFFERS_PER_SOURCE_PER_MINUTE (source_times log) (per_source ?b)"
    "windows_inv now DIRECT_OFFERS_PER_NODE_PER_MINUTE (node_times log) (per_node ?b)"
    using budget_inv_prune [OF inv] by auto
  have "windows_inv now DIRECT_OFFERS_PER_SOURCE_PER_MINUTE (source_times (log @ [(k, now)]))
      (push_window k now (per_source ?b))"
    using assms(2) by (intro windows_inv_push [OF w(1) ts(1)]) (simp_all add: source_wait_None source_times_snoc)
  moreover have "windows_inv now DIRECT_OFFERS_PER_NODE_PER_MINUTE (node_times (log @ [(k, now)]))
      (push_window (fst k) now (per_node ?b))"
    using assms(3) by (intro windows_inv_push [OF w(2) ts(2)]) (simp_all add: node_wait_None node_times_snoc)
  ultimately show ?thesis
    using inv unfolding budget_inv_def by (auto simp: budget_record_def)
qed

lemma punch_admit_inv:
  assumes "world_inv hmac seen w" and "budget_inv now log (budget (pw_table w))"
    and "punch_admit draws ks now req w = Some (res, w')"
  shows "world_inv hmac seen w' \<and>
    budget_inv now (case res of Inl _ \<Rightarrow> log | Inr _ \<Rightarrow> log @ [((pr_node req, pr_source req), now)])
      (budget (pw_table w'))"
  using assms(3)
proof (cases rule: punch_admit_cases)
  case (refused e)
  then show ?thesis
    using world_inv_sweep [OF assms(1)] budget_inv_prune [OF assms(2)] by (simp add: sweep_budget)
next
  case (minted new rks)
  let ?w = "punch_sweep w now" and ?k = "(pr_node req, pr_source req)"
  have w: "world_inv hmac seen ?w" by (rule world_inv_sweep [OF assms(1)])
  have room: "source_wait (budget (pw_table ?w)) ?k now = None" "node_wait (budget (pw_table ?w)) (pr_node req) now = None"
    "in_flight_wait (pw_table ?w) (pr_node req) now = None" "client_wait (pw_table ?w) (pr_source req) now = None"
    using minted(2) by (simp_all add: offer_waits_Nil)
  have "punches_inv (live_punches w')"
    unfolding minted(5)
  proof (rule punches_inv_new [OF _ minted(4)])
    show "punches_inv (live_punches ?w)" using w by (simp add: world_inv_def)
    show "length (live_punches ?w) < MAX_PENDING_PUNCHES" using minted(3) by (simp add: capacity_wait_None)
    show "count_punches (\<lambda>q. pu_node q = pu_node (new_punch_of req rks now) \<and> in_flight q) (live_punches ?w)
        < MAX_INFLIGHT_PUNCHES_PER_NODE"
      using room(3) by (simp add: in_flight_wait_None new_punch_of_def)
    show "count_punches (\<lambda>p. pu_client p = Some c) (live_punches ?w) < MAX_PENDING_PUNCHES_PER_CLIENT"
      if "pu_client (new_punch_of req rks now) = Some c" for c
      using room(4) that by (simp add: new_punch_of_def client_wait_None)
    show "pu_datagrams (new_punch_of req rks now) \<le> MAX_DATAGRAMS_PER_PUNCH" by (simp add: new_punch_of_def)
  qed
  moreover have "latched_inv hmac seen (live_punches w')"
    unfolding minted(5) using w
    by (intro latched_inv_insert)
      (simp_all add: world_inv_def new_punch_of_def punch_role_state_def role_default_def split: punch_role.splits)
  moreover have "budget_inv now (log @ [(?k, now)]) (budget (pw_table w'))"
    unfolding minted(6) sweep_budget
    using room(1,2) by (intro budget_inv_record [OF assms(2)]) (simp_all add: sweep_budget)
  ultimately show ?thesis by (simp add: world_inv_def minted(1))
qed

lemma history_inv_iff:
  "history_inv hmac s \<longleftrightarrow>
     world_inv hmac (arrived s) (world s) \<and> budget_inv (clock s) (admitted s) (budget (pw_table (world s)))"
  by (auto simp: history_inv_def world_inv_def)

lemma history_inv_step:
  assumes "history_inv hmac s"
  shows "history_inv hmac (punch_step hmac s eo)"
proof -
  obtain elapsed a where eo: "eo = (elapsed, a)" by (cases eo)
  let ?now = "clock s + int elapsed" and ?w = "world s"
  have w: "world_inv hmac (arrived s) ?w" and b: "budget_inv ?now (admitted s) (budget (pw_table ?w))"
    using assms budget_inv_later [of "clock s" "admitted s" _ ?now] by (auto simp: history_inv_iff)
  show ?thesis
  proof (cases a)
    case (PAdmit draws ks req)
    show ?thesis
    proof (cases "punch_admit draws ks ?now req ?w")
      case None
      then show ?thesis using w b by (simp add: punch_step_def Let_def eo PAdmit history_inv_iff)
    next
      case (Some rw)
      obtain res w' where rw: "rw = (res, w')" by (cases rw)
      show ?thesis
        using punch_admit_inv [OF w b Some [unfolded rw]] Some
        by (cases res) (simp_all add: punch_step_def Let_def eo PAdmit history_inv_iff rw)
    qed
  next
    case (PResolve node tok report)
    then show ?thesis
      using resolve_inv [OF w, of node tok report] b by (simp add: punch_step_def Let_def eo history_inv_iff)
  next
    case (PDrop node tok)
    then show ?thesis
      using world_inv_retain [OF w, of "\<lambda>_ p. \<not> (pu_token p = tok \<and> pu_node p = node)"] b
      by (simp add: punch_step_def Let_def eo history_inv_iff punch_drop_control_def)
  next
    case (PDatagram d src)
    obtain reply w' where r: "register_datagram hmac ?w d src ?now = (reply, w')" by fastforce
    have "punches_inv (live_punches ?w)" "latched_inv hmac (arrived s) (live_punches ?w)"
      using w by (simp_all add: world_inv_def)
    from register_datagram_inv [OF this r] show ?thesis
      using b PDatagram r by (simp add: punch_step_def Let_def eo history_inv_iff world_inv_def)
  next
    case PSweep
    then show ?thesis
      using world_inv_sweep [OF w] budget_inv_prune [OF b] by (simp add: punch_step_def Let_def eo history_inv_iff sweep_budget)
  next
    case (PEnd pid)
    then show ?thesis
      using post_ends_inv [OF w, of pid ?now] b by (simp add: punch_step_def Let_def eo history_inv_iff)
  next
    case PTick
    then show ?thesis using w b by (simp add: punch_step_def Let_def eo history_inv_iff)
  qed
qed

interpretation punch_machine: invariant_machine "punch_step hmac" "history_inv hmac"
  for hmac
  by unfold_locales (rule history_inv_step)

abbreviation history :: "mac \<Rightarrow> instant \<Rightarrow> (nat \<times> punch_op) list \<Rightarrow> punch_history" where
  "history hmac t ops \<equiv> foldl (punch_step hmac) (history_new t) ops"

lemma history_inv: "history_inv hmac (history hmac t ops)"
  by (rule punch_machine.run_inv [OF history_inv_new])

end
