(* ===== verification/RelayControl.thy ===== *)
theory RelayControl
  imports PunchRegistry
begin

text \<open>
  \<open>remote-host/crates/relay/src/control.rs\<close>: the relay's registry of gateways' control connections.
  A control channel is the list of signals waiting in it and whether its receiver is still there. The
  lemmas hold for any registry of punches \<open>'p\<close> with the two calls made on it, \<open>drop_control\<close> and
  \<open>admit\<close>, where \<open>None\<close> is a call that does not return; \<open>RelayDirect\<close> puts \<open>PunchRegistry\<close> in its place.
\<close>

record direct_capability =
  cap_version :: nat
  cap_udp :: bool

datatype control_signal =
    OpenDataLeg string leg_class
  | DirectOffer punch_id sealed_candidates "udp_rendezvous option"

definition CONTROL_CHANNEL_CAP :: nat where
  "CONTROL_CHANNEL_CAP = 32"

definition MAX_DIRECT_CONTROLS_PER_CLIENT :: nat where
  "MAX_DIRECT_CONTROLS_PER_CLIENT = 32"

definition MAX_RELAY_NODE_ID_BYTES :: nat where
  "MAX_RELAY_NODE_ID_BYTES = 128"

record control_entry =
  queued :: "control_signal list"
  receiver_open :: bool
  remote_api_key :: api_key
  token :: nat
  direct :: "direct_capability option"
  client :: "source_key option"

datatype control_register_error = RegOwnerMismatch api_key | RegNodeIdTooLong nat

datatype signal_open_error = SigNotConnected | SigOwnerMismatch | SigBackpressure

datatype no_route = NrNodeIdTooLong | NrNotConnected | NrOwnerMismatch | NrNotCapable

datatype offer_refusal =
    NoRoute no_route
  | OfLimited offer_limit duration
  | OfAtCapacity duration
  | ControlBusy
  | ControlGone

record registered_control =
  reg_token :: nat
  reg_direct :: "direct_capability option"

record 'p control_registry =
  instances :: "control_entry hash_map"
  next_token :: nat
  punches :: 'p
  rendezvous :: "string option"
  answer_timeout :: duration

definition control_new :: "'p \<Rightarrow> duration \<Rightarrow> 'p control_registry" where
  "control_new p timeout =
     \<lparr>instances = [], next_token = 0, punches = p, rendezvous = None, answer_timeout = timeout\<rparr>"

definition with_udp_rendezvous :: "'p control_registry \<Rightarrow> string \<Rightarrow> 'p control_registry" where
  "with_udp_rendezvous self address = self\<lparr>rendezvous := Some address\<rparr>"

definition node_id_within_bound :: "node_id \<Rightarrow> bool" where
  "node_id_within_bound n \<longleftrightarrow> length n \<le> MAX_RELAY_NODE_ID_BYTES"

definition offer_refusal_of :: "punch_refusal \<Rightarrow> offer_refusal" where
  "offer_refusal_of r =
     (case r of PLimited l after \<Rightarrow> OfLimited l after | PAtCapacity after \<Rightarrow> OfAtCapacity after)"

definition held_by_client :: "control_entry hash_map \<Rightarrow> node_id \<Rightarrow> source_key \<Rightarrow> nat" where
  "held_by_client m node c =
     length (filter (\<lambda>(n, e). n \<noteq> node \<and> direct e \<noteq> None \<and> client e = Some c) m)"

text \<open>\<open>direct.filter(..)\<close>: the capability C honours for a connection of \<open>cl\<close>.\<close>

definition honoured ::
    "control_entry hash_map \<Rightarrow> node_id \<Rightarrow> direct_capability option \<Rightarrow> source_key option \<Rightarrow>
     direct_capability option" where
  "honoured m node dir cl =
     (case cl of
        None \<Rightarrow> dir
      | Some c \<Rightarrow> if held_by_client m node c < MAX_DIRECT_CONTROLS_PER_CLIENT then dir else None)"

definition register_from ::
    "(node_id \<Rightarrow> nat \<Rightarrow> 'p \<Rightarrow> 'p) \<Rightarrow> 'p control_registry \<Rightarrow> node_id \<Rightarrow> api_key \<Rightarrow>
     direct_capability option \<Rightarrow> source_key option \<Rightarrow>
     (control_register_error + registered_control) \<times> 'p control_registry" where
  "register_from drop_control self node key dir cl =
     (if \<not> node_id_within_bound node then (Inl (RegNodeIdTooLong (length node)), self)
      else
        let tok = next_token self; self = self\<lparr>next_token := Suc tok\<rparr>;
            existing = hm_get (instances self) node;
            dir' = honoured (instances self) node dir cl;
            entry = \<lparr>queued = [], receiver_open = True, remote_api_key = key, token = tok,
                     direct = dir', client = cl\<rparr>;
            self' = self\<lparr>instances := hm_insert node entry (instances self)\<rparr>;
            done = Inr \<lparr>reg_token = tok, reg_direct = dir'\<rparr>
        in case existing of
             None \<Rightarrow> (done, self')
           | Some e \<Rightarrow>
               if remote_api_key e \<noteq> key then (Inl (RegOwnerMismatch (remote_api_key e)), self)
               else (done, self'\<lparr>punches := drop_control node (token e) (punches self)\<rparr>))"

definition control_register ::
    "(node_id \<Rightarrow> nat \<Rightarrow> 'p \<Rightarrow> 'p) \<Rightarrow> 'p control_registry \<Rightarrow> node_id \<Rightarrow> api_key \<Rightarrow>
     direct_capability option \<Rightarrow> (control_register_error + nat) \<times> 'p control_registry" where
  "control_register drop_control self node key dir =
     (case register_from drop_control self node key dir None of
        (Inl e, s) \<Rightarrow> (Inl e, s)
      | (Inr r, s) \<Rightarrow> (Inr (reg_token r), s))"

definition signal_open ::
    "'p control_registry \<Rightarrow> node_id \<Rightarrow> api_key \<Rightarrow> string \<Rightarrow> leg_class \<Rightarrow>
     (signal_open_error + api_key) \<times> 'p control_registry" where
  "signal_open self node expected relay_key cls =
     (case hm_get (instances self) node of
        None \<Rightarrow> (Inl SigNotConnected, self)
      | Some e \<Rightarrow>
          if remote_api_key e \<noteq> expected then (Inl SigOwnerMismatch, self)
          else if \<not> receiver_open e then (Inl SigNotConnected, self)
          else if length (queued e) \<ge> CONTROL_CHANNEL_CAP then (Inl SigBackpressure, self)
          else (Inr (remote_api_key e),
                self\<lparr>instances := hm_insert node (e\<lparr>queued := queued e @ [OpenDataLeg relay_key cls]\<rparr>)
                                   (instances self)\<rparr>))"

text \<open>\<open>admit\<close> answers with a refusal, or the punch's id and the rendezvous to register at.\<close>

definition offer_direct ::
    "(punch_request \<Rightarrow> 'p \<Rightarrow> ((punch_refusal + punch_id \<times> udp_rendezvous option) \<times> 'p) option) \<Rightarrow>
     'p control_registry \<Rightarrow> node_id \<Rightarrow> api_key \<Rightarrow> source_key option \<Rightarrow> sealed_candidates \<Rightarrow>
     ((offer_refusal + punch_id) \<times> 'p control_registry) option" where
  "offer_direct admit self node key cl offer =
     (if \<not> node_id_within_bound node then Some (Inl (NoRoute NrNodeIdTooLong), self)
      else case hm_get (instances self) node of
        None \<Rightarrow> Some (Inl (NoRoute NrNotConnected), self)
      | Some e \<Rightarrow>
          if remote_api_key e \<noteq> key then Some (Inl (NoRoute NrOwnerMismatch), self)
          else case direct e of
            None \<Rightarrow> Some (Inl (NoRoute NrNotCapable), self)
          | Some capability \<Rightarrow>
              let rdv = (if cap_udp capability then rendezvous self else None) in
              if \<not> receiver_open e then Some (Inl ControlGone, self)
              else if length (queued e) \<ge> CONTROL_CHANNEL_CAP then Some (Inl ControlBusy, self)
              else
                (case admit \<lparr>pr_node = node, pr_key = key, pr_token = token e, pr_source = cl,
                             pr_rendezvous = rdv, pr_timeout = answer_timeout self\<rparr> (punches self) of
                   None \<Rightarrow> None
                 | Some (Inl refusal, p) \<Rightarrow> Some (Inl (offer_refusal_of refusal), self\<lparr>punches := p\<rparr>)
                 | Some (Inr (pid, reg), p) \<Rightarrow>
                     Some (Inr pid,
                      self\<lparr>punches := p,
                           instances := hm_insert node
                             (e\<lparr>queued := queued e @ [DirectOffer pid offer reg]\<rparr>) (instances self)\<rparr>)))"

definition unregister_if_owned ::
    "(node_id \<Rightarrow> nat \<Rightarrow> 'p \<Rightarrow> 'p) \<Rightarrow> 'p control_registry \<Rightarrow> node_id \<Rightarrow> nat \<Rightarrow> 'p control_registry" where
  "unregister_if_owned drop_control self node tok =
     (let self = (case hm_get (instances self) node of
                    None \<Rightarrow> self
                  | Some e \<Rightarrow>
                      if token e = tok then self\<lparr>instances := hm_remove node (instances self)\<rparr> else self)
      in self\<lparr>punches := drop_control node tok (punches self)\<rparr>)"

definition connected :: "'p control_registry \<Rightarrow> nat" where
  "connected self = length (instances self)"

section \<open>Histories\<close>

text \<open>
  The calls, and what the other end of a control channel does: taking the next signal, going away.
\<close>

datatype control_op =
    RRegister node_id api_key "direct_capability option" "source_key option"
  | RSignal node_id api_key string leg_class
  | ROffer node_id api_key "source_key option" sealed_candidates
  | RUnregister node_id nat
  | RTake node_id
  | RClose node_id

definition control_step ::
    "(node_id \<Rightarrow> nat \<Rightarrow> 'p \<Rightarrow> 'p) \<Rightarrow>
     (punch_request \<Rightarrow> 'p \<Rightarrow> ((punch_refusal + punch_id \<times> udp_rendezvous option) \<times> 'p) option) \<Rightarrow>
     'p control_registry \<Rightarrow> control_op \<Rightarrow> 'p control_registry" where
  "control_step drop_control admit self a =
     (case a of
        RRegister node key dir cl \<Rightarrow> snd (register_from drop_control self node key dir cl)
      | RSignal node key relay_key cls \<Rightarrow> snd (signal_open self node key relay_key cls)
      | ROffer node key cl offer \<Rightarrow>
          (case offer_direct admit self node key cl offer of None \<Rightarrow> self | Some (_, self') \<Rightarrow> self')
      | RUnregister node tok \<Rightarrow> unregister_if_owned drop_control self node tok
      | RTake node \<Rightarrow>
          (case hm_get (instances self) node of
             None \<Rightarrow> self
           | Some e \<Rightarrow> self\<lparr>instances := hm_insert node (e\<lparr>queued := tl (queued e)\<rparr>) (instances self)\<rparr>)
      | RClose node \<Rightarrow>
          (case hm_get (instances self) node of
             None \<Rightarrow> self
           | Some e \<Rightarrow> self\<lparr>instances := hm_insert node (e\<lparr>receiver_open := False\<rparr>) (instances self)\<rparr>))"

definition direct_count :: "control_entry hash_map \<Rightarrow> source_key \<Rightarrow> nat" where
  "direct_count m c = length (filter (\<lambda>(n, e). direct e \<noteq> None \<and> client e = Some c) m)"

definition entry_ok :: "nat \<Rightarrow> node_id \<Rightarrow> control_entry \<Rightarrow> bool" where
  "entry_ok next n e \<longleftrightarrow>
     token e < next \<and> node_id_within_bound n \<and> length (queued e) \<le> CONTROL_CHANNEL_CAP"

definition control_inv :: "'p control_registry \<Rightarrow> bool" where
  "control_inv r \<longleftrightarrow>
     hm_ok (instances r) \<and>
     (\<forall>n e. hm_get (instances r) n = Some e \<longrightarrow> entry_ok (next_token r) n e) \<and>
     (\<forall>c. direct_count (instances r) c \<le> MAX_DIRECT_CONTROLS_PER_CLIENT)"

lemma filter_hm_remove:
  "filter P (hm_remove k m) = filter (\<lambda>p. fst p \<noteq> k \<and> P p) m"
  by (simp add: hm_remove_def conj_commute)

lemma direct_count_insert:
  "direct_count (hm_insert node e m) c =
     held_by_client m node c + (if direct e \<noteq> None \<and> client e = Some c then 1 else 0)"
  by (simp add: direct_count_def hm_insert_def filter_hm_remove held_by_client_def case_prod_unfold)

lemma held_by_client_le: "held_by_client m node c \<le> direct_count m c"
  unfolding held_by_client_def direct_count_def
  by (induction m) auto

lemma direct_count_split:
  assumes "hm_ok m" and "hm_get m node = Some e"
  shows "direct_count m c =
    held_by_client m node c + (if direct e \<noteq> None \<and> client e = Some c then 1 else 0)"
  using assms
proof (induction m)
  case Nil
  then show ?case by (simp add: hm_get_def)
next
  case (Cons p m)
  obtain n x where p: "p = (n, x)" by (cases p)
  have ok: "hm_ok m" using Cons.prems(1) by (simp add: hm_ok_def)
  show ?case
  proof (cases "n = node")
    case True
    then have x: "x = e" and "node \<notin> fst ` set m"
      using Cons.prems(1,2) p by (auto simp: hm_get_def hm_ok_def)
    then have "held_by_client m node c = direct_count m c"
      unfolding held_by_client_def direct_count_def
      by (intro arg_cong [of _ _ length] filter_cong) force+
    then show ?thesis using True x by (simp add: direct_count_def held_by_client_def p)
  next
    case False
    then have "hm_get m node = Some e" using Cons.prems(2) p by (simp add: hm_get_def)
    from Cons.IH [OF ok this] False show ?thesis by (simp add: direct_count_def held_by_client_def p)
  qed
qed

lemma direct_count_same:
  "hm_ok m \<Longrightarrow> hm_get m node = Some e \<Longrightarrow> direct e' = direct e \<Longrightarrow> client e' = client e \<Longrightarrow>
   direct_count (hm_insert node e' m) c = direct_count m c"
  by (simp add: direct_count_insert direct_count_split)

lemma direct_count_remove: "direct_count (hm_remove node m) c \<le> direct_count m c"
  unfolding direct_count_def filter_hm_remove by (induction m) auto

lemma control_inv_update:
  assumes "control_inv r" and "hm_get (instances r) node = Some e"
    and "direct e' = direct e" and "client e' = client e" and "token e' = token e"
    and "length (queued e') \<le> CONTROL_CHANNEL_CAP"
  shows "control_inv (r\<lparr>instances := hm_insert node e' (instances r)\<rparr>)"
  using assms direct_count_same [of "instances r" node e e']
  by (auto simp: control_inv_def entry_ok_def)

lemma control_inv_punches [simp]: "control_inv (r\<lparr>punches := p\<rparr>) = control_inv r"
  by (simp add: control_inv_def)

lemma control_inv_remove:
  "control_inv r \<Longrightarrow> control_inv (r\<lparr>instances := hm_remove node (instances r)\<rparr>)"
  by (auto simp: control_inv_def split: if_splits intro: le_trans [OF direct_count_remove])

lemma honoured_bound:
  assumes "direct_count m c \<le> MAX_DIRECT_CONTROLS_PER_CLIENT"
  shows "direct_count (hm_insert node \<lparr>queued = [], receiver_open = True, remote_api_key = key, token = tok,
      direct = honoured m node dir cl, client = cl\<rparr> m) c \<le> MAX_DIRECT_CONTROLS_PER_CLIENT"
  using assms held_by_client_le [of m node c]
  by (auto simp: direct_count_insert honoured_def split: if_splits)

lemma control_inv_register:
  assumes "control_inv r"
  shows "control_inv (snd (register_from drop_control r node key dir cl))"
proof -
  have "entry_ok n k e \<Longrightarrow> entry_ok (Suc n) k e" for n k e by (simp add: entry_ok_def)
  then show ?thesis
    using assms honoured_bound [of "instances r"]
    by (auto simp: register_from_def Let_def control_inv_def entry_ok_def less_Suc_eq split: option.splits)
qed

lemma control_inv_step:
  assumes "control_inv r"
  shows "control_inv (control_step drop_control admit r a)"
proof (cases a)
  case (RRegister node key dir cl)
  then show ?thesis using control_inv_register [OF assms] by (simp add: control_step_def)
next
  case (RSignal node key relay_key cls)
  then show ?thesis
    using assms by (auto simp: control_step_def signal_open_def intro: control_inv_update split: option.splits)
next
  case (ROffer node key cl offer)
  then show ?thesis
    using assms
    by (auto simp: control_step_def offer_direct_def Let_def
        intro: control_inv_update [of "r\<lparr>punches := _\<rparr>", simplified]
        split: option.splits prod.splits sum.splits)
next
  case (RUnregister node tok)
  then show ?thesis
    using assms control_inv_remove [OF assms]
    by (auto simp: control_step_def unregister_if_owned_def Let_def split: option.splits)
next
  case (RTake node)
  have "length (queued e) \<le> CONTROL_CHANNEL_CAP" if "hm_get (instances r) node = Some e" for e
    using assms that by (auto simp: control_inv_def entry_ok_def)
  then show ?thesis
    using RTake assms
    by (auto simp: control_step_def intro!: control_inv_update split: option.splits)
next
  case (RClose node)
  have "length (queued e) \<le> CONTROL_CHANNEL_CAP" if "hm_get (instances r) node = Some e" for e
    using assms that by (auto simp: control_inv_def entry_ok_def)
  then show ?thesis
    using RClose assms by (auto simp: control_step_def intro!: control_inv_update split: option.splits)
qed

interpretation control_machine: invariant_machine "control_step drop_control admit" control_inv
  for drop_control admit
  by unfold_locales (rule control_inv_step)

lemma control_inv_new: "control_inv (control_new p timeout)"
  by (simp add: control_inv_def control_new_def hm_ok_def hm_get_def direct_count_def)

section \<open>Properties\<close>

text \<open>Whatever gateways and phones do, however punches are admitted: one client never has more than
  32 control connections that C offers punches to, no gateway has more than 32 signals waiting, and no
  node id longer than 128 bytes is ever a key.\<close>

lemma control_registry_bounded:
  "let r = foldl (control_step drop_control admit) (control_new p timeout) ops in
     direct_count (instances r) c \<le> 32 \<and>
     list_all (\<lambda>(n, e). length n \<le> 128 \<and> length (queued e) \<le> 32) (instances r)"
proof -
  let ?r = "foldl (control_step drop_control admit) (control_new p timeout) ops"
  have inv: "control_inv ?r" by (rule control_machine.run_inv [OF control_inv_new])
  then have "entry_ok (next_token ?r) n e" if "(n, e) \<in> set (instances ?r)" for n e
    using that by (simp add: control_inv_def hm_get_Some)
  with inv show ?thesis
    by (fastforce simp: Let_def control_inv_def entry_ok_def list_all_iff node_id_within_bound_def
        MAX_DIRECT_CONTROLS_PER_CLIENT_def MAX_RELAY_NODE_ID_BYTES_def CONTROL_CHANNEL_CAP_def)
qed

text \<open>C35: A reconnect wins. After any history, a registration that is accepted owns its node under a
  token no other registered connection has, with an empty signal queue; the late clean-up of any other
  connection leaves it in place, its own clean-up removes it, and neither touches another node.\<close>

theorem reconnect_wins:
  assumes "r = foldl (control_step drop_control admit) (control_new p timeout) ops"
    and "register_from drop_control r node key dir cl = (Inr g, r')"
  shows "\<exists>e. hm_get (instances r') node = Some e \<and> token e = reg_token g \<and> remote_api_key e = key \<and>
       queued e = [] \<and> direct e = reg_direct g \<and>
       (\<forall>n e'. hm_get (instances r) n = Some e' \<longrightarrow> token e' \<noteq> reg_token g) \<and>
       (\<forall>t. hm_get (instances (unregister_if_owned drop_control r' node t)) node =
              (if t = reg_token g then None else Some e)) \<and>
       (\<forall>t n. n = node \<or>
          hm_get (instances (unregister_if_owned drop_control r' node t)) n = hm_get (instances r) n)"
proof -
  have inv: "control_inv r" using control_machine.run_inv [OF control_inv_new] assms(1) by simp
  have fresh: "token e' \<noteq> next_token r" if "hm_get (instances r) n = Some e'" for n e'
    using inv that unfolding control_inv_def entry_ok_def by (metis less_irrefl)
  from assms(2) obtain e where e: "hm_get (instances r') node = Some e" "token e = reg_token g"
    "remote_api_key e = key" "queued e = []" "direct e = reg_direct g"
    and tok: "reg_token g = next_token r"
    and rest: "\<And>n. n \<noteq> node \<Longrightarrow> hm_get (instances r') n = hm_get (instances r) n"
    by (auto simp: register_from_def Let_def split: if_splits option.splits)
  then show ?thesis
    using fresh by (auto simp: unregister_if_owned_def Let_def)
qed

theorem reconnect_wins_witness:
  "let r = control_new () 0; d = (\<lambda>_ _ p. p);
       r1 = snd (register_from d r ''n'' ''k'' None None); r2 = snd (register_from d r1 ''n'' ''k'' None None) in
   hm_get (instances (unregister_if_owned d r2 ''n'' 0)) ''n'' \<noteq> None"
proof -
  let ?d = "\<lambda>_ _ p. p" and ?a = "\<lambda>_ p. Some (Inl (PAtCapacity 0), p)"
  let ?r1 = "foldl (control_step ?d ?a) (control_new () 0) [RRegister ''n'' ''k'' None None]"
  have r1: "?r1 = snd (register_from ?d (control_new () 0) ''n'' ''k'' None None)"
    by (simp add: control_step_def)
  have "register_from ?d ?r1 ''n'' ''k'' None None =
      (Inr \<lparr>reg_token = 1, reg_direct = None\<rparr>, snd (register_from ?d ?r1 ''n'' ''k'' None None))"
    unfolding r1
    by (simp add: register_from_def control_new_def Let_def hm_get_def hm_insert_def
        node_id_within_bound_def MAX_RELAY_NODE_ID_BYTES_def honoured_def hm_remove_def)
  from reconnect_wins [OF refl this] show ?thesis
    unfolding r1 Let_def by force
qed

text \<open>A node belongs to the key that registered it. While it is registered, a caller with any other
  key can neither replace its control connection, nor send it a signal, nor offer it a punch: each
  attempt is refused as an owner mismatch and no connection changes.\<close>

lemma control_owner_isolation:
  assumes "hm_get (instances r) node = Some e" and "remote_api_key e \<noteq> key"
    and "node_id_within_bound node"
  shows "fst (register_from drop_control r node key dir cl) = Inl (RegOwnerMismatch (remote_api_key e)) \<and>
     instances (snd (register_from drop_control r node key dir cl)) = instances r \<and>
     signal_open r node key relay_key cls = (Inl SigOwnerMismatch, r) \<and>
     offer_direct admit r node key cl offer = Some (Inl (NoRoute NrOwnerMismatch), r)"
  using assms by (simp add: register_from_def signal_open_def offer_direct_def Let_def)

lemma control_owner_isolation_witness:
  "let r = snd (register_from (\<lambda>_ _ p. p) (control_new () 0) ''n'' ''k'' None None) in
   signal_open r ''n'' ''x'' ''rk'' ChatLeg = (Inl SigOwnerMismatch, r)"
proof -
  let ?r = "snd (register_from (\<lambda>_ _ p. p) (control_new () 0) ''n'' ''k'' None None)"
  let ?e = "\<lparr>queued = [], receiver_open = True, remote_api_key = ''k'', token = 0, direct = None, client = None\<rparr>"
  have "hm_get (instances ?r) ''n'' = Some ?e"
    by (simp add: register_from_def control_new_def Let_def hm_get_def hm_insert_def
        node_id_within_bound_def MAX_RELAY_NODE_ID_BYTES_def honoured_def)
  from control_owner_isolation [OF this, where key = "''x''"] show ?thesis
    by (simp add: Let_def node_id_within_bound_def MAX_RELAY_NODE_ID_BYTES_def)
qed

end
