(* ===== verification/CarrierState.thy ===== *)
theory CarrierState
  imports AddressPolicy "HOL-Library.List_Lexorder" "HOL-Library.Char_ord"
begin

text \<open>
  \<open>app/ios/ffi/src/relay/carrier/state.rs\<close>: which carrier the phone's legs ride on. At most one
  live carrier, at most one probe for one, an epoch that makes late probe results stale, and a backoff
  per binding and network. The carrier's connection handle is the type parameter \<open>'h\<close>; a network key
  (a hash of the path) and the gateway's public key are opaque. The parts of \<open>network.rs\<close> and
  \<open>api.rs\<close> the rules read are here too.
\<close>

section \<open>Paths\<close>

datatype network_interface_kind = Wifi | Wired | Cellular | Loopback | OtherInterface

datatype carrier_label = RelayLabel | LanLabel | Ipv6Label | Ipv4Label | Ipv4PunchedLabel

record network_path =
  satisfied :: bool
  interface_kind :: network_interface_kind
  interface_name :: string
  gateways :: "string list"
  supports_ipv4 :: bool
  supports_ipv6 :: bool
  available_interfaces :: "string list"
  is_expensive :: bool
  is_constrained :: bool

definition is_unspecified :: "ip_addr \<Rightarrow> bool" where
  "is_unspecified ip \<longleftrightarrow> ip = V4 0 \<or> ip = V6 0"

record interface_address =
  iface :: string
  addr_ip :: ip_addr
  up_running :: bool
  temporary :: bool
  unusable :: bool

record primary_interface =
  pi_kind :: network_interface_kind
  pi_name :: string
  pi_gateways :: "string list"

definition primary_interface_of :: "network_path \<Rightarrow> primary_interface" where
  "primary_interface_of p =
     \<lparr>pi_kind = interface_kind p, pi_name = interface_name p,
      pi_gateways = remdups_adj (sort (gateways p))\<rparr>"

record local_path =
  lp_kind :: network_interface_kind
  lp_addresses :: "interface_address list"
  lp_ipv4 :: bool
  lp_ipv6 :: bool

definition path_holds :: "local_path \<Rightarrow> ip_addr \<Rightarrow> bool" where
  "path_holds p ip =
     (let ip = canonical_ip ip in
      is_unspecified ip \<or> list_ex (\<lambda>a. canonical_ip (addr_ip a) = ip) (lp_addresses p))"

section \<open>State\<close>

record binding_key =
  bk_node :: string
  bk_pubkey :: string
  bk_device :: string

type_synonym network_key = string
type_synonym cache_key = "binding_key \<times> network_key"

text \<open>\<open>PROBE_BACKOFF\<close> and the other durations.\<close>

definition PROBE_BACKOFF :: "duration list" where
  "PROBE_BACKOFF = [secs 60, secs 120, secs 240, secs 480, secs 900]"

definition CARRIER_MIN_LIFETIME :: duration where
  "CARRIER_MIN_LIFETIME = secs 60"

definition CARRIER_DIAL_COOLOFF :: duration where
  "CARRIER_DIAL_COOLOFF = secs 30"

definition LOCAL_NETWORK_RETRY :: duration where
  "LOCAL_NETWORK_RETRY = secs 10"

datatype probe_trigger =
  ChatLive | NetworkSettled | ForegroundTrigger | BackoffTrigger | RetryAfterTrigger | LocalNetworkTrigger

datatype skip =
    SkipInactive | SkipCarrierLive | SkipInFlight | SkipRetryAfter | SkipNoPath | SkipBackingOff
  | SkipLocalNetworkRetry

record path_state =
  ps_primary :: primary_interface
  ps_path :: network_path
  ps_network :: network_key
  ps_local :: local_path

definition path_state_new :: "network_path \<Rightarrow> network_key \<Rightarrow> local_path \<Rightarrow> path_state" where
  "path_state_new p n l =
     \<lparr>ps_primary = primary_interface_of p, ps_path = p, ps_network = n, ps_local = l\<rparr>"

record probe_ticket =
  tk_id :: nat
  tk_epoch :: nat
  tk_binding :: binding_key
  tk_network :: network_key
  tk_local :: local_path
  tk_trigger :: probe_trigger

datatype 'h probe_end =
    EndCarrier 'h carrier_label ip_addr
  | EndFailed
  | EndRetryAfter duration
  | EndDenied

datatype 'h finished = Up | StaleProbe "'h option" | RetryAt instant probe_trigger

record 'h retired =
  rt_handle :: 'h
  rt_kind :: carrier_label
  rt_lifetime :: duration
  rt_retry_at :: "instant option"

datatype 'h path_change = Duplicate | Kept | Moved "'h retired option"

record 'h lease =
  ls_id :: nat
  ls_handle :: 'h

record 'h reproof =
  rp_lease :: "'h lease"
  rp_epoch :: nat

datatype 'h reproved = ReCurrent | ReStale | ReRetired "'h retired"

record 'h live_carrier =
  lv_id :: nat
  lv_handle :: 'h
  lv_kind :: carrier_label
  lv_binding :: binding_key
  lv_network :: network_key
  lv_local_ip :: ip_addr
  lv_established :: instant
  lv_suspended :: bool
  lv_cooloff :: "instant option"

record backoff =
  bo_step :: nat
  bo_until :: instant

record 'h carrier_state =
  epoch :: nat
  app_active :: bool
  cpath :: "path_state option"
  live :: "'h live_carrier option"
  probe :: "nat option"
  retry_after :: "instant option"
  failures :: "cache_key \<rightharpoonup> backoff"
  denied :: "cache_key \<rightharpoonup> instant"
  carrier_next_id :: nat

definition carrier_default :: "'h carrier_state" where
  "carrier_default =
     \<lparr>epoch = 0, app_active = True, cpath = None, live = None, probe = None, retry_after = None,
      failures = Map.empty, denied = Map.empty, carrier_next_id = 0\<rparr>"

section \<open>Operations\<close>

definition is_live :: "'h carrier_state \<Rightarrow> nat \<Rightarrow> bool" where
  "is_live s i = (case live s of None \<Rightarrow> False | Some l \<Rightarrow> lv_id l = i)"

definition bump_epoch :: "'h carrier_state \<Rightarrow> 'h carrier_state" where
  "bump_epoch s = s\<lparr>epoch := Suc (epoch s), probe := None\<rparr>"

definition take_live :: "'h carrier_state \<Rightarrow> instant \<Rightarrow> ('h retired \<times> cache_key) option \<times> 'h carrier_state"
  where
  "take_live s now =
     (case live s of
        None \<Rightarrow> (None, s)
      | Some l \<Rightarrow>
          (Some (\<lparr>rt_handle = lv_handle l, rt_kind = lv_kind l,
                  rt_lifetime = max 0 (now - lv_established l), rt_retry_at = None\<rparr>,
                 (lv_binding l, lv_network l)),
           s\<lparr>live := None\<rparr>))"

definition cooloff_until :: "'h carrier_state \<Rightarrow> nat \<Rightarrow> instant option" where
  "cooloff_until s i =
     (case live s of None \<Rightarrow> None | Some l \<Rightarrow> if lv_id l = i then lv_cooloff l else None)"

definition label :: "'h carrier_state \<Rightarrow> carrier_label" where
  "label s = (case live s of None \<Rightarrow> RelayLabel | Some l \<Rightarrow> lv_kind l)"

definition admit ::
    "'h carrier_state \<Rightarrow> binding_key \<Rightarrow> probe_trigger \<Rightarrow> instant \<Rightarrow> (skip + probe_ticket) \<times> 'h carrier_state"
  where
  "admit s binding trig now =
     (if \<not> app_active s then (Inl SkipInactive, s)
      else if live s \<noteq> None then (Inl SkipCarrierLive, s)
      else if probe s \<noteq> None then (Inl SkipInFlight, s)
      else if (case retry_after s of None \<Rightarrow> False | Some at \<Rightarrow> at > now) then (Inl SkipRetryAfter, s)
      else case cpath s of
        None \<Rightarrow> (Inl SkipNoPath, s)
      | Some p \<Rightarrow>
          let key = (binding, ps_network p) in
          if (case denied s key of None \<Rightarrow> False | Some until \<Rightarrow> until > now)
          then (Inl SkipLocalNetworkRetry, s)
          else if (case failures s key of None \<Rightarrow> False | Some b \<Rightarrow> bo_until b > now)
          then (Inl SkipBackingOff, s)
          else
            let i = Suc (carrier_next_id s);
                ticket = \<lparr>tk_id = i, tk_epoch = epoch s, tk_binding = binding, tk_network = ps_network p,
                          tk_local = ps_local p, tk_trigger = trig\<rparr>
            in (Inr ticket, s\<lparr>carrier_next_id := i, probe := Some i, retry_after := None\<rparr>))"

definition fail :: "'h carrier_state \<Rightarrow> cache_key \<Rightarrow> instant \<Rightarrow> instant \<times> 'h carrier_state" where
  "fail s key now =
     (let step = (case failures s key of
                    None \<Rightarrow> 0
                  | Some b \<Rightarrow> min (bo_step b + 1) (length PROBE_BACKOFF - 1));
          until = now + PROBE_BACKOFF ! step
      in (until, s\<lparr>failures := (failures s)(key \<mapsto> \<lparr>bo_step = step, bo_until = until\<rparr>)\<rparr>))"

text \<open>\<open>checked_add\<close> fails past the last representable instant, \<open>last_instant\<close>.\<close>

definition finish ::
    "instant \<Rightarrow> 'h carrier_state \<Rightarrow> probe_ticket \<Rightarrow> 'h probe_end \<Rightarrow> instant \<Rightarrow>
     'h finished \<times> 'h carrier_state" where
  "finish last_instant s ticket ending now =
     (let s = (if probe s = Some (tk_id ticket) then s\<lparr>probe := None\<rparr> else s) in
      if tk_epoch ticket \<noteq> epoch s \<or> live s \<noteq> None
      then (StaleProbe (case ending of EndCarrier handle _ _ \<Rightarrow> Some handle | _ \<Rightarrow> None), s)
      else
        let key = (tk_binding ticket, tk_network ticket) in
        case ending of
          EndCarrier handle knd local_ip \<Rightarrow>
            let i = Suc (carrier_next_id s) in
            (Up, s\<lparr>failures := (failures s)(key := None), denied := (denied s)(key := None),
                  carrier_next_id := i,
                  live := Some \<lparr>lv_id = i, lv_handle = handle, lv_kind = knd,
                                lv_binding = tk_binding ticket, lv_network = tk_network ticket,
                                lv_local_ip = local_ip, lv_established = now, lv_suspended = False,
                                lv_cooloff = None\<rparr>\<rparr>)
        | EndFailed \<Rightarrow>
            let (at, s') = fail (s\<lparr>denied := (denied s)(key := None)\<rparr>) key now
            in (RetryAt at BackoffTrigger, s')
        | EndRetryAfter wait \<Rightarrow>
            let at = (if now + wait \<le> last_instant then now + wait
                      else now + PROBE_BACKOFF ! (length PROBE_BACKOFF - 1))
            in (RetryAt at RetryAfterTrigger, s\<lparr>retry_after := Some at\<rparr>)
        | EndDenied \<Rightarrow>
            (case denied s key of
               Some _ \<Rightarrow>
                 let (at, s') = fail (s\<lparr>denied := (denied s)(key := None)\<rparr>) key now
                 in (RetryAt at BackoffTrigger, s')
             | None \<Rightarrow>
                 let at = now + LOCAL_NETWORK_RETRY
                 in (RetryAt at LocalNetworkTrigger, s\<lparr>denied := (denied s)(key \<mapsto> at)\<rparr>)))"

definition network_changed ::
    "'h carrier_state \<Rightarrow> path_state option \<Rightarrow> instant \<Rightarrow> 'h path_change \<times> 'h carrier_state" where
  "network_changed s next now =
     (let previous = cpath s;
          duplicate = (case (previous, next) of
                         (Some p, Some n) \<Rightarrow> ps_path p = ps_path n \<and> ps_network p = ps_network n
                       | (None, None) \<Rightarrow> True
                       | _ \<Rightarrow> False);
          same_primary = (case (previous, next) of
                            (Some p, Some n) \<Rightarrow> ps_primary p = ps_primary n \<and> ps_network p = ps_network n
                          | _ \<Rightarrow> duplicate);
          address_left = (case (live s, next) of
                            (Some l, Some n) \<Rightarrow> \<not> path_holds (ps_local n) (lv_local_ip l)
                          | _ \<Rightarrow> False);
          s = s\<lparr>cpath := next\<rparr>
      in if duplicate \<and> \<not> address_left then (Duplicate, s)
         else if same_primary \<and> \<not> address_left then (Kept, s)
         else let (r, s') = take_live (bump_epoch s) now in (Moved (map_option fst r), s'))"

definition background :: "'h carrier_state \<Rightarrow> 'h carrier_state" where
  "background s =
     (let s = bump_epoch (s\<lparr>app_active := False\<rparr>)
      in s\<lparr>live := map_option (\<lambda>l. l\<lparr>lv_suspended := True\<rparr>) (live s)\<rparr>)"

definition foreground :: "'h carrier_state \<Rightarrow> 'h reproof option \<times> 'h carrier_state" where
  "foreground s =
     (let s = s\<lparr>app_active := True\<rparr> in
      (case live s of
         None \<Rightarrow> None
       | Some l \<Rightarrow>
           if lv_suspended l
           then Some \<lparr>rp_lease = \<lparr>ls_id = lv_id l, ls_handle = lv_handle l\<rparr>, rp_epoch = epoch s\<rparr>
           else None, s))"

definition retire :: "'h carrier_state \<Rightarrow> nat \<Rightarrow> instant \<Rightarrow> 'h retired option \<times> 'h carrier_state" where
  "retire s i now =
     (if \<not> is_live s i then (None, s)
      else let (r, s') = take_live s now in (map_option fst r, s'))"

definition reproved ::
    "'h carrier_state \<Rightarrow> 'h reproof \<Rightarrow> bool \<Rightarrow> instant \<Rightarrow> 'h reproved \<times> 'h carrier_state" where
  "reproved s proof_of ok now =
     (if rp_epoch proof_of \<noteq> epoch s \<or> \<not> app_active s \<or>
         \<not> (case live s of
              None \<Rightarrow> False
            | Some l \<Rightarrow> lv_id l = ls_id (rp_lease proof_of) \<and> lv_suspended l)
      then (ReStale, s)
      else if ok
      then (ReCurrent, s\<lparr>live := map_option (\<lambda>l. l\<lparr>lv_suspended := False\<rparr>) (live s)\<rparr>)
      else case retire s (ls_id (rp_lease proof_of)) now of
             (Some r, s') \<Rightarrow> (ReRetired r, s')
           | (None, s') \<Rightarrow> (ReStale, s'))"

definition lease_of :: "'h carrier_state \<Rightarrow> binding_key \<Rightarrow> instant \<Rightarrow> 'h lease option" where
  "lease_of s binding now =
     (case live s of
        None \<Rightarrow> None
      | Some l \<Rightarrow>
          if lv_suspended l \<or> lv_binding l \<noteq> binding \<or>
             (case lv_cooloff l of None \<Rightarrow> False | Some until \<Rightarrow> until > now)
          then None
          else Some \<lparr>ls_id = lv_id l, ls_handle = lv_handle l\<rparr>)"

definition died :: "'h carrier_state \<Rightarrow> nat \<Rightarrow> instant \<Rightarrow> 'h retired option \<times> 'h carrier_state" where
  "died s i now =
     (if \<not> is_live s i then (None, s)
      else case take_live s now of
             (None, s') \<Rightarrow> (None, s')
           | (Some (r, key), s') \<Rightarrow>
               if rt_lifetime r < CARRIER_MIN_LIFETIME
               then let (at, s'') = fail s' key now in (Some (r\<lparr>rt_retry_at := Some at\<rparr>), s'')
               else (Some (r\<lparr>rt_retry_at := Some now\<rparr>), s'))"

definition dial_failed ::
    "'h carrier_state \<Rightarrow> nat \<Rightarrow> bool \<Rightarrow> instant \<Rightarrow> 'h retired option \<times> 'h carrier_state" where
  "dial_failed s i connection_level now =
     (if \<not> is_live s i then (None, s)
      else if connection_level then died s i now
      else (None, s\<lparr>live := map_option (\<lambda>l. l\<lparr>lv_cooloff := Some (now + CARRIER_DIAL_COOLOFF)\<rparr>) (live s)\<rparr>))"

definition carrier_clear :: "'h carrier_state \<Rightarrow> instant \<Rightarrow> 'h retired option \<times> 'h carrier_state" where
  "carrier_clear s now =
     (let s = (bump_epoch s)\<lparr>failures := Map.empty, denied := Map.empty, retry_after := None\<rparr>;
          (r, s') = take_live s now
      in (map_option fst r, s'))"

section \<open>Histories\<close>

text \<open>
  The hub's view of the state: the tickets of probes that were admitted and have not reported yet,
  the connections probes handed over, and the connections handed back to be closed
  (\<open>CarrierHub::finish\<close> closes what a stale probe found, \<open>CarrierHub::retired\<close> what a
  retirement returns). A probe reports at most once.
\<close>

record 'h carrier_world =
  cw_state :: "'h carrier_state"
  cw_open :: "probe_ticket list"
  cw_found :: "'h list"
  cw_closed :: "'h list"

datatype 'h carrier_op =
    OpAdmit binding_key probe_trigger instant
  | OpFinish nat "'h probe_end" instant
  | OpNetwork "path_state option" instant
  | OpBackground
  | OpForeground
  | OpReproved "'h reproof" bool instant
  | OpDialFailed nat bool instant
  | OpDied nat instant
  | OpRetire nat instant
  | OpClear instant

definition carrier_start :: "'h carrier_world" where
  "carrier_start = \<lparr>cw_state = carrier_default, cw_open = [], cw_found = [], cw_closed = []\<rparr>"

primrec found_by :: "'h probe_end \<Rightarrow> 'h list" where
  "found_by (EndCarrier handle _ _) = [handle]"
| "found_by EndFailed = []"
| "found_by (EndRetryAfter _) = []"
| "found_by EndDenied = []"

primrec stale_handle :: "'h finished \<Rightarrow> 'h list" where
  "stale_handle Up = []"
| "stale_handle (StaleProbe handle) = (case handle of None \<Rightarrow> [] | Some h \<Rightarrow> [h])"
| "stale_handle (RetryAt _ _) = []"

definition retired_handle :: "'h retired option \<Rightarrow> 'h list" where
  "retired_handle r = (case r of None \<Rightarrow> [] | Some r \<Rightarrow> [rt_handle r])"

primrec moved_handle :: "'h path_change \<Rightarrow> 'h list" where
  "moved_handle Duplicate = []"
| "moved_handle Kept = []"
| "moved_handle (Moved r) = retired_handle r"

primrec reproved_handle :: "'h reproved \<Rightarrow> 'h list" where
  "reproved_handle ReCurrent = []"
| "reproved_handle ReStale = []"
| "reproved_handle (ReRetired r) = [rt_handle r]"

definition after :: "'h carrier_world \<Rightarrow> 'h list \<times> 'h carrier_state \<Rightarrow> 'h carrier_world" where
  "after w r = w\<lparr>cw_state := snd r, cw_closed := cw_closed w @ fst r\<rparr>"

definition carrier_step :: "instant \<Rightarrow> 'h carrier_world \<Rightarrow> 'h carrier_op \<Rightarrow> 'h carrier_world" where
  "carrier_step last_instant w op =
     (let s = cw_state w in
      case op of
        OpAdmit b trig now \<Rightarrow>
          (case admit s b trig now of
             (Inl _, s') \<Rightarrow> w\<lparr>cw_state := s'\<rparr>
           | (Inr t, s') \<Rightarrow> w\<lparr>cw_state := s', cw_open := cw_open w @ [t]\<rparr>)
      | OpFinish i ending now \<Rightarrow>
          if i < length (cw_open w)
          then let r = finish last_instant s (cw_open w ! i) ending now in
               (after w (map_prod stale_handle (\<lambda>s. s) r))
                 \<lparr>cw_open := take i (cw_open w) @ drop (Suc i) (cw_open w),
                  cw_found := cw_found w @ found_by ending\<rparr>
          else w
      | OpNetwork next now \<Rightarrow> after w (map_prod moved_handle (\<lambda>s. s) (network_changed s next now))
      | OpBackground \<Rightarrow> w\<lparr>cw_state := background s\<rparr>
      | OpForeground \<Rightarrow> w\<lparr>cw_state := snd (foreground s)\<rparr>
      | OpReproved p ok now \<Rightarrow> after w (map_prod reproved_handle (\<lambda>s. s) (reproved s p ok now))
      | OpDialFailed i lvl now \<Rightarrow> after w (map_prod retired_handle (\<lambda>s. s) (dial_failed s i lvl now))
      | OpDied i now \<Rightarrow> after w (map_prod retired_handle (\<lambda>s. s) (died s i now))
      | OpRetire i now \<Rightarrow> after w (map_prod retired_handle (\<lambda>s. s) (retire s i now))
      | OpClear now \<Rightarrow> after w (map_prod retired_handle (\<lambda>s. s) (carrier_clear s now)))"

text \<open>
  The invariant: the only outstanding ticket of the current epoch is the probe's; there is no probe
  beside a live carrier or in the background; a carrier in the background is suspended; the probe
  and the carrier belong to the network the phone is on.
\<close>

definition on_network :: "'h carrier_state \<Rightarrow> network_key \<Rightarrow> bool" where
  "on_network s n = (case cpath s of None \<Rightarrow> False | Some p \<Rightarrow> ps_network p = n)"

definition current_tickets :: "'h carrier_state \<Rightarrow> probe_ticket list \<Rightarrow> probe_ticket list" where
  "current_tickets s ts = filter (\<lambda>t. tk_epoch t = epoch s) ts"

definition live_ok :: "'h carrier_state \<Rightarrow> bool" where
  "live_ok s =
     (case live s of
        None \<Rightarrow> True
      | Some l \<Rightarrow> probe s = None \<and> lv_id l \<le> carrier_next_id s \<and> on_network s (lv_network l) \<and>
                  (app_active s \<or> lv_suspended l))"

definition tickets_ok :: "'h carrier_state \<Rightarrow> probe_ticket list \<Rightarrow> bool" where
  "tickets_ok s ts \<longleftrightarrow>
     distinct (map tk_id ts) \<and>
     list_all (\<lambda>t. tk_id t \<le> carrier_next_id s \<and> tk_epoch t \<le> epoch s) ts \<and>
     map tk_id (current_tickets s ts) = (case probe s of None \<Rightarrow> [] | Some i \<Rightarrow> [i]) \<and>
     list_all (\<lambda>t. on_network s (tk_network t)) (current_tickets s ts) \<and>
     (app_active s \<or> probe s = None)"

definition carrier_inv :: "'h carrier_world \<Rightarrow> bool" where
  "carrier_inv w \<longleftrightarrow> live_ok (cw_state w) \<and> tickets_ok (cw_state w) (cw_open w)"

definition live_handle :: "'h carrier_state \<Rightarrow> 'h list" where
  "live_handle s = (case live s of None \<Rightarrow> [] | Some l \<Rightarrow> [lv_handle l])"

definition handles_conserved :: "'h carrier_world \<Rightarrow> bool" where
  "handles_conserved w \<longleftrightarrow>
     mset (cw_found w) = mset (cw_closed w) + mset (live_handle (cw_state w))"

section \<open>What each operation leaves alone\<close>

lemma take_live_state [simp]: "snd (take_live s now) = s\<lparr>live := None\<rparr>"
  by (cases "live s") (simp_all add: take_live_def)

lemma take_live_none_iff [simp]: "fst (take_live s now) = None \<longleftrightarrow> live s = None"
  by (simp add: take_live_def split: option.splits)

lemma take_live_some: "fst (take_live s now) = Some (r, k) \<Longrightarrow>
    \<exists>l. live s = Some l \<and> rt_handle r = lv_handle l \<and> k = (lv_binding l, lv_network l) \<and>
        rt_lifetime r = max 0 (now - lv_established l) \<and> rt_retry_at r = None"
  by (auto simp: take_live_def split: option.splits)

lemma take_live_handle:
  "retired_handle (map_option fst (fst (take_live s now))) = live_handle s"
  by (simp add: take_live_def retired_handle_def live_handle_def split: option.splits)

lemma fail_state: "\<exists>f. snd (fail s key now) = s\<lparr>failures := f\<rparr>"
  by (auto simp: fail_def Let_def)

lemma fail_rest [simp]:
  "live (snd (fail s key now)) = live s" "epoch (snd (fail s key now)) = epoch s"
  "probe (snd (fail s key now)) = probe s" "cpath (snd (fail s key now)) = cpath s"
  "app_active (snd (fail s key now)) = app_active s"
  "carrier_next_id (snd (fail s key now)) = carrier_next_id s"
  "denied (snd (fail s key now)) = denied s" "retry_after (snd (fail s key now)) = retry_after s"
  by (simp_all add: fail_def Let_def)

lemma retire_eq:
  "retire s i now =
     (if is_live s i then (map_option fst (fst (take_live s now)), s\<lparr>live := None\<rparr>) else (None, s))"
  by (simp add: retire_def case_prod_unfold)

lemma carrier_clear_eq:
  "carrier_clear s now =
     (map_option fst (fst (take_live s now)),
      s\<lparr>epoch := Suc (epoch s), probe := None, failures := Map.empty, denied := Map.empty,
        retry_after := None, live := None\<rparr>)"
  by (simp add: carrier_clear_def bump_epoch_def Let_def case_prod_unfold take_live_def split: option.splits)

lemma keep_failures: "\<exists>f. s\<lparr>live := None\<rparr> = s\<lparr>live := None, failures := f\<rparr>"
  by (rule exI [of _ "failures s"], cases s) simp

text \<open>An unsolicited death: the carrier goes, and only the failure cache moves.\<close>

lemma died_some:
  assumes "is_live s i"
  shows "\<exists>l r f. live s = Some l \<and> died s i now = (Some r, s\<lparr>live := None, failures := f\<rparr>) \<and>
           rt_handle r = lv_handle l"
proof -
  obtain l where l: "live s = Some l"
    using assms by (auto simp: is_live_def split: option.splits)
  show ?thesis
    using assms l by (auto simp: died_def take_live_def fail_def Let_def keep_failures)
qed

lemma died_none: "\<not> is_live s i \<Longrightarrow> died s i now = (None, s)"
  by (simp add: died_def)

text \<open>A path delivery changes the path alone, or moves the epoch and ends the carrier.\<close>

lemma network_changed_cases:
  obtains (stay) c where "network_changed s next now = (c, s\<lparr>cpath := next\<rparr>)" "moved_handle c = []"
      "map_option ps_network next = map_option ps_network (cpath s)"
    | (move) c where "network_changed s next now = (c, s\<lparr>epoch := Suc (epoch s), probe := None, cpath := next, live := None\<rparr>)"
      "moved_handle c = live_handle s"
proof (cases "fst (network_changed s next now)")
  case Duplicate
  then show ?thesis
    by (intro stay) (auto simp: network_changed_def Let_def case_prod_unfold split: if_splits option.splits)
next
  case Kept
  then show ?thesis
    by (intro stay) (auto simp: network_changed_def Let_def case_prod_unfold split: if_splits option.splits)
next
  case (Moved r)
  then have "network_changed s next now =
      (Moved (map_option fst (fst (take_live s now))), s\<lparr>epoch := Suc (epoch s), probe := None, cpath := next, live := None\<rparr>)"
    by (simp add: network_changed_def Let_def case_prod_unfold bump_epoch_def take_live_def split: if_splits option.splits)
  then show ?thesis
    by (rule move) (simp add: take_live_handle)
qed

section \<open>Every connection is live or closed once\<close>

lemma retire_handles: "retired_handle (fst (retire s i now)) @ live_handle (snd (retire s i now)) = live_handle s"
  by (simp add: retire_eq take_live_handle) (simp add: retired_handle_def live_handle_def)

lemma died_handles: "retired_handle (fst (died s i now)) @ live_handle (snd (died s i now)) = live_handle s"
proof (cases "is_live s i")
  case True
  then show ?thesis using died_some [of s i now] by (auto simp: retired_handle_def live_handle_def)
qed (simp add: died_none retired_handle_def)

lemma dial_failed_handles:
  "retired_handle (fst (dial_failed s i lvl now)) @ live_handle (snd (dial_failed s i lvl now)) = live_handle s"
proof (cases "is_live s i \<and> lvl")
  case True
  then show ?thesis using died_handles [of s i now] by (simp add: dial_failed_def)
next
  case False
  then show ?thesis
    by (auto simp: dial_failed_def retired_handle_def live_handle_def split: option.splits)
qed

lemma clear_handles:
  "retired_handle (fst (carrier_clear s now)) @ live_handle (snd (carrier_clear s now)) = live_handle s"
  by (simp add: carrier_clear_eq take_live_handle) (simp add: live_handle_def)

lemma network_changed_handles:
  "moved_handle (fst (network_changed s next now)) @ live_handle (snd (network_changed s next now)) = live_handle s"
  by (rule network_changed_cases [of s "next" now]) (simp_all add: live_handle_def)

lemma reproved_handles:
  "reproved_handle (fst (reproved s p ok now)) @ live_handle (snd (reproved s p ok now)) = live_handle s"
proof -
  have "(case retire s i now of (Some r, s') \<Rightarrow> (ReRetired r, s') | (None, s') \<Rightarrow> (ReStale, s')) =
      (case fst (retire s i now) of Some r \<Rightarrow> (ReRetired r, snd (retire s i now)) | None \<Rightarrow> (ReStale, snd (retire s i now)))"
    for i by (simp add: case_prod_unfold split: option.splits)
  then show ?thesis
    using retire_handles [of s "ls_id (rp_lease p)" now]
    by (auto simp: reproved_def retired_handle_def live_handle_def split: option.splits)
qed

lemma finish_handles:
  "mset (stale_handle (fst (finish li s t e now))) + mset (live_handle (snd (finish li s t e now))) =
   mset (live_handle s) + mset (found_by e)"
  by (cases e) (auto simp: finish_def Let_def case_prod_unfold live_handle_def split: option.splits)

lemma admit_live: "live (snd (admit s b trig now)) = live s"
  by (simp add: admit_def Let_def split: option.splits)

lemma carrier_step_conserves:
  assumes "handles_conserved w"
  shows "handles_conserved (carrier_step li w op)"
proof -
  have *: "handles_conserved (after w (h, s))" if "h @ live_handle s = live_handle (cw_state w)" for h s
    using assms arg_cong [OF that, of mset] by (simp add: handles_conserved_def after_def)
  show ?thesis
  proof (cases op)
    case (OpAdmit b trig now)
    have "live_handle (snd (admit (cw_state w) b trig now)) = live_handle (cw_state w)"
      by (simp add: live_handle_def admit_live)
    then show ?thesis
      using assms OpAdmit
      by (cases "admit (cw_state w) b trig now")
         (auto simp: carrier_step_def handles_conserved_def split: sum.splits)
  next
    case (OpFinish i e now)
    then show ?thesis
      using assms finish_handles [of li "cw_state w" "cw_open w ! i" e now]
      by (auto simp: carrier_step_def handles_conserved_def after_def Let_def map_prod_def
            case_prod_unfold add.assoc)
  next
    case OpBackground
    then show ?thesis
      using assms by (simp add: carrier_step_def handles_conserved_def background_def bump_epoch_def
          Let_def live_handle_def split: option.splits)
  next
    case OpForeground
    then show ?thesis
      using assms by (simp add: carrier_step_def handles_conserved_def foreground_def Let_def live_handle_def)
  qed (simp_all add: carrier_step_def Let_def map_prod_def case_prod_unfold * network_changed_handles
        reproved_handles dial_failed_handles died_handles retire_handles clear_handles)
qed

interpretation carrier_handles: invariant_machine "carrier_step li" handles_conserved
  by unfold_locales (rule carrier_step_conserves)

section \<open>One probe, one carrier, one network\<close>

lemma on_network_iff: "on_network s n \<longleftrightarrow> map_option ps_network (cpath s) = Some n"
  by (simp add: on_network_def split: option.splits)

lemma current_tickets_bump:
  assumes "tickets_ok s ts" and "epoch s' = Suc (epoch s)"
  shows "current_tickets s' ts = []"
  using assms by (fastforce simp: current_tickets_def tickets_ok_def list_all_iff filter_empty_conv)

lemma tickets_bump:
  assumes "tickets_ok s ts" and "epoch s' = Suc (epoch s)" and "probe s' = None"
    and "carrier_next_id s' = carrier_next_id s"
  shows "tickets_ok s' ts"
proof -
  have "list_all (\<lambda>t. tk_id t \<le> carrier_next_id s' \<and> tk_epoch t \<le> epoch s') ts"
    using assms by (auto simp: tickets_ok_def list_all_iff le_SucI)
  then show ?thesis
    using assms(1,3) current_tickets_bump [OF assms(1,2)] by (simp add: tickets_ok_def)
qed

lemma tickets_keep:
  assumes "tickets_ok s ts" and "epoch s' = epoch s" and "probe s' = probe s"
    and "carrier_next_id s' = carrier_next_id s" and "app_active s \<longrightarrow> app_active s'"
    and "map_option ps_network (cpath s') = map_option ps_network (cpath s)"
  shows "tickets_ok s' ts"
  using assms by (auto simp: tickets_ok_def current_tickets_def on_network_iff)

lemma admit_inl: "admit s b trig now = (Inl e, s') \<Longrightarrow> s' = s"
  by (auto simp: admit_def Let_def split: if_splits option.splits)

lemma admit_inr:
  assumes "admit s b trig now = (Inr t, s')"
  shows "app_active s" "live s = None" "probe s = None" "on_network s (tk_network t)"
    "tk_id t = Suc (carrier_next_id s)" "tk_epoch t = epoch s"
    "s' = s\<lparr>carrier_next_id := tk_id t, probe := Some (tk_id t), retry_after := None\<rparr>"
  using assms by (auto simp: admit_def Let_def on_network_def split: if_splits option.splits)

lemma admit_tickets:
  assumes ok: "tickets_ok s ts" and adm: "admit s b trig now = (Inr t, s')"
  shows "tickets_ok s' (ts @ [t])"
proof -
  note a = admit_inr [OF adm]
  have "tk_id t \<notin> set (map tk_id ts)"
    using ok a(5) by (auto simp: tickets_ok_def list_all_iff)
  moreover have "current_tickets s ts = []"
    using ok a(3) by (simp add: tickets_ok_def)
  moreover have "list_all (\<lambda>t'. tk_id t' \<le> tk_id t \<and> tk_epoch t' \<le> epoch s) ts"
    using ok a(5) by (auto simp: tickets_ok_def list_all_iff le_SucI)
  ultimately show ?thesis
    using ok a by (simp add: tickets_ok_def current_tickets_def on_network_def)
qed

text \<open>A report takes its ticket out; if it was the current one, no probe is left.\<close>

lemma ticket_out:
  assumes ok: "tickets_ok s ts" and i: "i < length ts"
    and s': "epoch s' = epoch s" "carrier_next_id s \<le> carrier_next_id s'"
      "cpath s' = cpath s" "app_active s' = app_active s"
      "probe s' = (if probe s = Some (tk_id (ts ! i)) then None else probe s)"
  shows "tickets_ok s' (take i ts @ drop (Suc i) ts)"
    and "tk_epoch (ts ! i) = epoch s \<Longrightarrow> probe s' = None \<and> on_network s (tk_network (ts ! i)) \<and> app_active s"
proof -
  define us vs t where "us = take i ts" and "vs = drop (Suc i) ts" and "t = ts ! i"
  have ts: "ts = us @ t # vs"
    using id_take_nth_drop [OF i] by (simp add: us_def vs_def t_def)
  have pr: "probe s' = (if probe s = Some (tk_id t) then None else probe s)"
    using s'(5) by (simp add: t_def)
  have p: "map tk_id (current_tickets s ts) = (case probe s of None \<Rightarrow> [] | Some i \<Rightarrow> [i])"
    using ok by (simp add: tickets_ok_def)
  have cur: "map tk_id (current_tickets s (us @ vs)) = (case probe s' of None \<Rightarrow> [] | Some i \<Rightarrow> [i])"
  proof (cases "tk_epoch t = epoch s")
    case True
    then show ?thesis
      using p pr by (auto simp: ts current_tickets_def append_eq_Cons_conv split: option.splits if_splits)
  next
    case False
    have "probe s \<noteq> Some (tk_id t)"
    proof
      assume "probe s = Some (tk_id t)"
      then have "tk_id t \<in> tk_id ` set (current_tickets s ts)"
        using p by (metis list.set_intros(1) list.set_map option.simps(5))
      then have "tk_id t \<in> tk_id ` set (us @ vs)"
        using False by (auto simp: ts current_tickets_def)
      then show False using ok by (auto simp: tickets_ok_def ts)
    qed
    then show ?thesis using False p pr by (simp add: ts current_tickets_def)
  qed
  have sub: "set (us @ vs) \<subseteq> set ts" by (auto simp: ts)
  have "list_all (\<lambda>t. tk_id t \<le> carrier_next_id s' \<and> tk_epoch t \<le> epoch s') (us @ vs)"
    using ok s'(1,2) sub by (fastforce simp: tickets_ok_def list_all_iff)
  moreover have "list_all (\<lambda>t. on_network s' (tk_network t)) (current_tickets s' (us @ vs))"
    using ok s'(1,3) sub by (auto simp: tickets_ok_def list_all_iff current_tickets_def on_network_iff)
  moreover have "distinct (map tk_id (us @ vs))"
    using ok by (simp add: tickets_ok_def ts)
  moreover have "app_active s' \<or> probe s' = None"
    using ok s'(4,5) by (auto simp: tickets_ok_def)
  ultimately show "tickets_ok s' (take i ts @ drop (Suc i) ts)"
    using cur s'(1) by (simp add: tickets_ok_def current_tickets_def us_def vs_def)
  show "probe s' = None \<and> on_network s (tk_network (ts ! i)) \<and> app_active s" if "tk_epoch (ts ! i) = epoch s"
  proof -
    have "tk_epoch t = epoch s" using that by (simp add: t_def)
    then have mem: "t \<in> set (current_tickets s ts)" by (simp add: ts current_tickets_def)
    then have "tk_id t \<in> set (case probe s of None \<Rightarrow> [] | Some i \<Rightarrow> [i])"
      using p by (metis image_eqI list.set_map)
    then have "probe s = Some (tk_id t)" by (simp split: option.splits)
    then show ?thesis
      using ok pr mem unfolding t_def [symmetric] by (simp add: tickets_ok_def list_all_iff)
  qed
qed

lemma finish_rest [simp]:
  "epoch (snd (finish li s t e now)) = epoch s"
  "cpath (snd (finish li s t e now)) = cpath s"
  "app_active (snd (finish li s t e now)) = app_active s"
  "probe (snd (finish li s t e now)) = (if probe s = Some (tk_id t) then None else probe s)"
  "carrier_next_id s \<le> carrier_next_id (snd (finish li s t e now))"
  by (cases e; simp add: finish_def Let_def case_prod_unfold split: option.splits)+

lemma finish_live:
  "live (snd (finish li s t e now)) =
     (if tk_epoch t \<noteq> epoch s \<or> live s \<noteq> None then live s
      else case e of
             EndCarrier h k ip \<Rightarrow>
               Some \<lparr>lv_id = carrier_next_id (snd (finish li s t e now)), lv_handle = h, lv_kind = k,
                     lv_binding = tk_binding t, lv_network = tk_network t, lv_local_ip = ip,
                     lv_established = now, lv_suspended = False, lv_cooloff = None\<rparr>
           | _ \<Rightarrow> None)"
  by (cases e) (auto simp: finish_def Let_def case_prod_unfold split: option.splits)

lemma finish_inv:
  assumes live: "live_ok s" and ok: "tickets_ok s ts" and i: "i < length ts"
  shows "live_ok (snd (finish li s (ts ! i) e now))"
    and "tickets_ok (snd (finish li s (ts ! i) e now)) (take i ts @ drop (Suc i) ts)"
proof -
  let ?t = "ts ! i" and ?s = "snd (finish li s (ts ! i) e now)"
  note out = ticket_out [OF ok i, where s' = ?s, simplified]
  show "tickets_ok ?s (take i ts @ drop (Suc i) ts)" by (rule out(1))
  show "live_ok ?s"
  proof (cases "tk_epoch ?t \<noteq> epoch s \<or> live s \<noteq> None")
    case True
    then have "live ?s = live s" by (simp add: finish_live)
    then show ?thesis
      using live order_trans [OF _ finish_rest(5) [of s li ?t e now]] unfolding live_ok_def
      by (auto simp: on_network_iff split: option.splits)
  next
    case False
    then show ?thesis
      using out(2) by (auto simp: live_ok_def finish_live on_network_iff split: probe_end.splits if_splits)
  qed
qed

lemma live_ok_gone: "live s = None \<Longrightarrow> live_ok s"
  by (simp add: live_ok_def)

text \<open>
  The operations on a carrier leave the tickets alone and keep the carrier, end it, or change only
  its flags.
\<close>

definition carrier_only :: "'h carrier_state \<Rightarrow> 'h carrier_state \<Rightarrow> bool" where
  "carrier_only s s' \<longleftrightarrow>
     epoch s' = epoch s \<and> probe s' = probe s \<and> carrier_next_id s' = carrier_next_id s \<and>
     app_active s' = app_active s \<and> cpath s' = cpath s \<and>
     (case live s' of
        None \<Rightarrow> True
      | Some l' \<Rightarrow> (case live s of
          None \<Rightarrow> False
        | Some l \<Rightarrow> lv_id l' = lv_id l \<and> lv_network l' = lv_network l \<and>
                    (app_active s \<or> lv_suspended l' = lv_suspended l)))"

lemma carrier_only_inv:
  assumes "carrier_only s s'" "live_ok s" "tickets_ok s ts"
  shows "live_ok s'" "tickets_ok s' ts"
proof -
  show "tickets_ok s' ts"
    using assms(1,3) by (intro tickets_keep [where s' = s']) (auto simp: carrier_only_def)
  show "live_ok s'"
    using assms(1,2) by (auto simp: carrier_only_def live_ok_def on_network_iff split: option.splits)
qed

lemma carrier_only_refl: "carrier_only s s"
  by (simp add: carrier_only_def split: option.splits)

lemma retire_only: "carrier_only s (snd (retire s i now))"
  by (simp add: retire_eq carrier_only_refl) (simp add: carrier_only_def)

lemma died_only: "carrier_only s (snd (died s i now))"
proof (cases "is_live s i")
  case True
  then show ?thesis using died_some [of s i now] by (auto simp: carrier_only_def)
qed (simp add: died_none carrier_only_refl)

lemma dial_failed_only: "carrier_only s (snd (dial_failed s i lvl now))"
  by (auto simp: dial_failed_def died_only carrier_only_refl)
     (simp add: carrier_only_def split: option.splits)

lemma reproved_state:
  "snd (reproved s p ok now) \<in>
     {s, s\<lparr>live := map_option (\<lambda>l. l\<lparr>lv_suspended := False\<rparr>) (live s)\<rparr>, snd (retire s (ls_id (rp_lease p)) now)}
   \<and> (app_active s \<or> snd (reproved s p ok now) = s)"
  by (simp add: reproved_def case_prod_unfold split: option.splits)

lemma reproved_only: "carrier_only s (snd (reproved s p ok now))"
proof (cases "app_active s")
  case True
  then have "carrier_only s (s\<lparr>live := map_option (\<lambda>l. l\<lparr>lv_suspended := False\<rparr>) (live s)\<rparr>)"
    by (simp add: carrier_only_def split: option.splits)
  then show ?thesis
    using reproved_state [of s p ok now] carrier_only_refl retire_only by auto
next
  case False
  then show ?thesis using reproved_state [of s p ok now] carrier_only_refl by auto
qed

lemma network_changed_inv:
  assumes "live_ok s" "tickets_ok s ts"
  shows "live_ok (snd (network_changed s next now))" "tickets_ok (snd (network_changed s next now)) ts"
proof -
  have "live_ok (snd (network_changed s next now)) \<and> tickets_ok (snd (network_changed s next now)) ts"
  proof (rule network_changed_cases [of s "next" now])
    fix c
    assume c: "network_changed s next now = (c, s\<lparr>cpath := next\<rparr>)"
      and same: "map_option ps_network next = map_option ps_network (cpath s)"
    have "tickets_ok (s\<lparr>cpath := next\<rparr>) ts"
      using assms(2) same by (intro tickets_keep [where s' = "s\<lparr>cpath := next\<rparr>"]) simp_all
    moreover have "live_ok (s\<lparr>cpath := next\<rparr>)"
      using assms(1) same by (simp add: live_ok_def on_network_iff split: option.splits)
    ultimately show ?thesis by (simp add: c)
  next
    fix c
    assume c: "network_changed s next now =
        (c, s\<lparr>epoch := Suc (epoch s), probe := None, cpath := next, live := None\<rparr>)"
    show ?thesis
      unfolding c snd_conv
      by (intro conjI live_ok_gone tickets_bump [OF assms(2)]) simp_all
  qed
  then show "live_ok (snd (network_changed s next now))" "tickets_ok (snd (network_changed s next now)) ts"
    by simp_all
qed

lemma background_inv:
  assumes "live_ok s" "tickets_ok s ts"
  shows "live_ok (background s)" "tickets_ok (background s) ts"
proof -
  show "tickets_ok (background s) ts"
    by (rule tickets_bump [OF assms(2)]) (simp_all add: background_def bump_epoch_def Let_def)
  show "live_ok (background s)"
    using assms(1)
    by (simp add: background_def bump_epoch_def Let_def live_ok_def on_network_iff split: option.splits)
qed

lemma foreground_inv:
  assumes "live_ok s" "tickets_ok s ts"
  shows "live_ok (snd (foreground s))" "tickets_ok (snd (foreground s)) ts"
proof -
  show "tickets_ok (snd (foreground s)) ts"
    by (rule tickets_keep [OF assms(2)]) (simp_all add: foreground_def Let_def)
  show "live_ok (snd (foreground s))"
    using assms(1) by (simp add: foreground_def Let_def live_ok_def on_network_iff split: option.splits)
qed

lemma clear_inv:
  assumes "tickets_ok s ts"
  shows "live_ok (snd (carrier_clear s now))" "tickets_ok (snd (carrier_clear s now)) ts"
proof -
  show "tickets_ok (snd (carrier_clear s now)) ts"
    by (rule tickets_bump [OF assms]) (simp_all add: carrier_clear_eq)
  show "live_ok (snd (carrier_clear s now))" by (rule live_ok_gone) (simp add: carrier_clear_eq)
qed

lemma admit_inv:
  assumes "carrier_inv w"
  shows "carrier_inv (carrier_step li w (OpAdmit b trig now))"
proof (cases "admit (cw_state w) b trig now")
  case (Pair r s')
  show ?thesis
  proof (cases r)
    case (Inl e)
    then show ?thesis using assms Pair admit_inl by (fastforce simp: carrier_step_def carrier_inv_def)
  next
    case (Inr t)
    have "live s' = None"
      using admit_live [of "cw_state w" b trig now] admit_inr(2) Pair Inr by fastforce
    moreover have "tickets_ok s' (cw_open w @ [t])"
      using assms Pair Inr by (intro admit_tickets) (auto simp: carrier_inv_def)
    ultimately show ?thesis
      using Pair Inr by (simp add: carrier_step_def carrier_inv_def live_ok_gone)
  qed
qed

lemma carrier_step_inv:
  assumes "carrier_inv w"
  shows "carrier_inv (carrier_step li w op)"
proof -
  have ok: "live_ok (cw_state w)" "tickets_ok (cw_state w) (cw_open w)"
    using assms by (simp_all add: carrier_inv_def)
  note step = carrier_step_def carrier_inv_def after_def Let_def
  note only = carrier_only_inv [OF reproved_only ok] carrier_only_inv [OF dial_failed_only ok]
    carrier_only_inv [OF died_only ok] carrier_only_inv [OF retire_only ok]
  show ?thesis
  proof (cases op)
    case (OpAdmit b trig now)
    then show ?thesis using admit_inv [OF assms] by simp
  next
    case (OpFinish i e now)
    then show ?thesis
      using ok finish_inv [OF ok] by (simp add: step)
  qed (simp_all add: step network_changed_inv [OF ok] background_inv [OF ok] foreground_inv [OF ok]
      clear_inv [OF ok(2)] only)
qed

interpretation carrier_machine: invariant_machine "carrier_step li" carrier_inv
  by unfold_locales (rule carrier_step_inv)

lemma carrier_start_inv: "carrier_inv carrier_start" "handles_conserved carrier_start"
  by (simp_all add: carrier_start_def carrier_default_def carrier_inv_def live_ok_def tickets_ok_def
      current_tickets_def handles_conserved_def live_handle_def)

section \<open>Epochs\<close>

text \<open>
  An operation moves the epoch by one and leaves no probe, or keeps it, and then a probe is the one
  there was or has an id no ticket had.
\<close>

definition epoch_moved :: "'h carrier_state \<Rightarrow> 'h carrier_state \<Rightarrow> bool" where
  "epoch_moved s s' \<longleftrightarrow>
     epoch s' = Suc (epoch s) \<and> probe s' = None \<and> carrier_next_id s' = carrier_next_id s"

definition epoch_kept :: "'h carrier_state \<Rightarrow> 'h carrier_state \<Rightarrow> bool" where
  "epoch_kept s s' \<longleftrightarrow>
     epoch s' = epoch s \<and> carrier_next_id s \<le> carrier_next_id s' \<and>
     probe s' \<in> {None, probe s, Some (Suc (carrier_next_id s))}"

lemma carrier_only_kept: "carrier_only s s' \<Longrightarrow> epoch_kept s s'"
  by (simp add: carrier_only_def epoch_kept_def)

lemma admit_kept: "epoch_kept s (snd (admit s b trig now))"
  by (auto simp: admit_def Let_def epoch_kept_def split: option.splits)

lemma carrier_step_epoch:
  "epoch_moved (cw_state w) (cw_state (carrier_step li w op)) \<or>
   epoch_kept (cw_state w) (cw_state (carrier_step li w op))"
proof (cases op)
  case (OpAdmit b trig now)
  then show ?thesis
    using admit_kept [of "cw_state w" b trig now]
    by (cases "admit (cw_state w) b trig now") (auto simp: carrier_step_def split: sum.splits)
next
  case (OpFinish i e now)
  then show ?thesis by (auto simp: carrier_step_def after_def Let_def epoch_kept_def)
next
  case (OpNetwork nxt now)
  then show ?thesis
    by (cases rule: network_changed_cases [of "cw_state w" nxt now])
       (simp_all add: carrier_step_def after_def Let_def epoch_moved_def epoch_kept_def)
qed (simp_all add: carrier_step_def after_def Let_def epoch_moved_def epoch_kept_def background_def
      bump_epoch_def foreground_def carrier_clear_eq
      carrier_only_kept [OF reproved_only, unfolded epoch_kept_def, simplified]
      carrier_only_kept [OF dial_failed_only, unfolded epoch_kept_def, simplified]
      carrier_only_kept [OF died_only, unfolded epoch_kept_def, simplified]
      carrier_only_kept [OF retire_only, unfolded epoch_kept_def, simplified])

text \<open>A ticket the state has left behind: an older epoch, and never again the probe's id.\<close>

definition left_behind :: "nat \<Rightarrow> nat \<Rightarrow> 'h carrier_world \<Rightarrow> bool" where
  "left_behind e i w \<longleftrightarrow>
     e < epoch (cw_state w) \<and> i \<le> carrier_next_id (cw_state w) \<and> probe (cw_state w) \<noteq> Some i"

lemma left_behind_step: "left_behind e i w \<Longrightarrow> left_behind e i (carrier_step li w op)"
  using carrier_step_epoch [of w li op]
  by (auto simp: left_behind_def epoch_moved_def epoch_kept_def)

interpretation stale_machine: invariant_machine "carrier_step li" "left_behind e i"
  by unfold_locales (rule left_behind_step)

lemma left_behind_finish:
  assumes "left_behind (tk_epoch t) (tk_id t) w"
  shows "finish li (cw_state w) t e now = (StaleProbe (case found_by e of [] \<Rightarrow> None | h # _ \<Rightarrow> Some h), cw_state w)"
  using assms by (cases e) (simp_all add: left_behind_def finish_def Let_def)

lemma epoch_moved_left_behind:
  assumes inv: "carrier_inv w" and t: "t \<in> set (cw_open w)"
    and moved: "epoch (cw_state (carrier_step li w op)) \<noteq> epoch (cw_state w)"
  shows "left_behind (tk_epoch t) (tk_id t) (carrier_step li w op)"
  using carrier_step_epoch [of w li op] moved inv t
  by (auto simp: epoch_moved_def epoch_kept_def left_behind_def carrier_inv_def tickets_ok_def list_all_iff
      le_imp_less_Suc)

section \<open>Backing off\<close>

definition backoff_step :: "'h carrier_state \<Rightarrow> cache_key \<Rightarrow> nat" where
  "backoff_step s key = (case failures s key of None \<Rightarrow> 0 | Some b \<Rightarrow> min (bo_step b + 1) 4)"

lemma backoff_len [simp]: "length PROBE_BACKOFF = 5"
  by (simp add: PROBE_BACKOFF_def)

lemma fail_eq:
  "fail s key now =
     (now + PROBE_BACKOFF ! backoff_step s key,
      s\<lparr>failures := (failures s)(key \<mapsto>
        \<lparr>bo_step = backoff_step s key, bo_until = now + PROBE_BACKOFF ! backoff_step s key\<rparr>)\<rparr>)"
  by (simp add: fail_def backoff_step_def Let_def split: option.splits)

text \<open>The schedule: one minute, then double, capped at a quarter of an hour.\<close>

lemma backoff_schedule: "n \<le> 4 \<Longrightarrow> PROBE_BACKOFF ! n = min (secs (60 * 2 ^ n)) (secs 900)"
proof -
  assume "n \<le> 4"
  then have "n \<in> {0, 1, 2, 3, 4}" by auto
  then show ?thesis by (auto simp: PROBE_BACKOFF_def secs_def)
qed

lemma backoff_step_le: "backoff_step s key \<le> 4"
  by (simp add: backoff_step_def split: option.splits)

lemma finish_failed:
  assumes "tk_epoch t = epoch s" and "live s = None"
  shows "finish li s t EndFailed now =
     (let key = (tk_binding t, tk_network t) in
      map_prod (\<lambda>at. RetryAt at BackoffTrigger) (\<lambda>s. s)
        (fail (s\<lparr>probe := (if probe s = Some (tk_id t) then None else probe s),
                denied := (denied s)(key := None)\<rparr>) key now))"
  using assms by (cases s) (simp add: finish_def Let_def map_prod_def case_prod_unfold)

section \<open>Properties\<close>

text \<open>After any history of calls from the default state, with every admitted probe reporting at
  most once and at any time, the tickets of the current epoch that have not reported are exactly the
  one probe in flight, if any; beside a live carrier there is none; the probe and the carrier belong
  to the network the phone is on; and in the background there is no probe and no leg gets a lease.\<close>

lemma carrier_histories:
  fixes li :: instant and ops :: "'h carrier_op list"
  assumes "w = foldl (carrier_step li) carrier_start ops" and "s = cw_state w"
  shows "map tk_id (current_tickets s (cw_open w)) = (case probe s of None \<Rightarrow> [] | Some i \<Rightarrow> [i]) \<and>
    (\<forall>t \<in> set (current_tickets s (cw_open w)). on_network s (tk_network t)) \<and>
    (case live s of None \<Rightarrow> True | Some l \<Rightarrow> probe s = None \<and> on_network s (lv_network l)) \<and>
    (app_active s \<or> (probe s = None \<and> (\<forall>b now. lease_of s b now = None)))"
proof -
  have inv: "carrier_inv w"
    unfolding assms(1) by (rule carrier_machine.run_inv [OF carrier_start_inv(1)])
  have "app_active s \<or> lease_of s b now = None" for b now
    using inv by (auto simp: carrier_inv_def live_ok_def lease_of_def assms(2) split: option.splits)
  then show ?thesis
    using inv by (auto simp: carrier_inv_def live_ok_def tickets_ok_def list_all_iff assms(2)
        split: option.splits)
qed

definition home_path :: path_state where
  "home_path =
     path_state_new
       \<lparr>satisfied = True, interface_kind = Wifi, interface_name = ''en0'', gateways = [''192.168.1.1''],
        supports_ipv4 = True, supports_ipv6 = True, available_interfaces = [''en0''],
        is_expensive = False, is_constrained = False\<rparr>
       ''home''
       \<lparr>lp_kind = Wifi,
        lp_addresses = [\<lparr>iface = ''en0'', addr_ip = V4 3232235796, up_running = True,
                         temporary = False, unusable = False\<rparr>],
        lp_ipv4 = True, lp_ipv6 = True\<rparr>"

definition node_binding :: binding_key where
  "node_binding = \<lparr>bk_node = ''node-1'', bk_pubkey = ''key'', bk_device = ''phone''\<rparr>"

definition probing :: "nat carrier_op list" where
  "probing = [OpNetwork (Some home_path) 0, OpAdmit node_binding ChatLive 1]"

lemmas carrier_eval [carrier_defs] = carrier_start_def carrier_default_def carrier_step_def after_def Let_def
  network_changed_def take_live_def bump_epoch_def admit_def path_state_new_def home_path_def
  probing_def node_binding_def background_def finish_def fail_def on_network_def current_tickets_def

lemma carrier_histories_witness:
  "let s = cw_state (foldl (carrier_step 0) carrier_start (probing @ [OpFinish 0 (EndCarrier 7 LanLabel (V4 3232235796)) 2])) in
   map_option lv_handle (live s) = Some 7 \<and> probe s = None \<and> on_network s ''home''"
  using carrier_histories [OF refl refl, of 0 "probing @ [OpFinish 0 (EndCarrier 7 LanLabel (V4 3232235796)) 2]"]
  by (simp add: carrier_defs)

text \<open>No connection leaks and none is closed twice: after any history, the connections probes
  found are, counted with multiplicity, those handed back to be closed and the live one.\<close>

lemma carrier_connections_conserved:
  fixes li :: instant and ops :: "'h carrier_op list"
  shows "let w = foldl (carrier_step li) carrier_start ops in
    mset (cw_found w) = mset (cw_closed w) + mset (live_handle (cw_state w))"
  using carrier_handles.run_inv [OF carrier_start_inv(2), of li ops]
  by (simp add: handles_conserved_def Let_def)

text \<open>Once the epoch has moved (a path change, the background barrier, pairing or forgetting),
  whatever happens after, the report of a probe admitted before is discarded: the connection it found
  is handed back to be closed and the state is left as it was.\<close>

lemma stale_probe_discarded:
  fixes li :: instant
  assumes w: "w = foldl (carrier_step li) carrier_start ops" and t: "t \<in> set (cw_open w)"
    and moved: "epoch (cw_state (carrier_step li w op)) \<noteq> epoch (cw_state w)"
    and later: "s = cw_state (foldl (carrier_step li) w (op # rest))"
  shows "finish li s t ending now =
    (StaleProbe (case ending of EndCarrier h _ _ \<Rightarrow> Some h | _ \<Rightarrow> None), s)"
proof -
  have "carrier_inv w"
    unfolding w by (rule carrier_machine.run_inv [OF carrier_start_inv(1)])
  then have "left_behind (tk_epoch t) (tk_id t) (carrier_step li w op)"
    using t moved by (rule epoch_moved_left_behind)
  then have "left_behind (tk_epoch t) (tk_id t) (foldl (carrier_step li) w (op # rest))"
    by (simp add: stale_machine.run_inv)
  then show ?thesis
    using left_behind_finish [of t _ li ending now] by (cases ending) (simp_all add: later)
qed

lemma stale_probe_discarded_witness:
  "let w = foldl (carrier_step 0) carrier_start probing; s = cw_state (carrier_step 0 w OpBackground) in
   fst (finish 0 s (cw_open w ! 0) (EndCarrier 7 LanLabel (V4 3232235796)) 2) = StaleProbe (Some 7)"
proof -
  let ?w = "foldl (carrier_step 0) carrier_start probing"
  have "cw_open ?w ! 0 \<in> set (cw_open ?w)" by (simp add: carrier_defs)
  moreover have "epoch (cw_state (carrier_step 0 ?w OpBackground)) \<noteq> epoch (cw_state ?w)"
    by (simp add: carrier_defs)
  ultimately show ?thesis
    using stale_probe_discarded [OF refl _ _ refl, of "cw_open ?w ! 0" 0 probing OpBackground "[]"
        "EndCarrier 7 LanLabel (V4 3232235796)" 2]
    by (simp add: Let_def)
qed

text \<open>A probe that failed keeps its binding on this network on the relay: the next attempt is
  scheduled and admitted from one minute after the report, doubling with every failure in a row and
  capped at a quarter of an hour, and refused as backing off before that.\<close>

lemma failed_probe_backs_off:
  fixes s :: "'h carrier_state"
  assumes "admit s b trig now = (Inr t, s1)" and "finish li s1 t EndFailed later = (r, s2)"
    and "n = (case failures s (b, tk_network t) of None \<Rightarrow> 0 | Some f \<Rightarrow> min (bo_step f + 1) 4)"
    and "at = later + min (secs (60 * 2 ^ n)) (secs 900)"
  shows "r = RetryAt at BackoffTrigger \<and>
    failures s2 (b, tk_network t) = Some \<lparr>bo_step = n, bo_until = at\<rparr> \<and>
    (\<forall>trig x. fst (admit s2 b trig x) =
       (if x < at then Inl SkipBackingOff
        else Inr \<lparr>tk_id = Suc (tk_id t), tk_epoch = epoch s, tk_binding = b, tk_network = tk_network t,
                  tk_local = tk_local t, tk_trigger = trig\<rparr>))"
proof -
  obtain p where a: "app_active s" "live s = None" "probe s = None" "cpath s = Some p"
      "t = \<lparr>tk_id = Suc (carrier_next_id s), tk_epoch = epoch s, tk_binding = b,
            tk_network = ps_network p, tk_local = ps_local p, tk_trigger = trig\<rparr>"
      "s1 = s\<lparr>carrier_next_id := Suc (carrier_next_id s), probe := Some (Suc (carrier_next_id s)),
             retry_after := None\<rparr>"
    using assms(1) by (auto simp: admit_def Let_def split: if_splits option.splits)
  have n: "backoff_step s (b, ps_network p) = n" "PROBE_BACKOFF ! n = min (secs (60 * 2 ^ n)) (secs 900)"
    using assms(3) a(5) backoff_schedule backoff_step_le [of s "(b, ps_network p)"]
    by (simp_all add: backoff_step_def)
  have s2: "r = RetryAt at BackoffTrigger"
    "s2 = s1\<lparr>probe := None, denied := (denied s)((b, ps_network p) := None),
            failures := (failures s)((b, ps_network p) \<mapsto> \<lparr>bo_step = n, bo_until = at\<rparr>)\<rparr>"
    using assms(2) n a by (auto simp: finish_failed fail_eq Let_def assms(4) backoff_step_def)
  show ?thesis
    using a s2 by (simp add: admit_def Let_def)
qed

lemma failed_probe_backs_off_witness:
  "let s = cw_state (foldl (carrier_step 0) carrier_start [OpNetwork (Some home_path) 0 :: nat carrier_op]);
       (a, s1) = admit s node_binding ChatLive 1
   in case a of
        Inr t \<Rightarrow> fst (finish 0 s1 t EndFailed 2) = RetryAt 60000000002 BackoffTrigger
      | Inl _ \<Rightarrow> False"
proof -
  let ?s = "cw_state (foldl (carrier_step 0) carrier_start [OpNetwork (Some home_path) 0 :: nat carrier_op])"
  obtain t s1 where a: "admit ?s node_binding ChatLive 1 = (Inr t, s1)"
    by (simp add: carrier_defs)
  obtain r s2 where f: "finish 0 s1 t EndFailed 2 = (r, s2)" by fastforce
  have "failures ?s (node_binding, tk_network t) = None" by (simp add: carrier_defs)
  then have "r = RetryAt 60000000002 BackoffTrigger"
    using failed_probe_backs_off [OF a f refl refl] by (simp add: secs_def)
  then show ?thesis using a f by simp
qed

text \<open>The death of the live carrier hands its connection back. One that lived for less than a
  minute counts as a failed probe of its binding and network, and the retry waits for the backoff;
  otherwise the retry is immediate and the failure cache is untouched. A death reported for any other
  id changes nothing, and a carrier the phone retires itself never touches the cache.\<close>

lemma carrier_death_exact:
  fixes s :: "'h carrier_state"
  shows "(case live s of
      None \<Rightarrow> died s i now = (None, s) \<and> retire s i now = (None, s)
    | Some l \<Rightarrow>
        let key = (lv_binding l, lv_network l);
            r = \<lparr>rt_handle = lv_handle l, rt_kind = lv_kind l,
                 rt_lifetime = max 0 (now - lv_established l), rt_retry_at = None\<rparr>;
            n = (case failures s key of None \<Rightarrow> 0 | Some f \<Rightarrow> min (bo_step f + 1) 4);
            at = now + min (secs (60 * 2 ^ n)) (secs 900)
        in if lv_id l \<noteq> i then died s i now = (None, s) \<and> retire s i now = (None, s)
           else retire s i now = (Some r, s\<lparr>live := None\<rparr>) \<and>
                died s i now =
                  (if now - lv_established l < secs 60
                   then (Some (r\<lparr>rt_retry_at := Some at\<rparr>),
                         s\<lparr>live := None, failures := (failures s)(key \<mapsto> \<lparr>bo_step = n, bo_until = at\<rparr>)\<rparr>)
                   else (Some (r\<lparr>rt_retry_at := Some now\<rparr>), s\<lparr>live := None\<rparr>)))"
proof (cases "live s")
  case None
  then show ?thesis by (simp add: died_def retire_def is_live_def)
next
  case (Some l)
  let ?key = "(lv_binding l, lv_network l)"
  have n: "(case failures s ?key of None \<Rightarrow> 0 | Some f \<Rightarrow> min (bo_step f + 1) 4) = backoff_step s ?key"
    by (simp add: backoff_step_def)
  have at: "min (secs (60 * 2 ^ backoff_step s ?key)) (secs 900) = PROBE_BACKOFF ! backoff_step s ?key"
    by (simp add: backoff_schedule backoff_step_le)
  have fs: "backoff_step (s\<lparr>live := None\<rparr>) ?key = backoff_step s ?key"
    by (simp add: backoff_step_def)
  have pos: "0 < secs 60" by (simp add: secs_def)
  show ?thesis
  proof (cases "lv_id l = i")
    case True
    then show ?thesis
      unfolding Some option.case Let_def n at
      using Some by (simp add: died_def retire_def is_live_def take_live_def fail_eq fs pos
          CARRIER_MIN_LIFETIME_def)
  next
    case False
    then show ?thesis using Some by (simp add: died_def retire_def is_live_def Let_def)
  qed
qed

end
