(* ===== verification/TranscriptRepair.thy ===== *)
theory TranscriptRepair
  imports Messages "HOL-Library.Sublist"
begin

text \<open>
  \<open>crates/context/src/transcript_repair.rs\<close>: the pass over a restored transcript that makes every
  tool call answered, right after the row that made it, and every answer belong to a call. A
  \<open>HashSet\<close> is a set and a \<open>HashMap\<close> that is never iterated is a map. The lemmas here are about
  the first two passes, renaming and quarantine; \<open>TranscriptPairing\<close> has the repair as a whole.
\<close>

section \<open>Giving repeated calls their own ids\<close>

definition INTERRUPTED_TOOL_RESULT_BODY :: string where
  "INTERRUPTED_TOOL_RESULT_BODY =
     ''[tool execution was interrupted by a crash or restart before it produced a result]''"

definition REPEATED_CALL_ID_SEPARATOR :: char where
  "REPEATED_CALL_ID_SEPARATOR = CHR ''_''"

definition FIRST_REPEAT_ORDINAL :: nat where
  "FIRST_REPEAT_ORDINAL = 2"

record call_slot =
  original :: string
  renamed :: string
  slot_message :: nat
  answered :: bool

definition repeat_id :: "string \<Rightarrow> nat \<Rightarrow> string" where
  "repeat_id orig n = orig @ [REPEATED_CALL_ID_SEPARATOR] @ decimal n"

text \<open>
  The search of \<open>unused_repeat_id\<close> runs over every ordinal from two. Among one candidate more than
  there are taken ids one is free, so the first of those is the first of all
  (\<open>unused_repeat_id_first\<close>).
\<close>

definition unused_repeat_id :: "string \<Rightarrow> string set \<Rightarrow> string" where
  "unused_repeat_id orig taken =
     (case find (\<lambda>candidate. candidate \<notin> taken)
             (map (repeat_id orig) [FIRST_REPEAT_ORDINAL..<FIRST_REPEAT_ORDINAL + Suc (card taken)]) of
        Some candidate \<Rightarrow> candidate
      | None \<Rightarrow> orig)"

fun position :: "('a \<Rightarrow> bool) \<Rightarrow> 'a list \<Rightarrow> nat option" where
  "position P [] = None"
| "position P (x # xs) = (if P x then Some 0 else map_option Suc (position P xs))"

fun rposition :: "('a \<Rightarrow> bool) \<Rightarrow> 'a list \<Rightarrow> nat option" where
  "rposition P [] = None"
| "rposition P (x # xs) =
     (case rposition P xs of Some i \<Rightarrow> Some (Suc i) | None \<Rightarrow> if P x then Some 0 else None)"

definition pairing_call :: "call_slot list \<Rightarrow> string \<Rightarrow> bool \<Rightarrow> nat option" where
  "pairing_call calls i is_fill =
     (case (if is_fill then rposition (\<lambda>call. \<not> answered call \<and> renamed call = i) calls else None) of
        Some k \<Rightarrow> Some k
      | None \<Rightarrow>
          if calls = [] then None
          else
            let message = slot_message (last calls);
                start = (case rposition (\<lambda>call. slot_message call \<noteq> message) calls of
                           None \<Rightarrow> 0
                         | Some k \<Rightarrow> k + 1)
            in map_option (\<lambda>k. start + k)
                 (position (\<lambda>call. \<not> answered call \<and> original call = i) (drop start calls)))"

text \<open>The scan for a repeated id, and the loop over the blocks with what it keeps.\<close>

definition use_ids_of :: "('v, 'm) content_block list \<Rightarrow> string list" where
  "use_ids_of blocks = List.map_filter (\<lambda>b. case b of ToolUse i _ _ _ \<Rightarrow> Some i | _ \<Rightarrow> None) blocks"

definition use_ids :: "('v, 'm) chat_message list \<Rightarrow> string list" where
  "use_ids msgs = concat (map (\<lambda>m. use_ids_of (content m)) msgs)"

fun any_repeated :: "string set \<Rightarrow> string list \<Rightarrow> bool" where
  "any_repeated seen [] = False"
| "any_repeated seen (i # ids) = (i \<in> seen \<or> any_repeated (insert i seen) ids)"

record rename_state =
  taken :: "string set"
  calls :: "call_slot list"
  renamed_ids :: "string list"

definition rename_start :: rename_state where
  "rename_start = \<lparr>taken = {}, calls = [], renamed_ids = []\<rparr>"

definition rename_block ::
    "nat \<Rightarrow> rename_state \<Rightarrow> ('v, 'm) content_block \<Rightarrow> ('v, 'm) content_block \<times> rename_state" where
  "rename_block index st block =
     (case block of
        ToolUse i name input sig \<Rightarrow>
          let repeated = i \<in> taken st;
              i' = (if repeated then unused_repeat_id i (taken st) else i)
          in (ToolUse i' name input sig,
              st\<lparr>taken := insert i' (taken st),
                 calls := calls st @ [\<lparr>original = i, renamed = i', slot_message = index, answered = False\<rparr>],
                 renamed_ids := renamed_ids st @ (if repeated then [i] else [])\<rparr>)
      | ToolResult i body meta \<Rightarrow>
          (case pairing_call (calls st) i (str_contains INTERRUPTED_TOOL_RESULT_BODY body) of
             Some k \<Rightarrow>
               (ToolResult (renamed (calls st ! k)) body meta,
                st\<lparr>calls := (calls st)[k := (calls st ! k)\<lparr>answered := True\<rparr>]\<rparr>)
           | None \<Rightarrow> (block, st))
      | _ \<Rightarrow> (block, st))"

fun rename_blocks ::
    "nat \<Rightarrow> rename_state \<Rightarrow> ('v, 'm) content_block list \<Rightarrow> ('v, 'm) content_block list \<times> rename_state" where
  "rename_blocks index st [] = ([], st)"
| "rename_blocks index st (b # bs) =
     (let (b', st') = rename_block index st b; (bs', st'') = rename_blocks index st' bs
      in (b' # bs', st''))"

fun rename_messages ::
    "nat \<Rightarrow> rename_state \<Rightarrow> ('v, 'm) chat_message list \<Rightarrow> ('v, 'm) chat_message list \<times> rename_state" where
  "rename_messages index st [] = ([], st)"
| "rename_messages index st (m # ms) =
     (let (bs, st') = rename_blocks index st (content m);
          (ms', st'') = rename_messages (Suc index) st' ms
      in (m\<lparr>content := bs\<rparr> # ms', st''))"

definition disambiguate_repeated_call_ids ::
    "('v, 'm) chat_message list \<Rightarrow> ('v, 'm) chat_message list \<times> string list" where
  "disambiguate_repeated_call_ids messages =
     (if \<not> any_repeated {} (use_ids messages) then (messages, [])
      else let (messages', st) = rename_messages 0 rename_start messages in (messages', renamed_ids st))"

section \<open>Quarantine\<close>

definition is_tool_result :: "('v, 'm) content_block \<Rightarrow> bool" where
  "is_tool_result b = (case b of ToolResult _ _ _ \<Rightarrow> True | _ \<Rightarrow> False)"

definition is_tool_result_row :: "('v, 'm) chat_message \<Rightarrow> bool" where
  "is_tool_result_row msg \<longleftrightarrow> content msg \<noteq> [] \<and> list_all is_tool_result (content msg)"

definition result_ids_of :: "('v, 'm) content_block list \<Rightarrow> string list" where
  "result_ids_of blocks = List.map_filter (\<lambda>b. case b of ToolResult i _ _ \<Rightarrow> Some i | _ \<Rightarrow> None) blocks"

definition result_ids :: "('v, 'm) chat_message \<Rightarrow> string list" where
  "result_ids msg = result_ids_of (content msg)"

definition synthetic_fill :: "string \<Rightarrow> string \<Rightarrow> ('v, 'm) chat_message" where
  "synthetic_fill i tool_name =
     tool_result_with_meta i (wrap_tool_output tool_name INTERRUPTED_TOOL_RESULT_BODY []) None"

record quarantine_state =
  seen_result_ids :: "string set"
  orphans :: "string list"
  duplicates :: "string list"

definition quarantine_start :: quarantine_state where
  "quarantine_start = \<lparr>seen_result_ids = {}, orphans = [], duplicates = []\<rparr>"

fun retain_blocks ::
    "string set \<Rightarrow> quarantine_state \<Rightarrow> ('v, 'm) content_block list \<Rightarrow>
     ('v, 'm) content_block list \<times> quarantine_state" where
  "retain_blocks uses st [] = ([], st)"
| "retain_blocks uses st (b # bs) =
     (let (keep, st') =
        (case b of
           ToolResult i _ _ \<Rightarrow>
             if i \<notin> uses then (False, st\<lparr>orphans := orphans st @ [i]\<rparr>)
             else if i \<in> seen_result_ids st then (False, st\<lparr>duplicates := duplicates st @ [i]\<rparr>)
             else (True, st\<lparr>seen_result_ids := insert i (seen_result_ids st)\<rparr>)
         | _ \<Rightarrow> (True, st));
          (bs', st'') = retain_blocks uses st' bs
      in (if keep then b # bs' else bs', st''))"

fun retain_messages ::
    "string set \<Rightarrow> quarantine_state \<Rightarrow> ('v, 'm) chat_message list \<Rightarrow>
     ('v, 'm) chat_message list \<times> quarantine_state" where
  "retain_messages uses st [] = ([], st)"
| "retain_messages uses st (m # ms) =
     (let (bs, st') = retain_blocks uses st (content m); (ms', st'') = retain_messages uses st' ms
      in (m\<lparr>content := bs\<rparr> # ms', st''))"

definition quarantine_invalid_results ::
    "('v, 'm) chat_message list \<Rightarrow> ('v, 'm) chat_message list \<times> string list \<times> string list" where
  "quarantine_invalid_results messages =
     (let (messages', st) = retain_messages (set (use_ids messages)) quarantine_start messages
      in (filter (\<lambda>m. content m \<noteq> []) messages', orphans st, duplicates st))"

section \<open>The repair\<close>

record ('v, 'm) tool_pairing_repair =
  messages :: "('v, 'm) chat_message list"
  fills :: "('v, 'm) chat_message list"
  orphan_result_ids :: "string list"
  duplicate_result_ids :: "string list"
  renamed_call_ids :: "string list"

text \<open>\<open>entry(id).or_insert(i)\<close> for every id of every result row.\<close>

fun index_ids :: "nat \<Rightarrow> string list \<Rightarrow> (string \<rightharpoonup> nat) \<Rightarrow> (string \<rightharpoonup> nat)" where
  "index_ids k [] m = m"
| "index_ids k (i # ids) m = index_ids k ids (if m i = None then m(i \<mapsto> k) else m)"

fun index_rows :: "nat \<Rightarrow> ('v, 'm) chat_message list \<Rightarrow> (string \<rightharpoonup> nat) \<Rightarrow> (string \<rightharpoonup> nat)" where
  "index_rows k [] m = m"
| "index_rows k (msg # msgs) m =
     index_rows (Suc k) msgs (if is_tool_result_row msg then index_ids k (result_ids msg) m else m)"

fun expect_results :: "string set \<Rightarrow> bool \<Rightarrow> string list \<Rightarrow> string set \<times> bool" where
  "expect_results expected needs [] = (expected, needs)"
| "expect_results expected needs (i # ids) =
     expect_results (expected - {i}) (needs \<or> i \<notin> expected) ids"

fun needs_repair_loop :: "string set \<Rightarrow> bool \<Rightarrow> ('v, 'm) chat_message list \<Rightarrow> bool" where
  "needs_repair_loop expected needs [] = (needs \<or> expected \<noteq> {})"
| "needs_repair_loop expected needs (msg # msgs) =
     (if is_tool_result_row msg
      then let (expected', needs') = expect_results expected needs (result_ids msg)
           in needs_repair_loop expected' needs' msgs
      else needs_repair_loop (set (use_ids_of (content msg))) (needs \<or> expected \<noteq> {}) msgs)"

definition uses_of :: "('v, 'm) chat_message \<Rightarrow> (string \<times> string) list" where
  "uses_of msg =
     List.map_filter (\<lambda>b. case b of ToolUse i name _ _ \<Rightarrow> Some (i, name) | _ \<Rightarrow> None) (content msg)"

record ('v, 'm) emit_state =
  consumed :: "nat set"
  repaired :: "('v, 'm) chat_message list"
  new_fills :: "('v, 'm) chat_message list"

fun emit_uses ::
    "('v, 'm) chat_message list \<Rightarrow> (string \<rightharpoonup> nat) \<Rightarrow> (string \<times> string) list \<Rightarrow> ('v, 'm) emit_state \<Rightarrow>
     ('v, 'm) emit_state" where
  "emit_uses msgs row_of_id [] st = st"
| "emit_uses msgs row_of_id ((i, name) # uses) st =
     emit_uses msgs row_of_id uses
       (case row_of_id i of
          Some ri \<Rightarrow>
            if ri \<notin> consumed st
            then st\<lparr>consumed := insert ri (consumed st), repaired := repaired st @ [msgs ! ri]\<rparr>
            else st
        | None \<Rightarrow>
            let fill = synthetic_fill i name
            in st\<lparr>new_fills := new_fills st @ [fill], repaired := repaired st @ [fill]\<rparr>)"

fun emit_rows ::
    "('v, 'm) chat_message list \<Rightarrow> (string \<rightharpoonup> nat) \<Rightarrow> nat \<Rightarrow> ('v, 'm) chat_message list \<Rightarrow>
     ('v, 'm) emit_state \<Rightarrow> ('v, 'm) emit_state" where
  "emit_rows msgs row_of_id k [] st = st"
| "emit_rows msgs row_of_id k (msg # rest) st =
     emit_rows msgs row_of_id (Suc k) rest
       (if k \<in> consumed st then st
        else if is_tool_result_row msg then st
        else emit_uses msgs row_of_id (uses_of msg) (st\<lparr>repaired := repaired st @ [msg]\<rparr>))"

definition repair_tool_pairing ::
    "('v, 'm) chat_message list \<Rightarrow> ('v, 'm) tool_pairing_repair" where
  "repair_tool_pairing msgs =
     (let (msgs, renamed) = disambiguate_repeated_call_ids msgs;
          (msgs, orph, dup) = quarantine_invalid_results msgs;
          row_of_id = index_rows 0 msgs Map.empty
      in if \<not> needs_repair_loop {} False msgs
         then \<lparr>messages = msgs, fills = [], orphan_result_ids = orph, duplicate_result_ids = dup,
               renamed_call_ids = renamed\<rparr>
         else let st = emit_rows msgs row_of_id 0 msgs \<lparr>consumed = {}, repaired = [], new_fills = []\<rparr>
              in \<lparr>messages = repaired st, fills = new_fills st, orphan_result_ids = orph,
                  duplicate_result_ids = dup, renamed_call_ids = renamed\<rparr>)"

section \<open>Strings\<close>

lemma repeat_id_inj: "repeat_id orig m = repeat_id orig n \<Longrightarrow> m = n"
  by (auto simp: repeat_id_def intro: decimal_inj)

lemma find_first:
  assumes "find P xs = Some x"
  shows "\<exists>i < length xs. xs ! i = x \<and> P x \<and> (\<forall>j < i. \<not> P (xs ! j))"
  using assms by (auto simp: find_Some_iff)

text \<open>The first free ordinal from two, whatever is taken.\<close>

lemma unused_repeat_id_first:
  assumes "finite used"
  shows "\<exists>n \<ge> 2. unused_repeat_id orig used = repeat_id orig n \<and> repeat_id orig n \<notin> used \<and>
           (\<forall>k. 2 \<le> k \<and> k < n \<longrightarrow> repeat_id orig k \<in> used)"
proof -
  let ?range = "[2..<2 + Suc (card used)]"
  let ?xs = "map (repeat_id orig) ?range"
  have "distinct ?xs"
    unfolding distinct_map by (intro conjI distinct_upt inj_onI) (rule repeat_id_inj)
  then have "card (set ?xs) = Suc (card used)"
    by (simp add: distinct_card del: upt_Suc set_map)
  then have "\<not> set ?xs \<subseteq> used"
    using card_mono [OF assms, of "set ?xs"] by auto
  then obtain x where x: "find (\<lambda>c. c \<notin> used) ?xs = Some x"
    by (cases "find (\<lambda>c. c \<notin> used) ?xs") (auto simp: find_None_iff)
  obtain i where i: "i < Suc (card used)" "x = repeat_id orig (2 + i)" "x \<notin> used"
      "\<forall>j < i. repeat_id orig (2 + j) \<in> used"
    using find_first [OF x] by (auto simp del: upt_Suc)
  have "repeat_id orig k \<in> used" if "2 \<le> k \<and> k < 2 + i" for k
  proof -
    have "k - 2 < i" and "k = 2 + (k - 2)" using that by auto
    then show ?thesis using i(4) by metis
  qed
  then show ?thesis
    using x i by (intro exI [of _ "2 + i"]) (simp add: unused_repeat_id_def FIRST_REPEAT_ORDINAL_def)
qed

lemma unused_repeat_id_free: "finite used \<Longrightarrow> unused_repeat_id orig used \<notin> used"
  using unused_repeat_id_first [of used orig] by auto

lemma str_replace_none: "\<not> str_contains pat s \<Longrightarrow> str_replace pat new s = s"
proof (induction s)
  case (Cons c cs)
  then show ?case by simp
qed simp

lemma body_is_not_escaped:
  "escape_close_tool_output INTERRUPTED_TOOL_RESULT_BODY = INTERRUPTED_TOOL_RESULT_BODY"
proof -
  have "\<not> str_contains TOOL_OUTPUT_CLOSE_PREFIX INTERRUPTED_TOOL_RESULT_BODY"
    by (simp add: TOOL_OUTPUT_CLOSE_PREFIX_def INTERRUPTED_TOOL_RESULT_BODY_def)
  then show ?thesis by (simp add: escape_close_tool_output_def Let_def str_replace_none)
qed

text \<open>The sentence that marks a fill is in its envelope, whatever the tool is called.\<close>

lemma fill_is_marked:
  "str_contains INTERRUPTED_TOOL_RESULT_BODY (wrap_tool_output name INTERRUPTED_TOOL_RESULT_BODY [])"
proof -
  let ?u = "TOOL_OUTPUT_OPEN_PREFIX @ '' name='' @ quote_char @ escape_xml_attr name @ quote_char @ ''>'' @ newline"
  have "wrap_tool_output name INTERRUPTED_TOOL_RESULT_BODY [] =
      ?u @ INTERRUPTED_TOOL_RESULT_BODY @ newline @ TOOL_OUTPUT_CLOSE_PREFIX @ ''>''"
    by (simp only: wrap_tool_output_def Let_def body_is_not_escaped append_assoc if_True simp_thms append.simps)
  then have "\<exists>u v. wrap_tool_output name INTERRUPTED_TOOL_RESULT_BODY [] = u @ INTERRUPTED_TOOL_RESULT_BODY @ v"
    by blast
  then show ?thesis by (simp add: str_contains_iff)
qed

section \<open>Lemmas on the ids of a transcript\<close>

definition all_result_ids :: "('v, 'm) chat_message list \<Rightarrow> string list" where
  "all_result_ids msgs = concat (map result_ids msgs)"

lemma ids_of_simps [simp]:
  "use_ids_of [] = []" "result_ids_of [] = []"
  "use_ids_of (b # bs) = (case b of ToolUse i _ _ _ \<Rightarrow> i # use_ids_of bs | _ \<Rightarrow> use_ids_of bs)"
  "result_ids_of (b # bs) = (case b of ToolResult i _ _ \<Rightarrow> i # result_ids_of bs | _ \<Rightarrow> result_ids_of bs)"
  by (simp_all add: use_ids_of_def result_ids_of_def List.map_filter_def split: content_block.split)

lemma ids_simps [simp]:
  "use_ids [] = []" "all_result_ids [] = []"
  "use_ids (m # ms) = use_ids_of (content m) @ use_ids ms"
  "all_result_ids (m # ms) = result_ids_of (content m) @ all_result_ids ms"
  "use_ids (ms @ ms') = use_ids ms @ use_ids ms'"
  "all_result_ids (ms @ ms') = all_result_ids ms @ all_result_ids ms'"
  by (simp_all add: use_ids_def all_result_ids_def result_ids_def)

lemma any_repeated_iff: "any_repeated seen ids \<longleftrightarrow> \<not> (distinct ids \<and> set ids \<inter> seen = {})"
  by (induction seen ids rule: any_repeated.induct) auto

section \<open>Lemmas on renaming\<close>

lemma position_some: "position P xs = Some k \<Longrightarrow> k < length xs \<and> P (xs ! k)"
  by (induction xs arbitrary: k) (auto split: if_splits)

lemma rposition_some: "rposition P xs = Some k \<Longrightarrow> k < length xs \<and> P (xs ! k)"
  by (induction xs arbitrary: k) (auto split: if_splits option.splits)

lemma rposition_none: "rposition P xs = None \<longleftrightarrow> (\<forall>x \<in> set xs. \<not> P x)"
  by (induction xs) (auto split: option.splits)

lemma rposition_unique:
  assumes "j < length xs" "P (xs ! j)" "\<And>k. k < length xs \<Longrightarrow> P (xs ! k) \<Longrightarrow> k = j"
  shows "rposition P xs = Some j"
proof (cases "rposition P xs")
  case None
  then show ?thesis using assms(1,2) by (auto simp: rposition_none)
next
  case (Some k)
  then show ?thesis using assms(3) rposition_some by metis
qed

lemma pairing_call_sound:
  assumes "pairing_call cs i is_fill = Some k"
  shows "k < length cs \<and> \<not> answered (cs ! k) \<and> (renamed (cs ! k) = i \<or> original (cs ! k) = i)"
proof (cases "if is_fill then rposition (\<lambda>c. \<not> answered c \<and> renamed c = i) cs else None")
  case (Some j)
  then have "k = j" using assms by (simp add: pairing_call_def)
  then show ?thesis using Some rposition_some by (fastforce split: if_splits)
next
  case None
  then show ?thesis
    using assms by (auto simp: pairing_call_def Let_def split: if_splits dest!: position_some)
qed

definition rename_ok :: "rename_state \<Rightarrow> bool" where
  "rename_ok st \<longleftrightarrow> taken st = renamed ` set (calls st) \<and> distinct (map renamed (calls st))"

text \<open>
  What a stretch of the loop does: the calls it saw are added under their new ids, and a call is only
  marked answered together with a result that carries its new id.
\<close>

definition renames :: "rename_state \<Rightarrow> string list \<Rightarrow> string list \<Rightarrow> rename_state \<Rightarrow> bool" where
  "renames st uses results st' \<longleftrightarrow>
     rename_ok st' \<and> map renamed (calls st') = map renamed (calls st) @ uses \<and>
     (\<forall>c \<in> set (calls st'). answered c \<longrightarrow>
        renamed c \<in> set results \<or> (\<exists>c0 \<in> set (calls st). answered c0 \<and> renamed c0 = renamed c))"

lemma renames_refl: "rename_ok st \<Longrightarrow> renames st [] [] st"
  by (auto simp: renames_def)

lemma renames_ok: "renames st u r st' \<Longrightarrow> rename_ok st'"
  by (simp add: renames_def)

lemma renames_taken:
  assumes "rename_ok st" and "renames st u r st'"
  shows "taken st' = taken st \<union> set u"
proof -
  have "set (map renamed (calls st')) = set (map renamed (calls st) @ u)"
    using assms(2) by (simp only: renames_def)
  then show ?thesis using assms by (simp add: renames_def rename_ok_def)
qed

lemma renames_trans:
  assumes "renames st u r st1" and "renames st1 u' r' st2"
  shows "renames st (u @ u') (r @ r') st2"
  using assms unfolding renames_def by (simp; metis)

lemma map_renamed_answered:
  "k < length cs \<Longrightarrow> map renamed (cs[k := (cs ! k)\<lparr>answered := a\<rparr>]) = map renamed cs"
  by (simp add: map_update) (metis list_update_id nth_map)

lemma rename_block_renames:
  assumes "rename_ok st" and "rename_block k st b = (b', st')"
  shows "renames st (use_ids_of [b']) (result_ids_of [b']) st'"
proof (cases b)
  case (ToolUse i name input sig)
  have "finite (taken st)" using assms(1) by (simp add: rename_ok_def)
  then have "unused_repeat_id i (taken st) \<notin> taken st" by (rule unused_repeat_id_free)
  then show ?thesis
    using assms ToolUse by (auto simp: rename_block_def rename_ok_def renames_def Let_def split: if_splits)
next
  case (ToolResult i body meta)
  show ?thesis
  proof (cases "pairing_call (calls st) i (str_contains INTERRUPTED_TOOL_RESULT_BODY body)")
    case None
    then show ?thesis using assms ToolResult by (auto simp: rename_block_def renames_def)
  next
    case (Some j)
    have j: "j < length (calls st)" using pairing_call_sound [OF Some] by blast
    let ?cs = "(calls st)[j := (calls st ! j)\<lparr>answered := True\<rparr>]"
    have m: "map renamed ?cs = map renamed (calls st)" by (rule map_renamed_answered [OF j])
    then have im: "renamed ` set ?cs = renamed ` set (calls st)" by (metis list.set_map)
    have ans: "renamed c = renamed (calls st ! j) \<or> (\<exists>c0 \<in> set (calls st). answered c0 \<and> renamed c0 = renamed c)"
      if "c \<in> set ?cs" "answered c" for c
      using subsetD [OF set_update_subset_insert that(1)] that(2) by auto
    have st': "st' = st\<lparr>calls := ?cs\<rparr>" and b': "b' = ToolResult (renamed (calls st ! j)) body meta"
      using assms(2) ToolResult Some by (simp_all add: rename_block_def)
    have "rename_ok st'" using assms(1) m im by (simp add: rename_ok_def st')
    then show ?thesis using m ans by (auto simp: renames_def b' st')
  qed
qed (use assms in \<open>auto simp: rename_block_def renames_def\<close>)

lemma rename_blocks_renames:
  "rename_ok st \<Longrightarrow> rename_blocks k st bs = (bs', st') \<Longrightarrow>
     renames st (use_ids_of bs') (result_ids_of bs') st'"
proof (induction bs arbitrary: st bs')
  case Nil
  then show ?case by (simp add: renames_refl)
next
  case (Cons b bs)
  obtain b1 st1 bs1 where r: "rename_block k st b = (b1, st1)" "rename_blocks k st1 bs = (bs1, st')"
      "bs' = b1 # bs1"
    using Cons.prems(2) by (auto split: prod.splits)
  have one: "renames st (use_ids_of [b1]) (result_ids_of [b1]) st1"
    by (rule rename_block_renames [OF Cons.prems(1) r(1)])
  have "renames st1 (use_ids_of bs1) (result_ids_of bs1) st'"
    by (rule Cons.IH [OF renames_ok [OF one] r(2)])
  from renames_trans [OF one this] show ?case
    by (cases b1) (simp_all add: r(3))
qed

lemma rename_messages_renames:
  "rename_ok st \<Longrightarrow> rename_messages k st ms = (ms', st') \<Longrightarrow>
     renames st (use_ids ms') (all_result_ids ms') st'"
proof (induction ms arbitrary: k st ms')
  case Nil
  then show ?case by (simp add: renames_refl)
next
  case (Cons m ms)
  obtain bs st1 ms1 where r: "rename_blocks k st (content m) = (bs, st1)"
      "rename_messages (Suc k) st1 ms = (ms1, st')" "ms' = m\<lparr>content := bs\<rparr> # ms1"
    using Cons.prems(2) by (auto split: prod.splits)
  have one: "renames st (use_ids_of bs) (result_ids_of bs) st1"
    by (rule rename_blocks_renames [OF Cons.prems(1) r(1)])
  have "renames st1 (use_ids ms1) (all_result_ids ms1) st'"
    by (rule Cons.IH [OF renames_ok [OF one] r(2)])
  from renames_trans [OF one this] show ?case by (simp add: r(3))
qed

lemma rename_start_ok: "rename_ok rename_start"
  by (simp add: rename_ok_def rename_start_def)

lemma rename_messages_append:
  "rename_messages k st (ms @ ms') =
     (let (r, st1) = rename_messages k st ms; (r', st2) = rename_messages (k + length ms) st1 ms'
      in (r @ r', st2))"
  by (induction ms arbitrary: k st) (auto simp: Let_def split: prod.splits)

text \<open>Renaming touches nothing but ids.\<close>

definition strip_block :: "('v, 'm) content_block \<Rightarrow> ('v, 'm) content_block" where
  "strip_block b =
     (case b of
        ToolUse _ name input sig \<Rightarrow> ToolUse [] name input sig
      | ToolResult _ body meta \<Rightarrow> ToolResult [] body meta
      | _ \<Rightarrow> b)"

definition strip_ids :: "('v, 'm) chat_message \<Rightarrow> ('v, 'm) chat_message" where
  "strip_ids m = m\<lparr>content := map strip_block (content m)\<rparr>"

lemma rename_block_strip: "strip_block (fst (rename_block k st b)) = strip_block b"
  by (cases b) (auto simp: rename_block_def strip_block_def Let_def split: option.splits)

lemma rename_blocks_strip: "map strip_block (fst (rename_blocks k st bs)) = map strip_block bs"
proof (induction bs arbitrary: st)
  case (Cons b bs)
  then show ?case
    using rename_block_strip [of k st b] by (simp add: Let_def case_prod_unfold)
qed simp

lemma rename_messages_strip: "map strip_ids (fst (rename_messages k st ms)) = map strip_ids ms"
proof (induction ms arbitrary: k st)
  case (Cons m ms)
  then show ?case
    using rename_blocks_strip [of k st "content m"]
    by (simp add: Let_def case_prod_unfold) (simp add: strip_ids_def)
qed simp

text \<open>Without repeated ids the loop changes nothing, so the early return is only a shortcut.\<close>

definition originals :: "rename_state \<Rightarrow> bool" where
  "originals st \<longleftrightarrow> list_all (\<lambda>c. original c = renamed c) (calls st)"

lemma rename_block_id:
  assumes "rename_ok st" "originals st" "set (use_ids_of [b]) \<inter> taken st = {}"
  shows "\<exists>st'. rename_block k st b = (b, st') \<and> originals st' \<and> renamed_ids st' = renamed_ids st"
proof (cases b)
  case (ToolResult i body meta)
  show ?thesis
  proof (cases "pairing_call (calls st) i (str_contains INTERRUPTED_TOOL_RESULT_BODY body)")
    case None
    then show ?thesis using assms ToolResult by (simp add: rename_block_def)
  next
    case (Some j)
    have j: "j < length (calls st)" "renamed (calls st ! j) = i"
      using pairing_call_sound [OF Some] assms(2) by (auto simp: originals_def list_all_length)
    then show ?thesis
      using assms(2) ToolResult Some
      by (auto simp: rename_block_def originals_def list_all_iff dest!: subsetD [OF set_update_subset_insert])
  qed
qed (use assms in \<open>simp_all add: rename_block_def originals_def\<close>)

lemma rename_blocks_id:
  assumes "rename_ok st" "originals st" "distinct (use_ids_of bs)" "set (use_ids_of bs) \<inter> taken st = {}"
  shows "\<exists>st'. rename_blocks k st bs = (bs, st') \<and> originals st' \<and> renamed_ids st' = renamed_ids st"
  using assms
proof (induction bs arbitrary: st)
  case Nil
  then show ?case by simp
next
  case (Cons b bs)
  have "set (use_ids_of [b]) \<inter> taken st = {}" using Cons.prems(4) by (auto split: content_block.splits)
  then obtain st1 where one: "rename_block k st b = (b, st1)" "originals st1" "renamed_ids st1 = renamed_ids st"
    using rename_block_id Cons.prems(1,2) by blast
  have ren: "renames st (use_ids_of [b]) (result_ids_of [b]) st1"
    by (rule rename_block_renames [OF Cons.prems(1) one(1)])
  have "taken st1 = taken st \<union> set (use_ids_of [b])"
    by (rule renames_taken [OF Cons.prems(1) ren])
  then have "distinct (use_ids_of bs)" "set (use_ids_of bs) \<inter> taken st1 = {}"
    using Cons.prems(3,4) by (auto split: content_block.splits)
  then obtain st2 where "rename_blocks k st1 bs = (bs, st2)" "originals st2" "renamed_ids st2 = renamed_ids st1"
    using Cons.IH [OF renames_ok [OF ren] one(2)] by blast
  then show ?case using one by simp
qed

lemma rename_messages_id:
  assumes "rename_ok st" "originals st" "distinct (use_ids ms)" "set (use_ids ms) \<inter> taken st = {}"
  shows "\<exists>st'. rename_messages k st ms = (ms, st') \<and> renamed_ids st' = renamed_ids st"
  using assms
proof (induction ms arbitrary: k st)
  case Nil
  then show ?case by simp
next
  case (Cons m ms)
  have "distinct (use_ids_of (content m))" "set (use_ids_of (content m)) \<inter> taken st = {}"
    using Cons.prems(3,4) by auto
  then obtain st1 where one: "rename_blocks k st (content m) = (content m, st1)" "originals st1"
      "renamed_ids st1 = renamed_ids st"
    using rename_blocks_id Cons.prems(1,2) by blast
  have ren: "renames st (use_ids_of (content m)) (result_ids_of (content m)) st1"
    by (rule rename_blocks_renames [OF Cons.prems(1) one(1)])
  have "taken st1 = taken st \<union> set (use_ids_of (content m))"
    by (rule renames_taken [OF Cons.prems(1) ren])
  then have "distinct (use_ids ms)" "set (use_ids ms) \<inter> taken st1 = {}"
    using Cons.prems(3,4) by auto
  then obtain st2 where "rename_messages (Suc k) st1 ms = (ms, st2)" "renamed_ids st2 = renamed_ids st1"
    using Cons.IH [OF renames_ok [OF ren] one(2)] by blast
  then show ?case using one by simp
qed

lemma disambiguate_eq:
  "disambiguate_repeated_call_ids ms =
     (fst (rename_messages 0 rename_start ms), renamed_ids (snd (rename_messages 0 rename_start ms)))"
proof (cases "distinct (use_ids ms)")
  case True
  have "\<exists>st'. rename_messages 0 rename_start ms = (ms, st') \<and> renamed_ids st' = renamed_ids rename_start"
    by (rule rename_messages_id [OF rename_start_ok _ True])
       (simp_all add: originals_def rename_start_def)
  then show ?thesis
    using True by (auto simp: disambiguate_repeated_call_ids_def any_repeated_iff rename_start_def)
next
  case False
  then show ?thesis
    by (simp add: disambiguate_repeated_call_ids_def any_repeated_iff case_prod_unfold Let_def)
qed

abbreviation disambiguated :: "('v, 'm) chat_message list \<Rightarrow> ('v, 'm) chat_message list" where
  "disambiguated ms \<equiv> fst (disambiguate_repeated_call_ids ms)"

lemma disambiguated_distinct: "distinct (use_ids (disambiguated ms))"
proof -
  obtain ms' st where r: "rename_messages 0 rename_start ms = (ms', st)" by fastforce
  have "renames rename_start (use_ids ms') (all_result_ids ms') st"
    by (rule rename_messages_renames [OF rename_start_ok r])
  then have "distinct (use_ids ms')"
    by (auto simp: renames_def rename_ok_def rename_start_def)
  then show ?thesis by (simp add: disambiguate_eq r)
qed

lemma disambiguated_strip: "map strip_ids (disambiguated ms) = map strip_ids ms"
  by (simp add: disambiguate_eq rename_messages_strip)

lemma disambiguated_id: "distinct (use_ids ms) \<Longrightarrow> disambiguate_repeated_call_ids ms = (ms, [])"
  by (simp add: disambiguate_repeated_call_ids_def any_repeated_iff)

text \<open>A fill for a call that no result answers pairs with it, wherever the call is.\<close>

lemma pairing_call_fill:
  assumes "rename_ok st" "j < length (calls st)" "\<not> answered (calls st ! j)"
  shows "pairing_call (calls st) (renamed (calls st ! j)) True = Some j"
proof -
  have "rposition (\<lambda>c. \<not> answered c \<and> renamed c = renamed (calls st ! j)) (calls st) = Some j"
    using assms by (intro rposition_unique) (auto simp: rename_ok_def distinct_conv_nth)
  then show ?thesis by (simp add: pairing_call_def)
qed

definition unanswered :: "rename_state \<Rightarrow> string \<Rightarrow> bool" where
  "unanswered st i \<longleftrightarrow> (\<exists>c \<in> set (calls st). renamed c = i \<and> \<not> answered c)"

abbreviation fill_rows :: "(string \<times> string) list \<Rightarrow> ('v, 'm) chat_message list" where
  "fill_rows ps \<equiv> map (\<lambda>(i, name). synthetic_fill i name) ps"

lemma rename_fill:
  assumes "rename_ok st" "unanswered st i"
  shows "\<exists>st'. rename_messages k st [synthetic_fill i name :: ('v, 'm) chat_message] = ([synthetic_fill i name], st') \<and>
           rename_ok st' \<and> (\<forall>i'. i' \<noteq> i \<and> unanswered st i' \<longrightarrow> unanswered st' i')"
proof -
  let ?body = "wrap_tool_output name INTERRUPTED_TOOL_RESULT_BODY []"
  obtain j where j: "j < length (calls st)" "renamed (calls st ! j) = i" "\<not> answered (calls st ! j)"
    using assms(2) by (auto simp: unanswered_def in_set_conv_nth)
  let ?st = "st\<lparr>calls := (calls st)[j := (calls st ! j)\<lparr>answered := True\<rparr>]\<rparr>"
  have r: "rename_block k st (ToolResult i ?body None :: ('v, 'm) content_block) = (ToolResult i ?body None, ?st)"
    using pairing_call_fill [OF assms(1) j(1,3)] j(2) by (simp add: rename_block_def fill_is_marked)
  have "unanswered ?st i'" if ne: "i' \<noteq> i" and un: "unanswered st i'" for i'
  proof -
    obtain l where l: "l < length (calls st)" "renamed (calls st ! l) = i'" "\<not> answered (calls st ! l)"
      using un by (auto simp: unanswered_def in_set_conv_nth)
    then have "(calls ?st) ! l = calls st ! l" using j ne by (auto simp: nth_list_update)
    moreover have "(calls ?st) ! l \<in> set (calls ?st)" using l(1) by (intro nth_mem) simp
    ultimately have "calls st ! l \<in> set (calls ?st)" by simp
    then show ?thesis using l by (auto simp: unanswered_def)
  qed
  moreover have "rename_ok ?st" by (rule renames_ok [OF rename_block_renames [OF assms(1) r]])
  moreover have "rename_messages k st [synthetic_fill i name :: ('v, 'm) chat_message] = ([synthetic_fill i name], ?st)"
    using r by (simp add: synthetic_fill_def tool_result_with_meta_def tool_row_def)
  ultimately show ?thesis by blast
qed

lemma rename_fills:
  assumes "rename_ok st" "distinct (map fst ps)" "\<And>i. i \<in> fst ` set ps \<Longrightarrow> unanswered st i"
  shows "fst (rename_messages k st (fill_rows ps :: ('v, 'm) chat_message list)) = fill_rows ps"
  using assms
proof (induction ps arbitrary: k st)
  case Nil
  then show ?case by simp
next
  case (Cons p ps)
  obtain i name where p: "p = (i, name)" by fastforce
  obtain st' where st':
      "rename_messages k st [synthetic_fill i name :: ('v, 'm) chat_message] = ([synthetic_fill i name], st')"
      "rename_ok st'" "\<And>i'. i' \<noteq> i \<Longrightarrow> unanswered st i' \<Longrightarrow> unanswered st' i'"
    using rename_fill [OF Cons.prems(1), of i k name] Cons.prems(3) p by auto
  have "fst (rename_messages (Suc k) st' (fill_rows ps :: ('v, 'm) chat_message list)) = fill_rows ps"
  proof (rule Cons.IH [OF st'(2)])
    show "distinct (map fst ps)" using Cons.prems(2) by simp
    show "unanswered st' i'" if "i' \<in> fst ` set ps" for i'
      using that Cons.prems(2,3) p by (intro st'(3)) auto
  qed
  then show ?case
    using st'(1) rename_messages_append [of k st "[synthetic_fill i name]" "fill_rows ps :: ('v, 'm) chat_message list"]
    by (simp add: p case_prod_unfold Let_def)
qed

text \<open>Reloading with fills appended renames the old rows as before and leaves the fills alone.\<close>

lemma disambiguate_with_fills:
  fixes ms :: "('v, 'm) chat_message list"
  assumes "distinct (map fst ps)" "\<And>i. i \<in> fst ` set ps \<Longrightarrow> i \<in> set (use_ids (disambiguated ms))"
    "\<And>i. i \<in> fst ` set ps \<Longrightarrow> i \<notin> set (all_result_ids (disambiguated ms))"
  shows "disambiguated (ms @ fill_rows ps) = disambiguated ms @ fill_rows ps"
proof -
  obtain ms' st where r: "rename_messages 0 rename_start ms = (ms', st)" by fastforce
  have ms': "disambiguated ms = ms'" by (simp add: disambiguate_eq r)
  have ren: "renames rename_start (use_ids ms') (all_result_ids ms') st"
    by (rule rename_messages_renames [OF rename_start_ok r])
  have un: "unanswered st i" if "i \<in> fst ` set ps" for i
  proof -
    have "i \<in> set (map renamed (calls st))"
      using assms(2) [OF that] ren ms' by (simp add: renames_def rename_start_def)
    then obtain c where "c \<in> set (calls st)" "renamed c = i" by auto
    then show ?thesis
      using assms(3) [OF that] ren ms' by (auto simp: renames_def rename_start_def unanswered_def)
  qed
  have "fst (rename_messages (length ms) st (fill_rows ps :: ('v, 'm) chat_message list)) = fill_rows ps"
    by (rule rename_fills [OF renames_ok [OF ren] assms(1) un])
  then show ?thesis
    using r rename_messages_append [of 0 rename_start ms "fill_rows ps"]
    by (simp add: disambiguate_eq case_prod_unfold Let_def)
qed

section \<open>Lemmas on quarantine\<close>

text \<open>
  What a stretch of the retain loop keeps: of the results, the first for every call that has not been
  answered yet; and every other one is counted.
\<close>

definition retains ::
    "string set \<Rightarrow> quarantine_state \<Rightarrow> string list \<Rightarrow> string list \<Rightarrow> quarantine_state \<Rightarrow> bool" where
  "retains uses st results kept st' \<longleftrightarrow>
     distinct kept \<and> set kept = set results \<inter> uses - seen_result_ids st \<and>
     seen_result_ids st' = seen_result_ids st \<union> set kept \<and>
     length kept + length (orphans st') + length (duplicates st') =
       length results + length (orphans st) + length (duplicates st)"

lemma retains_trans:
  assumes "retains uses st r k st1" and "retains uses st1 r' k' st2"
  shows "retains uses st (r @ r') (k @ k') st2"
  using assms unfolding retains_def by auto

lemma retain_blocks_retains:
  "retain_blocks uses st bs = (bs', st') \<Longrightarrow> retains uses st (result_ids_of bs) (result_ids_of bs') st'"
proof (induction bs arbitrary: st bs')
  case Nil
  then show ?case by (simp add: retains_def)
next
  case (Cons b bs)
  obtain keep st1 bs1 where r: "retain_blocks uses st1 bs = (bs1, st')" "bs' = (if keep then b # bs1 else bs1)"
      "(keep, st1) = (case b of
           ToolResult i _ _ \<Rightarrow>
             if i \<notin> uses then (False, st\<lparr>orphans := orphans st @ [i]\<rparr>)
             else if i \<in> seen_result_ids st then (False, st\<lparr>duplicates := duplicates st @ [i]\<rparr>)
             else (True, st\<lparr>seen_result_ids := insert i (seen_result_ids st)\<rparr>)
         | _ \<Rightarrow> (True, st))"
    using Cons.prems by (auto simp: Let_def split: prod.splits)
  have "retains uses st (result_ids_of [b]) (if keep then result_ids_of [b] else []) st1"
    using r(3) by (cases b) (auto simp: retains_def split: if_splits)
  from retains_trans [OF this Cons.IH [OF r(1)]] show ?case
    using r(2,3) by (cases b) (auto split: if_splits)
qed

lemma retain_messages_retains:
  "retain_messages uses st ms = (ms', st') \<Longrightarrow> retains uses st (all_result_ids ms) (all_result_ids ms') st'"
proof (induction ms arbitrary: st ms')
  case Nil
  then show ?case by (simp add: retains_def)
next
  case (Cons m ms)
  obtain bs st1 ms1 where r: "retain_blocks uses st (content m) = (bs, st1)"
      "retain_messages uses st1 ms = (ms1, st')" "ms' = m\<lparr>content := bs\<rparr> # ms1"
    using Cons.prems by (auto split: prod.splits)
  from retains_trans [OF retain_blocks_retains [OF r(1)] Cons.IH [OF r(2)]] show ?case
    by (simp add: r(3))
qed

lemma retain_blocks_others:
  "filter (\<lambda>b. \<not> is_tool_result b) (fst (retain_blocks uses st bs)) = filter (\<lambda>b. \<not> is_tool_result b) bs"
  by (induction bs arbitrary: st)
     (auto simp: is_tool_result_def Let_def case_prod_unfold split: content_block.splits)

lemma retain_blocks_uses: "use_ids_of (fst (retain_blocks uses st bs)) = use_ids_of bs"
  by (induction bs arbitrary: st) (auto simp: Let_def case_prod_unfold split: content_block.splits)

lemma retain_messages_uses: "use_ids (fst (retain_messages uses st ms)) = use_ids ms"
  by (induction ms arbitrary: st) (auto simp: Let_def case_prod_unfold retain_blocks_uses)

lemma retain_messages_append:
  "retain_messages uses st (ms @ ms') =
     (let (r, st1) = retain_messages uses st ms; (r', st2) = retain_messages uses st1 ms'
      in (r @ r', st2))"
  by (induction ms arbitrary: st) (auto simp: Let_def split: prod.splits)

lemma retain_blocks_id:
  "distinct (result_ids_of bs) \<Longrightarrow> set (result_ids_of bs) \<subseteq> uses - seen_result_ids st \<Longrightarrow>
   \<exists>st'. retain_blocks uses st bs = (bs, st') \<and> orphans st' = orphans st \<and> duplicates st' = duplicates st"
proof (induction bs arbitrary: st)
  case (Cons b bs)
  show ?case
  proof (cases b)
    case (ToolResult i body meta)
    let ?st = "st\<lparr>seen_result_ids := insert i (seen_result_ids st)\<rparr>"
    have "distinct (result_ids_of bs)" "set (result_ids_of bs) \<subseteq> uses - seen_result_ids ?st"
      using Cons.prems ToolResult by auto
    then obtain st' where "retain_blocks uses ?st bs = (bs, st')" "orphans st' = orphans ?st"
        "duplicates st' = duplicates ?st"
      using Cons.IH by blast
    then show ?thesis using Cons.prems ToolResult by simp
  qed (use Cons.IH [of st] Cons.prems in auto)
qed simp

lemma retain_messages_id:
  "distinct (all_result_ids ms) \<Longrightarrow> set (all_result_ids ms) \<subseteq> uses - seen_result_ids st \<Longrightarrow>
   \<exists>st'. retain_messages uses st ms = (ms, st') \<and> orphans st' = orphans st \<and> duplicates st' = duplicates st"
proof (induction ms arbitrary: st)
  case (Cons m ms)
  have "distinct (result_ids_of (content m))" "set (result_ids_of (content m)) \<subseteq> uses - seen_result_ids st"
    using Cons.prems by auto
  then obtain st1 where one: "retain_blocks uses st (content m) = (content m, st1)"
      "orphans st1 = orphans st" "duplicates st1 = duplicates st"
    using retain_blocks_id by blast
  have "seen_result_ids st1 = seen_result_ids st \<union> set (result_ids_of (content m))"
    using retain_blocks_retains [OF one(1)] by (simp add: retains_def)
  then have "distinct (all_result_ids ms)" "set (all_result_ids ms) \<subseteq> uses - seen_result_ids st1"
    using Cons.prems by auto
  then obtain st' where "retain_messages uses st1 ms = (ms, st')" "orphans st' = orphans st1"
      "duplicates st' = duplicates st1"
    using Cons.IH by blast
  then show ?case using one by simp
qed simp

end
