(* ===== verification/TranscriptPairing.thy ===== *)
theory TranscriptPairing
  imports TranscriptRepair
begin

text \<open>
  What the repair of a transcript promises: a window the providers accept, with every row kept, stable
  over loads and idempotent.
\<close>

section \<open>One result per row\<close>

text \<open>The shape of the persisted rows: a row with a result holds nothing else.\<close>

definition single_results :: "('v, 'm) chat_message list \<Rightarrow> bool" where
  "single_results ms = list_all (\<lambda>m. result_ids m = [] \<or> length (content m) = 1) ms"

lemma single_results_simps [simp]:
  "single_results []"
  "single_results (m # ms) \<longleftrightarrow> (result_ids m = [] \<or> length (content m) = 1) \<and> single_results ms"
  "single_results (ms @ ms') \<longleftrightarrow> single_results ms \<and> single_results ms'"
  by (simp_all add: single_results_def)

lemma result_ids_of_nil: "result_ids_of bs = [] \<longleftrightarrow> list_all (\<lambda>b. \<not> is_tool_result b) bs"
  by (induction bs) (auto simp: is_tool_result_def split: content_block.splits)

lemma row_shape:
  assumes "result_ids m = [] \<or> length (content m) = 1"
  obtains (row) i body meta where "content m = [ToolResult i body meta]" "is_tool_result_row m" "result_ids m = [i]"
    | (other) "\<not> is_tool_result_row m" "result_ids m = []"
proof (cases "result_ids m = []")
  case True
  then have "\<not> is_tool_result_row m"
    by (cases "content m") (auto simp: result_ids_def result_ids_of_nil is_tool_result_row_def
        simp del: ids_of_simps)
  then show ?thesis using True other by blast
next
  case False
  then obtain b where b: "content m = [b]" using assms by (auto simp: length_Suc_conv)
  then show ?thesis
    using False row by (cases b) (auto simp: result_ids_def is_tool_result_row_def is_tool_result_def)
qed

definition uses_of_blocks :: "('v, 'm) content_block list \<Rightarrow> (string \<times> string) list" where
  "uses_of_blocks bs =
     List.map_filter (\<lambda>b. case b of ToolUse i name _ _ \<Rightarrow> Some (i, name) | _ \<Rightarrow> None) bs"

lemma uses_of_blocks_simps [simp]:
  "uses_of_blocks [] = []"
  "uses_of_blocks (b # bs) =
     (case b of ToolUse i name _ _ \<Rightarrow> (i, name) # uses_of_blocks bs | _ \<Rightarrow> uses_of_blocks bs)"
  by (simp_all add: uses_of_blocks_def List.map_filter_def split: content_block.split)

lemma uses_of_alt: "uses_of m = uses_of_blocks (content m)"
  by (simp add: uses_of_def uses_of_blocks_def)

lemma results_have_no_uses:
  "list_all is_tool_result bs \<Longrightarrow> use_ids_of bs = [] \<and> uses_of_blocks bs = []"
  by (induction bs) (auto simp: is_tool_result_def split: content_block.splits)

lemma row_uses: "is_tool_result_row m \<Longrightarrow> use_ids_of (content m) = []" "is_tool_result_row m \<Longrightarrow> uses_of m = []"
  by (simp_all add: is_tool_result_row_def uses_of_alt results_have_no_uses)

lemma uses_of_blocks_fst: "map fst (uses_of_blocks bs) = use_ids_of bs"
  by (induction bs) (auto split: content_block.splits)

lemma uses_of_fst: "map fst (uses_of m) = use_ids_of (content m)"
  by (simp add: uses_of_alt uses_of_blocks_fst)

lemma strip_blocks_shape:
  "length (result_ids_of (map strip_block bs)) = length (result_ids_of bs)"
  "list_all is_tool_result (map strip_block bs) = list_all is_tool_result bs"
  by (induction bs) (auto simp: strip_block_def is_tool_result_def split: content_block.splits)

lemma strip_shape:
  "length (content (strip_ids m)) = length (content m)"
  "length (result_ids (strip_ids m)) = length (result_ids m)"
  "is_tool_result_row (strip_ids m) = is_tool_result_row m"
  using strip_blocks_shape [of "content m"] by (simp_all add: strip_ids_def result_ids_def is_tool_result_row_def)

lemma single_results_strip: "single_results (map strip_ids ms) = single_results ms"
proof (induction ms)
  case (Cons m ms)
  have "result_ids (strip_ids m) = [] \<longleftrightarrow> result_ids m = []"
    using strip_shape(2) [of m] by (metis length_0_conv)
  then show ?case using Cons by (simp add: strip_shape(1))
qed simp

lemma strip_single: "map strip_ids ms = map strip_ids ms' \<Longrightarrow> single_results ms = single_results ms'"
  by (metis single_results_strip)

text \<open>On such a transcript quarantine only drops whole rows.\<close>

lemma retain_single:
  "single_results ms \<Longrightarrow>
     subseq (filter (\<lambda>m. content m \<noteq> []) (fst (retain_messages uses st ms))) ms \<and>
     filter (\<lambda>m. \<not> is_tool_result_row m) (filter (\<lambda>m. content m \<noteq> []) (fst (retain_messages uses st ms))) =
       filter (\<lambda>m. \<not> is_tool_result_row m \<and> content m \<noteq> []) ms"
proof (induction ms arbitrary: st)
  case (Cons m ms)
  obtain bs st1 where r: "retain_blocks uses st (content m) = (bs, st1)" by fastforce
  have m: "result_ids m = [] \<or> length (content m) = 1" using Cons.prems by simp
  show ?case
  proof (rule row_shape [OF m])
    fix i body meta
    assume row: "content m = [ToolResult i body meta]" "is_tool_result_row m"
    then have "bs = [] \<or> bs = content m" using r by (auto split: if_splits)
    then show ?thesis
      using Cons r row by (auto simp: case_prod_unfold Let_def)
  next
    assume o: "\<not> is_tool_result_row m" "result_ids m = []"
    then have "bs = content m"
      using retain_blocks_id [of "content m" uses st] r by (auto simp: result_ids_def)
    then show ?thesis
      using Cons r o by (auto simp: case_prod_unfold Let_def)
  qed
qed simp

section \<open>Lemmas on the repair loop\<close>

text \<open>The transcript the loop runs over: every id names one call, every result answers one.\<close>

definition paired_ids :: "('v, 'm) chat_message list \<Rightarrow> bool" where
  "paired_ids ms \<longleftrightarrow>
     distinct (use_ids ms) \<and> distinct (all_result_ids ms) \<and> set (all_result_ids ms) \<subseteq> set (use_ids ms) \<and>
     single_results ms \<and> list_all (\<lambda>m. content m \<noteq> []) ms"

lemma index_ids_eq: "index_ids k ids m i = (if m i = None \<and> i \<in> set ids then Some k else m i)"
  by (induction k ids m rule: index_ids.induct) auto

lemma index_rows_eq:
  "index_rows k ms m i =
     (case m i of
        Some j \<Rightarrow> Some j
      | None \<Rightarrow> map_option (\<lambda>j. j + k) (position (\<lambda>msg. is_tool_result_row msg \<and> i \<in> set (result_ids msg)) ms))"
proof (induction k ms m rule: index_rows.induct)
  case (2 k msg msgs m)
  show ?case
    using 2 by (cases "is_tool_result_row msg")
      (auto simp: fun_eq_iff [THEN iffD2, OF allI, OF index_ids_eq] option.map_comp o_def split: option.splits)
qed (simp split: option.split)

abbreviation row_of :: "('v, 'm) chat_message list \<Rightarrow> string \<Rightarrow> nat option" where
  "row_of ms \<equiv> index_rows 0 ms Map.empty"

lemma row_of_eq: "row_of ms i = position (\<lambda>msg. is_tool_result_row msg \<and> i \<in> set (result_ids msg)) ms"
  by (simp add: index_rows_eq option.map_ident)

lemma position_none: "position P xs = None \<longleftrightarrow> (\<forall>x \<in> set xs. \<not> P x)"
  by (induction xs) auto

lemma single_results_nth:
  "single_results ms \<Longrightarrow> k < length ms \<Longrightarrow> result_ids (ms ! k) = [] \<or> length (content (ms ! k)) = 1"
  by (simp add: single_results_def list_all_length)

lemma row_of_some:
  assumes "single_results ms" "row_of ms i = Some r"
  shows "r < length ms" "is_tool_result_row (ms ! r)" "result_ids (ms ! r) = [i]"
proof -
  have r: "r < length ms" "is_tool_result_row (ms ! r)" "i \<in> set (result_ids (ms ! r))"
    using assms(2) position_some unfolding row_of_eq by blast+
  show "r < length ms" "is_tool_result_row (ms ! r)" by (rule r)+
  show "result_ids (ms ! r) = [i]"
    using single_results_nth [OF assms(1) r(1)] r(2,3) by (cases rule: row_shape) auto
qed

lemma row_of_inj:
  assumes "single_results ms" "row_of ms i = Some r" "row_of ms j = Some r"
  shows "i = j"
  using row_of_some(3) [OF assms(1,2)] row_of_some(3) [OF assms(1,3)] by simp

lemma in_all_result_ids: "i \<in> set (all_result_ids ms) \<longleftrightarrow> (\<exists>m \<in> set ms. i \<in> set (result_ids m))"
  by (simp add: all_result_ids_def)

lemma single_row:
  assumes "single_results ms" "m \<in> set ms" "i \<in> set (result_ids m)"
  shows "is_tool_result_row m" "result_ids m = [i]"
proof -
  have m: "result_ids m = [] \<or> length (content m) = 1"
    using assms(1,2) by (auto simp: single_results_def list_all_iff)
  then have "is_tool_result_row m \<and> result_ids m = [i]"
    using assms(3) by (cases rule: row_shape) auto
  then show "is_tool_result_row m" "result_ids m = [i]" by simp_all
qed

lemma row_of_none:
  assumes "single_results ms"
  shows "row_of ms i = None \<longleftrightarrow> i \<notin> set (all_result_ids ms)"
  using single_row(1) [OF assms] by (auto simp: row_of_eq position_none in_all_result_ids)

definition answer :: "('v, 'm) chat_message list \<Rightarrow> string \<times> string \<Rightarrow> ('v, 'm) chat_message" where
  "answer ms u = (case row_of ms (fst u) of Some r \<Rightarrow> ms ! r | None \<Rightarrow> synthetic_fill (fst u) (snd u))"

definition dangling :: "('v, 'm) chat_message list \<Rightarrow> (string \<times> string) list \<Rightarrow> (string \<times> string) list" where
  "dangling ms us = filter (\<lambda>u. row_of ms (fst u) = None) us"

text \<open>What the loop does for the calls of one row, when no call's answer was used before.\<close>

definition emits ::
    "('v, 'm) chat_message list \<Rightarrow> (string \<times> string) list \<Rightarrow> ('v, 'm) emit_state \<Rightarrow> ('v, 'm) emit_state \<Rightarrow> bool"
  where
  "emits ms us st st' \<longleftrightarrow>
     repaired st' = repaired st @ map (answer ms) us \<and>
     new_fills st' = new_fills st @ fill_rows (dangling ms us) \<and>
     consumed st' = consumed st \<union> {r. \<exists>i \<in> fst ` set us. row_of ms i = Some r}"

lemma emit_uses_eq:
  assumes "single_results ms" "distinct (map fst us)"
    "\<And>i r. i \<in> fst ` set us \<Longrightarrow> row_of ms i = Some r \<Longrightarrow> r \<notin> consumed st"
  shows "emits ms us st (emit_uses ms (row_of ms) us st)"
  using assms(2,3)
proof (induction us arbitrary: st)
  case Nil
  then show ?case by (simp add: emits_def dangling_def)
next
  case (Cons u us)
  obtain i name where u: "u = (i, name)" by fastforce
  show ?case
  proof (cases "row_of ms i")
    case None
    let ?st = "st\<lparr>new_fills := new_fills st @ [synthetic_fill i name],
                  repaired := repaired st @ [synthetic_fill i name]\<rparr>"
    have "emits ms us ?st (emit_uses ms (row_of ms) us ?st)"
      using Cons.prems by (intro Cons.IH) auto
    then show ?thesis
      using None u by (simp add: emits_def answer_def dangling_def Let_def)
  next
    case (Some r)
    let ?st = "st\<lparr>consumed := insert r (consumed st), repaired := repaired st @ [ms ! r]\<rparr>"
    have "r' \<notin> consumed ?st" if "i' \<in> fst ` set us" "row_of ms i' = Some r'" for i' r'
    proof -
      have "i' \<noteq> i" using that(1) Cons.prems(1) u by auto
      then have "r' \<noteq> r" using row_of_inj [OF assms(1) that(2)] Some by blast
      moreover have "r' \<notin> consumed st" using Cons.prems(2) [OF _ that(2)] that(1) by simp
      ultimately show ?thesis by simp
    qed
    then have "emits ms us ?st (emit_uses ms (row_of ms) us ?st)"
      using Cons.prems(1) by (intro Cons.IH) auto
    moreover have "r \<notin> consumed st" by (rule Cons.prems(2) [OF _ Some]) (simp add: u)
    ultimately show ?thesis
      using Some u by (auto simp: emits_def answer_def dangling_def)
  qed
qed

definition reposition :: "('v, 'm) chat_message list \<Rightarrow> ('v, 'm) chat_message list \<Rightarrow> ('v, 'm) chat_message list" where
  "reposition ms rest =
     concat (map (\<lambda>m. if is_tool_result_row m then [] else m # map (answer ms) (uses_of m)) rest)"

abbreviation all_uses :: "('v, 'm) chat_message list \<Rightarrow> (string \<times> string) list" where
  "all_uses ms \<equiv> concat (map uses_of ms)"

lemma all_uses_fst: "map fst (all_uses ms) = use_ids ms"
  by (induction ms) (simp_all add: uses_of_fst)

lemma emit_rows_eq:
  assumes "single_results ms" "distinct (use_ids rest)"
    "\<And>i r. i \<in> set (use_ids rest) \<Longrightarrow> row_of ms i = Some r \<Longrightarrow> r \<notin> consumed st"
    "\<And>r. r \<in> consumed st \<Longrightarrow> r < length ms \<and> is_tool_result_row (ms ! r)"
    "rest = drop k ms"
  shows "repaired (emit_rows ms (row_of ms) k rest st) = repaired st @ reposition ms rest \<and>
    new_fills (emit_rows ms (row_of ms) k rest st) = new_fills st @ fill_rows (dangling ms (all_uses rest))"
  using assms(2-)
proof (induction rest arbitrary: k st)
  case Nil
  then show ?case by (simp add: reposition_def dangling_def)
next
  case (Cons m rest)
  have m: "ms ! k = m" "rest = drop (Suc k) ms"
    using Cons.prems(4) by (metis nth_via_drop) (metis Cons.prems(4) drop_Suc list.sel(3) tl_drop)
  show ?case
  proof (cases "is_tool_result_row m")
    case True
    have "repaired (emit_rows ms (row_of ms) (Suc k) rest st) = repaired st @ reposition ms rest \<and>
      new_fills (emit_rows ms (row_of ms) (Suc k) rest st) = new_fills st @ fill_rows (dangling ms (all_uses rest))"
      using Cons.prems(1-3) m(2) by (intro Cons.IH) auto
    then show ?thesis
      using row_uses(2) [OF True] True by (simp add: reposition_def)
  next
    case False
    have k: "k \<notin> consumed st" using Cons.prems(3) False m by auto
    let ?st = "emit_uses ms (row_of ms) (uses_of m) (st\<lparr>repaired := repaired st @ [m]\<rparr>)"
    have d: "distinct (map fst (uses_of m))" "fst ` set (uses_of m) = set (use_ids_of (content m))"
      using Cons.prems(1) uses_of_fst [of m] by (simp_all flip: image_set set_map)
    have "emits ms (uses_of m) (st\<lparr>repaired := repaired st @ [m]\<rparr>) ?st"
      using Cons.prems(2) d(2) by (intro emit_uses_eq [OF assms(1) d(1)]) auto
    then have u: "repaired ?st = repaired st @ [m] @ map (answer ms) (uses_of m) \<and>
      new_fills ?st = new_fills st @ fill_rows (dangling ms (uses_of m)) \<and>
      consumed ?st = consumed st \<union> {r. \<exists>i \<in> fst ` set (uses_of m). row_of ms i = Some r}"
      by (simp add: emits_def)
    have "r \<notin> consumed ?st" if i: "i \<in> set (use_ids rest)" "row_of ms i = Some r" for i r
    proof -
      have "i \<notin> set (use_ids_of (content m))" using Cons.prems(1) i(1) by auto
      then have "\<not> (\<exists>j \<in> fst ` set (uses_of m). row_of ms j = Some r)"
        using row_of_inj [OF assms(1) i(2)] unfolding d(2) by blast
      moreover have "r \<notin> consumed st" using Cons.prems(2) [OF _ i(2)] i(1) by simp
      ultimately show ?thesis using u by simp
    qed
    moreover have "r < length ms \<and> is_tool_result_row (ms ! r)" if "r \<in> consumed ?st" for r
      using u that Cons.prems(3) row_of_some [OF assms(1)] by auto
    ultimately have "repaired (emit_rows ms (row_of ms) (Suc k) rest ?st) = repaired ?st @ reposition ms rest \<and>
      new_fills (emit_rows ms (row_of ms) (Suc k) rest ?st) = new_fills ?st @ fill_rows (dangling ms (all_uses rest))"
      using Cons.prems(1) m(2) by (intro Cons.IH) auto
    then show ?thesis
      using u k False by (simp add: reposition_def dangling_def)
  qed
qed

section \<open>Well-paired transcripts\<close>

text \<open>
  What the providers accept: every row that makes calls is followed at once by result rows that answer
  exactly its calls, once each, and there are no other result rows.
\<close>

inductive well_paired :: "('v, 'm) chat_message list \<Rightarrow> bool" where
  Done: "well_paired []"
| Turn: "\<lbrakk>\<not> is_tool_result_row m; list_all is_tool_result_row rs;
     mset (all_result_ids rs) = mset (use_ids_of (content m)); well_paired rest\<rbrakk>
    \<Longrightarrow> well_paired (m # rs @ rest)"

lemma needs_repair_stays: "needs_repair_loop expected True ms"
proof (induction ms arbitrary: expected)
  case (Cons m ms)
  have "snd (expect_results e True ids)" for e ids by (induction ids arbitrary: e) auto
  then show ?case using Cons by (auto simp: case_prod_unfold)
qed simp

lemma expect_results_eq:
  "expect_results expected needs ids =
     (expected - set ids, needs \<or> \<not> (distinct ids \<and> set ids \<subseteq> expected))"
  by (induction expected needs ids rule: expect_results.induct) auto

text \<open>The fast path is taken exactly on well-paired transcripts.\<close>

lemma no_repair_splits:
  "\<not> needs_repair_loop expected False ms \<Longrightarrow>
   \<exists>rs rest. ms = rs @ rest \<and> list_all is_tool_result_row rs \<and> distinct (all_result_ids rs) \<and>
     set (all_result_ids rs) = expected \<and> \<not> needs_repair_loop {} False rest \<and>
     (rest = [] \<or> \<not> is_tool_result_row (hd rest))"
proof (induction ms arbitrary: expected)
  case Nil
  then show ?case by (intro exI [of _ "[]"]) simp
next
  case (Cons m ms)
  show ?case
  proof (cases "is_tool_result_row m")
    case True
    let ?ids = "result_ids m"
    have "distinct ?ids \<and> set ?ids \<subseteq> expected"
      using Cons.prems True needs_repair_stays by (cases "distinct ?ids \<and> set ?ids \<subseteq> expected") (auto simp: expect_results_eq)
    moreover then have "\<not> needs_repair_loop (expected - set ?ids) False ms"
      using Cons.prems True by (simp add: expect_results_eq)
    then obtain rs rest where r: "ms = rs @ rest" "list_all is_tool_result_row rs" "distinct (all_result_ids rs)"
        "set (all_result_ids rs) = expected - set ?ids" "\<not> needs_repair_loop {} False rest"
        "rest = [] \<or> \<not> is_tool_result_row (hd rest)"
      using Cons.IH by blast
    ultimately show ?thesis
      using True by (intro exI [of _ "m # rs"] exI [of _ rest]) (auto simp: result_ids_def)
  next
    case False
    then have "expected = {}" using Cons.prems needs_repair_stays by (cases "expected = {}") auto
    then show ?thesis
      using Cons.prems False by (intro exI [of _ "[]"] exI [of _ "m # ms"]) simp
  qed
qed

lemma no_repair_well_paired:
  "\<not> needs_repair_loop {} False ms \<Longrightarrow> distinct (use_ids ms) \<Longrightarrow> well_paired ms"
proof (induction "length ms" arbitrary: ms rule: less_induct)
  case less
  show ?case
  proof (cases ms)
    case Nil
    then show ?thesis by (simp add: well_paired.Done)
  next
    case (Cons m ms')
    have m: "\<not> is_tool_result_row m"
    proof
      assume row: "is_tool_result_row m"
      then obtain i where "i \<in> set (result_ids m)"
        by (cases "content m") (auto simp: is_tool_result_row_def is_tool_result_def result_ids_def split: content_block.splits)
      then show False
        using less.prems(1) row needs_repair_stays by (cases "result_ids m") (auto simp: Cons expect_results_eq)
    qed
    then have "\<not> needs_repair_loop (set (use_ids_of (content m))) False ms'"
      using less.prems(1) Cons by simp
    then obtain rs rest where r: "ms' = rs @ rest" "list_all is_tool_result_row rs" "distinct (all_result_ids rs)"
        "set (all_result_ids rs) = set (use_ids_of (content m))" "\<not> needs_repair_loop {} False rest"
      using no_repair_splits by blast
    have "well_paired rest"
      using less.hyps [of rest] less.prems(2) r Cons by simp
    moreover have "mset (all_result_ids rs) = mset (use_ids_of (content m))"
      using r less.prems(2) Cons by (simp add: set_eq_iff_mset_eq_distinct)
    ultimately show ?thesis
      using well_paired.Turn [OF m r(2)] by (simp add: Cons r(1))
  qed
qed

lemma needs_repair_rows:
  "list_all is_tool_result_row rs \<Longrightarrow> distinct (all_result_ids rs) \<Longrightarrow> set (all_result_ids rs) \<subseteq> expected \<Longrightarrow>
   needs_repair_loop expected False (rs @ rest) = needs_repair_loop (expected - set (all_result_ids rs)) False rest"
proof (induction rs arbitrary: expected)
  case (Cons r rs)
  have "needs_repair_loop expected False ((r # rs) @ rest) =
      needs_repair_loop (expected - set (result_ids_of (content r))) False (rs @ rest)"
    using Cons.prems by (simp add: expect_results_eq result_ids_def)
  also have "\<dots> = needs_repair_loop (expected - set (result_ids_of (content r)) - set (all_result_ids rs)) False rest"
    using Cons.prems by (intro Cons.IH) auto
  finally show ?case by (simp add: Diff_eq Int_assoc)
qed simp

lemma well_paired_no_repair: "well_paired ms \<Longrightarrow> distinct (use_ids ms) \<Longrightarrow> \<not> needs_repair_loop {} False ms"
proof (induction rule: well_paired.induct)
  case (Turn m rs rest)
  have d: "distinct (all_result_ids rs)" "set (all_result_ids rs) = set (use_ids_of (content m))"
    using Turn.hyps(3) Turn.prems by (metis distinct_append ids_simps(3) mset_eq_imp_distinct_iff)
      (metis Turn.hyps(3) set_mset_mset)
  have "needs_repair_loop (set (use_ids_of (content m))) False (rs @ rest) = needs_repair_loop {} False rest"
    using needs_repair_rows [OF Turn.hyps(2) d(1), of "set (use_ids_of (content m))" rest] d(2) by simp
  then show ?case using Turn by simp
qed simp

lemma well_paired_ids:
  "well_paired ms \<Longrightarrow> single_results ms \<Longrightarrow> mset (all_result_ids ms) = mset (use_ids ms)"
proof (induction rule: well_paired.induct)
  case (Turn m rs rest)
  have "use_ids rs = []" using Turn.hyps(2) by (induction rs) (auto simp: row_uses)
  moreover have "result_ids m = []"
    by (rule row_shape [of m]) (use Turn.prems Turn.hyps(1) in auto)
  ultimately show ?case using Turn by (simp add: result_ids_def)
qed simp

section \<open>The repair as a whole\<close>

abbreviation quarantined :: "('v, 'm) chat_message list \<Rightarrow> ('v, 'm) chat_message list" where
  "quarantined ms \<equiv> fst (quarantine_invalid_results ms)"

abbreviation window :: "('v, 'm) chat_message list \<Rightarrow> ('v, 'm) chat_message list" where
  "window ms \<equiv> quarantined (disambiguated ms)"

lemma ids_filter_nonempty:
  "use_ids (filter (\<lambda>m. content m \<noteq> []) ms) = use_ids ms"
  "all_result_ids (filter (\<lambda>m. content m \<noteq> []) ms) = all_result_ids ms"
  by (induction ms) auto

lemma subseq_mset: "subseq xs ys \<Longrightarrow> mset xs \<subseteq># mset ys"
  by (induction rule: list_emb.induct) (auto intro: subset_mset.order_trans)

lemma subseq_distinct: "subseq xs ys \<Longrightarrow> distinct ys \<Longrightarrow> distinct xs"
proof (induction rule: list_emb.induct)
  case (list_emb_Cons2 x y xs ys)
  then show ?case using list_emb_set [OF list_emb_Cons2.hyps(2)] by auto
qed auto

lemma subseq_single: "subseq ms ms' \<Longrightarrow> single_results ms' \<Longrightarrow> single_results ms"
  using list_emb_set by (fastforce simp: single_results_def list_all_iff)

lemma quarantine_ids:
  "use_ids (quarantined ms) = use_ids ms"
  "distinct (all_result_ids (quarantined ms))"
  "set (all_result_ids (quarantined ms)) = set (all_result_ids ms) \<inter> set (use_ids ms)"
proof -
  obtain ms' st where r: "retain_messages (set (use_ids ms)) quarantine_start ms = (ms', st)" by fastforce
  have q: "quarantined ms = filter (\<lambda>m. content m \<noteq> []) ms'"
    by (simp add: quarantine_invalid_results_def r)
  show "use_ids (quarantined ms) = use_ids ms"
    using retain_messages_uses [of "set (use_ids ms)" quarantine_start ms] r by (simp add: q ids_filter_nonempty)
  show "distinct (all_result_ids (quarantined ms))"
    "set (all_result_ids (quarantined ms)) = set (all_result_ids ms) \<inter> set (use_ids ms)"
    using retain_messages_retains [OF r]
    by (simp_all add: q ids_filter_nonempty retains_def quarantine_start_def)
qed

lemma quarantine_rows:
  assumes "single_results ms"
  shows "subseq (quarantined ms) ms"
    "filter (\<lambda>m. \<not> is_tool_result_row m) (quarantined ms) = filter (\<lambda>m. \<not> is_tool_result_row m \<and> content m \<noteq> []) ms"
    "single_results (quarantined ms)"
proof -
  show *: "subseq (quarantined ms) ms"
    "filter (\<lambda>m. \<not> is_tool_result_row m) (quarantined ms) = filter (\<lambda>m. \<not> is_tool_result_row m \<and> content m \<noteq> []) ms"
    using retain_single [OF assms, of "set (use_ids ms)" quarantine_start]
    by (simp_all add: quarantine_invalid_results_def case_prod_unfold Let_def)
  show "single_results (quarantined ms)" by (rule subseq_single [OF *(1) assms])
qed

lemma window_paired:
  assumes "single_results ms"
  shows "paired_ids (window ms)"
proof -
  have s: "single_results (disambiguated ms)"
    using assms strip_single [OF disambiguated_strip] by blast
  have "list_all (\<lambda>m. content m \<noteq> []) (quarantined ms')" for ms' :: "('a, 'b) chat_message list"
    by (simp add: quarantine_invalid_results_def case_prod_unfold list_all_iff Let_def)
  then show ?thesis
    using quarantine_rows(3) [OF s] by (simp add: paired_ids_def quarantine_ids disambiguated_distinct)
qed

lemma fill_row: "result_ids (synthetic_fill i name) = [i]" "is_tool_result_row (synthetic_fill i name)"
  "use_ids_of (content (synthetic_fill i name)) = []" "length (content (synthetic_fill i name)) = 1"
  "uses_of (synthetic_fill i name) = []"
  by (simp_all add: synthetic_fill_def tool_result_with_meta_def tool_row_def result_ids_def
      is_tool_result_row_def is_tool_result_def uses_of_alt)

lemma answer_row:
  assumes "single_results ms"
  shows "is_tool_result_row (answer ms u)" "result_ids (answer ms u) = [fst u]"
  using row_of_some [OF assms, of "fst u"] by (simp_all add: answer_def fill_row split: option.split)

lemma answers_ids:
  assumes "single_results ms"
  shows "all_result_ids (map (answer ms) us) = map fst us" "use_ids (map (answer ms) us) = []"
    "list_all is_tool_result_row (map (answer ms) us)"
  using answer_row [OF assms] by (induction us) (auto simp: row_uses simp flip: result_ids_def)

lemma reposition_simps [simp]:
  "reposition ms [] = []"
  "reposition ms (m # rest) =
     (if is_tool_result_row m then [] else m # map (answer ms) (uses_of m)) @ reposition ms rest"
  by (simp_all add: reposition_def)

lemma reposition_well_paired:
  assumes "single_results ms"
  shows "well_paired (reposition ms rest)" "use_ids (reposition ms rest) = use_ids rest"
proof -
  show "well_paired (reposition ms rest)"
  proof (induction rest)
    case (Cons m rest)
    show ?case
    proof (cases "is_tool_result_row m")
      case False
      then have "well_paired (m # map (answer ms) (uses_of m) @ reposition ms rest)"
        using Cons by (intro well_paired.Turn) (simp_all add: answers_ids [OF assms] uses_of_fst)
      then show ?thesis using False by simp
    qed (use Cons in simp)
  qed (simp add: well_paired.Done)
  show "use_ids (reposition ms rest) = use_ids rest"
    by (induction rest) (auto simp: row_uses answers_ids [OF assms])
qed

text \<open>Both paths of the repair, over the window the earlier passes leave.\<close>

lemma repair_eq:
  assumes "single_results ms"
  shows "messages (repair_tool_pairing ms) =
      (if needs_repair_loop {} False (window ms) then reposition (window ms) (window ms) else window ms)"
    "fills (repair_tool_pairing ms) = fill_rows (dangling (window ms) (all_uses (window ms)))"
proof -
  let ?w = "window ms"
  have w: "single_results ?w" "distinct (use_ids ?w)" "set (all_result_ids ?w) \<subseteq> set (use_ids ?w)"
    using window_paired [OF assms] by (simp_all add: paired_ids_def)
  let ?st = "emit_rows ?w (row_of ?w) 0 ?w \<lparr>consumed = {}, repaired = [], new_fills = []\<rparr>"
  have e: "repaired ?st = reposition ?w ?w" "new_fills ?st = fill_rows (dangling ?w (all_uses ?w))"
    using emit_rows_eq [OF w(1,2), of "\<lparr>consumed = {}, repaired = [], new_fills = []\<rparr>" 0] by simp_all
  have "dangling ?w (all_uses ?w) = []" if fast: "\<not> needs_repair_loop {} False ?w"
  proof -
    have "mset (all_result_ids ?w) = mset (use_ids ?w)"
      using well_paired_ids [OF no_repair_well_paired [OF fast w(2)] w(1)] .
    then have "set (all_result_ids ?w) = set (use_ids ?w)" by (metis set_mset_mset)
    then have "fst u \<in> set (all_result_ids ?w)" if "u \<in> set (all_uses ?w)" for u
      using that all_uses_fst [of ?w] by (metis image_eqI list.set_map)
    then show ?thesis
      unfolding dangling_def filter_empty_conv row_of_none [OF w(1)] by blast
  qed
  then show "messages (repair_tool_pairing ms) =
      (if needs_repair_loop {} False ?w then reposition ?w ?w else ?w)"
    "fills (repair_tool_pairing ms) = fill_rows (dangling ?w (all_uses ?w))"
    using e by (simp_all add: repair_tool_pairing_def Let_def case_prod_unfold)
qed

lemma repair_well_paired:
  assumes "single_results ms"
  shows "well_paired (messages (repair_tool_pairing ms))"
    "use_ids (messages (repair_tool_pairing ms)) = use_ids (disambiguated ms)"
proof -
  have w: "single_results (window ms)" "distinct (use_ids (window ms))"
    using window_paired [OF assms] by (simp_all add: paired_ids_def)
  show "well_paired (messages (repair_tool_pairing ms))"
    using reposition_well_paired(1) [OF w(1)] no_repair_well_paired [OF _ w(2)]
    by (simp add: repair_eq [OF assms])
  show "use_ids (messages (repair_tool_pairing ms)) = use_ids (disambiguated ms)"
    by (simp add: repair_eq [OF assms] reposition_well_paired(2) [OF w(1)] quarantine_ids(1))
qed

lemma reposition_shape:
  assumes "single_results ms" "single_results rest" "list_all (\<lambda>m. content m \<noteq> []) rest"
    "list_all (\<lambda>m. content m \<noteq> []) ms"
  shows "single_results (reposition ms rest)" "list_all (\<lambda>m. content m \<noteq> []) (reposition ms rest)"
    "filter (\<lambda>m. \<not> is_tool_result_row m) (reposition ms rest) = filter (\<lambda>m. \<not> is_tool_result_row m) rest"
    "filter is_tool_result_row (reposition ms rest) = map (answer ms) (all_uses rest)"
proof -
  have a: "length (content (answer ms u)) = 1" for u
  proof (cases "row_of ms (fst u)")
    case (Some r)
    have "result_ids (ms ! r) = [] \<or> length (content (ms ! r)) = 1"
      by (rule single_results_nth [OF assms(1) row_of_some(1) [OF assms(1) Some]])
    then show ?thesis using row_of_some(3) [OF assms(1) Some] by (simp add: answer_def Some)
  qed (simp add: answer_def fill_row)
  have rows: "filter (\<lambda>m. \<not> is_tool_result_row m) (map (answer ms) us) = []"
    "filter is_tool_result_row (map (answer ms) us) = map (answer ms) us"
    "single_results (map (answer ms) us)" "list_all (\<lambda>m. content m \<noteq> []) (map (answer ms) us)" for us
    using a by (induction us) (auto simp: answer_row [OF assms(1)] simp flip: length_greater_0_conv)
  show "single_results (reposition ms rest)" "list_all (\<lambda>m. content m \<noteq> []) (reposition ms rest)"
    "filter (\<lambda>m. \<not> is_tool_result_row m) (reposition ms rest) = filter (\<lambda>m. \<not> is_tool_result_row m) rest"
    "filter is_tool_result_row (reposition ms rest) = map (answer ms) (all_uses rest)"
    using assms(2,3) by (induction rest) (auto simp: rows row_uses)
qed

lemma repair_shape:
  assumes "single_results ms"
  shows "single_results (messages (repair_tool_pairing ms))"
    "list_all (\<lambda>m. content m \<noteq> []) (messages (repair_tool_pairing ms))"
    "filter (\<lambda>m. \<not> is_tool_result_row m) (messages (repair_tool_pairing ms)) =
       filter (\<lambda>m. \<not> is_tool_result_row m) (window ms)"
proof -
  have w: "single_results (window ms)" "list_all (\<lambda>m. content m \<noteq> []) (window ms)"
    using window_paired [OF assms] by (simp_all add: paired_ids_def)
  show "single_results (messages (repair_tool_pairing ms))"
    "list_all (\<lambda>m. content m \<noteq> []) (messages (repair_tool_pairing ms))"
    "filter (\<lambda>m. \<not> is_tool_result_row m) (messages (repair_tool_pairing ms)) =
       filter (\<lambda>m. \<not> is_tool_result_row m) (window ms)"
    using reposition_shape [OF w(1) w(1) w(2) w(2)] w by (simp_all add: repair_eq [OF assms])
qed

text \<open>The result rows of the repaired transcript are those of the window and the fills.\<close>

lemma rows_distinct:
  "single_results ms \<Longrightarrow> distinct (all_result_ids ms) \<Longrightarrow> distinct (filter is_tool_result_row ms)"
proof (induction ms)
  case (Cons m ms)
  show ?case
  proof (rule row_shape [of m])
    show "result_ids m = [] \<or> length (content m) = 1" using Cons.prems(1) by simp
  next
    fix i body meta
    assume m: "is_tool_result_row m" "result_ids m = [i]"
    then have "m \<notin> set ms" using Cons.prems(2) by (auto simp: in_all_result_ids simp flip: result_ids_def)
    then show ?thesis using Cons m by (simp add: result_ids_def)
  qed (use Cons in \<open>simp add: result_ids_def\<close>)
qed simp

lemma result_owner_unique:
  "distinct (all_result_ids ms) \<Longrightarrow> m \<in> set ms \<Longrightarrow> m' \<in> set ms \<Longrightarrow> i \<in> set (result_ids m) \<Longrightarrow>
   i \<in> set (result_ids m') \<Longrightarrow> m = m'"
proof (induction ms)
  case (Cons a ms)
  have "i \<in> set (all_result_ids ms) \<Longrightarrow> i \<notin> set (result_ids a)"
    using Cons.prems(1) by (auto simp flip: result_ids_def)
  then show ?case using Cons in_all_result_ids [of i ms] by auto
qed simp

lemma row_id_obtain:
  assumes "is_tool_result_row m"
  obtains i where "i \<in> set (result_ids m)"
  using assms by (cases "content m")
    (auto simp: is_tool_result_row_def is_tool_result_def result_ids_def split: content_block.splits)

lemma row_is_answer:
  assumes w: "paired_ids ms" and m: "m \<in> set ms" "is_tool_result_row m"
  shows "\<exists>u \<in> set (all_uses ms). answer ms u = m"
proof -
  have s: "single_results ms" and d: "distinct (all_result_ids ms)"
    using w by (simp_all add: paired_ids_def)
  obtain i where i: "i \<in> set (result_ids m)" by (rule row_id_obtain [OF m(2)])
  then have ir: "i \<in> set (all_result_ids ms)" using m(1) in_all_result_ids by blast
  then obtain r where r: "row_of ms i = Some r" using row_of_none [OF s, of i] by (cases "row_of ms i") auto
  have "ms ! r = m"
    using row_of_some [OF s r] by (intro result_owner_unique [OF d _ m(1) _ i]) simp_all
  moreover have "i \<in> fst ` set (all_uses ms)"
    using ir w all_uses_fst [of ms] unfolding paired_ids_def by (metis list.set_map subsetD)
  then obtain u where "u \<in> set (all_uses ms)" "fst u = i" by blast
  ultimately show ?thesis using r by (intro bexI [of _ u]) (simp_all add: answer_def)
qed

lemma answers_are_rows:
  assumes "paired_ids ms"
  shows "set (map (answer ms) (all_uses ms)) =
    set (filter is_tool_result_row ms) \<union> set (fill_rows (dangling ms (all_uses ms)))"
    (is "?answers = ?rows \<union> ?fills")
proof
  have s: "single_results ms" using assms by (simp add: paired_ids_def)
  have "answer ms u \<in> ?rows \<union> ?fills" if u: "u \<in> set (all_uses ms)" for u
  proof (cases "row_of ms (fst u)")
    case None
    then have "u \<in> set (dangling ms (all_uses ms))" using u by (simp add: dangling_def)
    then have "synthetic_fill (fst u) (snd u) \<in> ?fills"
      by (auto simp: case_prod_unfold intro!: image_eqI [of _ _ u])
    then show ?thesis by (simp add: answer_def None)
  next
    case (Some r)
    then show ?thesis using row_of_some(1,2) [OF s Some] by (simp add: answer_def)
  qed
  then show "?answers \<subseteq> ?rows \<union> ?fills" by auto
  have "?rows \<subseteq> ?answers" using row_is_answer [OF assms] by fastforce
  moreover have "?fills \<subseteq> ?answers"
    by (auto simp: dangling_def answer_def intro!: image_eqI)
  ultimately show "?rows \<union> ?fills \<subseteq> ?answers" by blast
qed

lemma answer_inj: "single_results ms \<Longrightarrow> answer ms u = answer ms v \<Longrightarrow> fst u = fst v"
  using answer_row(2) by (metis list.inject)

lemma fill_inj: "synthetic_fill i n = synthetic_fill j k \<Longrightarrow> i = j"
  using fill_row(1) by (metis list.inject)

lemma distinct_map_keyed:
  "distinct (map f us) \<Longrightarrow> (\<And>u v. g u = g v \<Longrightarrow> f u = f v) \<Longrightarrow> distinct (map g us)"
  unfolding distinct_map inj_on_def by blast

lemma answers_mset:
  assumes w: "paired_ids ms"
  shows "mset (map (answer ms) (all_uses ms)) =
    mset (filter is_tool_result_row ms) + mset (fill_rows (dangling ms (all_uses ms)))"
proof -
  have s: "single_results ms" and d: "distinct (all_result_ids ms)" "distinct (map fst (all_uses ms))"
    using w by (simp_all add: paired_ids_def all_uses_fst)
  let ?fills = "fill_rows (dangling ms (all_uses ms))"
  have "distinct (map (answer ms) (all_uses ms))"
    by (rule distinct_map_keyed [OF d(2) answer_inj [OF s]])
  moreover have "distinct (filter is_tool_result_row ms)" by (rule rows_distinct [OF s d(1)])
  moreover have "distinct ?fills"
    by (rule distinct_map_keyed [where f = fst])
       (use d(2) fill_inj in \<open>auto simp: dangling_def distinct_map_filter\<close>)
  moreover have "set (filter is_tool_result_row ms) \<inter> set ?fills = {}"
  proof -
    have False if m: "m \<in> set ms" and f: "m \<in> set ?fills" for m
    proof -
      obtain u where u: "row_of ms (fst u) = None" "m = synthetic_fill (fst u) (snd u)"
        using f by (auto simp: dangling_def)
      then have "fst u \<in> set (all_result_ids ms)"
        using m fill_row(1) in_all_result_ids by (metis list.set_intros(1))
      then show False using u(1) row_of_none [OF s] by blast
    qed
    then show ?thesis by auto
  qed
  ultimately have "mset (map (answer ms) (all_uses ms)) = mset (filter is_tool_result_row ms @ ?fills)"
    using answers_are_rows [OF w] by (subst set_eq_iff_mset_eq_distinct [symmetric]) auto
  then show ?thesis by simp
qed

lemma repair_rows_mset:
  assumes "single_results ms"
  shows "mset (filter is_tool_result_row (messages (repair_tool_pairing ms))) =
    mset (filter is_tool_result_row (window ms)) + mset (fills (repair_tool_pairing ms))"
proof (cases "needs_repair_loop {} False (window ms)")
  case True
  have p: "paired_ids (window ms)" by (rule window_paired [OF assms])
  then have w: "single_results (window ms)" "list_all (\<lambda>m. content m \<noteq> []) (window ms)"
    by (simp_all add: paired_ids_def)
  show ?thesis
    using answers_mset [OF p] reposition_shape(4) [OF w(1) w(1) w(2) w(2)] True
    by (simp add: repair_eq [OF assms])
next
  case False
  then have "fills (repair_tool_pairing ms) = []"
    by (simp add: repair_tool_pairing_def Let_def case_prod_unfold)
  then show ?thesis using False by (simp add: repair_eq(1) [OF assms])
qed

lemma rows_count: "single_results ms \<Longrightarrow> length (filter is_tool_result_row ms) = length (all_result_ids ms)"
proof (induction ms)
  case (Cons m ms)
  show ?case
    by (rule row_shape [of m]) (use Cons in \<open>auto simp: result_ids_def\<close>)
qed simp

lemma filter_strip:
  assumes "map strip_ids ms = map strip_ids ms'" and "\<And>m. P (strip_ids m) = P m"
  shows "map strip_ids (filter P ms) = map strip_ids (filter P ms')"
proof -
  have "map strip_ids (filter P ms) = filter P (map strip_ids ms)" for ms
    by (simp add: filter_map o_def assms(2))
  then show ?thesis using assms(1) by simp
qed

lemma strip_empty: "content (strip_ids m) = [] \<longleftrightarrow> content m = []"
  by (simp add: strip_ids_def)

lemma quarantine_count:
  "length (all_result_ids (quarantined ms)) + length (fst (snd (quarantine_invalid_results ms))) +
     length (snd (snd (quarantine_invalid_results ms))) = length (all_result_ids ms)"
proof -
  obtain ms' st where r: "retain_messages (set (use_ids ms)) quarantine_start ms = (ms', st)" by fastforce
  show ?thesis
    using retain_messages_retains [OF r] unfolding quarantine_invalid_results_def r
    by (simp add: ids_filter_nonempty retains_def quarantine_start_def)
qed

lemma repair_lists:
  "orphan_result_ids (repair_tool_pairing ms) = fst (snd (quarantine_invalid_results (disambiguated ms)))"
  "duplicate_result_ids (repair_tool_pairing ms) = snd (snd (quarantine_invalid_results (disambiguated ms)))"
  "renamed_call_ids (repair_tool_pairing ms) = snd (disambiguate_repeated_call_ids ms)"
  by (simp_all add: repair_tool_pairing_def Let_def case_prod_unfold)

lemma renamed_ids_grow: "prefix (renamed_ids st) (renamed_ids (snd (rename_messages k st ms)))"
proof -
  have b: "prefix (renamed_ids st) (renamed_ids (snd (rename_block k st b)))" for k st and b :: "('v, 'm) content_block"
    by (cases b) (auto simp: rename_block_def Let_def split: option.split)
  have bs: "prefix (renamed_ids st) (renamed_ids (snd (rename_blocks k st bs)))"
    for k st and bs :: "('v, 'm) content_block list"
    by (induction bs arbitrary: st) (auto simp: Let_def case_prod_unfold intro: prefix_order.trans [OF b])
  show ?thesis
    by (induction ms arbitrary: k st) (auto simp: Let_def case_prod_unfold intro: prefix_order.trans [OF bs])
qed

lemma subseq_map_obtain:
  assumes "subseq ys (map f xs)"
  obtains zs where "ys = map f zs" "subseq zs xs"
  using assms
proof (induction xs arbitrary: ys thesis)
  case (Cons x xs)
  show ?case
  proof (cases "subseq ys (map f xs)")
    case True
    then show ?thesis using Cons.IH Cons.prems(1) by (metis list_emb_Cons)
  next
    case False
    then obtain ys' where "ys = f x # ys'" "subseq ys' (map f xs)"
      using Cons.prems(2) by (auto elim: list_emb.cases)
    then show ?thesis using Cons.IH Cons.prems(1) by (metis list.simps(9) subseq_Cons2)
  qed
qed (auto dest: list_emb_Nil2)

lemma content_fill: "content (synthetic_fill i name) \<noteq> []"
  by (simp add: synthetic_fill_def tool_result_with_meta_def tool_row_def)

lemma fill_rows_ids:
  "use_ids (fill_rows ps) = []" "all_result_ids (fill_rows ps) = map fst ps"
  "filter (\<lambda>m. content m \<noteq> []) (fill_rows ps) = fill_rows ps" "single_results (fill_rows ps)"
  "concat (map uses_of (fill_rows ps)) = []"
  by (induction ps) (auto simp: fill_row content_fill simp flip: result_ids_def)

text \<open>Appending fills for dangling calls appends them to the window.\<close>

lemma window_with_fills:
  fixes ms :: "('v, 'm) chat_message list"
  assumes s: "single_results ms" and ps: "subseq ps (dangling (window ms) (all_uses (window ms)))"
  shows "window (ms @ fill_rows ps) = window ms @ fill_rows ps"
proof -
  let ?d = "disambiguated ms" and ?w = "window ms"
  have p: "paired_ids ?w" by (rule window_paired [OF s])
  have sub: "set ps \<subseteq> set (dangling ?w (all_uses ?w))" using list_emb_set [OF ps] by blast
  have "distinct (map fst (all_uses ?w))" using p by (simp add: paired_ids_def all_uses_fst)
  then have "distinct (map fst (dangling ?w (all_uses ?w)))" by (simp add: dangling_def distinct_map_filter)
  then have dist: "distinct (map fst ps)" using subseq_map [OF ps, of fst] subseq_distinct by blast
  have dang: "i \<in> set (use_ids ?d) \<and> i \<notin> set (all_result_ids ?d)" if i: "i \<in> fst ` set ps" for i
  proof -
    obtain u where "u \<in> set ps" "fst u = i" using i by blast
    then have u: "u \<in> set (all_uses ?w)" "row_of ?w (fst u) = None" "fst u = i"
      using sub by (auto simp: dangling_def)
    have "i \<in> set (use_ids ?w)" using u(1,3) all_uses_fst [of ?w] by (metis image_eqI list.set_map)
    moreover have "i \<notin> set (all_result_ids ?w)"
      using u(2,3) row_of_none p unfolding paired_ids_def by metis
    ultimately show ?thesis using quarantine_ids(1,3) [of ?d] by auto
  qed
  have d: "disambiguated (ms @ fill_rows ps) = ?d @ fill_rows ps"
    by (rule disambiguate_with_fills [OF dist]) (use dang in blast)+
  let ?U = "set (use_ids ?d)"
  obtain ms' st where r: "retain_messages ?U quarantine_start ?d = (ms', st)" by fastforce
  have seen: "seen_result_ids st \<subseteq> set (all_result_ids ?d)"
    using retain_messages_retains [OF r] by (auto simp: retains_def quarantine_start_def)
  obtain st' where r': "retain_messages ?U st (fill_rows ps :: ('v, 'm) chat_message list) = (fill_rows ps, st')"
    using retain_messages_id [of "fill_rows ps :: ('v, 'm) chat_message list" ?U st] dist dang seen
    by (auto simp: fill_rows_ids simp del: map_map)
  show ?thesis
    using r r' by (simp add: d quarantine_invalid_results_def fill_rows_ids retain_messages_append del: map_map)
qed

lemma dangling_with_fills:
  assumes "single_results ms"
  shows "dangling (ms @ fill_rows ps) us = filter (\<lambda>u. fst u \<notin> fst ` set ps) (dangling ms us)"
proof -
  have "row_of (ms @ fill_rows ps) i = None \<longleftrightarrow> row_of ms i = None \<and> i \<notin> fst ` set ps" for i
    using assms by (subst row_of_none) (auto simp: fill_rows_ids row_of_none)
  then show ?thesis by (auto simp: dangling_def intro: filter_cong)
qed

lemma fill_rows_filter:
  assumes "distinct (map fst us)" and "set ps \<subseteq> set us"
  shows "fill_rows (filter (\<lambda>u. fst u \<notin> fst ` set ps) us) = filter (\<lambda>f. f \<notin> set (fill_rows ps)) (fill_rows us)"
proof -
  have "synthetic_fill (fst u) (snd u) \<in> set (fill_rows ps) \<longleftrightarrow> fst u \<in> fst ` set ps" if u: "u \<in> set us" for u
  proof
    assume "synthetic_fill (fst u) (snd u) \<in> set (fill_rows ps)"
    then show "fst u \<in> fst ` set ps" by (auto dest!: fill_inj intro: rev_image_eqI)
  next
    assume "fst u \<in> fst ` set ps"
    then obtain v where "v \<in> set ps" "fst v = fst u" by auto
    then have "v = u" using assms u by (meson eq_key_imp_eq_value distinct_map inj_onD subsetD)
    then show "synthetic_fill (fst u) (snd u) \<in> set (fill_rows ps)"
      using \<open>v \<in> set ps\<close> by (auto simp: case_prod_unfold)
  qed
  then show ?thesis
    by (auto simp: filter_map o_def case_prod_unfold intro!: filter_cong arg_cong [where f = "map _"])
qed

section \<open>Properties\<close>

text \<open>C3: Whatever a crash left behind, the repaired transcript is one the providers accept: every row
  that makes tool calls is followed at once by result rows answering exactly those calls, once each,
  there are no other result rows, and no two calls share an id.\<close>

theorem repair_pairs_every_call:
  assumes "single_results ms"
  shows "well_paired (messages (repair_tool_pairing ms)) \<and>
    distinct (use_ids (messages (repair_tool_pairing ms)))"
  using repair_well_paired [OF assms] disambiguated_distinct [of ms] by simp

definition crashed :: "(unit, unit) chat_message list" where
  "crashed =
     [\<lparr>role = RoleAssistant, content = [ToolUse ''ws'' ''ws'' () None, ToolUse ''ws'' ''ws'' () None],
       platform_msg_id = [], source = SrcAgent\<rparr>,
      tool_result_with_meta ''ws'' ''out'' None,
      \<lparr>role = RoleUser, content = [TextBlock ''go on''], platform_msg_id = [], source = SrcUser\<rparr>]"

lemma crashed_single: "single_results crashed"
  by (simp add: crashed_def single_results_def tool_result_with_meta_def tool_row_def result_ids_def)

theorem repair_pairs_every_call_witness: "well_paired (messages (repair_tool_pairing crashed))"
  using repair_pairs_every_call [OF crashed_single] by blast

text \<open>The repair loses nothing but what it reports: the user's and the assistant's rows are all
  there, in their order and unchanged but for call ids; the result rows are rows of the transcript,
  unchanged but for the id, or fills; and their number differs by the fills and the quarantined
  results.\<close>

lemma repair_keeps_every_row:
  assumes "single_results ms"
  shows "map strip_ids (filter (\<lambda>m. \<not> is_tool_result_row m) (messages (repair_tool_pairing ms))) =
      map strip_ids (filter (\<lambda>m. \<not> is_tool_result_row m \<and> content m \<noteq> []) ms) \<and>
    image_mset strip_ids (mset (filter is_tool_result_row (messages (repair_tool_pairing ms))))
      \<subseteq># image_mset strip_ids (mset (filter is_tool_result_row ms) + mset (fills (repair_tool_pairing ms))) \<and>
    length (filter is_tool_result_row (messages (repair_tool_pairing ms))) +
      length (orphan_result_ids (repair_tool_pairing ms)) + length (duplicate_result_ids (repair_tool_pairing ms)) =
      length (filter is_tool_result_row ms) + length (fills (repair_tool_pairing ms))"
proof (intro conjI)
  let ?d = "disambiguated ms"
  have s: "single_results ?d" using assms strip_single [OF disambiguated_strip] by blast
  note strip = filter_strip [OF disambiguated_strip]
  show "map strip_ids (filter (\<lambda>m. \<not> is_tool_result_row m) (messages (repair_tool_pairing ms))) =
      map strip_ids (filter (\<lambda>m. \<not> is_tool_result_row m \<and> content m \<noteq> []) ms)"
    unfolding repair_shape(3) [OF assms] quarantine_rows(2) [OF s]
    by (rule strip) (simp add: strip_shape(3) strip_empty)
  have rows: "map strip_ids (filter is_tool_result_row ?d) = map strip_ids (filter is_tool_result_row ms)"
    by (rule strip) (simp add: strip_shape(3))
  have "mset (filter is_tool_result_row (quarantined ?d)) \<subseteq># mset (filter is_tool_result_row ?d)"
    by (rule subseq_mset) (rule subseq_filter [OF quarantine_rows(1) [OF s]])
  then have "image_mset strip_ids (mset (filter is_tool_result_row (quarantined ?d)))
      \<subseteq># mset (map strip_ids (filter is_tool_result_row ms))"
    unfolding rows [symmetric] by (simp add: image_mset_subseteq_mono)
  then show "image_mset strip_ids (mset (filter is_tool_result_row (messages (repair_tool_pairing ms))))
      \<subseteq># image_mset strip_ids (mset (filter is_tool_result_row ms) + mset (fills (repair_tool_pairing ms)))"
    unfolding repair_rows_mset [OF assms] by simp
  have "length (filter is_tool_result_row ?d) = length (filter is_tool_result_row ms)"
    using rows by (metis length_map)
  moreover have "length (filter is_tool_result_row (messages (repair_tool_pairing ms))) =
      length (filter is_tool_result_row (quarantined ?d)) + length (fills (repair_tool_pairing ms))"
    using arg_cong [OF repair_rows_mset [OF assms], of size] by (simp only: size_mset size_union)
  ultimately show "length (filter is_tool_result_row (messages (repair_tool_pairing ms))) +
      length (orphan_result_ids (repair_tool_pairing ms)) + length (duplicate_result_ids (repair_tool_pairing ms)) =
      length (filter is_tool_result_row ms) + length (fills (repair_tool_pairing ms))"
    using quarantine_count [of ?d] rows_count [OF s] rows_count [OF quarantine_rows(3) [OF s]]
    by (simp add: repair_lists)
qed

lemma repair_keeps_every_row_witness:
  "map strip_ids (filter (\<lambda>m. \<not> is_tool_result_row m) (messages (repair_tool_pairing crashed))) =
   map strip_ids (filter (\<lambda>m. \<not> is_tool_result_row m \<and> content m \<noteq> []) crashed)"
  using repair_keeps_every_row [OF crashed_single] by blast

text \<open>Which call a row is paired with depends only on the rows before it: appending rows never
  renames an earlier call or moves an earlier result, so every load renames alike.\<close>

lemma disambiguation_prefix_stable:
  "take (length ms) (fst (disambiguate_repeated_call_ids (ms @ later))) = fst (disambiguate_repeated_call_ids ms) \<and>
   prefix (snd (disambiguate_repeated_call_ids ms)) (snd (disambiguate_repeated_call_ids (ms @ later)))"
proof -
  have len: "length (fst (rename_messages k st ms)) = length ms" for k st
    using arg_cong [OF rename_messages_strip [of k st ms], of length] by simp
  show ?thesis
    using len [of 0 rename_start]
    by (simp add: disambiguate_eq rename_messages_append case_prod_unfold Let_def renamed_ids_grow)
qed

text \<open>C4: A fill is written once: after any of the fills of a repair has reached the store, the next
  repair pairs it with its call, also one that was renamed, and only fills what is still missing.\<close>

theorem persisted_fills_stick:
  assumes "single_results ms" and "subseq fs (fills (repair_tool_pairing ms))"
  shows "fills (repair_tool_pairing (ms @ fs)) = filter (\<lambda>f. f \<notin> set fs) (fills (repair_tool_pairing ms))"
proof -
  let ?w = "window ms"
  let ?us = "all_uses ?w"
  have p: "paired_ids ?w" by (rule window_paired [OF assms(1)])
  then have w: "single_results ?w" by (simp add: paired_ids_def)
  obtain ps where ps: "fs = fill_rows ps" "subseq ps (dangling ?w ?us)"
    using assms(2) unfolding repair_eq(2) [OF assms(1)] by (rule subseq_map_obtain)
  have single: "single_results (ms @ fs)" using assms(1) ps(1) by (simp add: fill_rows_ids)
  have win: "window (ms @ fs) = ?w @ fill_rows ps"
    unfolding ps(1) by (rule window_with_fills [OF assms(1) ps(2)])
  have "fills (repair_tool_pairing (ms @ fs)) = fill_rows (dangling (?w @ fill_rows ps) ?us)"
    unfolding repair_eq(2) [OF single] win by (simp only: map_append concat_append fill_rows_ids append_Nil2)
  also have "dangling (?w @ fill_rows ps) ?us = filter (\<lambda>u. fst u \<notin> fst ` set ps) (dangling ?w ?us)"
    by (rule dangling_with_fills [OF w])
  also have "fill_rows \<dots> = filter (\<lambda>f. f \<notin> set fs) (fill_rows (dangling ?w ?us))"
  proof -
    have "distinct (map fst (dangling ?w ?us))"
      using p by (simp add: dangling_def paired_ids_def all_uses_fst distinct_map_filter)
    moreover have "set ps \<subseteq> set (dangling ?w ?us)" using list_emb_set [OF ps(2)] by blast
    ultimately show ?thesis unfolding ps(1) by (rule fill_rows_filter)
  qed
  finally show ?thesis by (simp add: repair_eq(2) [OF assms(1)])
qed

theorem persisted_fills_stick_witness:
  "fills (repair_tool_pairing (crashed @ fills (repair_tool_pairing crashed))) = []"
  using persisted_fills_stick [OF crashed_single subseq_order.order_refl] by simp

text \<open>The repair is a normalisation: repairing a repaired transcript changes nothing and reports
  nothing.\<close>

lemma repair_idempotent:
  assumes "single_results ms"
  shows "repair_tool_pairing (messages (repair_tool_pairing ms)) =
    \<lparr>messages = messages (repair_tool_pairing ms), fills = [], orphan_result_ids = [],
     duplicate_result_ids = [], renamed_call_ids = []\<rparr>"
proof -
  let ?out = "messages (repair_tool_pairing ms)"
  have wp: "well_paired ?out" and d: "distinct (use_ids ?out)"
    using repair_well_paired [OF assms] disambiguated_distinct [of ms] by simp_all
  have ids: "mset (all_result_ids ?out) = mset (use_ids ?out)"
    by (rule well_paired_ids [OF wp repair_shape(1) [OF assms]])
  have "distinct (all_result_ids ?out)" "set (all_result_ids ?out) = set (use_ids ?out)"
    using ids d by (metis mset_eq_imp_distinct_iff) (metis ids set_mset_mset)
  then obtain st where "retain_messages (set (use_ids ?out)) quarantine_start ?out = (?out, st)"
      "orphans st = []" "duplicates st = []"
    using retain_messages_id [of ?out "set (use_ids ?out)" quarantine_start] by (auto simp: quarantine_start_def)
  moreover have "filter (\<lambda>m. content m \<noteq> []) ?out = ?out"
    using repair_shape(2) [OF assms] by (simp add: list_all_iff)
  ultimately have "quarantine_invalid_results ?out = (?out, [], [])"
    by (simp add: quarantine_invalid_results_def)
  then show ?thesis
    using well_paired_no_repair [OF wp d] disambiguated_id [OF d] by (simp add: repair_tool_pairing_def [of ?out])
qed

lemma repair_idempotent_witness:
  "fills (repair_tool_pairing (messages (repair_tool_pairing crashed))) = []"
  using repair_idempotent [OF crashed_single] by simp

end
