(* ===== verification/ProgressLedger.thy ===== *)
theory ProgressLedger
  imports Messages "HOL-Library.Word" "HOL-Library.Sublist"
begin

text \<open>
  \<open>crates/agent/src/runtime/progress_ledger.rs\<close>: the agent loop's detection of tool activity that has
  stopped making progress. File mutations are judged by the state transitions a file went through in
  this turn, every other tool by its run of identical errors. The hash is the standard library's
  \<open>DefaultHasher\<close>, whose algorithm is unspecified: it is the parameter \<open>h\<close> of the definitions. A call's
  JSON arguments are the map of their string members, and an error is its message.
\<close>

section \<open>Tool calls\<close>

definition TOOL_FILE_PATH_ARG :: string where
  "TOOL_FILE_PATH_ARG = ''file_path''"

definition TOOL_CONTENT_ARG :: string where
  "TOOL_CONTENT_ARG = ''content''"

definition EDIT_OLD_STRING_ARG :: string where
  "EDIT_OLD_STRING_ARG = ''old_string''"

definition EDIT_NEW_STRING_ARG :: string where
  "EDIT_NEW_STRING_ARG = ''new_string''"

datatype ('v, 'm) tool_output =
    OutText string
  | OutJson 'v
  | OutError string
  | OutWithAttachments string "('v, 'm) content_block list"
  | OutMultiModalText string "('v, 'm) content_block list"

type_synonym ('v, 'm) tool_result = "string + ('v, 'm) tool_output"
type_synonym hash64 = "64 word"
type_synonym arguments = "string \<rightharpoonup> string"

text \<open>
  \<open>Path\<close> equality compares components: repeated and trailing separators and inner \<open>.\<close> components do not
  count, a leading one of a relative path does.
\<close>

fun split_slash :: "string \<Rightarrow> string list" where
  "split_slash [] = [[]]"
| "split_slash (c # cs) =
     (if c = CHR ''/'' then [] # split_slash cs
      else case split_slash cs of [] \<Rightarrow> [[c]] | p # ps \<Rightarrow> (c # p) # ps)"

definition path_components :: "string \<Rightarrow> bool \<times> string list" where
  "path_components s =
     (let parts = split_slash s;
          rooted = starts_with ''/'' s
      in (rooted,
          (if \<not> rooted \<and> hd parts = ''.'' then [''.''] else [])
            @ filter (\<lambda>p. p \<noteq> [] \<and> p \<noteq> ''.'') parts))"

section \<open>State\<close>

definition MAX_TRACKED_TARGETS :: nat where
  "MAX_TRACKED_TARGETS = 128"

definition MAX_ATTEMPTS_PER_TARGET :: nat where
  "MAX_ATTEMPTS_PER_TARGET = 64"

definition CHURN_SIGNALS_BEFORE_REPORT :: nat where
  "CHURN_SIGNALS_BEFORE_REPORT = 3"

definition CLEAN_EDITS_THAT_CLEAR_SIGNALS :: nat where
  "CLEAN_EDITS_THAT_CLEAR_SIGNALS = 3"

definition FUTILE_STREAK_THRESHOLD :: nat where
  "FUTILE_STREAK_THRESHOLD = 3"

definition REPEATED_TOOL_FAILURE_THRESHOLD :: nat where
  "REPEATED_TOOL_FAILURE_THRESHOLD = 3"

record state_transition =
  from_state :: "hash64 option"
  to_state :: hash64

datatype attempt_outcome = Applied | Rejected

record attempt =
  transition_of :: state_transition
  outcome_of :: attempt_outcome

datatype progress_verdict =
    AttemptRepeated string nat
  | StateRevisited string nat
  | Futile string nat
  | RepeatedToolFailure string nat

record target_history =
  th_path :: string
  attempts :: "attempt list"
  churn_signals :: nat
  clean_streak :: nat
  reported :: bool

datatype churn_signal = SigRepeated | SigRevisited

type_synonym file_mutation_ledger = "target_history list"

record failure_streak =
  signature :: "string \<times> hash64"
  streak_attempts :: nat
  streak_reported :: bool

record turn_progress_monitor =
  files :: file_mutation_ledger
  failures :: "failure_streak option"

definition monitor_default :: turn_progress_monitor where
  "monitor_default = \<lparr>files = [], failures = None\<rparr>"

section \<open>Operations\<close>

definition tool_call_succeeded :: "('v, 'm) tool_result \<Rightarrow> bool" where
  "tool_call_succeeded output =
     (case output of
        Inr value \<Rightarrow> (case value of OutError _ \<Rightarrow> False | _ \<Rightarrow> True)
      | Inl _ \<Rightarrow> False)"

definition error_hash :: "(string \<Rightarrow> hash64) \<Rightarrow> ('v, 'm) tool_result \<Rightarrow> hash64 option" where
  "error_hash h output =
     (case output of
        Inr value \<Rightarrow> (case value of OutError reason \<Rightarrow> Some (h reason) | _ \<Rightarrow> None)
      | Inl error \<Rightarrow> Some (h error))"

definition transition_for :: "(string \<Rightarrow> hash64) \<Rightarrow> string \<Rightarrow> arguments \<Rightarrow> state_transition option" where
  "transition_for h tool_name arg =
     (if tool_name = WRITE_TOOL_NAME
      then map_option (\<lambda>body. \<lparr>from_state = None, to_state = h body\<rparr>) (arg TOOL_CONTENT_ARG)
      else case (arg EDIT_OLD_STRING_ARG, arg EDIT_NEW_STRING_ARG) of
             (Some old, Some new) \<Rightarrow> Some \<lparr>from_state = Some (h old), to_state = h new\<rparr>
           | _ \<Rightarrow> None)"

definition churn_signal_for :: "attempt list \<Rightarrow> state_transition \<Rightarrow> attempt_outcome \<Rightarrow> churn_signal option" where
  "churn_signal_for as t out =
     (if list_ex (\<lambda>a. transition_of a = t \<and> from_state (transition_of a) \<noteq> None) as
      then Some SigRepeated
      else if out = Applied \<and>
              list_ex (\<lambda>a. from_state (transition_of a) = Some (to_state t) \<or>
                           to_state (transition_of a) = to_state t)
                (filter (\<lambda>a. outcome_of a = Applied) as)
      then Some SigRevisited
      else None)"

definition verdict_for ::
    "target_history \<Rightarrow> churn_signal option \<Rightarrow> attempt_outcome \<Rightarrow> nat \<Rightarrow> progress_verdict option" where
  "verdict_for hist sig out n =
     (if sig \<noteq> None \<and> churn_signals hist \<ge> CHURN_SIGNALS_BEFORE_REPORT
      then Some (case sig of
                   Some SigRepeated \<Rightarrow> AttemptRepeated (th_path hist) n
                 | _ \<Rightarrow> StateRevisited (th_path hist) n)
      else if out = Rejected
      then let streak = 1 + length (takeWhile (\<lambda>a. outcome_of a = Rejected) (rev (attempts hist)))
           in if streak \<ge> FUTILE_STREAK_THRESHOLD then Some (Futile (th_path hist) streak) else None
      else None)"

text \<open>
  \<open>target_index\<close>: the file's history moves, or a new one is put, at the back; the index it returns is
  the last one.
\<close>

definition new_target :: "string \<Rightarrow> target_history" where
  "new_target path = \<lparr>th_path = path, attempts = [], churn_signals = 0, clean_streak = 0, reported = False\<rparr>"

definition same_path :: "string \<Rightarrow> target_history \<Rightarrow> bool" where
  "same_path path t \<longleftrightarrow> path_components (th_path t) = path_components path"

definition target_index :: "file_mutation_ledger \<Rightarrow> string \<Rightarrow> target_history \<times> file_mutation_ledger" where
  "target_index targets path =
     (case find (same_path path) targets of
        Some t \<Rightarrow> (t, takeWhile (\<lambda>u. \<not> same_path path u) targets
                     @ drop 1 (dropWhile (\<lambda>u. \<not> same_path path u) targets))
      | None \<Rightarrow>
          (new_target path,
           if length targets = MAX_TRACKED_TARGETS then drop 1 targets else targets))"

definition note_signal :: "churn_signal option \<Rightarrow> attempt_outcome \<Rightarrow> target_history \<Rightarrow> target_history" where
  "note_signal sig out hist =
     (if sig \<noteq> None then hist\<lparr>churn_signals := churn_signals hist + 1, clean_streak := 0\<rparr>
      else if out = Applied
      then let hist = hist\<lparr>clean_streak := clean_streak hist + 1\<rparr> in
           if clean_streak hist \<ge> CLEAN_EDITS_THAT_CLEAR_SIGNALS
           then hist\<lparr>churn_signals := 0, clean_streak := 0\<rparr>
           else hist
      else hist\<lparr>clean_streak := 0\<rparr>)"

definition push_attempt :: "attempt list \<Rightarrow> attempt \<Rightarrow> attempt list" where
  "push_attempt as a = (if length as = MAX_ATTEMPTS_PER_TARGET then drop 1 as else as) @ [a]"

definition judge ::
    "target_history \<Rightarrow> state_transition \<Rightarrow> attempt_outcome \<Rightarrow> progress_verdict option \<times> target_history" where
  "judge hist t out =
     (let sig = churn_signal_for (attempts hist) t out;
          hist = note_signal sig out hist;
          n = length (attempts hist) + 1;
          verdict = (if \<not> reported hist then verdict_for hist sig out n else None);
          hist = hist\<lparr>attempts := push_attempt (attempts hist) \<lparr>transition_of = t, outcome_of = out\<rparr>\<rparr>
      in (verdict, if verdict \<noteq> None then hist\<lparr>reported := True\<rparr> else hist))"

definition ledger_record ::
    "(string \<Rightarrow> hash64) \<Rightarrow> file_mutation_ledger \<Rightarrow> string \<Rightarrow> arguments \<Rightarrow> bool \<Rightarrow>
     progress_verdict option \<times> file_mutation_ledger" where
  "ledger_record h targets tool_name arg applied =
     (if tool_name \<notin> set FILE_WRITING_TOOLS then (None, targets)
      else case arg TOOL_FILE_PATH_ARG of
        None \<Rightarrow> (None, targets)
      | Some path \<Rightarrow>
          (case transition_for h tool_name arg of
             None \<Rightarrow> (None, targets)
           | Some t \<Rightarrow>
               let (hist, rest) = target_index targets path;
                   (verdict, hist) = judge hist t (if applied then Applied else Rejected)
               in (verdict, rest @ [hist])))"

definition detector_record ::
    "(string \<Rightarrow> hash64) \<Rightarrow> failure_streak option \<Rightarrow> string \<Rightarrow> ('v, 'm) tool_result \<Rightarrow>
     progress_verdict option \<times> failure_streak option" where
  "detector_record h streak tool_name output =
     (case error_hash h output of
        None \<Rightarrow> (None, None)
      | Some e \<Rightarrow>
          let fresh = (None, Some \<lparr>signature = (tool_name, e), streak_attempts = 1, streak_reported = False\<rparr>) in
          case streak of
            None \<Rightarrow> fresh
          | Some s \<Rightarrow>
              if signature s = (tool_name, e)
              then let s = s\<lparr>streak_attempts := streak_attempts s + 1\<rparr> in
                   if streak_attempts s \<ge> REPEATED_TOOL_FAILURE_THRESHOLD \<and> \<not> streak_reported s
                   then (Some (RepeatedToolFailure tool_name (streak_attempts s)),
                         Some (s\<lparr>streak_reported := True\<rparr>))
                   else (None, Some s)
              else fresh)"

definition monitor_clear :: "turn_progress_monitor \<Rightarrow> turn_progress_monitor" where
  "monitor_clear m = m\<lparr>files := [], failures := None\<rparr>"

definition monitor_record ::
    "(string \<Rightarrow> hash64) \<Rightarrow> turn_progress_monitor \<Rightarrow> string \<Rightarrow> arguments \<Rightarrow> ('v, 'm) tool_result \<Rightarrow>
     progress_verdict option \<times> turn_progress_monitor" where
  "monitor_record h m tool_name arg output =
     (if tool_name \<in> set FILE_WRITING_TOOLS
      then let (verdict, fs) = ledger_record h (files m) tool_name arg (tool_call_succeeded output)
           in (verdict, m\<lparr>files := fs, failures := None\<rparr>)
      else let (verdict, f) = detector_record h (failures m) tool_name output
           in (verdict, m\<lparr>failures := f\<rparr>))"

section \<open>A turn's history\<close>

type_synonym ('v, 'm) call = "string \<times> arguments \<times> ('v, 'm) tool_result"

definition monitor_step ::
    "(string \<Rightarrow> hash64) \<Rightarrow> turn_progress_monitor \<Rightarrow> ('v, 'm) call \<Rightarrow> turn_progress_monitor" where
  "monitor_step h m c = (case c of (tool, arg, output) \<Rightarrow> snd (monitor_record h m tool arg output))"

definition turn_run :: "(string \<Rightarrow> hash64) \<Rightarrow> ('v, 'm) call list \<Rightarrow> turn_progress_monitor" where
  "turn_run h cs = foldl (monitor_step h) monitor_default cs"

definition verdict_after ::
    "(string \<Rightarrow> hash64) \<Rightarrow> ('v, 'm) call list \<Rightarrow> ('v, 'm) call \<Rightarrow> progress_verdict option" where
  "verdict_after h cs c = (case c of (tool, arg, output) \<Rightarrow> fst (monitor_record h (turn_run h cs) tool arg output))"

text \<open>
  What the monitor is judged against, read off the whole turn rather than off its windows: the
  attempts on one file, oldest first, and how many of them repeated or undid an earlier one.
\<close>

type_synonym path_key = "bool \<times> string list"

definition file_attempt :: "(string \<Rightarrow> hash64) \<Rightarrow> ('v, 'm) call \<Rightarrow> (string \<times> attempt) option" where
  "file_attempt h c =
     (case c of (tool, arg, output) \<Rightarrow>
        if tool \<notin> set FILE_WRITING_TOOLS then None
        else case (arg TOOL_FILE_PATH_ARG, transition_for h tool arg) of
          (Some path, Some t) \<Rightarrow>
            Some (path, \<lparr>transition_of = t,
                         outcome_of = if tool_call_succeeded output then Applied else Rejected\<rparr>)
        | _ \<Rightarrow> None)"

fun path_attempts :: "(string \<Rightarrow> hash64) \<Rightarrow> ('v, 'm) call list \<Rightarrow> path_key \<Rightarrow> attempt list" where
  "path_attempts h [] k = []"
| "path_attempts h (c # cs) k =
     (case file_attempt h c of
        Some (path, a) \<Rightarrow> (if path_components path = k then [a] else [])
      | None \<Rightarrow> []) @ path_attempts h cs k"

definition churns :: "attempt list \<Rightarrow> attempt \<Rightarrow> bool" where
  "churns as a \<longleftrightarrow> churn_signal_for as (transition_of a) (outcome_of a) \<noteq> None"

fun churn_count_from :: "attempt list \<Rightarrow> attempt list \<Rightarrow> nat" where
  "churn_count_from as [] = 0"
| "churn_count_from as (b # bs) = (if churns as b then 1 else 0) + churn_count_from (as @ [b]) bs"

abbreviation churn_count :: "attempt list \<Rightarrow> nat" where
  "churn_count \<equiv> churn_count_from []"

abbreviation target_key :: "target_history \<Rightarrow> path_key" where
  "target_key t \<equiv> path_components (th_path t)"

lemma turn_run_Nil [simp]: "turn_run h [] = monitor_default"
  by (simp add: turn_run_def)

lemma turn_run_snoc: "turn_run h (cs @ [c]) = monitor_step h (turn_run h cs) c"
  by (simp add: turn_run_def)

lemma path_attempts_append: "path_attempts h (cs @ ds) k = path_attempts h cs k @ path_attempts h ds k"
  by (induction cs) (auto split: option.splits)

lemma churn_count_from_append:
  "churn_count_from as (bs @ cs) = churn_count_from as bs + churn_count_from (as @ bs) cs"
  by (induction bs arbitrary: as) auto

text \<open>A call that is no attempt on a file leaves the ledger alone; an attempt is judged against its file.\<close>

lemma ledger_of_step:
  "(case c of (tool, arg, output) \<Rightarrow> tool \<in> set FILE_WRITING_TOOLS) \<Longrightarrow>
   files (monitor_step h m c) =
     (case file_attempt h c of
        None \<Rightarrow> files m
      | Some (path, a) \<Rightarrow>
          (let (hist, rest) = target_index (files m) path
           in rest @ [snd (judge hist (transition_of a) (outcome_of a))]))"
  by (auto simp: monitor_step_def monitor_record_def ledger_record_def file_attempt_def Let_def
        split: option.splits prod.splits)

lemma files_monitor_step:
  "files (monitor_step h m c) =
     (case file_attempt h c of
        None \<Rightarrow> files m
      | Some (path, a) \<Rightarrow>
          (let (hist, rest) = target_index (files m) path
           in rest @ [snd (judge hist (transition_of a) (outcome_of a))]))"
proof (cases "case c of (tool, arg, output) \<Rightarrow> tool \<in> set FILE_WRITING_TOOLS")
  case True
  then show ?thesis by (rule ledger_of_step)
next
  case False
  then show ?thesis
    by (auto simp: monitor_step_def monitor_record_def file_attempt_def split: prod.splits)
qed

lemma verdict_of_attempt:
  assumes "file_attempt h c = Some (path, a)"
  shows "verdict_after h cs c =
           (let (hist, rest) = target_index (files (turn_run h cs)) path
            in fst (judge hist (transition_of a) (outcome_of a)))"
  using assms
  by (auto simp: verdict_after_def monitor_record_def ledger_record_def file_attempt_def Let_def
        split: option.splits prod.splits if_splits)

lemma verdict_of_other:
  assumes "file_attempt h c = None"
  shows "verdict_after h cs c =
           (case c of (tool, arg, output) \<Rightarrow>
              if tool \<in> set FILE_WRITING_TOOLS then None
              else fst (detector_record h (failures (turn_run h cs)) tool output))"
  using assms
  by (auto simp: verdict_after_def monitor_record_def ledger_record_def file_attempt_def Let_def
        split: option.splits prod.splits if_splits)

section \<open>Judging one attempt\<close>

lemma churns_mono: "set as \<subseteq> set bs \<Longrightarrow> churns as a \<Longrightarrow> churns bs a"
  by (auto simp: churns_def churn_signal_for_def list_ex_iff split: if_splits)

lemma length_push_attempt:
  "length as \<le> MAX_ATTEMPTS_PER_TARGET \<Longrightarrow> length (push_attempt as a) \<le> MAX_ATTEMPTS_PER_TARGET"
  by (auto simp: push_attempt_def MAX_ATTEMPTS_PER_TARGET_def)

lemma suffix_push_attempt: "suffix as bs \<Longrightarrow> suffix (push_attempt as a) (bs @ [a])"
  using suffix_order.trans [OF suffix_drop [of 1 as]] by (auto simp: push_attempt_def)

lemma note_signal_sel [simp]:
  "th_path (note_signal sig out t) = th_path t"
  "attempts (note_signal sig out t) = attempts t"
  "reported (note_signal sig out t) = reported t"
  by (simp_all add: note_signal_def Let_def)

lemma churn_signals_note_signal:
  "churn_signals (note_signal sig out t) \<le> churn_signals t + (if sig \<noteq> None then 1 else 0)"
  by (simp add: note_signal_def Let_def)

lemma clean_streak_note_signal:
  "clean_streak t < CLEAN_EDITS_THAT_CLEAR_SIGNALS \<Longrightarrow>
   clean_streak (note_signal sig out t) < CLEAN_EDITS_THAT_CLEAR_SIGNALS"
  by (simp add: note_signal_def Let_def CLEAN_EDITS_THAT_CLEAR_SIGNALS_def)

lemma judge_target:
  "th_path (snd (judge t tr out)) = th_path t"
  "attempts (snd (judge t tr out)) = push_attempt (attempts t) \<lparr>transition_of = tr, outcome_of = out\<rparr>"
  "churn_signals (snd (judge t tr out)) =
     churn_signals (note_signal (churn_signal_for (attempts t) tr out) out t)"
  "clean_streak (snd (judge t tr out)) =
     clean_streak (note_signal (churn_signal_for (attempts t) tr out) out t)"
  "reported (snd (judge t tr out)) \<longleftrightarrow> reported t \<or> fst (judge t tr out) \<noteq> None"
  by (simp_all add: judge_def Let_def)

lemma judge_attempts:
  "attempts (snd (judge t (transition_of a) (outcome_of a))) = push_attempt (attempts t) a"
  by (cases a) (simp add: judge_target)

lemma judge_verdict:
  "fst (judge t tr out) =
     (let sig = churn_signal_for (attempts t) tr out in
      if reported t then None
      else verdict_for (note_signal sig out t) sig out (length (attempts t) + 1))"
  by (simp add: judge_def Let_def)

text \<open>What is known of a file's history: it is a window on the file's attempts in this turn.\<close>

definition target_wf :: "attempt list \<Rightarrow> target_history \<Rightarrow> bool" where
  "target_wf as t \<longleftrightarrow>
     length (attempts t) \<le> MAX_ATTEMPTS_PER_TARGET \<and> suffix (attempts t) as \<and>
     churn_signals t \<le> churn_count as \<and> clean_streak t < CLEAN_EDITS_THAT_CLEAR_SIGNALS"

lemma target_wf_new: "target_wf as (new_target path)"
  by (simp add: target_wf_def new_target_def CLEAN_EDITS_THAT_CLEAR_SIGNALS_def)

lemma target_wf_judge:
  assumes "target_wf as t"
  shows "target_wf (as @ [a]) (snd (judge t (transition_of a) (outcome_of a)))"
proof -
  let ?sig = "churn_signal_for (attempts t) (transition_of a) (outcome_of a)"
  have sub: "set (attempts t) \<subseteq> set as"
    using assms by (auto simp: target_wf_def dest: set_mono_suffix)
  have "churn_signals (note_signal ?sig (outcome_of a) t) \<le> churn_count as + (if churns as a then 1 else 0)"
    using churn_signals_note_signal [of ?sig "outcome_of a" t] churns_mono [OF sub, of a] assms
    by (auto simp: target_wf_def churns_def split: if_splits)
  moreover have "suffix (attempts (snd (judge t (transition_of a) (outcome_of a)))) (as @ [a])"
    unfolding judge_attempts using assms by (intro suffix_push_attempt) (simp add: target_wf_def)
  ultimately show ?thesis
    using assms
    by (simp add: target_wf_def judge_target churn_count_from_append
          length_push_attempt clean_streak_note_signal)
qed

lemma takeWhile_rev_suffix:
  assumes "suffix as bs"
  shows "length (takeWhile P (rev as)) \<le> length (takeWhile P (rev bs))"
  using assms length_takeWhile_le [of P "rev as"]
  by (auto simp: suffix_def takeWhile_append simp del: length_takeWhile_le intro: trans_le_add1)

lemma verdict_for_cases:
  assumes "verdict_for t sig out n = Some v"
  obtains "sig = Some SigRepeated" "churn_signals t \<ge> CHURN_SIGNALS_BEFORE_REPORT"
      "v = AttemptRepeated (th_path t) n"
  | "sig = Some SigRevisited" "churn_signals t \<ge> CHURN_SIGNALS_BEFORE_REPORT"
      "v = StateRevisited (th_path t) n"
  | "out = Rejected"
      "v = Futile (th_path t) (1 + length (takeWhile (\<lambda>a. outcome_of a = Rejected) (rev (attempts t))))"
      "1 + length (takeWhile (\<lambda>a. outcome_of a = Rejected) (rev (attempts t))) \<ge> FUTILE_STREAK_THRESHOLD"
  using assms
  by (cases sig) (auto simp: verdict_for_def Let_def split: if_splits churn_signal.splits)

text \<open>What each verdict asserts of the file's attempts in this turn, the last one included.\<close>

definition file_verdict_true :: "attempt list \<Rightarrow> path_key \<Rightarrow> progress_verdict \<Rightarrow> bool" where
  "file_verdict_true as k v =
     (case v of
        AttemptRepeated p n \<Rightarrow>
          path_components p = k \<and> n \<le> length as \<and> 3 \<le> churn_count as \<and>
          (\<exists>a \<in> set (butlast as). transition_of a = transition_of (last as))
      | StateRevisited p n \<Rightarrow>
          path_components p = k \<and> n \<le> length as \<and> 3 \<le> churn_count as \<and> outcome_of (last as) = Applied \<and>
          (\<exists>a \<in> set (butlast as). outcome_of a = Applied \<and>
             (from_state (transition_of a) = Some (to_state (transition_of (last as))) \<or>
              to_state (transition_of a) = to_state (transition_of (last as))))
      | Futile p n \<Rightarrow>
          path_components p = k \<and> 3 \<le> n \<and> n \<le> length (takeWhile (\<lambda>a. outcome_of a = Rejected) (rev as))
      | RepeatedToolFailure _ _ \<Rightarrow> False)"

lemma churn_signal_cases:
  "churn_signal_for as t out = Some SigRepeated \<Longrightarrow> \<exists>a \<in> set as. transition_of a = t"
  "churn_signal_for as t out = Some SigRevisited \<Longrightarrow>
     out = Applied \<and> (\<exists>a \<in> set as. outcome_of a = Applied \<and>
       (from_state (transition_of a) = Some (to_state t) \<or> to_state (transition_of a) = to_state t))"
  by (auto simp: churn_signal_for_def list_ex_iff split: if_splits)

lemma judge_verdict_true:
  assumes wf: "target_wf as t"
    and v: "fst (judge t (transition_of a) (outcome_of a)) = Some v"
  shows "file_verdict_true (as @ [a]) (target_key t) v"
proof -
  let ?sig = "churn_signal_for (attempts t) (transition_of a) (outcome_of a)"
  let ?t = "snd (judge t (transition_of a) (outcome_of a))"
  have suf: "suffix (attempts t) as" and len: "length (attempts t) \<le> length as"
    and sub: "set (attempts t) \<subseteq> set as"
    using wf by (auto simp: target_wf_def dest: suffix_length_le set_mono_suffix)
  have cnt: "churn_signals (note_signal ?sig (outcome_of a) t) \<le> churn_count (as @ [a])"
    using target_wf_judge [OF wf, of a] by (simp add: target_wf_def judge_target)
  have "verdict_for (note_signal ?sig (outcome_of a) t) ?sig (outcome_of a) (length (attempts t) + 1) = Some v"
    using v by (simp add: judge_verdict Let_def split: if_splits)
  then show ?thesis
  proof (cases rule: verdict_for_cases)
    case 1
    then show ?thesis
      using churn_signal_cases(1) [OF 1(1)] cnt len sub
      by (auto simp: file_verdict_true_def CHURN_SIGNALS_BEFORE_REPORT_def)
  next
    case 2
    then show ?thesis
      using churn_signal_cases(2) [OF 2(1)] cnt len sub
      by (auto simp: file_verdict_true_def CHURN_SIGNALS_BEFORE_REPORT_def)
  next
    case 3
    then show ?thesis
      using takeWhile_rev_suffix [OF suf, of "\<lambda>a. outcome_of a = Rejected"]
      by (simp add: file_verdict_true_def FUTILE_STREAK_THRESHOLD_def)
  qed
qed

section \<open>The ledger\<close>

lemma find_split:
  assumes "find P xs = Some x"
  shows "xs = takeWhile (\<lambda>y. \<not> P y) xs @ x # drop 1 (dropWhile (\<lambda>y. \<not> P y) xs) \<and> P x"
  using assms by (induction xs) (auto split: if_splits)

lemma target_index_props:
  assumes "target_index ts path = (t, rest)"
    and "distinct (map target_key ts)" and "length ts \<le> MAX_TRACKED_TARGETS"
  shows "target_key t = path_components path"
    and "t \<in> set ts \<or> t = new_target path \<and> path_components path \<notin> target_key ` set ts"
    and "set rest \<subseteq> set ts"
    and "path_components path \<notin> target_key ` set rest"
    and "distinct (map target_key (rest @ [t]))"
    and "length (rest @ [t]) \<le> MAX_TRACKED_TARGETS"
    and "length ts < MAX_TRACKED_TARGETS \<or> t \<in> set ts \<Longrightarrow> insert t (set rest) = insert t (set ts)"
proof -
  have "target_key t = path_components path \<and>
    (t \<in> set ts \<or> t = new_target path \<and> path_components path \<notin> target_key ` set ts) \<and>
    set rest \<subseteq> set ts \<and> path_components path \<notin> target_key ` set rest \<and>
    distinct (map target_key (rest @ [t])) \<and> length (rest @ [t]) \<le> MAX_TRACKED_TARGETS \<and>
    (length ts < MAX_TRACKED_TARGETS \<or> t \<in> set ts \<longrightarrow> insert t (set rest) = insert t (set ts))"
  proof (cases "find (same_path path) ts")
    case (Some u)
    let ?us = "takeWhile (\<lambda>y. \<not> same_path path y) ts"
      and ?vs = "drop 1 (dropWhile (\<lambda>y. \<not> same_path path y) ts)"
    have split: "ts = ?us @ u # ?vs" and u: "same_path path u"
      using find_split [OF Some] by auto
    have eq: "t = u" "rest = ?us @ ?vs" using assms(1) Some by (auto simp: target_index_def)
    have "set ts = insert u (set rest)" and "length ts = Suc (length rest)"
      and "distinct (map target_key (u # rest))"
      using assms(2) arg_cong [OF split, of set] arg_cong [OF split, of length]
        arg_cong [OF split, of "\<lambda>xs. distinct (map target_key xs)"]
      by (auto simp: eq(2) simp del: takeWhile_dropWhile_id)
    then show ?thesis
      using assms(3) u by (auto simp: eq(1) same_path_def)
  next
    case None
    then have fresh: "path_components path \<notin> target_key ` set ts"
      by (auto simp: find_None_iff same_path_def)
    have eq: "t = new_target path"
      "rest = (if length ts = MAX_TRACKED_TARGETS then drop 1 ts else ts)"
      using assms(1) None by (auto simp: target_index_def)
    have key: "target_key t = path_components path" by (simp add: eq(1) new_target_def)
    have "set rest \<subseteq> set ts" "distinct (map target_key rest)" "length rest < MAX_TRACKED_TARGETS"
      using assms(2,3) set_drop_subset [of 1 ts]
      by (auto simp: eq(2) drop_map [symmetric] MAX_TRACKED_TARGETS_def)
    moreover have "t \<notin> set ts" using fresh key by force
    ultimately show ?thesis
      using fresh key eq by auto
  qed
  then show "target_key t = path_components path"
    and "t \<in> set ts \<or> t = new_target path \<and> path_components path \<notin> target_key ` set ts"
    and "set rest \<subseteq> set ts"
    and "path_components path \<notin> target_key ` set rest"
    and "distinct (map target_key (rest @ [t]))"
    and "length (rest @ [t]) \<le> MAX_TRACKED_TARGETS"
    and "length ts < MAX_TRACKED_TARGETS \<or> t \<in> set ts \<Longrightarrow> insert t (set rest) = insert t (set ts)"
    by blast+
qed

definition ledger_wf :: "(string \<Rightarrow> hash64) \<Rightarrow> ('v, 'm) call list \<Rightarrow> file_mutation_ledger \<Rightarrow> bool" where
  "ledger_wf h cs ts \<longleftrightarrow>
     distinct (map target_key ts) \<and> length ts \<le> MAX_TRACKED_TARGETS \<and>
     (\<forall>t \<in> set ts. target_wf (path_attempts h cs (target_key t)) t)"

lemma path_attempts_other:
  "file_attempt h c = None \<Longrightarrow> path_attempts h (cs @ [c]) k = path_attempts h cs k"
  by (simp add: path_attempts_append)

lemma path_attempts_attempt:
  "file_attempt h c = Some (path, a) \<Longrightarrow>
   path_attempts h (cs @ [c]) k = path_attempts h cs k @ (if path_components path = k then [a] else [])"
  by (simp add: path_attempts_append)

text \<open>One attempt: which target it is judged against, and the ledger it leaves.\<close>

lemma attempt_step:
  assumes "ledger_wf h cs (files (turn_run h cs))" and "file_attempt h c = Some (path, a)"
  obtains t rest where "target_index (files (turn_run h cs)) path = (t, rest)"
    and "target_key t = path_components path"
    and "target_wf (path_attempts h cs (path_components path)) t"
    and "files (turn_run h (cs @ [c])) = rest @ [snd (judge t (transition_of a) (outcome_of a))]"
    and "verdict_after h cs c = fst (judge t (transition_of a) (outcome_of a))"
proof -
  obtain t rest where idx: "target_index (files (turn_run h cs)) path = (t, rest)" by fastforce
  have d: "distinct (map target_key (files (turn_run h cs)))"
    and l: "length (files (turn_run h cs)) \<le> MAX_TRACKED_TARGETS"
    using assms(1) by (simp_all add: ledger_wf_def)
  note props = target_index_props [OF idx d l]
  have "target_wf (path_attempts h cs (path_components path)) t"
    using props(1,2) assms(1) target_wf_new by (auto simp: ledger_wf_def)
  then show thesis
    by (rule that [OF idx props(1)])
      (simp_all add: turn_run_snoc files_monitor_step assms(2) idx verdict_of_attempt [OF assms(2)])
qed

lemma turn_ledger_wf: "ledger_wf h cs (files (turn_run h cs))"
proof (induction cs rule: rev_induct)
  case Nil
  then show ?case by (simp add: ledger_wf_def monitor_default_def)
next
  case (snoc c cs)
  show ?case
  proof (cases "file_attempt h c")
    case None
    with snoc show ?thesis
      by (simp add: ledger_wf_def turn_run_snoc files_monitor_step path_attempts_other)
  next
    case (Some pa)
    obtain path a where pa: "pa = (path, a)" by (cases pa) auto
    obtain t rest where idx: "target_index (files (turn_run h cs)) path = (t, rest)"
      and key: "target_key t = path_components path"
      and wf: "target_wf (path_attempts h cs (path_components path)) t"
      and fs: "files (turn_run h (cs @ [c])) = rest @ [snd (judge t (transition_of a) (outcome_of a))]"
      using attempt_step [OF snoc] Some pa by metis
    note props = target_index_props [OF idx] and old = snoc [unfolded ledger_wf_def]
    have rest: "distinct (map target_key (rest @ [t]))" "length (rest @ [t]) \<le> MAX_TRACKED_TARGETS"
      "set rest \<subseteq> set (files (turn_run h cs))" "path_components path \<notin> target_key ` set rest"
      using target_index_props [OF idx] old by auto
    have "target_wf (path_attempts h (cs @ [c]) (target_key u)) u" if "u \<in> set rest" for u
      using rest(3,4) old Some that by (auto simp: pa path_attempts_attempt)
    moreover have "target_wf (path_attempts h (cs @ [c]) (path_components path))
        (snd (judge t (transition_of a) (outcome_of a)))"
      using target_wf_judge [OF wf, of a] Some by (simp add: pa path_attempts_attempt)
    ultimately show ?thesis
      using rest(1,2) key by (auto simp: ledger_wf_def fs judge_target)
  qed
qed

section \<open>Repeated failures of the other tools\<close>

definition error_sig :: "(string \<Rightarrow> hash64) \<Rightarrow> ('v, 'm) call \<Rightarrow> (string \<times> hash64) option" where
  "error_sig h c =
     (case c of (tool, arg, output) \<Rightarrow>
        if tool \<in> set FILE_WRITING_TOOLS then None else map_option (Pair tool) (error_hash h output))"

text \<open>How many calls the turn ends with that failed the way its last call did.\<close>

definition trailing_run :: "(string \<Rightarrow> hash64) \<Rightarrow> ('v, 'm) call list \<Rightarrow> nat" where
  "trailing_run h cs =
     (if cs = [] \<or> error_sig h (last cs) = None then 0
      else length (takeWhile (\<lambda>c. error_sig h c = error_sig h (last cs)) (rev cs)))"

definition streak_of :: "(string \<Rightarrow> hash64) \<Rightarrow> ('v, 'm) call list \<Rightarrow> failure_streak option" where
  "streak_of h cs =
     (if cs = [] then None
      else map_option (\<lambda>sig. \<lparr>signature = sig, streak_attempts = trailing_run h cs,
                              streak_reported = (3 \<le> trailing_run h cs)\<rparr>)
             (error_sig h (last cs)))"

lemma trailing_run_snoc:
  "trailing_run h (cs @ [c]) =
     (if error_sig h c = None then 0
      else if cs \<noteq> [] \<and> error_sig h (last cs) = error_sig h c then Suc (trailing_run h cs) else 1)"
proof (cases cs rule: rev_cases)
  case Nil
  then show ?thesis by (simp add: trailing_run_def)
next
  case (snoc ds d)
  then show ?thesis by (auto simp: trailing_run_def)
qed

lemma failures_monitor_step:
  "failures (monitor_step h m c) =
     (case c of (tool, arg, output) \<Rightarrow>
        if tool \<in> set FILE_WRITING_TOOLS then None else snd (detector_record h (failures m) tool output))"
  by (auto simp: monitor_step_def monitor_record_def split: prod.splits)

lemma detector_on_streak:
  assumes "tool \<notin> set FILE_WRITING_TOOLS"
  shows "detector_record h (streak_of h cs) tool res =
           (if error_hash h res \<noteq> None \<and> trailing_run h (cs @ [(tool, arg, res)]) = 3
            then Some (RepeatedToolFailure tool 3) else None,
            streak_of h (cs @ [(tool, arg, res)]))"
proof (cases "error_hash h res")
  case None
  then show ?thesis using assms by (simp add: detector_record_def streak_of_def error_sig_def)
next
  case (Some e)
  then have sig: "error_sig h (tool, arg, res) = Some (tool, e)"
    using assms by (simp add: error_sig_def)
  show ?thesis
    unfolding streak_of_def trailing_run_snoc sig detector_record_def Some
    by (cases "error_sig h (last cs)")
      (auto simp: sig REPEATED_TOOL_FAILURE_THRESHOLD_def Let_def)
qed

lemma turn_streak: "failures (turn_run h cs) = streak_of h cs"
proof (induction cs rule: rev_induct)
  case Nil
  then show ?case by (simp add: streak_of_def monitor_default_def)
next
  case (snoc c cs)
  obtain tool arg res where c: "c = (tool, arg, res)" by (cases c) auto
  show ?case
  proof (cases "tool \<in> set FILE_WRITING_TOOLS")
    case True
    then show ?thesis by (simp add: turn_run_snoc failures_monitor_step c streak_of_def error_sig_def)
  next
    case False
    then show ?thesis
      by (simp add: turn_run_snoc failures_monitor_step snoc c detector_on_streak [OF False, where arg = arg])
  qed
qed

lemma verdict_of_other_tool:
  assumes "file_attempt h (tool, arg, res) = None"
  shows "verdict_after h cs (tool, arg, res) =
           (if tool \<notin> set FILE_WRITING_TOOLS \<and> error_hash h res \<noteq> None \<and>
               trailing_run h (cs @ [(tool, arg, res)]) = 3
            then Some (RepeatedToolFailure tool 3) else None)"
  using detector_on_streak [of tool h cs res arg]
  by (simp add: verdict_of_other [OF assms] turn_streak)

section \<open>Reports of one file\<close>

definition verdict_key :: "progress_verdict \<Rightarrow> path_key option" where
  "verdict_key v =
     (case v of
        AttemptRepeated p _ \<Rightarrow> Some (path_components p)
      | StateRevisited p _ \<Rightarrow> Some (path_components p)
      | Futile p _ \<Rightarrow> Some (path_components p)
      | RepeatedToolFailure _ _ \<Rightarrow> None)"

definition reports_of :: "progress_verdict option \<Rightarrow> path_key \<Rightarrow> nat" where
  "reports_of v k = (if Option.bind v verdict_key = Some k then 1 else 0)"

text \<open>How often the turn reported a file, and the files it attempted to write.\<close>

definition file_reports :: "(string \<Rightarrow> hash64) \<Rightarrow> ('v, 'm) call list \<Rightarrow> path_key \<Rightarrow> nat" where
  "file_reports h cs k = sum_list (map (\<lambda>i. reports_of (verdict_after h (take i cs) (cs ! i)) k) [0..<length cs])"

definition touched :: "(string \<Rightarrow> hash64) \<Rightarrow> ('v, 'm) call list \<Rightarrow> path_key list" where
  "touched h cs = remdups (map (path_components \<circ> fst) (List.map_filter (file_attempt h) cs))"

definition refusals :: "attempt list \<Rightarrow> nat" where
  "refusals as = length (takeWhile (\<lambda>a. outcome_of a = Rejected) (rev as))"

definition window :: "attempt list \<Rightarrow> attempt list" where
  "window as = drop (length as - MAX_ATTEMPTS_PER_TARGET) as"

lemma file_reports_snoc: "file_reports h (cs @ [c]) k = file_reports h cs k + reports_of (verdict_after h cs c) k"
proof -
  have "sum_list (map (\<lambda>i. reports_of (verdict_after h (take i (cs @ [c])) ((cs @ [c]) ! i)) k) [0..<length cs])
      = sum_list (map (\<lambda>i. reports_of (verdict_after h (take i cs) (cs ! i)) k) [0..<length cs])"
    by (rule arg_cong [where f = sum_list], rule map_cong) (auto simp: nth_append)
  moreover have "take (length cs) (cs @ [c]) = cs" by simp
  ultimately show ?thesis by (simp add: file_reports_def del: take_append)
qed

lemma set_touched_snoc:
  "set (touched h (cs @ [c])) =
     set (touched h cs) \<union> (case file_attempt h c of None \<Rightarrow> {} | Some (path, a) \<Rightarrow> {path_components path})"
  by (auto simp: touched_def map_filter_def split: option.splits)

lemma length_touched: "length (touched h cs) = card (set (touched h cs))"
  by (metis distinct_card distinct_remdups touched_def)

lemma length_touched_mono: "length (touched h cs) \<le> length (touched h (cs @ [c]))"
  unfolding length_touched by (rule card_mono [OF finite_set]) (simp add: set_touched_snoc)

lemma push_window: "push_attempt (window as) a = window (as @ [a])"
proof (cases "length as < 64")
  case True
  then show ?thesis by (simp add: push_attempt_def window_def MAX_ATTEMPTS_PER_TARGET_def)
next
  case False
  then have "length as - 63 = Suc (length as - 64)" by simp
  with False show ?thesis by (simp add: push_attempt_def window_def MAX_ATTEMPTS_PER_TARGET_def)
qed

lemma length_takeWhile_take: "length (takeWhile P (take n xs)) = min n (length (takeWhile P xs))"
proof (induction xs arbitrary: n)
  case Nil
  then show ?case by simp
next
  case (Cons x xs)
  then show ?case by (cases n) auto
qed

lemma refusals_window: "refusals (window as) = min MAX_ATTEMPTS_PER_TARGET (refusals as)"
proof -
  have "rev (window as) = take MAX_ATTEMPTS_PER_TARGET (rev as)"
    by (cases "length as \<le> MAX_ATTEMPTS_PER_TARGET") (simp_all add: window_def rev_drop)
  then show ?thesis by (simp add: refusals_def length_takeWhile_take)
qed

lemma refusals_snoc: "refusals (as @ [a]) = (if outcome_of a = Rejected then Suc (refusals as) else 0)"
  by (simp add: refusals_def)

lemma reports_of_verdict:
  assumes "file_verdict_true as k v"
  shows "reports_of (Some v) l = (if l = k then 1 else 0)"
  using assms by (auto simp: reports_of_def verdict_key_def file_verdict_true_def split: progress_verdict.splits)

text \<open>A file that is judged and stays unreported has not been refused three times in a row.\<close>

lemma unreported_not_stuck:
  assumes "attempts t = window as"
    and "\<not> reported (snd (judge t (transition_of a) (outcome_of a)))"
  shows "refusals (as @ [a]) < FUTILE_STREAK_THRESHOLD"
proof (cases "outcome_of a")
  case Applied
  then show ?thesis by (simp add: refusals_snoc FUTILE_STREAK_THRESHOLD_def)
next
  case Rejected
  let ?sig = "churn_signal_for (attempts t) (transition_of a) (outcome_of a)"
  have "\<not> reported t"
    and "verdict_for (note_signal ?sig (outcome_of a) t) ?sig (outcome_of a) (length (attempts t) + 1) = None"
    using assms(2) by (auto simp: judge_target judge_verdict Let_def)
  then have "1 + refusals (window as) < FUTILE_STREAK_THRESHOLD"
    using Rejected by (auto simp: verdict_for_def Let_def refusals_def assms(1) split: if_splits)
  then show ?thesis
    using Rejected
    by (simp add: refusals_window refusals_snoc FUTILE_STREAK_THRESHOLD_def MAX_ATTEMPTS_PER_TARGET_def
          min_def split: if_splits)
qed

text \<open>While no file was evicted, every attempted file has its history, its mark and its refusals.\<close>

definition target_complete :: "(string \<Rightarrow> hash64) \<Rightarrow> ('v, 'm) call list \<Rightarrow> target_history \<Rightarrow> bool" where
  "target_complete h cs t \<longleftrightarrow>
     attempts t = window (path_attempts h cs (target_key t)) \<and>
     file_reports h cs (target_key t) = (if reported t then 1 else 0) \<and>
     (reported t \<or> refusals (path_attempts h cs (target_key t)) < FUTILE_STREAK_THRESHOLD)"

definition ledger_complete :: "(string \<Rightarrow> hash64) \<Rightarrow> ('v, 'm) call list \<Rightarrow> file_mutation_ledger \<Rightarrow> bool" where
  "ledger_complete h cs ts \<longleftrightarrow>
     target_key ` set ts = set (touched h cs) \<and> (\<forall>t \<in> set ts. target_complete h cs t) \<and>
     (\<forall>k. k \<notin> set (touched h cs) \<longrightarrow> path_attempts h cs k = [] \<and> file_reports h cs k = 0)"

lemma target_complete_new:
  assumes "path_attempts h cs (path_components path) = []" "file_reports h cs (path_components path) = 0"
  shows "target_complete h cs (new_target path)"
  using assms by (simp add: target_complete_def new_target_def window_def refusals_def FUTILE_STREAK_THRESHOLD_def)

lemma target_complete_judge:
  assumes "target_complete h cs t" and "target_wf (path_attempts h cs (path_components path)) t"
    and "target_key t = path_components path" and "file_attempt h c = Some (path, a)"
    and v: "verdict_after h cs c = fst (judge t (transition_of a) (outcome_of a))"
  shows "target_complete h (cs @ [c]) (snd (judge t (transition_of a) (outcome_of a)))"
proof -
  let ?as = "path_attempts h cs (path_components path)"
  let ?t = "snd (judge t (transition_of a) (outcome_of a))"
  have as: "attempts t = window ?as" using assms(1,3) by (simp add: target_complete_def)
  have "reports_of (verdict_after h cs c) (path_components path)
      = (if fst (judge t (transition_of a) (outcome_of a)) = None then 0 else 1)"
    using judge_verdict_true [OF assms(2), of a] reports_of_verdict
    by (cases "fst (judge t (transition_of a) (outcome_of a))") (auto simp: v assms(3) reports_of_def [of None])
  moreover have "reported t \<Longrightarrow> fst (judge t (transition_of a) (outcome_of a)) = None"
    by (simp add: judge_verdict)
  moreover have "reported ?t \<or> refusals (?as @ [a]) < FUTILE_STREAK_THRESHOLD"
    using unreported_not_stuck [OF as, of a] by blast
  moreover have "attempts ?t = window (?as @ [a])"
    by (simp add: judge_attempts as push_window)
  ultimately show ?thesis
    using assms(1,3,4)
    by (auto simp: target_complete_def judge_target(1,5) path_attempts_attempt file_reports_snoc)
qed

lemma other_file_untouched:
  assumes "target_wf (path_attempts h cs (path_components path)) t" and "target_key t = path_components path"
    and "file_attempt h c = Some (path, a)"
    and "verdict_after h cs c = fst (judge t (transition_of a) (outcome_of a))"
    and "k \<noteq> path_components path"
  shows "path_attempts h (cs @ [c]) k = path_attempts h cs k \<and> file_reports h (cs @ [c]) k = file_reports h cs k"
proof -
  have "reports_of (verdict_after h cs c) k = 0"
    using judge_verdict_true [OF assms(1), of a] assms(2,5) reports_of_verdict
    by (cases "fst (judge t (transition_of a) (outcome_of a))") (auto simp: assms(4) reports_of_def [of None])
  then show ?thesis using assms(5) by (simp add: path_attempts_attempt [OF assms(3)] file_reports_snoc)
qed

lemma target_index_complete:
  assumes "ledger_complete h cs ts" and "target_index ts path = (t, rest)"
    and "distinct (map target_key ts)" and "length ts \<le> MAX_TRACKED_TARGETS"
    and "card (insert (path_components path) (set (touched h cs))) \<le> MAX_TRACKED_TARGETS"
  shows "target_complete h cs t" and "insert t (set rest) = insert t (set ts)"
proof -
  have keys: "target_key ` set ts = set (touched h cs)" using assms(1) by (simp add: ledger_complete_def)
  note props = target_index_props [OF assms(2,3,4)]
  have "length ts = card (set (touched h cs))" using distinct_card [OF assms(3)] keys by simp
  then have "length ts < MAX_TRACKED_TARGETS \<or> t \<in> set ts" using assms(5) props(2) keys by auto
  then show "insert t (set rest) = insert t (set ts)" by (rule props(7))
  have new: "path_components path \<notin> set (touched h cs) \<Longrightarrow>
      path_attempts h cs (path_components path) = [] \<and> file_reports h cs (path_components path) = 0"
    using assms(1) unfolding ledger_complete_def by blast
  show "target_complete h cs t"
    using props(2)
  proof
    assume "t \<in> set ts"
    then show ?thesis using assms(1) by (simp add: ledger_complete_def)
  next
    assume "t = new_target path \<and> path_components path \<notin> target_key ` set ts"
    then show ?thesis using new keys target_complete_new [of h cs path] by simp
  qed
qed

lemma ledger_complete_attempt:
  assumes IH: "ledger_complete h cs (files (turn_run h cs))"
    and att: "file_attempt h c = Some (path, a)"
    and prem: "length (touched h (cs @ [c])) \<le> MAX_TRACKED_TARGETS"
  shows "ledger_complete h (cs @ [c]) (files (turn_run h (cs @ [c])))"
proof -
  let ?k = "path_components path" and ?ts = "files (turn_run h cs)"
  obtain t rest where idx: "target_index ?ts path = (t, rest)"
    and key: "target_key t = ?k" and wf: "target_wf (path_attempts h cs ?k) t"
    and fs: "files (turn_run h (cs @ [c])) = rest @ [snd (judge t (transition_of a) (outcome_of a))]"
    and v: "verdict_after h cs c = fst (judge t (transition_of a) (outcome_of a))"
    using attempt_step [OF turn_ledger_wf att] by metis
  have d: "distinct (map target_key ?ts)" and l: "length ?ts \<le> MAX_TRACKED_TARGETS"
    using turn_ledger_wf [of h cs] by (simp_all add: ledger_wf_def)
  have few: "card (insert ?k (set (touched h cs))) \<le> MAX_TRACKED_TARGETS"
    using prem att by (simp add: length_touched set_touched_snoc)
  note props = target_index_props [OF idx d l] and full = target_index_complete [OF IH idx d l few]
    and other = other_file_untouched [OF wf key att v]
  have "target_complete h (cs @ [c]) (snd (judge t (transition_of a) (outcome_of a)))"
    by (rule target_complete_judge [OF full(1) wf key att v])
  moreover have "target_complete h (cs @ [c]) u" if "u \<in> set rest" for u
  proof -
    have "target_key u \<noteq> ?k" using imageI [OF that, of target_key] props(4) by metis
    moreover have "u \<in> set ?ts" using props(3) that by blast
    ultimately show ?thesis
      using IH other [of "target_key u"] by (simp add: ledger_complete_def target_complete_def)
  qed
  moreover have "target_key ` set (files (turn_run h (cs @ [c]))) = set (touched h (cs @ [c]))"
  proof -
    have "target_key ` set (files (turn_run h (cs @ [c]))) = target_key ` insert t (set rest)"
      by (simp add: fs judge_target)
    then show ?thesis using IH key by (simp add: full(2) set_touched_snoc att ledger_complete_def)
  qed
  moreover have "path_attempts h (cs @ [c]) k = [] \<and> file_reports h (cs @ [c]) k = 0"
    if "k \<notin> set (touched h (cs @ [c]))" for k
  proof -
    have "k \<noteq> ?k" "k \<notin> set (touched h cs)" using that by (auto simp: set_touched_snoc att)
    then show ?thesis using IH other unfolding ledger_complete_def by metis
  qed
  ultimately show ?thesis by (auto simp: ledger_complete_def fs)
qed

lemma turn_ledger_complete:
  "length (touched h cs) \<le> MAX_TRACKED_TARGETS \<Longrightarrow> ledger_complete h cs (files (turn_run h cs))"
proof (induction cs rule: rev_induct)
  case Nil
  then show ?case by (simp add: ledger_complete_def monitor_default_def touched_def map_filter_def file_reports_def)
next
  case (snoc c cs)
  have IH: "ledger_complete h cs (files (turn_run h cs))"
    using snoc length_touched_mono [of h cs c] by simp
  show ?case
  proof (cases "file_attempt h c")
    case None
    obtain tool arg res where c: "c = (tool, arg, res)" by (cases c) auto
    have "reports_of (verdict_after h cs c) k = 0" for k
      using verdict_of_other_tool [OF None [unfolded c], of cs]
      by (simp add: c reports_of_def verdict_key_def)
    then show ?thesis
      using IH
      by (simp add: ledger_complete_def target_complete_def turn_run_snoc files_monitor_step
            None path_attempts_other file_reports_snoc set_touched_snoc)
  next
    case (Some pa)
    then show ?thesis
      using ledger_complete_attempt [OF IH _ snoc.prems] by (cases pa) simp
  qed
qed

section \<open>Properties\<close>

text \<open>C21: no false accusation. Every verdict the monitor returns after any history of a turn is true of
  the whole history, not only of the windows it keeps: a churn verdict names the file just attempted,
  at least three attempts on that file repeated or undid an earlier one, the present one among them;
  a futile one counts at most the refused attempts the file's history ends with, and at least three; a
  repeated failure is the third of a run of calls of that tool with one error.\<close>

theorem accusations_true:
  assumes "verdict_after h cs c = Some v"
  shows "case v of
           RepeatedToolFailure tool n \<Rightarrow>
             n = 3 \<and> trailing_run h (cs @ [c]) = 3 \<and> map_option fst (error_sig h c) = Some tool
         | _ \<Rightarrow> \<exists>path a. file_attempt h c = Some (path, a) \<and>
                 file_verdict_true (path_attempts h (cs @ [c]) (path_components path)) (path_components path) v"
proof (cases "file_attempt h c")
  case None
  obtain tool arg res where c: "c = (tool, arg, res)" by (cases c) auto
  have "tool \<notin> set FILE_WRITING_TOOLS" and "error_hash h res \<noteq> None \<and> trailing_run h (cs @ [c]) = 3"
    and "v = RepeatedToolFailure tool 3"
    using assms verdict_of_other_tool [OF None [unfolded c], of cs] by (auto simp: c split: if_splits)
  then show ?thesis by (auto simp: c error_sig_def)
next
  case (Some pa)
  obtain path a where pa: "pa = (path, a)" by (cases pa) auto
  obtain t where "target_key t = path_components path"
    and "target_wf (path_attempts h cs (path_components path)) t"
    and "verdict_after h cs c = fst (judge t (transition_of a) (outcome_of a))"
    using attempt_step [OF turn_ledger_wf, of h c path a cs] Some pa by metis
  then have "file_verdict_true (path_attempts h (cs @ [c]) (path_components path)) (path_components path) v"
    using judge_verdict_true [of "path_attempts h cs (path_components path)" t a v] assms Some
    by (simp add: pa path_attempts_attempt)
  then show ?thesis using Some by (auto simp: pa file_verdict_true_def split: progress_verdict.splits)
qed

definition sample_edit :: "string \<Rightarrow> string \<Rightarrow> (unit, unit) call" where
  "sample_edit old new =
     (''Edit'', [''file_path'' \<mapsto> ''a.c'', ''old_string'' \<mapsto> old, ''new_string'' \<mapsto> new], Inr (OutText ''ok''))"

definition sample_hash :: "string \<Rightarrow> hash64" where
  "sample_hash s = of_nat (sum_list (map char_code s))"

lemma sample_oscillation:
  "verdict_after sample_hash [sample_edit ''x'' ''y'', sample_edit ''y'' ''x'', sample_edit ''x'' ''y'']
     (sample_edit ''y'' ''x'') = Some (AttemptRepeated ''a.c'' 4)"
  by code_simp

theorem accusations_true_witness:
  "verdict_after sample_hash [sample_edit ''x'' ''y'', sample_edit ''y'' ''x'', sample_edit ''x'' ''y'']
     (sample_edit ''y'' ''x'') = Some (AttemptRepeated ''a.c'' 4) \<and>
   (\<exists>path a. file_attempt sample_hash (sample_edit ''y'' ''x'') = Some (path, a) \<and>
      file_verdict_true
        (path_attempts sample_hash [sample_edit ''x'' ''y'', sample_edit ''y'' ''x'', sample_edit ''x'' ''y'',
           sample_edit ''y'' ''x''] (path_components path))
        (path_components path) (AttemptRepeated ''a.c'' 4))"
  using accusations_true [OF sample_oscillation] sample_oscillation by simp

text \<open>The failure detector is exact. A call of a tool that writes no file is reported exactly when it
  is the third of the calls the turn ends with that failed with this tool and this error: neither the
  second, nor the fourth or any later one of the same run.\<close>

lemma repeated_failure_exact:
  assumes "tool \<notin> set FILE_WRITING_TOOLS"
  shows "verdict_after h cs (tool, arg, res) =
           (if error_hash h res \<noteq> None \<and> trailing_run h (cs @ [(tool, arg, res)]) = 3
            then Some (RepeatedToolFailure tool 3) else None)"
proof -
  have "file_attempt h (tool, arg, res) = None" using assms by (simp add: file_attempt_def)
  then show ?thesis using assms by (simp add: verdict_of_other_tool)
qed

lemma repeated_failure_exact_witness:
  "''Bash'' \<notin> set FILE_WRITING_TOOLS \<and>
   verdict_after sample_hash [(''Bash'', Map.empty, Inl ''e''), (''Bash'', Map.empty, Inr (OutError ''e''))]
     (''Bash'', Map.empty, Inl ''e'' :: (unit, unit) tool_result) = Some (RepeatedToolFailure ''Bash'' 3)"
proof -
  have tool: "''Bash'' \<notin> set FILE_WRITING_TOOLS" by code_simp
  have "error_hash sample_hash (Inl ''e'' :: (unit, unit) tool_result) \<noteq> None" by (simp add: error_hash_def)
  moreover have "trailing_run sample_hash ([(''Bash'', Map.empty, Inl ''e''), (''Bash'', Map.empty, Inr (OutError ''e''))]
      @ [(''Bash'', Map.empty, Inl ''e'' :: (unit, unit) tool_result)]) = 3"
    by code_simp
  ultimately show ?thesis using tool by (simp add: repeated_failure_exact [OF tool])
qed

text \<open>One report per file, and no file is refused in silence. In a turn that writes at most 128
  files, each file is reported at most once however often it churns, and a file whose last three
  attempts were all refused has been reported.\<close>

lemma one_report_per_file:
  assumes "length (touched h cs) \<le> 128"
  shows "file_reports h cs k \<le> 1 \<and> (3 \<le> refusals (path_attempts h cs k) \<longrightarrow> file_reports h cs k = 1)"
proof -
  have full: "ledger_complete h cs (files (turn_run h cs))"
    using turn_ledger_complete assms by (simp add: MAX_TRACKED_TARGETS_def)
  show ?thesis
  proof (cases "k \<in> set (touched h cs)")
    case True
    then obtain t where "t \<in> set (files (turn_run h cs))" "target_key t = k"
      using full by (force simp: ledger_complete_def)
    then have "target_complete h cs t" using full by (simp add: ledger_complete_def)
    then show ?thesis
      by (auto simp: target_complete_def FUTILE_STREAK_THRESHOLD_def \<open>target_key t = k\<close>)
  next
    case False
    then have "path_attempts h cs k = [] \<and> file_reports h cs k = 0"
      using full unfolding ledger_complete_def by blast
    then show ?thesis by (simp add: refusals_def)
  qed
qed

definition sample_refused :: "string \<Rightarrow> (unit, unit) call" where
  "sample_refused body = (''Write'', [''file_path'' \<mapsto> ''./b'', ''content'' \<mapsto> body], Inl ''denied'')"

lemma one_report_per_file_witness:
  "file_reports sample_hash
     [sample_refused ''1'', sample_edit ''x'' ''y'', sample_refused ''2'', sample_refused ''3'', sample_refused ''4'']
     (path_components ''.//b/'') = 1"
proof -
  let ?cs = "[sample_refused ''1'', sample_edit ''x'' ''y'', sample_refused ''2'', sample_refused ''3'', sample_refused ''4'']"
  have "length (touched sample_hash ?cs) \<le> 128" by code_simp
  moreover have "3 \<le> refusals (path_attempts sample_hash ?cs (path_components ''.//b/''))" by code_simp
  ultimately show ?thesis using one_report_per_file by blast
qed

text \<open>The windows are bounded: at most 128 files, each once, with at most 64 attempts.\<close>

lemma monitor_bounded:
  "length (files (turn_run h cs)) \<le> 128 \<and> distinct (map target_key (files (turn_run h cs))) \<and>
   list_all (\<lambda>t. length (attempts t) \<le> 64) (files (turn_run h cs))"
  using turn_ledger_wf [of h cs]
  by (auto simp: ledger_wf_def target_wf_def list_all_iff MAX_TRACKED_TARGETS_def MAX_ATTEMPTS_PER_TARGET_def)

end
