(* ===== verification/PunchRendezvous.thy ===== *)
theory PunchRendezvous
  imports PunchRegistry
begin

text \<open>
  What the registry of punches guarantees over its histories: its bounds and offer rates, that the wait it
  tells a refused phone is long enough, that admission ends, that a report settles its punch once, and
  that the UDP rendezvous introduces only the two ends of a punch and amplifies nothing.
\<close>

section \<open>When to retry\<close>

lemma recent_length_mono: "now \<le> later \<Longrightarrow> length (recent later ts) \<le> length (recent now ts)"
  unfolding recent_def by (induction ts) auto

lemma window_room_later:
  assumes "sorted w" and "length w \<le> cap" and "0 < cap"
    and "\<And>x. (if length w < cap then None else Some (saturating_since (hd w + OFFER_BUDGET_WINDOW) now)) = Some x \<Longrightarrow>
      x \<le> later - now"
  shows "length (recent later w) < cap"
proof (cases "length w < cap")
  case True
  then show ?thesis unfolding recent_def using length_filter_le le_less_trans by blast
next
  case False
  then obtain o' ws where w: "w = o' # ws" using assms(3) by (cases w) auto
  have "saturating_since (o' + OFFER_BUDGET_WINDOW) now \<le> later - now"
    using assms(4) False w by simp
  then have "o' + OFFER_BUDGET_WINDOW \<le> later" by (simp add: saturating_since_def)
  then have "recent later w = recent later ws" by (simp add: w recent_def)
  then have "length (recent later w) \<le> length ws" by (simp add: recent_def)
  then show ?thesis using assms(2) w by simp
qed

lemma count_live_later:
  assumes "count_punches P ps \<le> cap"
    and "count_punches P ps < cap \<or> (\<exists>x \<in> set ps. P (snd x) \<and> expires_at (snd x) \<le> later)"
  shows "count_punches P (hm_retain (\<lambda>_ p. punch_is_live p later) ps) < cap"
proof (cases "count_punches P ps < cap")
  case True
  then show ?thesis using count_retain le_less_trans by blast
next
  case False
  then obtain x where x: "x \<in> set ps" "P (snd x)" "expires_at (snd x) \<le> later" using assms(2) by blast
  have "count_punches P (hm_retain (\<lambda>_ p. punch_is_live p later) ps) < count_punches P ps"
    using x unfolding count_punches_alt hm_retain_def filter_filter
  proof (induction ps)
    case Nil
    then show ?case by simp
  next
    case (Cons y ps)
    have "length (filter (\<lambda>z. punch_is_live (snd z) later \<and> P (snd z)) ps) \<le> length (filter (\<lambda>z. P (snd z)) ps)"
      by (induction ps) auto
    with Cons show ?case by (auto simp: punch_is_live_def)
  qed
  then show ?thesis using assms(1) by simp
qed

lemma min_wait_later:
  assumes "map_option (\<lambda>e. saturating_since e now) (iter_min (map expires_at held)) = Some x" and "x \<le> later - now"
  shows "\<exists>p \<in> set held. expires_at p \<le> later"
proof -
  obtain e where "iter_min (map expires_at held) = Some e" "x = saturating_since e now" using assms(1) by auto
  then show ?thesis using iter_min_Some [of "map expires_at held" e] assms(2) by (auto simp: saturating_since_def)
qed

text \<open>What the waits of a refused offer add up to: every one of them is over by \<open>later\<close>.\<close>

definition waits_over :: "punch_table \<Rightarrow> punch_request \<Rightarrow> instant \<Rightarrow> instant \<Rightarrow> bool" where
  "waits_over t req now later \<longleftrightarrow> (\<forall>x \<in> set (offer_waits t req now). snd x \<le> later - now)"

lemma fold_longest:
  fixes w :: int
  shows "x \<in> set ((l, w) # ws) \<Longrightarrow> snd x \<le> foldl (\<lambda>longest (_, w). max longest w) w ws"
proof (induction ws arbitrary: l w x)
  case Nil
  then show ?case by simp
next
  case (Cons y ws)
  obtain m v where y: "y = (m, v)" by (cases y)
  have start: "max w v \<le> foldl (\<lambda>longest (_, w). max longest w) (max w v) ws"
    using Cons.IH [where x = "(l, max w v)" and l = l and w = "max w v"] by simp
  show ?case
    using Cons.prems Cons.IH [where x = x and l = l and w = "max w v"] start by (auto simp: y)
qed

lemma limited_waits_over:
  assumes "table_admit draws ks t req now = Some (Inl (PLimited l d), t')" and "now + d \<le> later"
  shows "waits_over t req now later"
proof -
  have "offer_waits t req now \<noteq> []" using assms(1) by (cases rule: table_admit_cases) simp_all
  then obtain m w ws where ws: "offer_waits t req now = (m, w) # ws" by (metis list.exhaust surj_pair)
  then have "d = foldl (\<lambda>longest (_, w). max longest w) w ws" using assms(1) by (simp add: table_admit_def)
  then show ?thesis
    using assms(2) fold_longest [of _ m w ws] unfolding waits_over_def ws by fastforce
qed

lemma waits_over_each:
  assumes "waits_over t req now later"
  shows "source_wait (budget t) (pr_node req, pr_source req) now = Some x \<Longrightarrow> x \<le> later - now"
    and "node_wait (budget t) (pr_node req) now = Some x \<Longrightarrow> x \<le> later - now"
    and "in_flight_wait t (pr_node req) now = Some x \<Longrightarrow> x \<le> later - now"
    and "client_wait t (pr_source req) now = Some x \<Longrightarrow> x \<le> later - now"
proof -
  have set_map_filter: "y \<in> set (List.map_filter f xs) \<longleftrightarrow> (\<exists>x \<in> set xs. f x = Some y)"
    for f :: "offer_limit \<times> int option \<Rightarrow> (offer_limit \<times> int) option" and xs y
    by (force simp: map_filter_def)
  have each: "x \<le> later - now"
    if "(l, Some x) \<in> set [(SourceRate, source_wait (budget t) (pr_node req, pr_source req) now),
        (NodeRate, node_wait (budget t) (pr_node req) now), (InFlight, in_flight_wait t (pr_node req) now),
        (ClientPending, client_wait t (pr_source req) now)]" for l x
  proof -
    have "(l, x) \<in> set (offer_waits t req now)"
      unfolding offer_waits_def set_map_filter using that by (intro bexI [of _ "(l, Some x)"]) simp_all
    then show ?thesis using assms by (fastforce simp: waits_over_def)
  qed
  show "source_wait (budget t) (pr_node req, pr_source req) now = Some x \<Longrightarrow> x \<le> later - now"
    by (rule each [of SourceRate]) simp
  show "node_wait (budget t) (pr_node req) now = Some x \<Longrightarrow> x \<le> later - now"
    by (rule each [of NodeRate]) simp
  show "in_flight_wait t (pr_node req) now = Some x \<Longrightarrow> x \<le> later - now"
    by (rule each [of InFlight]) simp
  show "client_wait t (pr_source req) now = Some x \<Longrightarrow> x \<le> later - now"
    by (rule each [of ClientPending]) simp
qed

lemma held_room_later:
  assumes "count_punches P ps \<le> cap" and "0 < cap"
    and "\<And>x. (let held = filter P (map snd ps) in
        if length held < cap then None
        else map_option (\<lambda>e. saturating_since e now) (iter_min (map expires_at held))) = Some x \<Longrightarrow> x \<le> later - now"
  shows "count_punches P (hm_retain (\<lambda>_ p. punch_is_live p later) ps) < cap"
proof (rule count_live_later [OF assms(1)])
  let ?held = "filter P (map snd ps)"
  show "count_punches P ps < cap \<or> (\<exists>x \<in> set ps. P (snd x) \<and> expires_at (snd x) \<le> later)"
  proof (cases "count_punches P ps < cap")
    case False
    then have "?held \<noteq> []" using assms(2) by (auto simp: count_punches_def simp del: length_filter_map)
    then obtain x where x: "map_option (\<lambda>e. saturating_since e now) (iter_min (map expires_at ?held)) = Some x"
      by (cases "iter_min (map expires_at ?held)") auto
    moreover have "x \<le> later - now"
      using assms(3) [of x] False x by (simp add: count_punches_def Let_def del: length_filter_map)
    ultimately obtain p where "p \<in> set ?held" "expires_at p \<le> later" using min_wait_later by blast
    then show ?thesis by auto
  qed simp
qed

lemma window_cap:
  assumes "windows_inv now c ts_of m" and "\<forall>t \<in> set (ts_of k). t \<le> now"
  shows "length (window_of m k) \<le> c"
proof -
  have "recent now (ts_of k) = filter (\<lambda>t. now < t + OFFER_BUDGET_WINDOW \<and> t \<le> now) (ts_of k)"
    unfolding recent_def using assms(2) by (intro filter_cong) auto
  then show ?thesis using assms(1) by (simp add: windows_inv_def rate_ok_def)
qed

lemma budget_room_later:
  assumes "windows_inv now c ts_of m" "\<forall>t \<in> set (ts_of k). t \<le> now" "0 < c"
    and "\<And>x. budget_wait (hm_get m k) c now = Some x \<Longrightarrow> x \<le> later - now"
  shows "length (window_of (prune_windows later m) k) < c"
proof -
  have s: "sorted (window_of m k)" "hm_ok m" using assms(1) by (auto simp: windows_inv_def sorted_recent)
  have "length (recent later (window_of m k)) < c"
    by (rule window_room_later [OF s(1) window_cap [OF assms(1,2)] assms(3)])
      (rule assms(4), simp add: budget_wait_window [OF assms(3)])
  then show ?thesis by (simp add: window_of_prune s)
qed

lemmas offer_cap_defs = DIRECT_OFFERS_PER_SOURCE_PER_MINUTE_def DIRECT_OFFERS_PER_NODE_PER_MINUTE_def
  MAX_INFLIGHT_PUNCHES_PER_NODE_def MAX_PENDING_PUNCHES_PER_CLIENT_def MAX_PENDING_PUNCHES_def
  MAX_DATAGRAMS_PER_PUNCH_def

lemma room_later:
  assumes inv: "world_inv hmac seen w" "budget_inv now log (budget (pw_table w))"
    and w': "w' = punch_sweep w now"
    and over: "waits_over (pw_table w') req now later"
  shows "offer_waits (pw_table (punch_sweep w' later)) req later = []"
proof -
  let ?b = "budget (pw_table w')" and ?k = "(pr_node req, pr_source req)"
  have winv: "windows_inv now DIRECT_OFFERS_PER_SOURCE_PER_MINUTE (source_times log) (per_source ?b)"
    "windows_inv now DIRECT_OFFERS_PER_NODE_PER_MINUTE (node_times log) (per_node ?b)"
    using budget_inv_prune [OF inv(2)] by (auto simp: w' sweep_budget)
  have past: "\<forall>t \<in> set (source_times log k). t \<le> now" "\<forall>t \<in> set (node_times log n). t \<le> now" for k n
    using inv(2) by (auto simp: budget_inv_def source_times_def node_times_def)
  have pinv: "punches_inv (live_punches w')"
    using world_inv_sweep [OF inv(1)] by (simp add: world_inv_def w')
  have "source_wait (budget (pw_table (punch_sweep w' later))) ?k later = None"
    unfolding source_wait_None sweep_budget
    using budget_room_later [OF winv(1) past(1), of ?k] waits_over_each(1) [OF over]
    by (simp add: budget_prune_def source_wait_def offer_cap_defs)
  moreover have "node_wait (budget (pw_table (punch_sweep w' later))) (pr_node req) later = None"
    unfolding node_wait_None sweep_budget
    using budget_room_later [OF winv(2) past(2), of "pr_node req"] waits_over_each(2) [OF over]
    by (simp add: budget_prune_def node_wait_def offer_cap_defs)
  moreover have "in_flight_wait (pw_table (punch_sweep w' later)) (pr_node req) later = None"
    unfolding in_flight_wait_None sweep_live
    using pinv waits_over_each(3) [OF over] unfolding in_flight_wait_def
    by (intro held_room_later) (simp_all add: punches_inv_def offer_cap_defs)
  moreover have "client_wait (pw_table (punch_sweep w' later)) (pr_source req) later = None"
  proof (cases "pr_source req")
    case None
    then show ?thesis by (simp add: client_wait_def)
  next
    case (Some c)
    show ?thesis
      unfolding Some client_wait_None sweep_live
      using pinv waits_over_each(4) [OF over] unfolding client_wait_def Some option.case
      by (intro held_room_later) (simp_all add: punches_inv_def offer_cap_defs)
  qed
  ultimately show ?thesis by (simp add: offer_waits_Nil)
qed

lemma capacity_later:
  assumes "world_inv hmac seen w" and "capacity_wait (pw_table (punch_sweep w now)) now = Some d"
    and "now + d \<le> later"
  shows "capacity_wait (pw_table (punch_sweep (punch_sweep w now) later)) later = None"
proof -
  let ?ps = "live_punches (punch_sweep w now)"
  have len: "count_punches (\<lambda>_. True) ps = length ps" for ps by (simp add: count_punches_def)
  have "iter_min (map (\<lambda>p. saturating_since (expires_at (snd p)) now) ?ps) = Some d"
    using assms(2) by (simp add: capacity_wait_def split: if_splits)
  from iter_min_Some [OF this] obtain x where "x \<in> set ?ps" "expires_at (snd x) \<le> later"
    using assms(3) by (auto simp: saturating_since_def)
  moreover have "length ?ps \<le> MAX_PENDING_PUNCHES"
    using world_inv_sweep [OF assms(1), of now] by (simp add: world_inv_def punches_inv_def)
  ultimately have "length (hm_retain (\<lambda>_ p. punch_is_live p later) ?ps) < MAX_PENDING_PUNCHES"
    using count_live_later [of "\<lambda>_. True" ?ps MAX_PENDING_PUNCHES later] unfolding len by blast
  then show ?thesis by (simp add: capacity_wait_None sweep_live)
qed

lemma fresh_punch_id_ends:
  "hm_get ps (draws (i + n)) = None \<Longrightarrow> \<exists>pid. fresh_punch_id draws ps i = Some pid"
proof (induction n arbitrary: i)
  case 0
  then show ?case by (subst fresh_punch_id.simps) simp
next
  case (Suc n)
  then show ?case using Suc.IH [of "Suc i"] by (subst fresh_punch_id.simps) auto
qed

lemma fresh_punch_id_total:
  assumes "distinct (map draws [0..<Suc (length ps)])"
  shows "\<exists>pid. fresh_punch_id draws ps 0 = Some pid"
proof -
  have "\<not> set (map draws [0..<Suc (length ps)]) \<subseteq> fst ` set ps"
  proof
    assume "set (map draws [0..<Suc (length ps)]) \<subseteq> fst ` set ps"
    then have "card (set (map draws [0..<Suc (length ps)])) \<le> card (fst ` set ps)" by (intro card_mono) simp_all
    also have "\<dots> \<le> length ps" using card_image_le [of "set ps" fst] card_length [of ps] by simp
    finally show False using distinct_card [OF assms] by simp
  qed
  then obtain n where "hm_get ps (draws n) = None" by (auto simp: hm_get_None)
  then show ?thesis using fresh_punch_id_ends [of ps draws 0 n] by simp
qed

lemma draws_suffice:
  assumes "distinct (map draws [0..<4097])" and "length ps \<le> 4096"
  shows "\<exists>pid. fresh_punch_id draws ps 0 = Some pid"
proof -
  have "take (Suc (length ps)) (map draws [0..<4097]) = map draws [0..<Suc (length ps)]"
    using assms(2) by (simp add: take_map del: upt_Suc)
  then have "distinct (map draws [0..<Suc (length ps)])" using assms(1) by (metis distinct_take)
  then show ?thesis by (rule fresh_punch_id_total)
qed

section \<open>Properties\<close>

text \<open>Whatever gateways, phones and datagrams do, the relay never holds more than 4096 punches, more
  than 64 of one client, more than two in flight per gateway, or answers more than 64 datagrams of one
  punch.\<close>

lemma punch_registry_bounded:
  "let ps = live_punches (world (history hmac t ops)) in
     length ps \<le> 4096 \<and> count_punches (\<lambda>p. pu_client p = Some c) ps \<le> 64 \<and>
     count_punches (\<lambda>p. pu_node p = n \<and> in_flight p) ps \<le> 2 \<and>
     list_all (\<lambda>x. pu_datagrams (snd x) \<le> 64) ps"
  using history_inv [of hmac t ops]
  by (simp add: Let_def history_inv_def punches_inv_def offer_cap_defs list_all_iff)

text \<open>The offer rates hold over every minute. Of all offers ever admitted, no stretch of sixty seconds
  holds more than six of one client for one gateway, or more than thirty for one gateway.\<close>

lemma offer_rates_hold:
  "let log = admitted (history hmac t ops) in
     length (filter (\<lambda>at. u - secs 60 < at \<and> at \<le> u) (source_times log k)) \<le> 6 \<and>
     length (filter (\<lambda>at. u - secs 60 < at \<and> at \<le> u) (node_times log n)) \<le> 30"
proof -
  have "budget_inv (clock (history hmac t ops)) (admitted (history hmac t ops))
      (budget (pw_table (world (history hmac t ops))))"
    using history_inv [of hmac t ops] by (simp add: history_inv_def)
  from budget_inv_rates [OF this] have "rate_ok 6 (source_times (admitted (history hmac t ops)) k)"
    "rate_ok 30 (node_times (admitted (history hmac t ops)) n)"
    by (simp_all add: offer_cap_defs)
  then show ?thesis
    by (simp add: rate_ok_def Let_def OFFER_BUDGET_WINDOW_def diff_less_eq)
qed

text \<open>C36: the wait a refused phone is told is long enough. If nothing else happens, the same offer made
  again once that time has passed is not limited again, and one refused because the table was full is
  admitted, provided the ids drawn for it differ from one another.\<close>

theorem retry_after_is_enough:
  assumes "s = history hmac t ops" and "clock s \<le> now"
    and "punch_admit draws ks now req (world s) = Some (Inl refusal, w')"
    and "now + (case refusal of PLimited _ d \<Rightarrow> d | PAtCapacity d \<Rightarrow> d) \<le> later"
    and "distinct (map draws' [0..<4097])"
  shows "\<exists>res w''. punch_admit draws' ks' later req w' = Some (res, w'') \<and>
     (case (refusal, res) of
        (PAtCapacity _, Inr _) \<Rightarrow> True
      | (PLimited _ _, Inr _) \<Rightarrow> True
      | (PLimited _ _, Inl (PAtCapacity _)) \<Rightarrow> True
      | _ \<Rightarrow> False)"
proof -
  have inv: "world_inv hmac (arrived s) (world s)" "budget_inv now (admitted s) (budget (pw_table (world s)))"
    using history_inv [of hmac t ops] budget_inv_later [OF _ assms(2)] by (auto simp: history_inv_iff assms(1))
  from assms(3) have w': "w' = punch_sweep (world s) now"
    and adm: "table_admit draws ks (pw_table w') req now = Some (Inl refusal, pw_table w')"
    by (auto elim!: punch_admit_cases)
  let ?t = "pw_table (punch_sweep w' later)"
  have over: "waits_over (pw_table w') req now later"
    using adm
  proof (cases rule: table_admit_cases)
    case (limited l d)
    then show ?thesis using limited_waits_over adm assms(4) by simp
  next
    case (full d)
    then show ?thesis by (simp add: waits_over_def)
  qed simp
  have room: "offer_waits ?t req later = []" by (rule room_later [OF inv w' over])
  have small: "length (pt_punches ?t) \<le> 4096"
    using world_inv_sweep [OF world_inv_sweep [OF inv(1)]] by (simp add: world_inv_def punches_inv_def w' offer_cap_defs)
  obtain pid where pid: "fresh_punch_id draws' (pt_punches ?t) 0 = Some pid"
    using draws_suffice [OF assms(5) small] by blast
  have free: "capacity_wait ?t later = None" if "refusal = PAtCapacity d" for d
  proof -
    have "capacity_wait (pw_table w') now = Some d" using adm that by (auto elim!: table_admit_cases)
    then show ?thesis using capacity_later inv(1) assms(4) that by (simp add: w')
  qed
  show ?thesis
  proof (cases "capacity_wait ?t later")
    case None
    then show ?thesis
      using room pid by (cases refusal) (simp_all add: punch_admit_def table_admit_def Let_def)
  next
    case (Some d)
    then show ?thesis
      using room free by (cases refusal) (simp_all add: punch_admit_def table_admit_def Let_def)
  qed
qed

definition sample_draws :: "nat \<Rightarrow> nat \<Rightarrow> punch_id" where
  "sample_draws n i = u16_to_be (of_nat (n + i)) @ replicate 14 0"

definition sample_keys :: role_keys where
  "sample_keys = \<lparr>rk_gateway = replicate 32 1, rk_device = replicate 32 2\<rparr>"

definition sample_request :: punch_request where
  "sample_request =
     \<lparr>pr_node = ''node'', pr_key = ''key'', pr_token = 7, pr_source = Some (SourceKey (V4 134744072)),
      pr_rendezvous = Some ''c:1'', pr_timeout = secs 3\<rparr>"

declare fresh_punch_id.simps [code]

text \<open>A code whose tag is the key's first byte and the length of what was signed, 32 bytes in all.\<close>

definition sample_mac :: mac where
  "sample_mac key msg = Some (hd key # of_nat (length msg) # replicate 30 0)"

lemma sample_draws_distinct: "n + m \<le> 65536 \<Longrightarrow> distinct (map (sample_draws n) [0..<m])"
proof -
  have "i = j" if "n + m \<le> 65536" "i < m" "j < m" "sample_draws n i = sample_draws n j" for i j
  proof -
    have "(of_nat (n + i) :: 16 word) = of_nat (n + j)" using that(4) by (simp add: sample_draws_def u16_inject)
    then have "unat (of_nat (n + i) :: 16 word) = unat (of_nat (n + j) :: 16 word)" by (rule arg_cong)
    moreover have "unat (of_nat k :: 16 word) = k" if "k < 65536" for k
      unfolding unat_of_nat using that by (simp add: take_bit_nat_eq_self)
    ultimately show "i = j" using that(1-3) by (simp del: of_nat_add)
  qed
  then show "n + m \<le> 65536 \<Longrightarrow> ?thesis" by (auto simp: distinct_map inj_on_def)
qed

abbreviation sample_offers :: "(nat \<times> punch_op) list" where
  "sample_offers \<equiv> [(0, PAdmit (sample_draws 0) sample_keys sample_request), (1, PAdmit (sample_draws 1) sample_keys sample_request)]"

lemma sample_offers_world:
  "map fst (live_punches (world (history sample_mac 0 sample_offers))) = [sample_draws 1 0, sample_draws 0 0]"
  by code_simp

lemma sample_third_refused:
  "map_option fst (punch_admit (sample_draws 2) sample_keys 5 sample_request (world (history sample_mac 0 sample_offers)))
     = Some (Inl (PLimited InFlight (secs 20 - 5)))"
  by code_simp

theorem retry_after_is_enough_witness:
  "\<exists>w' res w''.
     punch_admit (sample_draws 2) sample_keys 5 sample_request (world (history sample_mac 0 sample_offers)) =
       Some (Inl (PLimited InFlight (secs 20 - 5)), w') \<and>
     punch_admit (sample_draws 2) sample_keys (secs 20) sample_request w' = Some (res, w'') \<and>
     (case res of Inr _ \<Rightarrow> True | Inl (PAtCapacity _) \<Rightarrow> True | _ \<Rightarrow> False)"
proof -
  obtain w' where w': "punch_admit (sample_draws 2) sample_keys 5 sample_request
      (world (history sample_mac 0 sample_offers)) = Some (Inl (PLimited InFlight (secs 20 - 5)), w')"
    using sample_third_refused by auto
  have "clock (history sample_mac 0 sample_offers) \<le> 5" by code_simp
  from retry_after_is_enough [OF refl this w', of "secs 20" "sample_draws 2" sample_keys]
  have "\<exists>res w''. punch_admit (sample_draws 2) sample_keys (secs 20) sample_request w' = Some (res, w'') \<and>
      (case res of Inr _ \<Rightarrow> True | Inl (PAtCapacity _) \<Rightarrow> True | _ \<Rightarrow> False)"
    using sample_draws_distinct [of 2 4097] by simp
  with w' show ?thesis by blast
qed

text \<open>C40: admission ends. The loop that draws a punch id returns after at most one draw more than there are
  punches, whatever happened before, as soon as the ids it draws differ from one another.\<close>

theorem admission_terminates:
  assumes "distinct (map draws [0..<4097])"
  shows "\<exists>res w'. punch_admit draws ks now req (world (history hmac t ops)) = Some (res, w')"
proof -
  let ?t = "pw_table (punch_sweep (world (history hmac t ops)) now)"
  have "world_inv hmac (arrived (history hmac t ops)) (world (history hmac t ops))"
    using history_inv [of hmac t ops] by (simp add: history_inv_iff)
  from world_inv_sweep [OF this, of now] have "length (pt_punches ?t) \<le> 4096"
    by (simp add: world_inv_def punches_inv_def offer_cap_defs)
  then obtain pid where "fresh_punch_id draws (pt_punches ?t) 0 = Some pid"
    using draws_suffice [OF assms] by blast
  then show ?thesis
    by (auto simp: punch_admit_def table_admit_def Let_def split: list.splits option.splits)
qed

theorem admission_terminates_witness:
  "\<exists>res w'. punch_admit (sample_draws 0) sample_keys 9 sample_request (world (history sample_mac 0 sample_offers)) =
     Some (res, w')"
  by (rule admission_terminates) (rule sample_draws_distinct, simp)

lemma peer_reply_source:
  assumes "s = history hmac t ops"
    and "register_datagram hmac (world s) d src now = (Some (Peer pid srflx tg), w')"
  shows "\<exists>r p ks tg0 tg1. d = Register pid r tg0 \<and> hm_get (live_punches (world s)) pid = Some p \<and>
     pu_keys p = Some ks \<and> verifies hmac (for_role ks r) d \<and>
     verifies hmac (for_role ks (other_role r)) (Register pid (other_role r) tg1) \<and>
     (Register pid (other_role r) tg1, srflx) \<in> set (arrived s) \<and>
     verifies hmac (for_role ks r) (Peer pid srflx tg)"
  using assms(2)
proof (cases rule: register_datagram_cases)
  case 1
  then show ?thesis by simp
next
  case (2 pid' r tg0 p ks p')
  have eq: "pid' = pid" "rs_source (punch_role_state p (other_role r)) = Some srflx"
    and peer: "key_peer hmac (for_role ks r) pid srflx = Some (Peer pid srflx tg)"
    using 2(16) [symmetric] by (auto simp: key_peer_def key_registered_def split: if_splits option.splits)
  have "latched_inv hmac (arrived s) (live_punches (world s))"
    using history_inv [of hmac t ops] by (simp add: history_inv_def assms(1))
  then obtain tg1 where "verifies hmac (for_role ks (other_role r)) (Register pid (other_role r) tg1)"
    "(Register pid (other_role r) tg1, srflx) \<in> set (arrived s)"
    using 2(2,4) eq unfolding latched_inv_def by (metis option.inject)
  moreover have "verifies hmac (for_role ks r) (Peer pid srflx tg)"
    using peer by (simp add: verifies_def)
  ultimately show ?thesis using 2(1,2,4,5) eq(1) by blast
qed

text \<open>The rendezvous introduces the two ends of one punch and nobody else. After any history, a
  datagram is answered with a peer's address only if it is the \<open>Register\<close> of one role of a punch, tagged
  under that role's key, and the address is the one from which a \<open>Register\<close> of the other role, tagged
  under the other role's key, arrived before; the answer is tagged for the role it goes to.\<close>

lemma peer_is_the_other_role:
  assumes "s = history hmac t ops"
    and "register_datagram hmac (world s) d src now = (Some (Peer pid srflx tg), w')"
  shows "\<exists>r p ks tg0 tg1. d = Register pid r tg0 \<and> hm_get (live_punches (world s)) pid = Some p \<and>
     pu_keys p = Some ks \<and> verifies hmac (for_role ks r) d \<and>
     verifies hmac (for_role ks (other_role r)) (Register pid (other_role r) tg1) \<and>
     (Register pid (other_role r) tg1, srflx) \<in> set (arrived s) \<and>
     verifies hmac (for_role ks r) (Peer pid srflx tg)"
  using assms by (rule peer_reply_source)

definition sample_register :: "punch_role \<Rightarrow> probe_datagram" where
  "sample_register r = the (key_register sample_mac (for_role sample_keys r) (sample_draws 0 0) r)"

abbreviation sample_registered :: "(nat \<times> punch_op) list" where
  "sample_registered \<equiv> [(0, PAdmit (sample_draws 0) sample_keys sample_request),
     (1, PDatagram (sample_register Device) (16909060, 5000))]"

lemma sample_peer_reply:
  "fst (register_datagram sample_mac (world (history sample_mac 0 sample_registered))
      (sample_register Gateway) (84281096, 6000) 2) =
     Some (Peer (sample_draws 0 0) (16909060, 5000) (1 # 50 # replicate 14 0))"
  by code_simp

lemma peer_is_the_other_role_witness:
  "\<exists>r tg1. r = Gateway \<and>
     (Register (sample_draws 0 0) (other_role r) tg1, (16909060, 5000)) \<in>
       set (arrived (history sample_mac 0 sample_registered))"
proof -
  obtain w' where r: "register_datagram sample_mac (world (history sample_mac 0 sample_registered))
      (sample_register Gateway) (84281096, 6000) 2 =
      (Some (Peer (sample_draws 0 0) (16909060, 5000) (1 # 50 # replicate 14 0)), w')"
    using sample_peer_reply by (metis prod.collapse)
  have "sample_register Gateway = Register (sample_draws 0 0) Gateway (1 # 45 # replicate 14 0)" by code_simp
  with peer_is_the_other_role [OF refl r] show ?thesis by auto
qed

definition report_pid :: "control_report \<Rightarrow> punch_id" where
  "report_pid r = (case r of DirectAnswer pid _ \<Rightarrow> pid | DirectDeclined pid \<Rightarrow> pid)"

definition report_fits :: "control_report \<Rightarrow> bool" where
  "report_fits r = (case r of DirectAnswer _ a \<Rightarrow> is_within_bounds a | DirectDeclined _ \<Rightarrow> True)"

lemma resolve_delivered_iff:
  "fst (resolve w node tok report) = Delivered \<longleftrightarrow>
     report_fits report \<and>
     (case (hm_get (live_punches w) (report_pid report), hm_get (posts w) (report_pid report)) of
        (Some p, Some _) \<Rightarrow> pu_node p = node \<and> pu_token p = tok \<and> pu_answer p
      | _ \<Rightarrow> False)"
  by (cases report)
    (auto simp: resolve_def report_fits_def report_pid_def Let_def set_punches_def split: option.splits)

definition report_reply :: "control_report \<Rightarrow> direct_reply" where
  "report_reply r = (case r of DirectAnswer _ a \<Rightarrow> Answer a | DirectDeclined _ \<Rightarrow> Declined)"

lemma resolve_delivered:
  assumes "resolve w node tok report = (Delivered, w')"
  obtains p po where "hm_get (posts w) (report_pid report) = Some po"
    "live_punches w' = hm_insert (report_pid report) (p\<lparr>pu_answer := False\<rparr>) (live_punches w)"
    "posts w' = hm_insert (report_pid report) (po\<lparr>po_inbox := Some (report_reply report)\<rparr>) (posts w)"
  using assms
  by (cases report)
    (auto simp: resolve_def report_pid_def report_reply_def Let_def set_punches_def
      split: option.splits if_splits)

text \<open>A report settles its punch once, and only on the connection the offer was forwarded on. It is
  delivered exactly when it is within bounds and names a punch of this node and this control token whose
  POST still waits unsettled; it then decides what the POST answers, and no second report on the punch,
  from whatever connection, is delivered.\<close>

lemma report_settles_once:
  "(fst (resolve w node tok report) = Delivered \<longleftrightarrow>
     report_fits report \<and>
     (case (hm_get (live_punches w) (report_pid report), hm_get (posts w) (report_pid report)) of
        (Some p, Some _) \<Rightarrow> pu_node p = node \<and> pu_token p = tok \<and> pu_answer p
      | _ \<Rightarrow> False)) \<and>
   (case resolve w node tok report of
      (Delivered, w') \<Rightarrow>
        fst (resolve w' node' tok' (DirectAnswer (report_pid report) a)) \<noteq> Delivered \<and>
        fst (resolve w' node' tok' (DirectDeclined (report_pid report))) \<noteq> Delivered \<and>
        (\<exists>po. hm_get (posts w) (report_pid report) = Some po \<and>
          fst (post_ends w' (report_pid report) now) =
            Some (case report of
                    DirectAnswer pid answer \<Rightarrow>
                      Answered \<lparr>or_punch_id = pid, or_answer = answer, or_rendezvous = po_device po\<rparr>
                  | DirectDeclined _ \<Rightarrow> OfferDeclined))
    | _ \<Rightarrow> True)"
proof -
  have "fst (resolve w' node' tok' (DirectAnswer (report_pid report) a)) \<noteq> Delivered \<and>
      fst (resolve w' node' tok' (DirectDeclined (report_pid report))) \<noteq> Delivered \<and>
      (\<exists>po. hm_get (posts w) (report_pid report) = Some po \<and>
        fst (post_ends w' (report_pid report) now) =
          Some (case report of
                  DirectAnswer pid answer \<Rightarrow>
                    Answered \<lparr>or_punch_id = pid, or_answer = answer, or_rendezvous = po_device po\<rparr>
                | DirectDeclined _ \<Rightarrow> OfferDeclined))"
    if "resolve w node tok report = (Delivered, w')" for w'
    using that
  proof (rule resolve_delivered)
    fix p po
    assume po: "hm_get (posts w) (report_pid report) = Some po"
      and ps: "live_punches w' = hm_insert (report_pid report) (p\<lparr>pu_answer := False\<rparr>) (live_punches w)"
      and posts: "posts w' = hm_insert (report_pid report) (po\<lparr>po_inbox := Some (report_reply report)\<rparr>) (posts w)"
    have pids: "report_pid (DirectAnswer pid b) = pid" "report_pid (DirectDeclined pid) = pid" for pid b
      by (simp_all add: report_pid_def)
    have "fst (post_ends w' (report_pid report) now) =
        Some (case report of
                DirectAnswer pid answer \<Rightarrow>
                  Answered \<lparr>or_punch_id = pid, or_answer = answer, or_rendezvous = po_device po\<rparr>
              | DirectDeclined _ \<Rightarrow> OfferDeclined)"
      by (cases report) (simp_all add: post_ends_def posts report_reply_def report_pid_def Let_def)
    then show ?thesis
      unfolding resolve_delivered_iff pids ps posts using po by (simp split: option.splits)
  qed
  note settled = this
  obtain out w' where res: "resolve w node tok report = (out, w')" by fastforce
  show ?thesis
    unfolding resolve_delivered_iff [of w node tok report, symmetric] res
    by (cases out) (use settled [of w'] res in simp_all)
qed

text \<open>The lengths of what the relay sends back.\<close>

lemma key_tag_length: "key_tag hmac key body = Some tg \<Longrightarrow> length tg = 16"
  by (auto simp: key_tag_def first_chunk_def split_first_chunk_def RENDEZVOUS_TAG_LEN_def
      split: option.splits if_splits)

lemma register_reply_ok:
  assumes "register_datagram hmac w d src now = (Some reply, w')" and "datagram_ok d"
  shows "datagram_ok reply \<and> (case reply of Registered _ _ \<Rightarrow> True | Peer _ _ _ \<Rightarrow> True | _ \<Rightarrow> False)"
  using assms(1)
proof (cases rule: register_datagram_cases)
  case (2 pid r tg p ks p')
  have "length pid = 16" using assms(2) 2(1) by (simp add: probe_len_defs)
  then show ?thesis
    using 2(16) [symmetric]
    by (auto simp: key_peer_def key_registered_def probe_len_defs dest: key_tag_length
        split: if_splits option.splits)
qed simp

text \<open>The rendezvous port amplifies nothing and talks to the public internet only. A datagram is
  answered only if it is a 64-byte \<open>Register\<close> whose source, in canonical form, is a public IPv4 address
  with a port; the answer is strictly shorter, and any other datagram leaves the registry as it was.\<close>

lemma rendezvous_never_amplifies:
  "case reply_to hmac policy w datagram source now of
     (Some out, _) \<Rightarrow>
       length out < length datagram \<and> length datagram = 64 \<and>
       classify policy (fst source) = Some Public \<and> (\<exists>a. canonical_ip (fst source) = V4 a) \<and>
       (\<exists>pid r tg. decode datagram = Inr (Register pid r tg))
   | (None, w') \<Rightarrow>
       w' = w \<or> (classify policy (fst source) = Some Public \<and> (\<exists>pid r tg. decode datagram = Inr (Register pid r tg)))"
proof (cases "\<exists>pid r tg a. decode datagram = Inr (Register pid r tg) \<and> canonical_ip (fst source) = V4 a \<and>
    snd source \<noteq> 0 \<and> public_v4 policy (V4 a) \<noteq> None")
  case False
  then have "reply_to hmac policy w datagram source now = (None, w)"
    by (auto simp: reply_to_def split: sum.splits probe_datagram.splits ip_addr.splits)
  then show ?thesis by simp
next
  case True
  then obtain pid r tg a where d: "decode datagram = Inr (Register pid r tg)" and ip: "canonical_ip (fst source) = V4 a"
    and src: "snd source \<noteq> 0" "public_v4 policy (V4 a) \<noteq> None"
    by blast
  have pub: "classify policy (fst source) = Some Public"
    using src(2) ip by (auto simp: public_v4_def classify_def split: if_splits)
  have ok: "datagram_ok (Register pid r tg)" and len: "length datagram = 64"
    using d length_encode [of "Register pid r tg"] by (auto simp: decode_iff)
  obtain reply w' where r: "register_datagram hmac w (Register pid r tg) (a, snd source) now = (reply, w')"
    by fastforce
  have out: "reply_to hmac policy w datagram source now = (map_option encode reply, w')"
    using src by (auto simp: reply_to_def d ip r)
  show ?thesis
  proof (cases reply)
    case None
    then show ?thesis using out pub d by simp
  next
    case (Some rep)
    have "length (encode rep) < 64"
      using register_reply_ok [OF r [unfolded Some] ok] length_encode [of rep]
      by (auto split: probe_datagram.splits)
    then show ?thesis using out Some pub d len ip by simp
  qed
qed

end
