(* ===== verification/RelayDirect.thy ===== *)
theory RelayDirect
  imports RelayControl PunchRendezvous
begin

text \<open>
  The relay's direct signalling put together: the control registry (\<open>control.rs\<close>) over the registry of
  punches (\<open>punch.rs\<close>), driven by gateways, phones, datagrams and the clock. Its runs are histories of the
  punch registry, and every punch belongs to the connection that owns its node now.
\<close>

record relay =
  rl_now :: instant
  rl_arrived :: "(probe_datagram \<times> socket_addr_v4) list"
  rl_control :: "punch_world control_registry"

datatype relay_op =
    DRegister node_id api_key "direct_capability option" "source_key option"
  | DUnregister node_id nat
  | DSignal node_id api_key string leg_class
  | DOffer "nat \<Rightarrow> punch_id" role_keys node_id api_key "source_key option" sealed_candidates
  | DReport node_id nat control_report
  | DDatagram probe_datagram socket_addr_v4
  | DSweep
  | DPostEnds punch_id
  | DTake node_id
  | DClose node_id

definition relay_new :: "instant \<Rightarrow> duration \<Rightarrow> string option \<Rightarrow> relay" where
  "relay_new now timeout rdv =
     \<lparr>rl_now = now, rl_arrived = [],
      rl_control = (case rdv of
                      None \<Rightarrow> control_new punch_world_new timeout
                    | Some address \<Rightarrow> with_udp_rendezvous (control_new punch_world_new timeout) address)\<rparr>"

text \<open>\<open>ControlRegistry::report_direct\<close>.\<close>

definition report_direct ::
    "punch_world control_registry \<Rightarrow> node_id \<Rightarrow> nat \<Rightarrow> control_report \<Rightarrow>
     report_outcome \<times> punch_world control_registry" where
  "report_direct self node tok report =
     (case resolve (punches self) node tok report of (out, p) \<Rightarrow> (out, self\<lparr>punches := p\<rparr>))"

definition relay_step :: "mac \<Rightarrow> relay \<Rightarrow> nat \<times> relay_op \<Rightarrow> relay" where
  "relay_step hmac s eo =
     (case eo of (elapsed, a) \<Rightarrow>
      let now = rl_now s + int elapsed; s = s\<lparr>rl_now := now\<rparr>; r = rl_control s;
          ctl = (\<lambda>admit c. s\<lparr>rl_control := control_step punch_drop_control admit r c\<rparr>);
          none = (\<lambda>_ _. None) in
      case a of
        DRegister node key dir cl \<Rightarrow> ctl none (RRegister node key dir cl)
      | DUnregister node tok \<Rightarrow> ctl none (RUnregister node tok)
      | DSignal node key relay_key cls \<Rightarrow> ctl none (RSignal node key relay_key cls)
      | DOffer draws ks node key cl offer \<Rightarrow> ctl (punch_admit draws ks now) (ROffer node key cl offer)
      | DReport node tok report \<Rightarrow> s\<lparr>rl_control := snd (report_direct r node tok report)\<rparr>
      | DDatagram d source \<Rightarrow>
          s\<lparr>rl_control := r\<lparr>punches := snd (register_datagram hmac (punches r) d source now)\<rparr>,
            rl_arrived := rl_arrived s @ [(d, source)]\<rparr>
      | DSweep \<Rightarrow> s\<lparr>rl_control := r\<lparr>punches := punch_sweep (punches r) now\<rparr>\<rparr>
      | DPostEnds pid \<Rightarrow> s\<lparr>rl_control := r\<lparr>punches := snd (post_ends (punches r) pid now)\<rparr>\<rparr>
      | DTake node \<Rightarrow> ctl none (RTake node)
      | DClose node \<Rightarrow> ctl none (RClose node))"

section \<open>Runs are punch histories\<close>

definition punch_reachable ::
    "mac \<Rightarrow> instant \<Rightarrow> instant \<Rightarrow> (probe_datagram \<times> socket_addr_v4) list \<Rightarrow> punch_world \<Rightarrow> bool" where
  "punch_reachable hmac t now seen w \<longleftrightarrow>
     (\<exists>ops. clock (history hmac t ops) = now \<and> arrived (history hmac t ops) = seen \<and>
        world (history hmac t ops) = w)"

lemma punch_reachable_step:
  assumes "punch_reachable hmac t now seen w"
    and "\<And>s. clock s = now \<Longrightarrow> arrived s = seen \<Longrightarrow> world s = w \<Longrightarrow>
      clock (punch_step hmac s (elapsed, a)) = now' \<and> arrived (punch_step hmac s (elapsed, a)) = seen' \<and>
      world (punch_step hmac s (elapsed, a)) = w'"
  shows "punch_reachable hmac t now' seen' w'"
proof -
  obtain ops where "clock (history hmac t ops) = now" "arrived (history hmac t ops) = seen"
    "world (history hmac t ops) = w"
    using assms(1) by (auto simp: punch_reachable_def)
  from assms(2) [OF this] show ?thesis
    unfolding punch_reachable_def by (intro exI [of _ "ops @ [(elapsed, a)]"]) simp
qed

lemmas punch_step_simps = punch_step_def Let_def prod.case punch_op.case

lemma reachable_tick: "punch_reachable hmac t now seen w \<Longrightarrow> punch_reachable hmac t (now + int e) seen w"
  by (erule punch_reachable_step [where elapsed = e and a = PTick]) (simp add: punch_step_simps)

lemma reachable_drop:
  "punch_reachable hmac t now seen w \<Longrightarrow> punch_reachable hmac t (now + int e) seen (punch_drop_control node tok w)"
  by (erule punch_reachable_step [where elapsed = e and a = "PDrop node tok"]) (simp add: punch_step_simps)

lemma reachable_admit:
  assumes "punch_reachable hmac t now seen w" and "punch_admit draws ks (now + int e) req w = Some (out, w')"
  shows "punch_reachable hmac t (now + int e) seen w'"
  by (rule punch_reachable_step [OF assms(1), where elapsed = e and a = "PAdmit draws ks req"])
    (use assms(2) in \<open>cases out; simp add: punch_step_simps\<close>)

lemma reachable_resolve:
  "punch_reachable hmac t now seen w \<Longrightarrow>
   punch_reachable hmac t (now + int e) seen (snd (resolve w node tok report))"
  by (erule punch_reachable_step [where elapsed = e and a = "PResolve node tok report"]) (simp add: punch_step_simps)

lemma reachable_datagram:
  "punch_reachable hmac t now seen w \<Longrightarrow>
   punch_reachable hmac t (now + int e) (seen @ [(d, src)]) (snd (register_datagram hmac w d src (now + int e)))"
  by (erule punch_reachable_step [where elapsed = e and a = "PDatagram d src"]) (simp add: punch_step_simps)

lemma reachable_sweep:
  "punch_reachable hmac t now seen w \<Longrightarrow> punch_reachable hmac t (now + int e) seen (punch_sweep w (now + int e))"
  by (erule punch_reachable_step [where elapsed = e and a = PSweep]) (simp add: punch_step_simps)

lemma reachable_post_ends:
  "punch_reachable hmac t now seen w \<Longrightarrow>
   punch_reachable hmac t (now + int e) seen (snd (post_ends w pid (now + int e)))"
  by (erule punch_reachable_step [where elapsed = e and a = "PEnd pid"]) (simp add: punch_step_simps)

lemmas reachable_intros = reachable_tick reachable_drop reachable_admit reachable_resolve reachable_datagram
  reachable_sweep reachable_post_ends

text \<open>What a call on the control registry does to the punches is one call on the punch registry, or none.\<close>

lemma register_from_punches:
  "punches (snd (register_from punch_drop_control r node key dir cl)) =
     (case hm_get (instances r) node of
        Some e \<Rightarrow>
          if node_id_within_bound node \<and> remote_api_key e = key then punch_drop_control node (token e) (punches r)
          else punches r
      | None \<Rightarrow> punches r)"
  by (auto simp: register_from_def Let_def split: option.splits)

lemma unregister_punches:
  "punches (unregister_if_owned punch_drop_control r node tok) = punch_drop_control node tok (punches r)"
  by (simp add: unregister_if_owned_def Let_def split: option.splits)

lemma offer_direct_punches:
  "offer_direct admit r node key cl offer = Some (res, r') \<Longrightarrow>
   punches r' = punches r \<or> (\<exists>req out. admit req (punches r) = Some (out, punches r'))"
  by (auto simp: offer_direct_def Let_def split: if_splits option.splits prod.splits sum.splits)

definition relay_reachable :: "mac \<Rightarrow> instant \<Rightarrow> relay \<Rightarrow> bool" where
  "relay_reachable hmac t s \<longleftrightarrow> punch_reachable hmac t (rl_now s) (rl_arrived s) (punches (rl_control s))"

lemma relay_reachable_step:
  assumes "relay_reachable hmac t s"
  shows "relay_reachable hmac t (relay_step hmac s eo)"
proof -
  obtain e a where eo: "eo = (e, a)" by (cases eo)
  let ?r = "rl_control s" and ?now = "rl_now s + int e"
  note start = assms [unfolded relay_reachable_def]
  have tick: "punch_reachable hmac t ?now (rl_arrived s) (punches ?r)" by (rule reachable_tick [OF start])
  show ?thesis
  proof (cases a)
    case (DOffer draws ks node key cl offer)
    show ?thesis
    proof (cases "offer_direct (punch_admit draws ks ?now) ?r node key cl offer")
      case None
      then show ?thesis using tick by (simp add: relay_step_def Let_def eo DOffer control_step_def relay_reachable_def)
    next
      case (Some x)
      obtain res r' where x: "x = (res, r')" by (cases x)
      have "punch_reachable hmac t ?now (rl_arrived s) (punches r')"
        using offer_direct_punches [OF Some [unfolded x]] tick reachable_admit [OF start] by auto
      then show ?thesis
        using Some by (simp add: relay_step_def Let_def eo DOffer control_step_def relay_reachable_def x)
    qed
  next
    case (DRegister node key dir cl)
    then show ?thesis
      using tick reachable_drop [OF start]
      by (simp add: relay_step_def Let_def eo control_step_def relay_reachable_def register_from_punches
          split: option.splits)
  next
    case (DSignal node key relay_key cls)
    have "punches (snd (signal_open ?r node key relay_key cls)) = punches ?r"
      by (auto simp: signal_open_def split: option.splits)
    then show ?thesis
      using tick DSignal by (simp add: relay_step_def Let_def eo control_step_def relay_reachable_def)
  next
    case (DReport node tok report)
    then show ?thesis
      using reachable_resolve [OF start, of e node tok report]
      by (simp add: relay_step_def Let_def eo report_direct_def relay_reachable_def case_prod_unfold)
  qed (use tick start in \<open>auto simp: relay_step_def Let_def eo control_step_def relay_reachable_def
      unregister_punches intro: reachable_intros split: option.splits\<close>)
qed

interpretation relay_punches: invariant_machine "relay_step hmac" "relay_reachable hmac t"
  for hmac t
  by unfold_locales (rule relay_reachable_step)

section \<open>Ownership\<close>

definition owned_by :: "control_entry hash_map \<Rightarrow> punch \<Rightarrow> bool" where
  "owned_by ins p =
     (case hm_get ins (pu_node p) of
        None \<Rightarrow> False
      | Some e \<Rightarrow> token e = pu_token p \<and> remote_api_key e = pu_key p \<and> direct e \<noteq> None)"

definition all_owned :: "control_entry hash_map \<Rightarrow> punch_world \<Rightarrow> bool" where
  "all_owned ins w \<longleftrightarrow> (\<forall>pid p. hm_get (live_punches w) pid = Some p \<longrightarrow> owned_by ins p)"

definition same_owner :: "punch \<Rightarrow> punch \<Rightarrow> bool" where
  "same_owner p p' \<longleftrightarrow> pu_node p' = pu_node p \<and> pu_token p' = pu_token p \<and> pu_key p' = pu_key p"

text \<open>The calls that change no punch's owner.\<close>

definition keeps_owners :: "punch_world \<Rightarrow> punch_world \<Rightarrow> bool" where
  "keeps_owners w w' \<longleftrightarrow>
     (\<forall>pid p'. hm_get (live_punches w') pid = Some p' \<longrightarrow>
        (\<exists>p. hm_get (live_punches w) pid = Some p \<and> same_owner p p'))"

lemma owned_by_same: "same_owner p p' \<Longrightarrow> owned_by ins p' = owned_by ins p"
  by (simp add: owned_by_def same_owner_def split: option.splits)

lemma all_owned_keeps:
  assumes "all_owned ins w" and "keeps_owners w w'"
  shows "all_owned ins w'"
  unfolding all_owned_def
proof (intro allI impI)
  fix pid p'
  assume "hm_get (live_punches w') pid = Some p'"
  then obtain p where "hm_get (live_punches w) pid = Some p" "same_owner p p'"
    using assms(2) unfolding keeps_owners_def by blast
  then show "owned_by ins p'" using assms(1) owned_by_same unfolding all_owned_def by blast
qed

lemma keeps_owners_refl: "keeps_owners w w"
  by (simp add: keeps_owners_def same_owner_def)

lemma same_owner_trans: "same_owner p q \<Longrightarrow> same_owner q r \<Longrightarrow> same_owner p r"
  by (simp add: same_owner_def)

lemma keeps_owners_trans: "keeps_owners w v \<Longrightarrow> keeps_owners v u \<Longrightarrow> keeps_owners w u"
  unfolding keeps_owners_def by (meson same_owner_trans)

lemma keeps_owners_posts: "keeps_owners w (v\<lparr>posts := ps\<rparr>) = keeps_owners w v"
  by (simp add: keeps_owners_def)

lemma keeps_owners_update:
  "hm_get (live_punches w) k = Some p \<Longrightarrow> same_owner p p' \<Longrightarrow>
   keeps_owners w (set_punches (hm_insert k p' (live_punches w)) w)"
  by (simp add: keeps_owners_def same_owner_def)

lemma keeps_owners_retain:
  "hm_ok (live_punches w) \<Longrightarrow> keeps_owners w (set_punches (hm_retain Q (live_punches w)) w)"
  by (auto simp: keeps_owners_def same_owner_def hm_get_retain split: option.splits)

lemma keeps_owners_remove: "keeps_owners w (punch_remove w k)"
  by (simp add: keeps_owners_def same_owner_def punch_remove_def)

lemma keeps_owners_sweep: "hm_ok (live_punches w) \<Longrightarrow> keeps_owners w (punch_sweep w now)"
  using keeps_owners_retain [of w "\<lambda>_ p. punch_is_live p now"] by (simp add: keeps_owners_def sweep_live)

lemma keeps_owners_resolve: "keeps_owners w (snd (resolve w node tok report))"
proof -
  have "keeps_owners w (set_punches (hm_insert pid (p\<lparr>pu_answer := False\<rparr>) (live_punches w)) w)"
    if "hm_get (live_punches w) pid = Some p" for pid p
    by (rule keeps_owners_update [OF that]) (simp add: same_owner_def)
  then show ?thesis
    by (auto simp: resolve_def Let_def keeps_owners_refl keeps_owners_posts split: option.splits control_report.splits)
qed

lemma keeps_owners_mark: "keeps_owners w (mark_answered w pid now)"
proof -
  have "keeps_owners w (set_punches (hm_insert pid (p\<lparr>pu_answered_at := t\<rparr>) (live_punches w)) w)"
    if "hm_get (live_punches w) pid = Some p" for p t
    by (rule keeps_owners_update [OF that]) (simp add: same_owner_def)
  then show ?thesis by (simp add: mark_answered_def keeps_owners_refl split: option.splits)
qed

lemma keeps_owners_post_ends: "keeps_owners w (snd (post_ends w pid now))"
proof -
  let ?w = "w\<lparr>posts := hm_remove pid (posts w)\<rparr>"
  have "keeps_owners w ?w" by (simp add: keeps_owners_posts keeps_owners_refl)
  from keeps_owners_trans [OF this keeps_owners_mark [of ?w pid now]]
    keeps_owners_trans [OF this keeps_owners_remove [of ?w pid]]
  show ?thesis
    by (simp add: post_ends_def Let_def keeps_owners_refl split: option.splits direct_reply.splits)
qed

lemma keeps_owners_datagram: "keeps_owners w (snd (register_datagram hmac w d src now))"
proof -
  obtain reply w' where r: "register_datagram hmac w d src now = (reply, w')" by fastforce
  have "keeps_owners w w'"
    using r
  proof (cases rule: register_datagram_cases)
    case 1
    then show ?thesis by (simp add: keeps_owners_refl)
  next
    case (2 pid q tg p ks p')
    then show ?thesis using keeps_owners_update [OF 2(2), of p'] by (simp add: same_owner_def)
  qed
  then show ?thesis by (simp add: r)
qed

lemma keeps_owners_drop: "hm_ok (live_punches w) \<Longrightarrow> keeps_owners w (punch_drop_control node tok w)"
  unfolding punch_drop_control_def by (rule keeps_owners_retain)

lemma dropped_gone:
  assumes "hm_ok (live_punches w)" and "hm_get (live_punches (punch_drop_control node tok w)) pid = Some p"
  shows "hm_get (live_punches w) pid = Some p \<and> \<not> (pu_node p = node \<and> pu_token p = tok)"
  using assms by (auto simp: punch_drop_control_def hm_get_retain split: option.splits if_splits)

text \<open>A control entry that is replaced by one with the same token, key and capability.\<close>

lemma owned_by_update:
  assumes "owned_by ins p" and "hm_get ins node = Some e"
    and "token e' = token e" "remote_api_key e' = remote_api_key e" "direct e' = direct e"
  shows "owned_by (hm_insert node e' ins) p"
  using assms by (auto simp: owned_by_def split: option.splits)

lemma all_owned_update:
  "all_owned ins w \<Longrightarrow> hm_get ins node = Some e \<Longrightarrow> token e' = token e \<Longrightarrow>
   remote_api_key e' = remote_api_key e \<Longrightarrow> direct e' = direct e \<Longrightarrow> all_owned (hm_insert node e' ins) w"
  unfolding all_owned_def using owned_by_update by blast

text \<open>Once the punches of a node's connection are gone, its entry can be replaced or removed.\<close>

lemma all_owned_other:
  assumes "all_owned ins w" and "hm_ok (live_punches w)" and "hm_get ins node = Some e"
    and "\<And>n. n \<noteq> node \<Longrightarrow> hm_get ins' n = hm_get ins n"
  shows "all_owned ins' (punch_drop_control node (token e) w)"
  unfolding all_owned_def
proof (intro allI impI)
  fix pid p
  assume "hm_get (live_punches (punch_drop_control node (token e) w)) pid = Some p"
  from dropped_gone [OF assms(2) this] have p: "owned_by ins p" "\<not> (pu_node p = node \<and> pu_token p = token e)"
    using assms(1) by (auto simp: all_owned_def)
  then have "pu_node p \<noteq> node" using assms(3) by (auto simp: owned_by_def split: option.splits)
  then show "owned_by ins' p" using p(1) assms(4) by (simp add: owned_by_def)
qed

lemma all_owned_fresh:
  assumes "all_owned ins w" and "hm_get ins node = None" and "\<And>n. n \<noteq> node \<Longrightarrow> hm_get ins' n = hm_get ins n"
  shows "all_owned ins' w"
  unfolding all_owned_def
proof (intro allI impI)
  fix pid p
  assume "hm_get (live_punches w) pid = Some p"
  then have p: "owned_by ins p" using assms(1) by (auto simp: all_owned_def)
  then have "pu_node p \<noteq> node" using assms(2) by (auto simp: owned_by_def)
  then show "owned_by ins' p" using p assms(3) by (simp add: owned_by_def)
qed

lemma all_owned_register:
  assumes "all_owned (instances r) (punches r)" and "hm_ok (live_punches (punches r))"
  shows "let r' = snd (register_from punch_drop_control r node key dir cl) in all_owned (instances r') (punches r')"
proof (cases "hm_get (instances r) node")
  case None
  have "all_owned (hm_insert node e (instances r)) (punches r)" for e
    by (rule all_owned_fresh [OF assms(1) None]) simp
  then show ?thesis using assms(1) None by (simp add: register_from_def Let_def)
next
  case (Some old)
  have "all_owned (hm_insert node e (instances r)) (punch_drop_control node (token old) (punches r))" for e
    by (rule all_owned_other [OF assms Some]) simp
  then show ?thesis using assms(1) Some by (simp add: register_from_def Let_def)
qed

lemma all_owned_unregister:
  assumes "all_owned (instances r) (punches r)" and "hm_ok (live_punches (punches r))"
  shows "let r' = unregister_if_owned punch_drop_control r node tok in all_owned (instances r') (punches r')"
proof (cases "\<exists>e. hm_get (instances r) node = Some e \<and> token e = tok")
  case True
  then obtain e where e: "hm_get (instances r) node = Some e" "token e = tok" by blast
  have "all_owned (hm_remove node (instances r)) (punch_drop_control node (token e) (punches r))"
    by (rule all_owned_other [OF assms e(1)]) simp
  then show ?thesis using e by (simp add: unregister_if_owned_def Let_def)
next
  case False
  then have "instances (unregister_if_owned punch_drop_control r node tok) = instances r"
    by (auto simp: unregister_if_owned_def Let_def split: option.splits)
  then show ?thesis
    using all_owned_keeps [OF assms(1) keeps_owners_drop [OF assms(2)]] by (simp add: unregister_punches)
qed

lemma all_owned_admit:
  assumes "all_owned ins w" and "hm_ok (live_punches w)"
    and "punch_admit draws ks now req w = Some (out, w')"
    and "hm_get ins (pr_node req) = Some e" "pr_token req = token e" "pr_key req = remote_api_key e" "direct e \<noteq> None"
  shows "all_owned ins w'"
  using assms(3)
proof (cases rule: punch_admit_cases)
  case (refused err)
  then show ?thesis using all_owned_keeps [OF assms(1) keeps_owners_sweep [OF assms(2)]] by simp
next
  case (minted new rks)
  have "all_owned ins (punch_sweep w now)" using all_owned_keeps [OF assms(1) keeps_owners_sweep [OF assms(2)]] .
  moreover have "owned_by ins (new_punch_of req rks now)"
    using assms(4-7) by (simp add: owned_by_def new_punch_of_def)
  ultimately show ?thesis unfolding all_owned_def minted(5) by (metis hm_get_insert option.inject)
qed

lemma offer_direct_cases:
  assumes "offer_direct admit r node key cl offer = Some (res, r')"
  obtains "r' = r"
  | e cap and req :: punch_request and out where "hm_get (instances r) node = Some e" "direct e = Some cap"
      "remote_api_key e = key"
      "pr_node req = node" "pr_key req = key" "pr_token req = token e"
      "admit req (punches r) = Some (out, punches r')"
      "instances r' = instances r \<or> (\<exists>q. instances r' = hm_insert node (e\<lparr>queued := q\<rparr>) (instances r))"
proof (cases "r' = r")
  case False
  obtain e where e: "hm_get (instances r) node = Some e" "remote_api_key e = key"
    using assms False by (auto simp: offer_direct_def split: if_splits option.splits)
  obtain cap where cap: "direct e = Some cap"
    using assms False e by (auto simp: offer_direct_def split: if_splits option.splits)
  define req where "req = \<lparr>pr_node = node, pr_key = key, pr_token = token e, pr_source = cl,
      pr_rendezvous = (if cap_udp cap then rendezvous r else None), pr_timeout = answer_timeout r\<rparr>"
  have rest: "(case admit req (punches r) of
        None \<Rightarrow> None
      | Some (Inl refusal, p) \<Rightarrow> Some (Inl (offer_refusal_of refusal), r\<lparr>punches := p\<rparr>)
      | Some (Inr (pid, reg), p) \<Rightarrow>
          Some (Inr pid, r\<lparr>punches := p, instances := hm_insert node
            (e\<lparr>queued := queued e @ [DirectOffer pid offer reg]\<rparr>) (instances r)\<rparr>)) = Some (res, r')"
    using assms False e cap unfolding offer_direct_def Let_def req_def [symmetric]
    by (simp add: req_def [symmetric] split: if_splits)
  then obtain out p where adm: "admit req (punches r) = Some (out, p)" by (auto split: option.splits)
  have "p = punches r' \<and>
      (instances r' = instances r \<or> (\<exists>q. instances r' = hm_insert node (e\<lparr>queued := q\<rparr>) (instances r)))"
    using rest adm by (cases out) auto
  then show thesis
    using that(2) [OF e(1) cap e(2), of req out] adm by (simp add: req_def)
qed (rule that(1))

lemma all_owned_offer:
  assumes "all_owned (instances r) (punches r)" and "hm_ok (live_punches (punches r))"
    and "offer_direct (punch_admit draws ks now) r node key cl offer = Some (res, r')"
  shows "all_owned (instances r') (punches r')"
  using assms(3)
proof (rule offer_direct_cases)
  assume "r' = r"
  then show ?thesis using assms(1) by simp
next
  fix e cap req out
  assume e: "hm_get (instances r) node = Some e" "direct e = Some cap" "remote_api_key e = key"
    and req: "pr_node req = node" "pr_key req = key" "pr_token req = token e"
    and adm: "punch_admit draws ks now req (punches r) = Some (out, punches r')"
    and ins: "instances r' = instances r \<or> (\<exists>q. instances r' = hm_insert node (e\<lparr>queued := q\<rparr>) (instances r))"
  have "all_owned (instances r) (punches r')"
    by (rule all_owned_admit [OF assms(1,2) adm, of e]) (simp_all add: e req)
  then show ?thesis using ins all_owned_update [OF _ e(1)] by auto
qed

definition relay_inv :: "mac \<Rightarrow> instant \<Rightarrow> relay \<Rightarrow> bool" where
  "relay_inv hmac t s \<longleftrightarrow>
     relay_reachable hmac t s \<and> all_owned (instances (rl_control s)) (punches (rl_control s))"

lemma relay_reachable_ok:
  assumes "relay_reachable hmac t s"
  shows "hm_ok (live_punches (punches (rl_control s)))"
proof -
  obtain ops where "world (history hmac t ops) = punches (rl_control s)"
    using assms by (auto simp: relay_reachable_def punch_reachable_def)
  then show ?thesis using history_inv [of hmac t ops] by (simp add: history_inv_def punches_inv_def)
qed

lemma relay_inv_step:
  assumes "relay_inv hmac t s"
  shows "relay_inv hmac t (relay_step hmac s eo)"
proof -
  obtain e a where eo: "eo = (e, a)" by (cases eo)
  let ?r = "rl_control s" and ?now = "rl_now s + int e" and ?s = "relay_step hmac s eo"
  have reach: "relay_reachable hmac t ?s"
    using assms relay_reachable_step by (simp add: relay_inv_def)
  have ok: "hm_ok (live_punches (punches ?r))" and own: "all_owned (instances ?r) (punches ?r)"
    using assms relay_reachable_ok by (auto simp: relay_inv_def)
  note keep = all_owned_keeps [OF own]
  have upd: "all_owned (hm_insert node (x\<lparr>queued := q\<rparr>) (instances ?r)) (punches ?r)"
    "all_owned (hm_insert node (x\<lparr>receiver_open := b\<rparr>) (instances ?r)) (punches ?r)"
    if "hm_get (instances ?r) node = Some x" for node x q b
    by (rule all_owned_update [OF own that]; simp)+
  have "all_owned (instances (rl_control ?s)) (punches (rl_control ?s))"
  proof (cases a)
    case (DRegister node key dir cl)
    then show ?thesis
      using all_owned_register [OF own ok] by (simp add: relay_step_def Let_def eo control_step_def)
  next
    case (DUnregister node tok)
    then show ?thesis
      using all_owned_unregister [OF own ok] by (simp add: relay_step_def Let_def eo control_step_def)
  next
    case (DOffer draws ks node key cl offer)
    then show ?thesis
      using own all_owned_offer [OF own ok, of draws ks ?now node key cl offer]
      by (auto simp: relay_step_def Let_def eo control_step_def split: option.splits)
  next
    case (DSignal node key relay_key cls)
    then show ?thesis
      using own upd by (auto simp: relay_step_def Let_def eo control_step_def signal_open_def split: option.splits)
  next
    case (DReport node tok report)
    then show ?thesis
      using keep [OF keeps_owners_resolve]
      by (simp add: relay_step_def Let_def eo report_direct_def case_prod_unfold)
  next
    case (DDatagram d src)
    then show ?thesis using keep [OF keeps_owners_datagram] by (simp add: relay_step_def Let_def eo)
  next
    case DSweep
    then show ?thesis using keep [OF keeps_owners_sweep [OF ok]] by (simp add: relay_step_def Let_def eo)
  next
    case (DPostEnds pid)
    then show ?thesis using keep [OF keeps_owners_post_ends] by (simp add: relay_step_def Let_def eo)
  next
    case (DTake node)
    then show ?thesis
      using own upd by (auto simp: relay_step_def Let_def eo control_step_def split: option.splits)
  next
    case (DClose node)
    then show ?thesis
      using own upd by (auto simp: relay_step_def Let_def eo control_step_def split: option.splits)
  qed
  with reach show ?thesis by (simp add: relay_inv_def)
qed

interpretation relay_machine: invariant_machine "relay_step hmac" "relay_inv hmac t"
  for hmac t
  by unfold_locales (rule relay_inv_step)

lemma relay_inv_new: "relay_inv hmac t (relay_new t timeout rdv)"
proof -
  have "punch_reachable hmac t t [] punch_world_new"
    unfolding punch_reachable_def by (intro exI [of _ "[]"]) (simp add: history_new_def)
  then show ?thesis
    by (auto simp: relay_inv_def relay_reachable_def relay_new_def control_new_def with_udp_rendezvous_def
        all_owned_def punch_world_new_def hm_get_def split: option.splits)
qed

section \<open>Properties\<close>

text \<open>Whatever the relay is asked to do, what its punch registry goes through is one of the histories
  of that registry alone, so its bounds, its offer rates and the rendezvous guarantee hold of the whole
  relay.\<close>

lemma relay_refines_punch_registry:
  "\<exists>ops'. let s = foldl (relay_step hmac) (relay_new t timeout rdv) ops; h = history hmac t ops' in
     world h = punches (rl_control s) \<and> clock h = rl_now s \<and> arrived h = rl_arrived s"
proof -
  have "relay_inv hmac t (foldl (relay_step hmac) (relay_new t timeout rdv) ops)"
    by (rule relay_machine.run_inv [OF relay_inv_new])
  then show ?thesis by (auto simp: relay_inv_def relay_reachable_def punch_reachable_def Let_def)
qed

text \<open>C15: no punch outlives the connection it was offered on. After any history of the relay every punch
  belongs to the control connection that owns its node now, under the same key, and that connection is
  still capable of direct carriers; so a report is delivered on no other connection, a replaced one's
  late report included.\<close>

theorem no_orphan_punches:
  "let r = rl_control (foldl (relay_step hmac) (relay_new t timeout rdv) ops) in
     list_all (\<lambda>x. owned_by (instances r) (snd x)) (live_punches (punches r)) \<and>
     (if \<exists>e. hm_get (instances r) node = Some e \<and> token e = tok then True
      else fst (report_direct r node tok report) \<noteq> Delivered)"
proof -
  let ?s = "foldl (relay_step hmac) (relay_new t timeout rdv) ops"
  have inv: "relay_inv hmac t ?s" by (rule relay_machine.run_inv [OF relay_inv_new])
  have ok: "hm_ok (live_punches (punches (rl_control ?s)))"
    using inv relay_reachable_ok by (auto simp: relay_inv_def)
  have own: "owned_by (instances (rl_control ?s)) p"
    if "hm_get (live_punches (punches (rl_control ?s))) pid = Some p" for pid p
    using inv that by (auto simp: relay_inv_def all_owned_def)
  have "list_all (\<lambda>x. owned_by (instances (rl_control ?s)) (snd x)) (live_punches (punches (rl_control ?s)))"
    using own ok by (auto simp: list_all_iff hm_get_Some)
  moreover have "\<exists>e. hm_get (instances (rl_control ?s)) node = Some e \<and> token e = tok"
    if "fst (resolve (punches (rl_control ?s)) node tok report) = Delivered"
    using that own unfolding resolve_delivered_iff
    by (fastforce simp: owned_by_def split: option.splits)
  ultimately show ?thesis
    by (auto simp: Let_def report_direct_def case_prod_unfold)
qed

end
