(* ===== verification/DirectFraming.thy ===== *)
theory DirectFraming
  imports ProbeCodec
begin

text \<open>
  \<open>crates/carrier/src/framing.rs\<close>: the length-prefixed records of a direct QUIC stream. A stream is the bytes
  the peer sends before it ends and the way the runtime delivers them: each \<open>read\<close> may return any non-empty
  piece that fits, fail, or stay pending until its caller drops the future. A call that is dropped is the
  value \<open>None\<close>; everything it had read stays in the reader. JSON of the \<open>DirectOpen\<close> preface is code outside
  the repository: \<open>to_json\<close> and \<open>from_json\<close>.
\<close>

section \<open>Constants and errors\<close>

definition MAX_DIRECT_FRAME_BYTES :: nat where
  "MAX_DIRECT_FRAME_BYTES = 65535"

definition LEN_PREFIX_BYTES :: nat where
  "LEN_PREFIX_BYTES = 4"

datatype frame_error =
    TooLarge nat nat
  | Truncated
  | MissingPreface
  | Preface string
  | IoError
  | Poisoned

definition frame_len :: "nat \<Rightarrow> frame_error + 32 word" where
  "frame_len n =
     (if n > MAX_DIRECT_FRAME_BYTES then Inl (TooLarge n MAX_DIRECT_FRAME_BYTES)
      else if n < 2 ^ 32 then Inr (of_nat n)
      else Inl (TooLarge n MAX_DIRECT_FRAME_BYTES))"

definition declared_len :: "byte list \<Rightarrow> frame_error + nat" where
  "declared_len prefix =
     (let n = unat (ipv4_from prefix)
      in if n > MAX_DIRECT_FRAME_BYTES then Inl (TooLarge n MAX_DIRECT_FRAME_BYTES) else Inr n)"

section \<open>Writing\<close>

text \<open>\<open>write_all\<close> appends to what the stream has carried.\<close>

definition write_frame :: "byte list \<Rightarrow> byte list \<Rightarrow> frame_error + byte list" where
  "write_frame wire bytes =
     (case frame_len (length bytes) of
        Inl e \<Rightarrow> Inl e
      | Inr n \<Rightarrow> Inr (wire @ octets n @ bytes))"

definition write_direct_open ::
    "('o \<Rightarrow> string + byte list) \<Rightarrow> byte list \<Rightarrow> 'o \<Rightarrow> frame_error + byte list" where
  "write_direct_open to_json wire opening =
     (case to_json opening of
        Inl reason \<Rightarrow> Inl (Preface reason)
      | Inr json \<Rightarrow> write_frame wire json)"

fun write_frames :: "byte list \<Rightarrow> byte list list \<Rightarrow> frame_error + byte list" where
  "write_frames wire [] = Inr wire"
| "write_frames wire (f # fs) =
     (case write_frame wire f of Inl e \<Rightarrow> Inl e | Inr wire' \<Rightarrow> write_frames wire' fs)"

section \<open>Reading\<close>

text \<open>What the runtime does with one poll of a read: it delivers up to so many bytes, fails, or is dropped.\<close>

datatype poll = Ready nat | Fails | Cancelled

record stream =
  st_bytes :: "byte list"
  st_polls :: "poll list"

datatype read_result = Got "byte list" | ReadFailed | ReadDropped

definition take_bytes :: "nat \<Rightarrow> stream \<Rightarrow> read_result \<times> stream" where
  "take_bytes n s = (Got (take n (st_bytes s)), s\<lparr>st_bytes := drop n (st_bytes s)\<rparr>)"

definition stream_read :: "nat \<Rightarrow> stream \<Rightarrow> read_result \<times> stream" where
  "stream_read buf s =
     (case st_polls s of
        [] \<Rightarrow> take_bytes buf s
      | Ready k # ps \<Rightarrow> take_bytes (min buf (max 1 k)) (s\<lparr>st_polls := ps\<rparr>)
      | Fails # ps \<Rightarrow> (ReadFailed, s\<lparr>st_polls := ps\<rparr>)
      | Cancelled # ps \<Rightarrow> (ReadDropped, s\<lparr>st_polls := ps\<rparr>))"

record frame_reader =
  fr_prefix :: "byte list"
  fr_prefix_filled :: nat
  fr_body :: "byte list"
  fr_body_filled :: nat
  fr_poisoned :: bool

definition reader_new :: frame_reader where
  "reader_new = \<lparr>fr_prefix = replicate LEN_PREFIX_BYTES 0, fr_prefix_filled = 0, fr_body = [],
                 fr_body_filled = 0, fr_poisoned = False\<rparr>"

text \<open>A read into the buffer from an offset on.\<close>

definition fill_at :: "nat \<Rightarrow> byte list \<Rightarrow> byte list \<Rightarrow> byte list" where
  "fill_at i d buf = take i buf @ d @ drop (i + length d) buf"

type_synonym frame_result = "frame_error + byte list option"

text \<open>How a loop of \<open>read_frame\<close> is left: into the next statement, by a return, or by dropping the future.\<close>

datatype flow = Proceed | Return frame_result | Dropped

lemma stream_read_Got: "stream_read buf s = (Got d, s') \<Longrightarrow> st_bytes s = d @ st_bytes s' \<and> length d \<le> buf"
  by (auto simp: stream_read_def take_bytes_def split: list.splits poll.splits)

function fill_prefix :: "frame_reader \<Rightarrow> stream \<Rightarrow> flow \<times> frame_reader \<times> stream" where
  "fill_prefix r s =
     (if fr_prefix_filled r < LEN_PREFIX_BYTES then
        case stream_read (LEN_PREFIX_BYTES - fr_prefix_filled r) s of
          (ReadDropped, s') \<Rightarrow> (Dropped, r, s')
        | (ReadFailed, s') \<Rightarrow> (Return (Inl IoError), r, s')
        | (Got d, s') \<Rightarrow>
            if d = [] then (Return (if fr_prefix_filled r = 0 then Inr None else Inl Truncated), r, s')
            else
              let r' = r\<lparr>fr_prefix := fill_at (fr_prefix_filled r) d (fr_prefix r),
                         fr_prefix_filled := fr_prefix_filled r + length d\<rparr>
              in if fr_prefix_filled r' = LEN_PREFIX_BYTES then
                   case declared_len (fr_prefix r') of
                     Inl e \<Rightarrow> (Return (Inl e), r', s')
                   | Inr n \<Rightarrow> fill_prefix (r'\<lparr>fr_body := replicate n 0, fr_body_filled := 0\<rparr>) s'
                 else fill_prefix r' s'
      else (Proceed, r, s))"
  by pat_completeness auto
termination
  by (relation "measure (\<lambda>(r, s). length (st_bytes s))") (auto dest: stream_read_Got [OF sym])

function fill_body :: "frame_reader \<Rightarrow> stream \<Rightarrow> flow \<times> frame_reader \<times> stream" where
  "fill_body r s =
     (if fr_body_filled r < length (fr_body r) then
        case stream_read (length (fr_body r) - fr_body_filled r) s of
          (ReadDropped, s') \<Rightarrow> (Dropped, r, s')
        | (ReadFailed, s') \<Rightarrow> (Return (Inl IoError), r, s')
        | (Got d, s') \<Rightarrow>
            if d = [] then (Return (Inl Truncated), r, s')
            else fill_body (r\<lparr>fr_body := fill_at (fr_body_filled r) d (fr_body r),
                              fr_body_filled := fr_body_filled r + length d\<rparr>) s'
      else (Proceed, r, s))"
  by pat_completeness auto
termination
  by (relation "measure (\<lambda>(r, s). length (st_bytes s))") (auto dest: stream_read_Got [OF sym])

definition read_frame :: "frame_reader \<Rightarrow> stream \<Rightarrow> frame_result option \<times> frame_reader \<times> stream" where
  "read_frame r s =
     (case fill_prefix r s of
        (Dropped, r', s') \<Rightarrow> (None, r', s')
      | (Return x, r', s') \<Rightarrow> (Some x, r', s')
      | (Proceed, r', s') \<Rightarrow>
          (case fill_body r' s' of
             (Dropped, r'', s'') \<Rightarrow> (None, r'', s'')
           | (Return x, r'', s'') \<Rightarrow> (Some x, r'', s'')
           | (Proceed, r'', s'') \<Rightarrow>
               (Some (Inr (Some (fr_body r''))),
                r''\<lparr>fr_prefix_filled := 0, fr_body_filled := 0, fr_body := []\<rparr>, s'')))"

definition next_frame :: "frame_reader \<Rightarrow> stream \<Rightarrow> frame_result option \<times> frame_reader \<times> stream" where
  "next_frame r s =
     (if fr_poisoned r then (Some (Inl Poisoned), r, s)
      else case read_frame r s of
        (None, r', s') \<Rightarrow> (None, r', s')
      | (Some x, r', s') \<Rightarrow> (Some x, r'\<lparr>fr_poisoned := (case x of Inl _ \<Rightarrow> True | Inr _ \<Rightarrow> False)\<rparr>, s'))"

definition read_direct_open ::
    "(byte list \<Rightarrow> string + 'o) \<Rightarrow> frame_reader \<Rightarrow> stream \<Rightarrow> (frame_error + 'o) option \<times> frame_reader \<times> stream" where
  "read_direct_open from_json r s =
     (case next_frame r s of
        (None, r', s') \<Rightarrow> (None, r', s')
      | (Some (Inl e), r', s') \<Rightarrow> (Some (Inl e), r', s')
      | (Some (Inr None), r', s') \<Rightarrow> (Some (Inl MissingPreface), r', s')
      | (Some (Inr (Some frame)), r', s') \<Rightarrow>
          (case from_json frame of
             Inl reason \<Rightarrow> (Some (Inl (Preface reason)), r', s')
           | Inr opening \<Rightarrow> (Some (Inr opening), r', s')))"

text \<open>A caller that asks for a frame \<open>n\<close> times, whatever becomes of each call.\<close>

fun frame_calls :: "nat \<Rightarrow> frame_reader \<Rightarrow> stream \<Rightarrow> frame_result option list" where
  "frame_calls 0 r s = []"
| "frame_calls (Suc n) r s = (let (x, r', s') = next_frame r s in x # frame_calls n r' s')"

definition completed :: "'a option list \<Rightarrow> 'a list" where
  "completed xs = map the (filter (\<lambda>x. x \<noteq> None) xs)"

declare fill_prefix.simps [simp del] fill_body.simps [simp del]

section \<open>The reference parser\<close>

text \<open>What the frames of a byte sequence are, with no reader, no pieces and no cancellation.\<close>

datatype feed = Feed "byte list" | Dead

fun ref_next :: "feed \<Rightarrow> frame_result \<times> feed" where
  "ref_next Dead = (Inl Poisoned, Dead)"
| "ref_next (Feed w) =
     (if w = [] then (Inr None, Feed [])
      else if length w < LEN_PREFIX_BYTES then (Inl Truncated, Dead)
      else case declared_len (take LEN_PREFIX_BYTES w) of
        Inl e \<Rightarrow> (Inl e, Dead)
      | Inr n \<Rightarrow>
          if length w - LEN_PREFIX_BYTES < n then (Inl Truncated, Dead)
          else (Inr (Some (take n (drop LEN_PREFIX_BYTES w))), Feed (drop (LEN_PREFIX_BYTES + n) w)))"

fun ref_calls :: "nat \<Rightarrow> feed \<Rightarrow> frame_result list" where
  "ref_calls 0 f = []"
| "ref_calls (Suc n) f = (let (x, f') = ref_next f in x # ref_calls n f')"

section \<open>The reader against the reference\<close>

definition taken_bytes :: "frame_reader \<Rightarrow> byte list" where
  "taken_bytes r =
     take (fr_prefix_filled r) (fr_prefix r) @
     (if fr_prefix_filled r = LEN_PREFIX_BYTES then take (fr_body_filled r) (fr_body r) else [])"

definition reader_ok :: "frame_reader \<Rightarrow> bool" where
  "reader_ok r \<longleftrightarrow>
     length (fr_prefix r) = LEN_PREFIX_BYTES \<and> fr_prefix_filled r \<le> LEN_PREFIX_BYTES \<and>
     (fr_prefix_filled r = LEN_PREFIX_BYTES \<longrightarrow>
        declared_len (fr_prefix r) = Inr (length (fr_body r)) \<and> fr_body_filled r \<le> length (fr_body r))"

definition cancels :: "stream \<Rightarrow> nat" where
  "cancels s = count_list (st_polls s) Cancelled"

definition no_failure :: "stream \<Rightarrow> bool" where
  "no_failure s \<longleftrightarrow> Fails \<notin> set (st_polls s)"

lemma take_fill_at: "i + length d \<le> length buf \<Longrightarrow> take (i + length d) (fill_at i d buf) = take i buf @ d"
  by (simp add: fill_at_def)

lemma length_fill_at: "i + length d \<le> length buf \<Longrightarrow> length (fill_at i d buf) = length buf"
  by (simp add: fill_at_def)

text \<open>One read, when it cannot fail.\<close>

lemma stream_read_cases:
  assumes "no_failure s" and "stream_read buf s = (x, s')"
  obtains (dropped) "x = ReadDropped" "st_bytes s' = st_bytes s" "cancels s = Suc (cancels s')" "no_failure s'"
    | (ended) "x = Got []" "st_bytes s' = st_bytes s" "buf = 0 \<or> st_bytes s = []" "cancels s' = cancels s" "no_failure s'"
    | (piece) d where "x = Got d" "d \<noteq> []" "st_bytes s = d @ st_bytes s'" "length d \<le> buf" "cancels s' = cancels s"
        "no_failure s'"
proof -
  have bytes: thesis if "x = Got d" "cancels s' = cancels s" "no_failure s'" "st_bytes s = d @ st_bytes s'"
    "d = [] \<Longrightarrow> buf = 0 \<or> st_bytes s = []" "length d \<le> buf" for d
    using that ended piece by (cases "d = []") auto
  show thesis
  proof (cases "st_polls s")
    case Nil
    then show thesis
      using assms bytes [of "take buf (st_bytes s)"]
      by (auto simp: stream_read_def take_bytes_def cancels_def no_failure_def)
  next
    case (Cons p ps)
    then show thesis
    proof (cases p)
      case (Ready k)
      define n where "n = min buf (max 1 k)"
      have n: "n \<le> buf" "n = 0 \<longleftrightarrow> buf = 0" by (auto simp: n_def)
      have "x = Got (take n (st_bytes s))" "s' = s\<lparr>st_polls := ps, st_bytes := drop n (st_bytes s)\<rparr>"
        using assms(2) Cons Ready by (simp_all add: stream_read_def take_bytes_def n_def)
      then show thesis
        using bytes [of "take n (st_bytes s)"] assms(1) Cons Ready n
        by (simp add: cancels_def no_failure_def min_le_iff_disj)
    next
      case Fails
      then show thesis using assms(1) Cons by (simp add: no_failure_def)
    next
      case Cancelled
      then show thesis
        using assms Cons dropped by (auto simp: stream_read_def cancels_def no_failure_def)
    qed
  qed
qed

text \<open>The state after a piece of the prefix, and after a piece of the body.\<close>

lemma prefix_piece:
  assumes "reader_ok r" and "fr_prefix_filled r + length d < LEN_PREFIX_BYTES"
  defines "r' \<equiv> r\<lparr>fr_prefix := fill_at (fr_prefix_filled r) d (fr_prefix r),
                   fr_prefix_filled := fr_prefix_filled r + length d\<rparr>"
  shows "reader_ok r'" and "taken_bytes r' = taken_bytes r @ d"
  using assms by (auto simp: reader_ok_def taken_bytes_def take_fill_at length_fill_at)

lemma prefix_done:
  assumes "reader_ok r" and "fr_prefix_filled r < LEN_PREFIX_BYTES"
    and "fr_prefix_filled r + length d = LEN_PREFIX_BYTES"
  defines "p \<equiv> fill_at (fr_prefix_filled r) d (fr_prefix r)"
  shows "length p = LEN_PREFIX_BYTES" and "p = taken_bytes r @ d"
proof -
  show len: "length p = LEN_PREFIX_BYTES"
    using assms by (simp add: reader_ok_def length_fill_at)
  show "p = taken_bytes r @ d"
    using assms len take_fill_at [of "fr_prefix_filled r" d "fr_prefix r"]
    by (simp add: reader_ok_def taken_bytes_def)
qed

lemma body_piece:
  assumes "reader_ok r" and "fr_prefix_filled r = LEN_PREFIX_BYTES"
    and "fr_body_filled r + length d \<le> length (fr_body r)"
  defines "r' \<equiv> r\<lparr>fr_body := fill_at (fr_body_filled r) d (fr_body r),
                   fr_body_filled := fr_body_filled r + length d\<rparr>"
  shows "reader_ok r'" and "taken_bytes r' = taken_bytes r @ d"
  using assms by (auto simp: reader_ok_def taken_bytes_def take_fill_at length_fill_at)

text \<open>
  Each loop, on a stream that never fails: it is dropped with nothing lost, goes on with its part complete, or
  returns what the bytes call for.
\<close>

definition resumable :: "frame_reader \<Rightarrow> stream \<Rightarrow> frame_reader \<Rightarrow> stream \<Rightarrow> bool" where
  "resumable r s r' s' \<longleftrightarrow>
     reader_ok r' \<and> taken_bytes r' @ st_bytes s' = taken_bytes r @ st_bytes s \<and>
     fr_poisoned r' = fr_poisoned r"

fun loop_flow :: "frame_reader \<Rightarrow> stream \<Rightarrow> flow \<times> frame_reader \<times> stream \<Rightarrow> bool" where
  "loop_flow r s (Dropped, r', s') \<longleftrightarrow> resumable r s r' s' \<and> cancels s = Suc (cancels s') \<and> no_failure s'"
| "loop_flow r s (Proceed, r', s') \<longleftrightarrow>
     resumable r s r' s' \<and> cancels s' = cancels s \<and> no_failure s' \<and> fr_prefix_filled r' = LEN_PREFIX_BYTES"
| "loop_flow r s (Return x, r', s') \<longleftrightarrow>
     (case x of
        Inr f \<Rightarrow> f = None \<and> taken_bytes r @ st_bytes s = [] \<and> resumable r s r' s'
      | Inl e \<Rightarrow> ref_next (Feed (taken_bytes r @ st_bytes s)) = (Inl e, Dead)) \<and>
     cancels s' = cancels s \<and> no_failure s'"

lemma loop_flow_trans:
  assumes "resumable r s r1 s1" and "cancels s1 = cancels s" and "loop_flow r1 s1 res"
  shows "loop_flow r s res"
proof -
  obtain fl r' s' where "res = (fl, r', s')" by (cases res rule: prod_cases3)
  moreover have "resumable r s r' s' \<longleftrightarrow> resumable r1 s1 r' s'" "taken_bytes r @ st_bytes s = taken_bytes r1 @ st_bytes s1"
    using assms(1) by (simp_all add: resumable_def)
  ultimately show ?thesis using assms(2,3) by (cases fl) (simp_all del: ref_next.simps split: sum.splits)
qed

lemma prefix_complete:
  assumes "reader_ok r" and "fr_prefix_filled r < LEN_PREFIX_BYTES"
    and "fr_prefix_filled r + length d = LEN_PREFIX_BYTES" and "st_bytes s = d @ st_bytes s'"
  defines "p \<equiv> fill_at (fr_prefix_filled r) d (fr_prefix r)"
  shows "declared_len p = Inl e \<Longrightarrow> ref_next (Feed (taken_bytes r @ st_bytes s)) = (Inl e, Dead)"
    and "declared_len p = Inr n \<Longrightarrow>
      resumable r s (r\<lparr>fr_prefix := p, fr_prefix_filled := LEN_PREFIX_BYTES, fr_body := replicate n 0, fr_body_filled := 0\<rparr>) s'"
proof -
  note p = prefix_done [OF assms(1-3), folded p_def]
  have all: "taken_bytes r @ st_bytes s = p @ st_bytes s'" using p(2) assms(4) by simp
  have "p \<noteq> []" using p(1) by (auto simp: LEN_PREFIX_BYTES_def)
  then show "ref_next (Feed (taken_bytes r @ st_bytes s)) = (Inl e, Dead)" if "declared_len p = Inl e"
    using that p(1) unfolding all by simp
  show "resumable r s (r\<lparr>fr_prefix := p, fr_prefix_filled := LEN_PREFIX_BYTES, fr_body := replicate n 0, fr_body_filled := 0\<rparr>) s'"
    if "declared_len p = Inr n"
    using that p(1) all by (simp add: resumable_def reader_ok_def taken_bytes_def)
qed

lemma fill_prefix_flow:
  assumes "reader_ok r" and "no_failure s"
  shows "loop_flow r s (fill_prefix r s)"
  using assms
proof (induction r s rule: fill_prefix.induct)
  case (1 r s)
  let ?buf = "LEN_PREFIX_BYTES - fr_prefix_filled r"
  show ?case
  proof (cases "fr_prefix_filled r < LEN_PREFIX_BYTES")
    case False
    then have "fr_prefix_filled r = LEN_PREFIX_BYTES" using "1.prems"(1) by (simp add: reader_ok_def)
    then show ?thesis
      using "1.prems" by (subst fill_prefix.simps) (simp add: resumable_def)
  next
    case less: True
    obtain x s' where read: "stream_read ?buf s = (x, s')" by (cases "stream_read ?buf s")
    from "1.prems"(2) read show ?thesis
    proof (cases rule: stream_read_cases)
      case dropped
      then show ?thesis
        using less read "1.prems"(1) by (subst fill_prefix.simps) (simp add: resumable_def)
    next
      case ended
      then have "st_bytes s = []" using less by simp
      moreover have "length (taken_bytes r) = fr_prefix_filled r" "taken_bytes r = [] \<longleftrightarrow> fr_prefix_filled r = 0"
        using "1.prems"(1) less by (auto simp: reader_ok_def taken_bytes_def)
      ultimately show ?thesis
        using less read "1.prems"(1) ended by (subst fill_prefix.simps) (auto simp: resumable_def)
    next
      case (piece d)
      let ?p = "fill_at (fr_prefix_filled r) d (fr_prefix r)"
      let ?r = "r\<lparr>fr_prefix := ?p, fr_prefix_filled := fr_prefix_filled r + length d\<rparr>"
      show ?thesis
      proof (cases "fr_prefix_filled r + length d = LEN_PREFIX_BYTES")
        case False
        then have lt: "fr_prefix_filled r + length d < LEN_PREFIX_BYTES" using piece less by linarith
        note p = prefix_piece [OF "1.prems"(1) lt]
        have "loop_flow ?r s' (fill_prefix ?r s')"
          using "1.IH"(2) less read piece False p(1) by simp
        moreover have "resumable r s ?r s'"
          using p piece by (simp add: resumable_def)
        ultimately show ?thesis
          using less read piece False loop_flow_trans [of r s ?r s']
          by (subst fill_prefix.simps) (simp add: Let_def)
      next
        case True
        note complete = prefix_complete [OF "1.prems"(1) less True piece(3)]
        show ?thesis
        proof (cases "declared_len ?p")
          case (Inl e)
          then show ?thesis
            using complete(1) less read piece True
            by (subst fill_prefix.simps) (simp add: Let_def del: ref_next.simps)
        next
          case (Inr n)
          let ?r' = "?r\<lparr>fr_body := replicate n 0, fr_body_filled := 0\<rparr>"
          have res: "resumable r s ?r' s'" using complete(2) [OF Inr] True by simp
          then have "loop_flow ?r' s' (fill_prefix ?r' s')"
            using "1.IH"(1) less read piece True Inr by (simp add: resumable_def)
          with res show ?thesis
            using less read piece True Inr loop_flow_trans [of r s ?r' s']
            by (subst fill_prefix.simps) (simp add: Let_def)
        qed
      qed
    qed
  qed
qed

lemma fill_body_flow:
  assumes "reader_ok r" and "no_failure s" and "fr_prefix_filled r = LEN_PREFIX_BYTES"
  shows "loop_flow r s (fill_body r s) \<and>
    (case fill_body r s of (fl, r', s') \<Rightarrow> fl = Proceed \<longrightarrow> fr_body_filled r' = length (fr_body r'))"
  using assms
proof (induction r s rule: fill_body.induct)
  case (1 r s)
  let ?buf = "length (fr_body r) - fr_body_filled r"
  show ?case
  proof (cases "fr_body_filled r < length (fr_body r)")
    case False
    then have "fr_body_filled r = length (fr_body r)" using "1.prems"(1,3) by (simp add: reader_ok_def)
    then show ?thesis
      using "1.prems" by (subst (1 2) fill_body.simps) (simp add: resumable_def)
  next
    case less: True
    obtain x s' where read: "stream_read ?buf s = (x, s')" by (cases "stream_read ?buf s")
    from "1.prems"(2) read show ?thesis
    proof (cases rule: stream_read_cases)
      case dropped
      then show ?thesis
        using less read "1.prems"(1) by (subst (1 2) fill_body.simps) (simp add: resumable_def)
    next
      case ended
      then have "taken_bytes r @ st_bytes s = fr_prefix r @ take (fr_body_filled r) (fr_body r)"
        using less "1.prems"(1,3) by (simp add: taken_bytes_def reader_ok_def)
      moreover have "LEN_PREFIX_BYTES \<noteq> 0" by (simp add: LEN_PREFIX_BYTES_def)
      ultimately have "ref_next (Feed (taken_bytes r @ st_bytes s)) = (Inl Truncated, Dead)"
        using less "1.prems"(1,3) by (auto simp: reader_ok_def)
      then show ?thesis
        using less read ended by (subst (1 2) fill_body.simps) (simp del: ref_next.simps)
    next
      case (piece d)
      let ?r = "r\<lparr>fr_body := fill_at (fr_body_filled r) d (fr_body r), fr_body_filled := fr_body_filled r + length d\<rparr>"
      have fits: "fr_body_filled r + length d \<le> length (fr_body r)" using piece less by linarith
      note p = body_piece [OF "1.prems"(1,3) fits]
      have step: "fill_body r s = fill_body ?r s'"
        using less read piece by (subst fill_body.simps) simp
      have "resumable r s ?r s'" using p piece by (simp add: resumable_def)
      then show ?thesis
        using "1.IH" less read piece p(1) "1.prems"(3) loop_flow_trans [of r s ?r s'] unfolding step by simp
    qed
  qed
qed

section \<open>One call and many calls\<close>

text \<open>The reader stands where the reference stands, with what it has taken and not yet returned.\<close>

primrec stands_at :: "feed \<Rightarrow> frame_reader \<Rightarrow> stream \<Rightarrow> bool" where
  "stands_at Dead r s \<longleftrightarrow> fr_poisoned r"
| "stands_at (Feed w) r s \<longleftrightarrow> \<not> fr_poisoned r \<and> reader_ok r \<and> taken_bytes r @ st_bytes s = w"

lemma ref_next_Nil: "ref_next (Feed []) = (Inr None, Feed [])"
  by simp

lemma poison_keeps [simp]:
  "reader_ok (r\<lparr>fr_poisoned := b\<rparr>) = reader_ok r" "taken_bytes (r\<lparr>fr_poisoned := b\<rparr>) = taken_bytes r"
  by (simp_all add: reader_ok_def taken_bytes_def)

lemma whole_frame:
  assumes "reader_ok r" and "fr_prefix_filled r = LEN_PREFIX_BYTES" and "fr_body_filled r = length (fr_body r)"
  shows "ref_next (Feed (taken_bytes r @ rest)) = (Inr (Some (fr_body r)), Feed rest)"
  using assms by (auto simp: taken_bytes_def reader_ok_def LEN_PREFIX_BYTES_def)

lemma next_frame_flow:
  assumes "stands_at f r s" and "no_failure s" and "next_frame r s = (x, r', s')"
  shows "case x of
      None \<Rightarrow> stands_at f r' s' \<and> cancels s = Suc (cancels s') \<and> no_failure s'
    | Some y \<Rightarrow> fst (ref_next f) = y \<and> stands_at (snd (ref_next f)) r' s' \<and> cancels s' = cancels s \<and> no_failure s'"
proof (cases f)
  case Dead
  then show ?thesis using assms by (auto simp: next_frame_def)
next
  case (Feed w)
  then have live: "\<not> fr_poisoned r" and ok: "reader_ok r" and w: "taken_bytes r @ st_bytes s = w"
    using assms(1) by auto
  obtain fl1 r1 s1 where one: "fill_prefix r s = (fl1, r1, s1)" by (cases "fill_prefix r s" rule: prod_cases3)
  have flow1: "loop_flow r s (fl1, r1, s1)" using fill_prefix_flow [OF ok assms(2)] by (simp add: one)
  show ?thesis
  proof (cases fl1)
    case Dropped
    then show ?thesis
      using flow1 assms(3) live one Feed w by (auto simp: next_frame_def read_frame_def resumable_def)
  next
    case (Return y)
    then show ?thesis
      using flow1 assms(3) live one Feed w
      by (cases y) (auto simp: next_frame_def read_frame_def resumable_def ref_next_Nil simp del: ref_next.simps)
  next
    case Proceed
    have r1: "reader_ok r1" "taken_bytes r1 @ st_bytes s1 = w" "fr_prefix_filled r1 = LEN_PREFIX_BYTES"
      "no_failure s1" "cancels s1 = cancels s" "\<not> fr_poisoned r1"
      using flow1 Proceed w live by (auto simp: resumable_def)
    obtain fl2 r2 s2 where two: "fill_body r1 s1 = (fl2, r2, s2)" by (cases "fill_body r1 s1" rule: prod_cases3)
    have flow2: "loop_flow r1 s1 (fl2, r2, s2)" "fl2 = Proceed \<Longrightarrow> fr_body_filled r2 = length (fr_body r2)"
      using fill_body_flow [OF r1(1,4,3)] by (simp_all add: two)
    show ?thesis
    proof (cases fl2)
      case Dropped
      then show ?thesis
        using flow2(1) assms(3) live one two Proceed Feed r1
        by (auto simp: next_frame_def read_frame_def resumable_def)
    next
      case (Return y)
      then show ?thesis
        using flow2(1) assms(3) live one two Proceed Feed r1
        by (cases y) (auto simp: next_frame_def read_frame_def resumable_def ref_next_Nil simp del: ref_next.simps)
    next
      case whole: Proceed
      have r2: "reader_ok r2" "fr_prefix_filled r2 = LEN_PREFIX_BYTES" "taken_bytes r2 @ st_bytes s2 = w"
        "cancels s2 = cancels s" "no_failure s2" "\<not> fr_poisoned r2"
        using flow2(1) whole r1 by (auto simp: resumable_def)
      have "x = Some (Inr (Some (fr_body r2)))" "s' = s2"
        "r' = r2\<lparr>fr_prefix_filled := 0, fr_body_filled := 0, fr_body := [], fr_poisoned := False\<rparr>"
        using assms(3) live one two Proceed whole r2(6) by (auto simp: next_frame_def read_frame_def)
      moreover have "ref_next (Feed w) = (Inr (Some (fr_body r2)), Feed (st_bytes s2))"
        using whole_frame [OF r2(1,2) flow2(2) [OF whole]] r2(3) by metis
      ultimately show ?thesis
        using r2 Feed by (simp add: reader_ok_def taken_bytes_def LEN_PREFIX_BYTES_def del: ref_next.simps)
    qed
  qed
qed

lemma frame_calls_flow:
  assumes "stands_at f r s" and "no_failure s"
  shows "\<exists>k. k \<le> n \<and> n \<le> k + cancels s \<and> completed (frame_calls n r s) = ref_calls k f"
  using assms
proof (induction n arbitrary: f r s)
  case 0
  then show ?case by (simp add: completed_def)
next
  case (Suc n)
  obtain x r' s' where one: "next_frame r s = (x, r', s')" by (cases "next_frame r s" rule: prod_cases3)
  note flow = next_frame_flow [OF Suc.prems one]
  show ?case
  proof (cases x)
    case None
    with flow Suc.IH [of f r' s'] obtain k where
      "k \<le> n" "n \<le> k + cancels s'" "completed (frame_calls n r' s') = ref_calls k f" by auto
    then show ?thesis
      using None flow by (intro exI [of _ k]) (simp add: one completed_def)
  next
    case (Some y)
    obtain f' where f': "ref_next f = (y, f')" using flow Some by (cases "ref_next f") auto
    with flow Some Suc.IH [of f' r' s'] obtain k where
      "k \<le> n" "n \<le> k + cancels s'" "completed (frame_calls n r' s') = ref_calls k f'" by auto
    then show ?thesis
      using Some flow f' by (intro exI [of _ "Suc k"]) (simp add: one completed_def)
  qed
qed

lemma stands_at_new: "stands_at (Feed (st_bytes s)) reader_new s"
  by (simp add: reader_new_def reader_ok_def taken_bytes_def LEN_PREFIX_BYTES_def)

section \<open>What is written is read\<close>

definition framed :: "byte list \<Rightarrow> byte list" where
  "framed f = octets (of_nat (length f)) @ f"

lemma write_frame_Inr:
  "write_frame wire f = Inr wire' \<longleftrightarrow> length f \<le> MAX_DIRECT_FRAME_BYTES \<and> wire' = wire @ framed f"
  by (auto simp: write_frame_def frame_len_def framed_def MAX_DIRECT_FRAME_BYTES_def split: if_splits)

lemma write_frames_Inr:
  "write_frames wire fs = Inr wire' \<longleftrightarrow>
     (\<forall>f \<in> set fs. length f \<le> MAX_DIRECT_FRAME_BYTES) \<and> wire' = wire @ concat (map framed fs)"
proof (induction fs arbitrary: wire)
  case Nil
  then show ?case by auto
next
  case (Cons f fs)
  show ?case
  proof (cases "write_frame wire f")
    case (Inl e)
    then have "\<not> length f \<le> MAX_DIRECT_FRAME_BYTES"
      using write_frame_Inr [of wire f "wire @ framed f"] by auto
    then show ?thesis using Inl by simp
  next
    case (Inr w)
    then show ?thesis using Cons [of w] write_frame_Inr [of wire f w] by auto
  qed
qed

lemma ref_next_framed:
  assumes "length f \<le> MAX_DIRECT_FRAME_BYTES"
  shows "ref_next (Feed (framed f @ rest)) = (Inr (Some f), Feed rest)"
proof -
  have "unat (of_nat (length f) :: 32 word) = length f"
    using assms by (simp add: unsigned_of_nat take_bit_nat_eq_self MAX_DIRECT_FRAME_BYTES_def)
  then have "declared_len (octets (of_nat (length f))) = Inr (length f)"
    using assms by (simp add: declared_len_def Let_def)
  moreover have "octets n \<noteq> []" for n by (simp add: octets_def)
  ultimately show ?thesis by (simp add: framed_def LEN_PREFIX_BYTES_def)
qed

definition frame_or_end :: "byte list list \<Rightarrow> nat \<Rightarrow> frame_result" where
  "frame_or_end fs i = Inr (if i < length fs then Some (fs ! i) else None)"

lemma ref_calls_framed:
  assumes "\<forall>f \<in> set fs. length f \<le> MAX_DIRECT_FRAME_BYTES"
  shows "ref_calls k (Feed (concat (map framed fs))) = map (frame_or_end fs) [0..<k]"
  using assms
proof (induction k arbitrary: fs)
  case 0
  then show ?case by simp
next
  case (Suc k)
  have upt: "map g [0..<Suc k] = g 0 # map (\<lambda>i. g (Suc i)) [0..<k]" for g :: "nat \<Rightarrow> frame_result"
    by (simp add: upt_conv_Cons map_Suc_upt [symmetric] comp_def del: upt_Suc)
  show ?case
  proof (cases fs)
    case Nil
    then show ?thesis using Suc.IH [of "[]"] by (simp add: upt frame_or_end_def del: upt_Suc)
  next
    case (Cons f fs')
    then show ?thesis
      using Suc.IH [of fs'] Suc.prems
      by (simp add: upt ref_next_framed frame_or_end_def del: upt_Suc ref_next.simps)
  qed
qed

text \<open>C24: Whatever bytes a peer sends, and however the runtime cuts them into reads and drops pending calls, the
  calls that complete return exactly what the byte sequence alone says, in order: its frames, a clean end, or
  the error at the place it has it and the poisoned reader after it. No more calls are lost than were dropped.\<close>

theorem framing_ignores_delivery:
  assumes "Fails \<notin> set polls"
  shows "\<exists>k. k \<le> n \<and> n \<le> k + count_list polls Cancelled \<and>
    completed (frame_calls n reader_new \<lparr>st_bytes = w, st_polls = polls\<rparr>) = ref_calls k (Feed w)"
  using frame_calls_flow [OF stands_at_new [of "\<lparr>st_bytes = w, st_polls = polls\<rparr>"], of n] assms
  by (simp add: cancels_def no_failure_def)

theorem framing_ignores_delivery_witness:
  "\<exists>k. k \<le> 3 \<and> 3 \<le> k + count_list [Ready 3, Cancelled, Ready 2] Cancelled \<and>
    completed (frame_calls 3 reader_new \<lparr>st_bytes = [0, 0, 0, 2, 7, 8, 9], st_polls = [Ready 3, Cancelled, Ready 2]\<rparr>) =
      ref_calls k (Feed [0, 0, 0, 2, 7, 8, 9])"
  by (rule framing_ignores_delivery) simp

text \<open>Frames round trip: what is written is read back frame by frame, empty frames included, then the clean
  end, through every cutting of the stream into reads and every cancellation of a pending call.\<close>

lemma frames_round_trip:
  assumes "write_frames [] fs = Inr w" and "Fails \<notin> set polls"
  shows "\<exists>k. k \<le> n \<and> n \<le> k + count_list polls Cancelled \<and>
    completed (frame_calls n reader_new \<lparr>st_bytes = w, st_polls = polls\<rparr>) = map (frame_or_end fs) [0..<k]"
proof -
  have "w = concat (map framed fs)" "\<forall>f \<in> set fs. length f \<le> MAX_DIRECT_FRAME_BYTES"
    using assms(1) by (auto simp: write_frames_Inr)
  then show ?thesis
    using frame_calls_flow [OF stands_at_new [of "\<lparr>st_bytes = w, st_polls = polls\<rparr>"], of n] assms(2)
    by (simp add: cancels_def no_failure_def ref_calls_framed)
qed

lemma frames_round_trip_witness:
  "\<exists>k. k \<le> 9 \<and> 9 \<le> k + count_list [Ready 1, Cancelled, Ready 2, Cancelled] Cancelled \<and>
    completed (frame_calls 9 reader_new
      \<lparr>st_bytes = [0, 0, 0, 2, 7, 8, 0, 0, 0, 0], st_polls = [Ready 1, Cancelled, Ready 2, Cancelled]\<rparr>) =
    map (frame_or_end [[7, 8], []]) [0..<k]"
  by (rule frames_round_trip)
    (simp_all add: write_frame_def frame_len_def octets_def MAX_DIRECT_FRAME_BYTES_def)

text \<open>The preface: what \<open>write_direct_open\<close> wrote is read back, and the next frame is in its place.\<close>

lemma preface_round_trip:
  assumes "write_direct_open to_json [] opening = Inr w" and "\<And>json. to_json opening = Inr json \<Longrightarrow> from_json json = Inr opening"
    and "next_frame reader_new \<lparr>st_bytes = w @ rest, st_polls = polls\<rparr> = (Some x, r', s')" and "Fails \<notin> set polls"
  shows "read_direct_open from_json reader_new \<lparr>st_bytes = w @ rest, st_polls = polls\<rparr> = (Some (Inr opening), r', s')"
    and "stands_at (Feed rest) r' s'"
proof -
  obtain json where json: "to_json opening = Inr json" "length json \<le> MAX_DIRECT_FRAME_BYTES" "w = framed json"
    using assms(1) by (auto simp: write_direct_open_def write_frame_Inr split: sum.splits)
  note flow = next_frame_flow [OF stands_at_new _ assms(3)]
  have "x = Inr (Some json) \<and> stands_at (Feed rest) r' s'"
    using flow assms(4) json by (simp add: no_failure_def ref_next_framed del: ref_next.simps)
  then show "read_direct_open from_json reader_new \<lparr>st_bytes = w @ rest, st_polls = polls\<rparr> = (Some (Inr opening), r', s')"
    and "stands_at (Feed rest) r' s'"
    using assms(2,3) json by (simp_all add: read_direct_open_def)
qed

end
