(* ===== verification/OfferGate.thy ===== *)
theory OfferGate
  imports HashMaps "HOL-Library.Word"
begin

text \<open>
  \<open>crates/gateway/src/channel/carrier/offer.rs\<close>: the freshness rule and replay cache a gateway puts before
  every direct offer it answers. A relay can store and replay anything it forwards, so the gate has to accept
  each sealed offer once. Times are \<open>u64\<close> unix milliseconds, kept at their width; an \<open>OfferId\<close> is its bytes.
\<close>

type_synonym u64 = "64 word"
type_synonym offer_id = "8 word list"

definition abs_diff :: "u64 \<Rightarrow> u64 \<Rightarrow> u64" where
  "abs_diff a b = (if a < b then b - a else a - b)"

definition saturating_add :: "u64 \<Rightarrow> u64 \<Rightarrow> u64" where
  "saturating_add a b = (if a + b < a then - 1 else a + b)"

text \<open>The two durations, in milliseconds.\<close>

definition OFFER_MAX_AGE :: nat where
  "OFFER_MAX_AGE = 120000"

definition MAX_REPLAY_ENTRIES :: nat where
  "MAX_REPLAY_ENTRIES = 64"

definition REPLAY_WINDOW :: nat where
  "REPLAY_WINDOW = 2 * OFFER_MAX_AGE"

datatype decline = Auth | Stale | Replayed | OverCap | Unbound

primrec decline_outcome :: "decline \<Rightarrow> string" where
  "decline_outcome Auth = ''declined:auth''"
| "decline_outcome Stale = ''declined:stale''"
| "decline_outcome Replayed = ''declined:replayed''"
| "decline_outcome OverCap = ''declined:over_cap''"
| "decline_outcome Unbound = ''declined:unbound''"

primrec authenticated :: "decline \<Rightarrow> bool" where
  "authenticated Stale = True"
| "authenticated Replayed = True"
| "authenticated OverCap = True"
| "authenticated Auth = False"
| "authenticated Unbound = False"

text \<open>The fields of \<open>DeviceOffer\<close> the gate reads; the version and the candidate list are judged elsewhere.\<close>

record device_offer =
  do_issued_at :: u64
  do_offer_id :: offer_id

record gate_state =
  gs_started_at :: u64
  gs_seen :: "(offer_id, u64) table"

definition gate_new :: "u64 \<Rightarrow> gate_state" where
  "gate_new started = \<lparr>gs_started_at = started, gs_seen = []\<rparr>"

text \<open>\<open>u64::try_from(REPLAY_WINDOW.as_millis())\<close>; the window fits.\<close>

definition replay_window_ms :: u64 where
  "replay_window_ms = (if REPLAY_WINDOW < 2 ^ 64 then of_nat REPLAY_WINDOW else - 1)"

definition offer_fresh :: "gate_state \<Rightarrow> device_offer \<Rightarrow> u64 \<Rightarrow> bool" where
  "offer_fresh gate offer now \<longleftrightarrow>
     \<not> (unat (abs_diff now (do_issued_at offer)) > OFFER_MAX_AGE \<or>
        do_issued_at offer < gs_started_at gate)"

definition gate_admit :: "gate_state \<Rightarrow> device_offer \<Rightarrow> u64 \<Rightarrow> (decline + unit) \<times> gate_state" where
  "gate_admit gate offer now =
     (if \<not> offer_fresh gate offer now then (Inl Stale, gate)
      else
        let seen' = hm_retain (\<lambda>_ until. until \<ge> now) (gs_seen gate);
            gate' = gate\<lparr>gs_seen := seen'\<rparr>
        in if hm_get seen' (do_offer_id offer) \<noteq> None then (Inl Replayed, gate')
           else if length seen' \<ge> MAX_REPLAY_ENTRIES then (Inl OverCap, gate')
           else (Inr (),
                 gate'\<lparr>gs_seen := hm_insert (do_offer_id offer) (saturating_add now replay_window_ms) seen'\<rparr>))"

text \<open>A history of one gate: each offer opened, with the clock's reading when it was judged.\<close>

fun gate_run :: "gate_state \<Rightarrow> (device_offer \<times> u64) list \<Rightarrow> (decline + unit) list" where
  "gate_run g [] = []"
| "gate_run g ((o', now) # ops) = (let (r, g') = gate_admit g o' now in r # gate_run g' ops)"

definition accepted_offers :: "gate_state \<Rightarrow> (device_offer \<times> u64) list \<Rightarrow> (device_offer \<times> u64) list" where
  "accepted_offers g ops = map fst (filter (\<lambda>(op, r). r = Inr ()) (zip ops (gate_run g ops)))"

section \<open>The arithmetic of the window\<close>

lemma unat_abs_diff: "unat (abs_diff a b) = (if unat a < unat b then unat b - unat a else unat a - unat b)"
  by (auto simp: abs_diff_def word_less_nat_alt unat_sub_if')

lemma unat_saturating_add: "unat (saturating_add a b) = min (unat a + unat b) (2 ^ 64 - 1)"
proof (cases "unat a + unat b < 2 ^ 64")
  case True
  then have "unat (a + b) = unat a + unat b" by (simp add: unat_plus_if')
  with True show ?thesis by (simp add: saturating_add_def word_less_nat_alt)
next
  case False
  have "unat a < 2 ^ 64" and b: "unat b < 2 ^ 64"
    using unsigned_less [of a] unsigned_less [of b] by simp_all
  then have "unat (a + b) < unat a" using False by (simp add: unat_plus_if')
  with False show ?thesis
    by (simp add: saturating_add_def word_less_nat_alt unsigned_minus_1_eq_mask mask_eq_exp_minus_1)
qed

lemma unat_replay_window: "unat replay_window_ms = REPLAY_WINDOW"
  by (simp add: replay_window_ms_def REPLAY_WINDOW_def OFFER_MAX_AGE_def)

text \<open>An accepted offer is remembered for as long as it can still be fresh.\<close>

lemma remembered_while_fresh:
  assumes "offer_fresh g x a" and "offer_fresh g' x now"
  shows "now \<le> saturating_add a replay_window_ms"
proof -
  have "unat now < 2 ^ 64" using unsigned_less [of now] by simp
  with assms show ?thesis
    by (auto simp: offer_fresh_def unat_abs_diff unat_saturating_add unat_replay_window REPLAY_WINDOW_def
      word_le_nat_alt split: if_splits)
qed

section \<open>What the gate promises\<close>

text \<open>
  The contract over the whole history: of the offers accepted so far, those whose window still runs are
  remembered; an offer is accepted when it is fresh, not remembered, and fewer than the cap are.
\<close>

definition window_end :: "u64 \<Rightarrow> u64" where
  "window_end a = saturating_add a replay_window_ms"

definition live_ids :: "(device_offer \<times> u64) list \<Rightarrow> u64 \<Rightarrow> offer_id set" where
  "live_ids log now = (\<lambda>(x, a). do_offer_id x) ` {(x, a) \<in> set log. now \<le> window_end a}"

definition spec_admit :: "u64 \<Rightarrow> (device_offer \<times> u64) list \<Rightarrow> device_offer \<Rightarrow> u64 \<Rightarrow> decline + unit" where
  "spec_admit started log x now =
     (if unat (abs_diff now (do_issued_at x)) > OFFER_MAX_AGE \<or> do_issued_at x < started then Inl Stale
      else if do_offer_id x \<in> live_ids log now then Inl Replayed
      else if card (live_ids log now) \<ge> MAX_REPLAY_ENTRIES then Inl OverCap
      else Inr ())"

fun spec_run :: "u64 \<Rightarrow> (device_offer \<times> u64) list \<Rightarrow> (device_offer \<times> u64) list \<Rightarrow> (decline + unit) list" where
  "spec_run started log [] = []"
| "spec_run started log ((x, now) # ops) =
     (let r = spec_admit started log x now
      in r # spec_run started (if r = Inr () then log @ [(x, now)] else log) ops)"

text \<open>
  The relation between cache and log at time \<open>t\<close>: the entries whose window has not ended by \<open>t\<close> are exactly
  those of the log. What the cache keeps beyond them no later call can see.
\<close>

definition logged :: "(device_offer \<times> u64) list \<Rightarrow> offer_id \<Rightarrow> u64 \<Rightarrow> bool" where
  "logged log k u \<longleftrightarrow> (\<exists>(x, a) \<in> set log. do_offer_id x = k \<and> window_end a = u)"

definition gate_rel :: "u64 \<Rightarrow> u64 \<Rightarrow> gate_state \<Rightarrow> (device_offer \<times> u64) list \<Rightarrow> bool" where
  "gate_rel started t g log \<longleftrightarrow>
     gs_started_at g = started \<and> hm_ok (gs_seen g) \<and>
     (\<forall>k u. t \<le> u \<longrightarrow> ((k, u) \<in> set (gs_seen g) \<longleftrightarrow> logged log k u))"

lemma logged_snoc [simp]:
  "logged (log @ [(x, a)]) k u \<longleftrightarrow> logged log k u \<or> do_offer_id x = k \<and> window_end a = u"
  by (auto simp: logged_def)

lemma in_live_ids: "k \<in> live_ids log now \<longleftrightarrow> (\<exists>u. logged log k u \<and> now \<le> u)"
  by (force simp: live_ids_def logged_def image_iff)

lemma gate_rel_later: "gate_rel started t g log \<Longrightarrow> t \<le> now \<Longrightarrow> gate_rel started now g log"
  unfolding gate_rel_def by (meson order_trans)

lemma gate_rel_retain:
  assumes "gate_rel started now g log"
  defines "seen' \<equiv> hm_retain (\<lambda>_ until. until \<ge> now) (gs_seen g)"
  shows "gate_rel started now (g\<lparr>gs_seen := seen'\<rparr>) log" and "fst ` set seen' = live_ids log now"
    and "length seen' = card (live_ids log now)"
proof -
  have s: "(k, u) \<in> set seen' \<longleftrightarrow> (k, u) \<in> set (gs_seen g) \<and> now \<le> u" for k u
    by (auto simp: seen'_def hm_retain_def)
  have ok: "hm_ok seen'" using assms by (simp add: seen'_def gate_rel_def)
  show "gate_rel started now (g\<lparr>gs_seen := seen'\<rparr>) log"
    using assms(1) ok by (simp add: gate_rel_def s)
  show ids: "fst ` set seen' = live_ids log now"
  proof (rule set_eqI)
    fix k
    have "k \<in> fst ` set seen' \<longleftrightarrow> (\<exists>u. (k, u) \<in> set seen')" by force
    also have "\<dots> \<longleftrightarrow> k \<in> live_ids log now"
      using assms(1) unfolding gate_rel_def in_live_ids s by blast
    finally show "k \<in> fst ` set seen' \<longleftrightarrow> k \<in> live_ids log now" .
  qed
  have "length seen' = card (fst ` set seen')"
    using ok by (metis distinct_card hm_ok_def length_map set_map)
  then show "length seen' = card (live_ids log now)" by (simp add: ids)
qed

lemma window_end_ge: "a \<le> window_end a"
proof -
  have "unat a < 2 ^ 64" using unsigned_less [of a] by simp
  then show ?thesis by (simp add: window_end_def word_le_nat_alt unat_saturating_add)
qed

lemma gate_rel_insert:
  assumes "gate_rel started now g log" and "do_offer_id x \<notin> fst ` set (gs_seen g)"
  shows "gate_rel started now (g\<lparr>gs_seen := hm_insert (do_offer_id x) (window_end now) (gs_seen g)\<rparr>)
           (log @ [(x, now)])"
proof -
  have "(k, u) \<in> set (hm_insert (do_offer_id x) (window_end now) (gs_seen g)) \<longleftrightarrow>
      (k, u) \<in> set (gs_seen g) \<or> k = do_offer_id x \<and> u = window_end now" for k u
    using assms(2) by (force simp: hm_insert_def)
  then show ?thesis using assms(1) by (auto simp: gate_rel_def)
qed

lemma gate_admit_rel:
  assumes "gate_rel started t g log" and "t \<le> now" and "gate_admit g x now = (r, g')"
  shows "r = spec_admit started log x now"
    and "gate_rel started now g' (if r = Inr () then log @ [(x, now)] else log)"
proof -
  define seen' where "seen' = hm_retain (\<lambda>_ until. until \<ge> now) (gs_seen g)"
  note now = gate_rel_later [OF assms(1,2)]
  note kept = gate_rel_retain [OF now, folded seen'_def]
  have known: "hm_get seen' k = None \<longleftrightarrow> k \<notin> live_ids log now" for k
    using kept(2) hm_get_None [of seen' k] by blast
  then have known': "(\<exists>u. hm_get seen' k = Some u) \<longleftrightarrow> k \<in> live_ids log now" for k
    by (metis not_None_eq)
  have ins: "gate_rel started now (g\<lparr>gs_seen := hm_insert (do_offer_id x) (window_end now) seen'\<rparr>) (log @ [(x, now)])"
    if "do_offer_id x \<notin> live_ids log now"
    using gate_rel_insert [OF kept(1)] that kept(2) by simp
  have started: "gs_started_at g = started" using assms(1) by (simp add: gate_rel_def)
  have eq: "gate_admit g x now =
     (if \<not> offer_fresh g x now then (Inl Stale, g)
      else if do_offer_id x \<in> live_ids log now then (Inl Replayed, g\<lparr>gs_seen := seen'\<rparr>)
      else if MAX_REPLAY_ENTRIES \<le> card (live_ids log now) then (Inl OverCap, g\<lparr>gs_seen := seen'\<rparr>)
      else (Inr (), g\<lparr>gs_seen := hm_insert (do_offer_id x) (window_end now) seen'\<rparr>))"
    by (simp add: gate_admit_def Let_def known known' kept(3) window_end_def flip: seen'_def)
  show "r = spec_admit started log x now"
    using assms(3) unfolding eq spec_admit_def offer_fresh_def started by (auto split: if_splits)
  show "gate_rel started now g' (if r = Inr () then log @ [(x, now)] else log)"
    using assms(3) ins kept(1) now unfolding eq by (auto split: if_splits)
qed

lemma gate_run_refines:
  assumes "gate_rel started t g log" and "sorted (map snd ops)" and "\<forall>op \<in> set ops. t \<le> snd op"
  shows "gate_run g ops = spec_run started log ops"
  using assms
proof (induction ops arbitrary: t g log)
  case Nil
  then show ?case by simp
next
  case (Cons op ops)
  obtain x now where op: "op = (x, now)" by (cases op)
  obtain r g' where run: "gate_admit g x now = (r, g')" by (cases "gate_admit g x now")
  have "t \<le> now" using Cons.prems(3) op by simp
  note step = gate_admit_rel [OF Cons.prems(1) this run]
  show ?case
    using Cons.IH [OF step(2)] Cons.prems(2) step(1) by (simp add: op run Let_def)
qed

lemma gate_rel_new: "gate_rel started t (gate_new started) []"
  by (simp add: gate_rel_def gate_new_def hm_ok_def logged_def)

section \<open>No offer is answered twice\<close>

definition spec_fresh :: "u64 \<Rightarrow> device_offer \<Rightarrow> u64 \<Rightarrow> bool" where
  "spec_fresh started x now \<longleftrightarrow> offer_fresh (gate_new started) x now"

definition spec_accepted ::
    "u64 \<Rightarrow> (device_offer \<times> u64) list \<Rightarrow> (device_offer \<times> u64) list \<Rightarrow> (device_offer \<times> u64) list" where
  "spec_accepted started log ops = map fst (filter (\<lambda>(op, r). r = Inr ()) (zip ops (spec_run started log ops)))"

lemma spec_admit_Inr:
  "spec_admit started log x now = Inr () \<longleftrightarrow>
     spec_fresh started x now \<and> do_offer_id x \<notin> live_ids log now \<and> card (live_ids log now) < MAX_REPLAY_ENTRIES"
  by (auto simp: spec_admit_def spec_fresh_def offer_fresh_def gate_new_def)

lemma spec_admit_no_replay:
  assumes "spec_admit started log x now = Inr ()" and "(x, a) \<in> set log" and "spec_fresh started x a"
  shows False
proof -
  have "now \<le> window_end a"
    using remembered_while_fresh assms(1,3) by (auto simp: spec_admit_Inr spec_fresh_def window_end_def)
  then have "do_offer_id x \<in> live_ids log now"
    using assms(2) by (force simp: live_ids_def)
  then show False using assms(1) by (simp add: spec_admit_Inr)
qed

lemma spec_accepted_once:
  assumes "\<forall>(x, a) \<in> set log. spec_fresh started x a"
  shows "distinct (map fst (spec_accepted started log ops))"
    and "fst ` set (spec_accepted started log ops) \<inter> fst ` set log = {}"
proof -
  have "distinct (map fst (spec_accepted started log ops)) \<and>
      fst ` set (spec_accepted started log ops) \<inter> fst ` set log = {}"
    using assms
  proof (induction ops arbitrary: log)
    case Nil
    then show ?case by (simp add: spec_accepted_def)
  next
    case (Cons op ops)
    obtain x now where op: "op = (x, now)" by (cases op)
    show ?case
    proof (cases "spec_admit started log x now = Inr ()")
      case True
      have new: "x \<notin> fst ` set log" using spec_admit_no_replay [OF True] Cons.prems by fastforce
      have "\<forall>(y, a) \<in> set (log @ [(x, now)]). spec_fresh started y a"
        using Cons.prems True by (auto simp: spec_admit_Inr)
      from Cons.IH [OF this] new True show ?thesis
        by (auto simp: spec_accepted_def op Let_def)
    next
      case False
      then show ?thesis using Cons by (simp add: spec_accepted_def op Let_def)
    qed
  qed
  then show "distinct (map fst (spec_accepted started log ops))"
    and "fst ` set (spec_accepted started log ops) \<inter> fst ` set log = {}" by blast+
qed

text \<open>On a clock that never runs backwards the gate answers exactly as its contract over the whole history
  says: an offer more than two minutes off the clock or older than the process is stale, one accepted within
  the last four minutes is a replay, a sixty-fifth remembered offer is over the cap, and every other one is
  accepted. The cache may have forgotten expired ids or kept them; no answer shows which.\<close>

lemma gate_refines_contract:
  assumes "sorted (map snd ops)"
  shows "gate_run (gate_new started) ops = spec_run started [] ops"
  by (rule gate_run_refines [OF gate_rel_new [of started 0] assms]) simp

definition sample_offer :: "u64 \<Rightarrow> nat \<Rightarrow> device_offer" where
  "sample_offer issued n = \<lparr>do_issued_at = issued, do_offer_id = [of_nat n]\<rparr>"

lemma gate_refines_contract_witness:
  "gate_run (gate_new 1000) [(sample_offer 121000 1, 1000), (sample_offer 121000 1, 241000), (sample_offer 121000 1, 241001)] =
     spec_run 1000 [] [(sample_offer 121000 1, 1000), (sample_offer 121000 1, 241000), (sample_offer 121000 1, 241001)]"
  by (rule gate_refines_contract) simp

text \<open>C23: On a clock that never runs backwards no sealed offer is accepted twice, however a relay stores, repeats
  and reorders what it forwards: an accepted id is remembered for as long as the offer that carried it can
  still pass for fresh, at the last millisecond included, and near the end of the 64-bit clock too.\<close>

theorem no_offer_accepted_twice:
  assumes "sorted (map snd ops)"
  shows "distinct (map fst (accepted_offers (gate_new started) ops))"
  using spec_accepted_once(1) [of "[]" started ops]
    gate_run_refines [OF gate_rel_new [of started 0] assms]
  by (simp add: accepted_offers_def spec_accepted_def)

theorem no_offer_accepted_twice_witness:
  "distinct (map fst (accepted_offers (gate_new 1000)
     [(sample_offer 121000 1, 1000), (sample_offer 121000 1, 241000), (sample_offer 121000 1, 241001)]))"
  by (rule no_offer_accepted_twice) simp

text \<open>The comment on the gate says an id outlives its offer's freshness whatever the clock does. It does not:
  when the clock runs ahead, one fresh offer is judged there and drops the ids that look expired, and then the
  clock is set back, the first offer is accepted a second time.\<close>

lemma clock_rollback_reopens_replay:
  "gate_run (gate_new 0) [(sample_offer 1000000 1, 1000000), (sample_offer 1300000 2, 1300000), (sample_offer 1000000 1, 1000000)]
     = [Inr (), Inr (), Inr ()]"
  by (simp add: gate_admit_def gate_new_def offer_fresh_def sample_offer_def abs_diff_def OFFER_MAX_AGE_def
      MAX_REPLAY_ENTRIES_def hm_retain_def hm_get_def hm_insert_def hm_remove_def Let_def saturating_add_def
      replay_window_ms_def REPLAY_WINDOW_def)

end
