(* ===== verification/GatewayPunches.thy ===== *)
theory GatewayPunches
  imports PunchRegistry OfferGate
begin

text \<open>
  \<open>crates/gateway/src/channel/carrier/punches.rs\<close>: the gateway's live punches and the addresses they let
  through to QUIC. Tag verification is the sealer's (XChaCha20 and HMAC outside the repository): the parameter
  \<open>verify\<close>. A \<open>DropGuard\<close> cancels its punch's tasks when it is dropped; the guards dropped so far are listed in
  the order they were, and a reply channel is its name.
\<close>

definition MAX_PRFLX_SOURCES_PER_PUNCH :: nat where
  "MAX_PRFLX_SOURCES_PER_PUNCH = 4"

type_synonym punch_tag = "byte list"
type_synonym tag_check = "offer_id \<Rightarrow> 16 word \<Rightarrow> punch_tag \<Rightarrow> bool"

record gateway_punch =
  np_punch_id :: punch_id
  np_offer_id :: offer_id
  np_hosts :: "ip_addr list"
  np_replies :: "nat option"
  np_tasks :: nat

record live_punch =
  lp_punch_id :: punch_id
  lp_offer_id :: offer_id
  lp_expires_at :: instant
  lp_hosts :: "ip_addr list"
  lp_srflx :: "ip_addr option"
  lp_prflx :: "ip_addr list"
  lp_seqs :: "16 word set"
  lp_replies :: "nat option"
  lp_tasks :: nat

definition live_allows :: "live_punch \<Rightarrow> ip_addr \<Rightarrow> bool" where
  "live_allows p ip \<longleftrightarrow> ip \<in> set (lp_hosts p) \<or> lp_srflx p = Some ip \<or> ip \<in> set (lp_prflx p)"

datatype punch_auth = Admitted punch_id nat | Replayed | Full punch_id | Rejected

record gateway_table =
  gt_live :: "live_punch list"
  gt_ended :: "nat list"

definition table_default :: gateway_table where
  "table_default = \<lparr>gt_live = [], gt_ended = []\<rparr>"

definition table_prune :: "gateway_table \<Rightarrow> instant \<Rightarrow> gateway_table" where
  "table_prune t now =
     \<lparr>gt_live = filter (\<lambda>p. lp_expires_at p > now) (gt_live t),
      gt_ended = gt_ended t @ map lp_tasks (filter (\<lambda>p. \<not> lp_expires_at p > now) (gt_live t))\<rparr>"

definition live_at :: "gateway_table \<Rightarrow> instant \<Rightarrow> live_punch list" where
  "live_at t now = filter (\<lambda>p. lp_expires_at p > now) (gt_live t)"

definition live_punch_new :: "gateway_punch \<Rightarrow> instant \<Rightarrow> live_punch" where
  "live_punch_new p now =
     \<lparr>lp_punch_id = np_punch_id p, lp_offer_id = np_offer_id p, lp_expires_at = now + PUNCH_TTL,
      lp_hosts = map canonical_ip (np_hosts p), lp_srflx = None, lp_prflx = [], lp_seqs = {},
      lp_replies = np_replies p, lp_tasks = np_tasks p\<rparr>"

text \<open>\<open>live.remove(0)\<close> on a table at the cap; its guard is dropped with it.\<close>

definition supersede :: "gateway_table \<Rightarrow> punch_id option \<times> gateway_table" where
  "supersede t =
     (if length (gt_live t) \<ge> MAX_INFLIGHT_PUNCHES_PER_NODE then
        case gt_live t of
          p # ps \<Rightarrow> (Some (lp_punch_id p), \<lparr>gt_live = ps, gt_ended = gt_ended t @ [lp_tasks p]\<rparr>)
        | [] \<Rightarrow> (None, t)
      else (None, t))"

definition table_insert :: "gateway_table \<Rightarrow> gateway_punch \<Rightarrow> instant \<Rightarrow> punch_id option \<times> gateway_table" where
  "table_insert t p now =
     (let (old, t') = supersede (table_prune t now)
      in (old, t'\<lparr>gt_live := gt_live t' @ [live_punch_new p now]\<rparr>))"

definition table_admits :: "gateway_table \<Rightarrow> ip_addr \<Rightarrow> instant \<Rightarrow> bool" where
  "table_admits t ip now \<longleftrightarrow> (\<exists>p \<in> set (live_at t now). live_allows p (canonical_ip ip))"

text \<open>\<open>iter_mut().find(..)\<close> and what is done with the entry it finds.\<close>

fun update_first :: "('a \<Rightarrow> bool) \<Rightarrow> ('a \<Rightarrow> 'r \<times> 'a) \<Rightarrow> 'a list \<Rightarrow> 'r option \<times> 'a list" where
  "update_first P f [] = (None, [])"
| "update_first P f (x # xs) =
     (if P x then let (r, y) = f x in (Some r, y # xs)
      else let (r, ys) = update_first P f xs in (r, x # ys))"

definition accept_punch :: "ip_addr \<Rightarrow> 16 word \<Rightarrow> live_punch \<Rightarrow> punch_auth \<times> live_punch" where
  "accept_punch src seq p =
     (if seq \<in> lp_seqs p then (Replayed, p)
      else
        let p' = p\<lparr>lp_seqs := insert seq (lp_seqs p)\<rparr> in
        if src \<notin> set (lp_prflx p') \<and> length (lp_prflx p') \<ge> MAX_PRFLX_SOURCES_PER_PUNCH
        then (Full (lp_punch_id p'), p')
        else
          let p'' = (if src \<in> set (lp_prflx p') then p' else p'\<lparr>lp_prflx := lp_prflx p' @ [src]\<rparr>)
          in (Admitted (lp_punch_id p'') (length (lp_prflx p'')), p''))"

definition table_authenticate ::
    "tag_check \<Rightarrow> gateway_table \<Rightarrow> ip_addr \<Rightarrow> 16 word \<Rightarrow> punch_tag \<Rightarrow> instant \<Rightarrow> punch_auth \<times> gateway_table" where
  "table_authenticate verify t src seq tg now =
     (let (r, live) = update_first (\<lambda>p. lp_expires_at p > now \<and> verify (lp_offer_id p) seq tg)
                        (accept_punch (canonical_ip src) seq) (gt_live t)
      in (case r of None \<Rightarrow> Rejected | Some a \<Rightarrow> a, t\<lparr>gt_live := live\<rparr>))"

definition allow_srflx :: "gateway_table \<Rightarrow> punch_id \<Rightarrow> ip_addr \<Rightarrow> instant \<Rightarrow> bool \<times> gateway_table" where
  "allow_srflx t pid ip now =
     (let (r, live) = update_first (\<lambda>p. lp_punch_id p = pid \<and> lp_expires_at p > now)
                        (\<lambda>p. (True, p\<lparr>lp_srflx := Some (canonical_ip ip)\<rparr>)) (gt_live t)
      in (r \<noteq> None, t\<lparr>gt_live := live\<rparr>))"

definition replies_for :: "gateway_table \<Rightarrow> punch_id \<Rightarrow> instant \<Rightarrow> nat option" where
  "replies_for t pid now =
     (case find (\<lambda>p. lp_punch_id p = pid) (live_at t now) of None \<Rightarrow> None | Some p \<Rightarrow> lp_replies p)"

section \<open>Histories\<close>

datatype table_op =
    TInsert gateway_punch instant
  | TPunch ip_addr "16 word" punch_tag instant
  | TSrflx punch_id ip_addr instant

datatype table_event = EInsert "punch_id option" | EPunch punch_auth | ESrflx bool

primrec table_step :: "tag_check \<Rightarrow> gateway_table \<Rightarrow> table_op \<Rightarrow> table_event \<times> gateway_table" where
  "table_step verify t (TInsert p now) = (let (r, t') = table_insert t p now in (EInsert r, t'))"
| "table_step verify t (TPunch src seq tg now) =
     (let (r, t') = table_authenticate verify t src seq tg now in (EPunch r, t'))"
| "table_step verify t (TSrflx pid ip now) = (let (r, t') = allow_srflx t pid ip now in (ESrflx r, t'))"

record table_history =
  th_table :: gateway_table
  th_log :: "(table_op \<times> table_event) list"

definition history_step :: "tag_check \<Rightarrow> table_history \<Rightarrow> table_op \<Rightarrow> table_history" where
  "history_step verify h a =
     (let (e, t) = table_step verify (th_table h) a in \<lparr>th_table = t, th_log = th_log h @ [(a, e)]\<rparr>)"

abbreviation punch_runs :: "tag_check \<Rightarrow> table_op list \<Rightarrow> table_history" where
  "punch_runs verify ops \<equiv> foldl (history_step verify) \<lparr>th_table = table_default, th_log = []\<rparr> ops"

section \<open>One operation\<close>

lemma update_first_cases:
  assumes "update_first P f xs = (r, ys)"
  obtains (none) "r = None" "ys = xs" "\<forall>x \<in> set xs. \<not> P x"
    | (some) us x vs y r' where "xs = us @ x # vs" "P x" "\<forall>u \<in> set us. \<not> P u" "f x = (r', y)" "r = Some r'"
        "ys = us @ y # vs"
proof -
  have "r = None \<and> ys = xs \<and> (\<forall>x \<in> set xs. \<not> P x) \<or>
    (\<exists>us x vs y r'. xs = us @ x # vs \<and> P x \<and> (\<forall>u \<in> set us. \<not> P u) \<and> f x = (r', y) \<and> r = Some r' \<and> ys = us @ y # vs)"
    using assms
  proof (induction xs arbitrary: ys)
    case Nil
    then show ?case by simp
  next
    case (Cons x xs)
    show ?case
    proof (cases "P x")
      case True
      obtain r' y where "f x = (r', y)" by (cases "f x")
      then show ?thesis
        using Cons.prems True
        by (intro disjI2 exI [of _ "[]"] exI [of _ x] exI [of _ xs] exI [of _ y] exI [of _ r']) simp
    next
      case False
      obtain r0 zs where rest: "update_first P f xs = (r0, zs)" by (cases "update_first P f xs")
      then have here: "r = r0" "ys = x # zs" using Cons.prems False by auto
      from Cons.IH [of zs] rest here(1) consider
          "r = None" "zs = xs" "\<forall>x \<in> set xs. \<not> P x"
        | us y vs z r' where "xs = us @ y # vs" "P y" "\<forall>u \<in> set us. \<not> P u" "f y = (r', z)" "r = Some r'" "zs = us @ z # vs"
        by auto
      then show ?thesis
      proof cases
        case 1
        then show ?thesis using here False by simp
      next
        case (2 us y vs z r')
        then show ?thesis
          using here False by (intro disjI2 exI [of _ "x # us"] exI [of _ y] exI [of _ vs] exI [of _ z] exI [of _ r']) simp
      qed
    qed
  qed
  then show thesis using none some by blast
qed

text \<open>What accepting a punch does to its entry.\<close>

lemma accept_punch_cases:
  assumes "accept_punch src seq p = (r, p')"
  obtains (replayed) "r = Replayed" "p' = p" "seq \<in> lp_seqs p"
    | (full) "r = Full (lp_punch_id p)" "p' = p\<lparr>lp_seqs := insert seq (lp_seqs p)\<rparr>" "seq \<notin> lp_seqs p"
        "src \<notin> set (lp_prflx p)" "MAX_PRFLX_SOURCES_PER_PUNCH \<le> length (lp_prflx p)"
    | (again) "r = Admitted (lp_punch_id p) (length (lp_prflx p))" "p' = p\<lparr>lp_seqs := insert seq (lp_seqs p)\<rparr>"
        "seq \<notin> lp_seqs p" "src \<in> set (lp_prflx p)"
    | (fresh) "r = Admitted (lp_punch_id p) (Suc (length (lp_prflx p)))"
        "p' = p\<lparr>lp_seqs := insert seq (lp_seqs p), lp_prflx := lp_prflx p @ [src]\<rparr>"
        "seq \<notin> lp_seqs p" "src \<notin> set (lp_prflx p)" "length (lp_prflx p) < MAX_PRFLX_SOURCES_PER_PUNCH"
proof (cases "seq \<in> lp_seqs p")
  case True
  then show thesis using replayed assms by (simp add: accept_punch_def)
next
  case False
  show thesis
  proof (cases "src \<in> set (lp_prflx p)")
    case True
    then show thesis using again assms False by (simp add: accept_punch_def Let_def)
  next
    case new: False
    show thesis
    proof (cases "MAX_PRFLX_SOURCES_PER_PUNCH \<le> length (lp_prflx p)")
      case True
      then show thesis using full assms False new by (simp add: accept_punch_def Let_def)
    next
      case small: False
      then show thesis using fresh assms False new by (simp add: accept_punch_def Let_def)
    qed
  qed
qed

text \<open>
  The four ways an operation changes the table: an entry joins (after expired ones and perhaps the oldest
  left), an entry takes a punch, an entry takes a mapping, or nothing happens.
\<close>

lemma mset_filter_split: "mset xs = mset (filter P xs) + mset (filter (\<lambda>x. \<not> P x) xs)"
  by (induction xs) auto

lemma table_insert_live:
  assumes "table_insert t g now = (old, t')"
  obtains kept gone where "gt_live t' = kept @ [live_punch_new g now]" "set kept \<subseteq> set (live_at t now)"
    "length kept < MAX_INFLIGHT_PUNCHES_PER_NODE \<or> length kept < length (live_at t now)"
    "mset (gt_live t) = mset kept + mset gone" "gt_ended t' = gt_ended t @ map lp_tasks gone"
proof -
  let ?in = "filter (\<lambda>p. lp_expires_at p > now) (gt_live t)"
  let ?out = "filter (\<lambda>p. \<not> lp_expires_at p > now) (gt_live t)"
  have parts: "mset (gt_live t) = mset ?in + mset ?out" by (rule mset_filter_split)
  show thesis
  proof (cases "length ?in \<ge> MAX_INFLIGHT_PUNCHES_PER_NODE \<and> ?in \<noteq> []")
    case True
    then obtain p ps where cons: "?in = p # ps" by (cases ?in) auto
    show thesis
    proof (rule that [of ps "?out @ [p]"])
      show "gt_live t' = ps @ [live_punch_new g now]" "gt_ended t' = gt_ended t @ map lp_tasks (?out @ [p])"
        using assms True cons by (auto simp: table_insert_def supersede_def table_prune_def)
      show "mset (gt_live t) = mset ps + mset (?out @ [p])" using parts cons by simp
    qed (use cons in \<open>auto simp: live_at_def\<close>)
  next
    case False
    show thesis
    proof (rule that [of ?in ?out])
      show "gt_live t' = ?in @ [live_punch_new g now]" "gt_ended t' = gt_ended t @ map lp_tasks ?out"
        using assms False by (auto simp: table_insert_def supersede_def table_prune_def split: list.splits if_splits)
      show "length ?in < MAX_INFLIGHT_PUNCHES_PER_NODE \<or> length ?in < length (live_at t now)"
        using False by (auto simp: MAX_INFLIGHT_PUNCHES_PER_NODE_def)
    qed (use parts in \<open>auto simp: live_at_def\<close>)
  qed
qed

lemma table_step_cases:
  assumes "table_step verify t a = (e, t')"
  obtains (insert) g now old kept gone where "a = TInsert g now" "e = EInsert old"
      "gt_live t' = kept @ [live_punch_new g now]" "set kept \<subseteq> set (live_at t now)"
      "length kept < MAX_INFLIGHT_PUNCHES_PER_NODE \<or> length kept < length (live_at t now)"
      "mset (gt_live t) = mset kept + mset gone" "gt_ended t' = gt_ended t @ map lp_tasks gone"
    | (idle) "t' = t" "\<And>g now. a \<noteq> TInsert g now" "e = EPunch Rejected \<or> e = ESrflx False"
    | (punch) src seq tg now r us p vs p' where "a = TPunch src seq tg now" "e = EPunch r"
      "now < lp_expires_at p" "verify (lp_offer_id p) seq tg" "accept_punch (canonical_ip src) seq p = (r, p')"
      "gt_live t = us @ p # vs" "gt_live t' = us @ p' # vs" "gt_ended t' = gt_ended t"
    | (srflx) pid ip now us p vs where "a = TSrflx pid ip now" "e = ESrflx True" "lp_punch_id p = pid"
      "now < lp_expires_at p" "gt_live t = us @ p # vs"
      "gt_live t' = us @ p\<lparr>lp_srflx := Some (canonical_ip ip)\<rparr> # vs" "gt_ended t' = gt_ended t"
proof (cases a)
  case (TInsert g now)
  obtain old t1 where "table_insert t g now = (old, t1)" by (cases "table_insert t g now")
  moreover from this have "e = EInsert old" "t' = t1" using assms TInsert by simp_all
  ultimately show thesis using table_insert_live [of t g now old t1] insert [OF TInsert] by metis
next
  case (TPunch src seq tg now)
  let ?P = "\<lambda>p. lp_expires_at p > now \<and> verify (lp_offer_id p) seq tg"
  obtain r live where upd: "update_first ?P (accept_punch (canonical_ip src) seq) (gt_live t) = (r, live)"
    by (cases "update_first ?P (accept_punch (canonical_ip src) seq) (gt_live t)")
  then have out: "e = EPunch (case r of None \<Rightarrow> Rejected | Some a \<Rightarrow> a)" "t' = t\<lparr>gt_live := live\<rparr>"
    using assms TPunch by (auto simp: table_authenticate_def)
  from upd show thesis
  proof (cases rule: update_first_cases)
    case none
    then show thesis using idle out TPunch by simp
  next
    case (some us x vs y r')
    show thesis
      by (rule punch [OF TPunch, of r' x y us vs]) (use some out in auto)
  qed
next
  case (TSrflx pid ip now)
  let ?P = "\<lambda>p. lp_punch_id p = pid \<and> lp_expires_at p > now"
  let ?f = "\<lambda>p. (True, p\<lparr>lp_srflx := Some (canonical_ip ip)\<rparr>)"
  obtain r live where upd: "update_first ?P ?f (gt_live t) = (r, live)" by (cases "update_first ?P ?f (gt_live t)")
  then have out: "e = ESrflx (r \<noteq> None)" "t' = t\<lparr>gt_live := live\<rparr>"
    using assms TSrflx by (auto simp: allow_srflx_def)
  from upd show thesis
  proof (cases rule: update_first_cases)
    case none
    then show thesis using idle out TSrflx by simp
  next
    case (some us x vs y r')
    show thesis
      by (rule srflx [OF TSrflx, of x us vs]) (use some out in auto)
  qed
qed

section \<open>Where an admitted address comes from\<close>

text \<open>
  The punch \<open>g\<close>, registered at \<open>t0\<close>, speaks for an address: the sealed offer listed it, the gateway latched it
  as the peer's mapping, or a punch from it carried a tag of the offer, in either case while the punch lived.
\<close>

definition vouches :: "tag_check \<Rightarrow> gateway_punch \<Rightarrow> instant \<Rightarrow> table_op list \<Rightarrow> ip_addr \<Rightarrow> bool" where
  "vouches verify g t0 post ip \<longleftrightarrow>
     ip \<in> canonical_ip ` set (np_hosts g) \<or>
     (\<exists>src t. TSrflx (np_punch_id g) src t \<in> set post \<and> t < t0 + PUNCH_TTL \<and> canonical_ip src = ip) \<or>
     (\<exists>src seq tg t. TPunch src seq tg t \<in> set post \<and> verify (np_offer_id g) seq tg \<and> t < t0 + PUNCH_TTL \<and>
        canonical_ip src = ip)"

definition entry_of :: "tag_check \<Rightarrow> table_op list \<Rightarrow> live_punch \<Rightarrow> bool" where
  "entry_of verify ops p \<longleftrightarrow>
     (\<exists>pre g t0 post. ops = pre @ TInsert g t0 # post \<and> lp_punch_id p = np_punch_id g \<and>
        lp_offer_id p = np_offer_id g \<and> lp_expires_at p = t0 + PUNCH_TTL \<and>
        (\<forall>ip. live_allows p ip \<longrightarrow> vouches verify g t0 post ip))"

lemma vouches_snoc: "vouches verify g t0 post ip \<Longrightarrow> vouches verify g t0 (post @ [a]) ip"
  unfolding vouches_def set_append by blast

lemma entry_of_new: "entry_of verify (ops @ [TInsert g now]) (live_punch_new g now)"
  unfolding entry_of_def
  by (rule exI [of _ ops], rule exI [of _ g], rule exI [of _ now], rule exI [of _ "[]"])
    (auto simp: live_punch_new_def live_allows_def vouches_def)

lemma entry_of_change:
  assumes "entry_of verify ops p" and "lp_punch_id p' = lp_punch_id p" and "lp_offer_id p' = lp_offer_id p"
    and "lp_expires_at p' = lp_expires_at p"
    and "\<And>ip g t0 post. live_allows p' ip \<Longrightarrow> \<not> live_allows p ip \<Longrightarrow> lp_punch_id p = np_punch_id g \<Longrightarrow>
      lp_offer_id p = np_offer_id g \<Longrightarrow> lp_expires_at p = t0 + PUNCH_TTL \<Longrightarrow> vouches verify g t0 (post @ [a]) ip"
  shows "entry_of verify (ops @ [a]) p'"
proof -
  obtain pre g t0 post where e: "ops = pre @ TInsert g t0 # post" "lp_punch_id p = np_punch_id g"
      "lp_offer_id p = np_offer_id g" "lp_expires_at p = t0 + PUNCH_TTL"
      "\<And>ip. live_allows p ip \<Longrightarrow> vouches verify g t0 post ip"
    using assms(1) unfolding entry_of_def by blast
  have "vouches verify g t0 (post @ [a]) ip" if "live_allows p' ip" for ip
    using that assms(5) [OF that _ e(2-4)] e(5) vouches_snoc by (cases "live_allows p ip") auto
  then show ?thesis
    unfolding entry_of_def using e(1-4) assms(2-4)
    by (intro exI [of _ pre] exI [of _ g] exI [of _ t0] exI [of _ "post @ [a]"]) auto
qed

lemma entry_of_snoc: "entry_of verify ops p \<Longrightarrow> entry_of verify (ops @ [a]) p"
  by (rule entry_of_change) auto

lemma entries_step:
  assumes "\<forall>p \<in> set (gt_live t). entry_of verify ops p" and "table_step verify t a = (e, t')"
  shows "\<forall>p \<in> set (gt_live t'). entry_of verify (ops @ [a]) p"
  using assms(2)
proof (cases rule: table_step_cases)
  case (insert g now old kept gone)
  have "set kept \<subseteq> set (gt_live t)" using insert(4) by (auto simp: live_at_def)
  then show ?thesis using insert(1,3) assms(1) entry_of_new entry_of_snoc by auto
next
  case idle
  then show ?thesis using assms(1) entry_of_snoc by blast
next
  case (punch src seq tg now r us p vs p')
  have "entry_of verify (ops @ [a]) p'"
  proof (rule entry_of_change [of verify ops p])
    show "entry_of verify ops p" using assms(1) punch(6) by simp
    show "vouches verify g t0 (post @ [a]) ip"
      if "live_allows p' ip" "\<not> live_allows p ip" "lp_offer_id p = np_offer_id g" "lp_expires_at p = t0 + PUNCH_TTL"
      for ip g t0 post
    proof -
      have "ip = canonical_ip src"
        using punch(5) that(1,2) by (cases rule: accept_punch_cases) (auto simp: live_allows_def)
      moreover have "TPunch src seq tg now \<in> set (post @ [a])" "verify (np_offer_id g) seq tg" "now < t0 + PUNCH_TTL"
        using that(3,4) punch(1,3,4) by simp_all
      ultimately show ?thesis unfolding vouches_def by blast
    qed
  qed (use punch(5) in \<open>cases rule: accept_punch_cases; simp\<close>)+
  then show ?thesis using punch(6,7) assms(1) entry_of_snoc by auto
next
  case (srflx pid ip now us p vs)
  have "entry_of verify (ops @ [a]) (p\<lparr>lp_srflx := Some (canonical_ip ip)\<rparr>)"
    by (rule entry_of_change [of verify ops p])
      (use srflx assms(1) in \<open>auto simp: live_allows_def vouches_def\<close>)
  then show ?thesis using srflx(5,6) assms(1) entry_of_snoc by auto
qed

lemma history_step_simps:
  assumes "table_step verify (th_table h) a = (e, t')"
  shows "history_step verify h a = \<lparr>th_table = t', th_log = th_log h @ [(a, e)]\<rparr>"
  using assms by (simp add: history_step_def)

lemma entries_run: "\<forall>p \<in> set (gt_live (th_table (punch_runs verify ops))). entry_of verify ops p"
proof (induction ops rule: rev_induct)
  case Nil
  then show ?case by (simp add: table_default_def)
next
  case (snoc a ops)
  obtain e t' where "table_step verify (th_table (punch_runs verify ops)) a = (e, t')" by fastforce
  then show ?case using entries_step [OF snoc] history_step_simps by simp
qed

text \<open>C22: An address reaches QUIC only through a punch the gateway accepted less than twenty seconds ago: its
  sealed offer listed the address, the gateway latched it as that punch's mapping, or a punch from the address
  carried a valid tag of that very offer while it lived. The spelling of the address does not matter.\<close>

theorem admission_needs_a_voucher:
  assumes "table_admits (th_table (punch_runs verify ops)) ip now"
  shows "\<exists>pre g t0 post. ops = pre @ TInsert g t0 # post \<and> now < t0 + PUNCH_TTL \<and>
    vouches verify g t0 post (canonical_ip ip)"
proof -
  obtain p where p: "p \<in> set (gt_live (th_table (punch_runs verify ops)))" "now < lp_expires_at p"
      "live_allows p (canonical_ip ip)"
    using assms by (auto simp: table_admits_def live_at_def)
  then have "entry_of verify ops p" using entries_run by blast
  then show ?thesis using p(2,3) unfolding entry_of_def by (metis (no_types, lifting))
qed

definition sample_punch :: "nat \<Rightarrow> gateway_punch" where
  "sample_punch n = \<lparr>np_punch_id = [of_nat n], np_offer_id = [of_nat n], np_hosts = [V4 (ipv4_new 10 0 0 1)],
     np_replies = None, np_tasks = n\<rparr>"

definition sample_check :: tag_check where
  "sample_check oid seq tg \<longleftrightarrow> tg = oid"

theorem admission_needs_a_voucher_witness:
  "\<exists>pre g t0 post. [TInsert (sample_punch 1) 0, TPunch (V4 7) 3 [1] (secs 2)] = pre @ TInsert g t0 # post \<and>
    secs 3 < t0 + PUNCH_TTL \<and> vouches sample_check g t0 post (canonical_ip (V4 7))"
  by (rule admission_needs_a_voucher)
    (simp add: history_step_def table_default_def table_insert_def supersede_def table_prune_def live_punch_new_def
      sample_punch_def sample_check_def MAX_INFLIGHT_PUNCHES_PER_NODE_def table_authenticate_def accept_punch_def
      PUNCH_TTL_def secs_def MAX_PRFLX_SOURCES_PER_PUNCH_def table_admits_def live_at_def live_allows_def)

section \<open>Replays, bounds and tasks\<close>

text \<open>A log entry in which punch \<open>i\<close> took sequence number \<open>s\<close>; a registration of punch \<open>i\<close>.\<close>

fun took :: "punch_id \<Rightarrow> 16 word \<Rightarrow> table_op \<times> table_event \<Rightarrow> bool" where
  "took i s (TPunch src seq tg now, EPunch (Admitted j n)) \<longleftrightarrow> j = i \<and> seq = s"
| "took i s (TPunch src seq tg now, EPunch (Full j)) \<longleftrightarrow> j = i \<and> seq = s"
| "took i s _ \<longleftrightarrow> False"

fun registers :: "punch_id \<Rightarrow> table_op \<times> table_event \<Rightarrow> bool" where
  "registers i (TInsert g now, e) \<longleftrightarrow> np_punch_id g = i"
| "registers i _ \<longleftrightarrow> False"

definition awaits :: "punch_id \<Rightarrow> 16 word \<Rightarrow> live_punch \<Rightarrow> bool" where
  "awaits i s p \<longleftrightarrow> lp_punch_id p = i \<and> s \<notin> lp_seqs p"

definition count_if :: "('a \<Rightarrow> bool) \<Rightarrow> 'a list \<Rightarrow> nat" where
  "count_if P xs = length (filter P xs)"

lemma count_if_simps [simp]:
  "count_if P [] = 0" "count_if P (x # xs) = (if P x then 1 else 0) + count_if P xs"
  "count_if P (xs @ ys) = count_if P xs + count_if P ys"
  by (simp_all add: count_if_def)

lemma count_if_mset: "mset xs = mset ys + mset zs \<Longrightarrow> count_if P xs = count_if P ys + count_if P zs"
  unfolding count_if_def by (metis filter_union_mset mset_filter size_mset size_union)

lemma awaits_accept:
  assumes "accept_punch src seq p = (r, p')"
  shows "(if took i s (TPunch src' seq tg now, EPunch r) then 1 else 0) + (if awaits i s p' then 1 else 0) =
    ((if awaits i s p then 1 else 0) :: nat)"
  using assms by (cases rule: accept_punch_cases) (auto simp: awaits_def)

lemma took_step:
  assumes "table_step verify t a = (e, t')"
  shows "(if took i s (a, e) then 1 else 0) + count_if (awaits i s) (gt_live t') \<le>
    count_if (awaits i s) (gt_live t) + (if registers i (a, e) then 1 else 0)"
  using assms
proof (cases rule: table_step_cases)
  case (insert g now old kept gone)
  then show ?thesis
    using count_if_mset [OF insert(6), of "awaits i s"] by (simp add: awaits_def live_punch_new_def)
next
  case idle
  then have "\<not> took i s (a, e)" by (cases "(i, s, a, e)" rule: took.cases) auto
  then show ?thesis using idle by simp
next
  case (punch src seq tg now r us p vs p')
  then show ?thesis using awaits_accept [OF punch(5), of i s src tg now] by (simp add: punch(1,2))
next
  case (srflx pid ip now us p vs)
  then show ?thesis by (simp add: awaits_def)
qed

text \<open>However a path copies and replays punch datagrams, a registered punch takes each sequence number at
  most once: over any history, sequence \<open>s\<close> is accepted for an id no more often than the id was registered.\<close>

lemma each_sequence_taken_once:
  "count_if (took i s) (th_log (punch_runs verify ops)) \<le> count_if (registers i) (th_log (punch_runs verify ops))"
proof -
  have "count_if (took i s) (th_log (punch_runs verify ops)) +
      count_if (awaits i s) (gt_live (th_table (punch_runs verify ops))) \<le>
      count_if (registers i) (th_log (punch_runs verify ops))"
  proof (induction ops rule: rev_induct)
    case Nil
    then show ?case by (simp add: table_default_def)
  next
    case (snoc a ops)
    obtain e t' where step: "table_step verify (th_table (punch_runs verify ops)) a = (e, t')" by fastforce
    show ?case using took_step [OF step, of i s] snoc by (simp add: history_step_simps [OF step])
  qed
  then show ?thesis by linarith
qed

definition table_bounded :: "gateway_table \<Rightarrow> bool" where
  "table_bounded t \<longleftrightarrow> length (gt_live t) \<le> MAX_INFLIGHT_PUNCHES_PER_NODE \<and>
     (\<forall>p \<in> set (gt_live t). distinct (lp_prflx p) \<and> length (lp_prflx p) \<le> MAX_PRFLX_SOURCES_PER_PUNCH)"

lemma table_bounded_step:
  assumes "table_bounded t" and "table_step verify t a = (e, t')"
  shows "table_bounded t'"
  using assms(2)
proof (cases rule: table_step_cases)
  case (insert g now old kept gone)
  have "length (live_at t now) \<le> MAX_INFLIGHT_PUNCHES_PER_NODE"
    using assms(1) length_filter_le le_trans unfolding table_bounded_def live_at_def by blast
  then have "length kept < MAX_INFLIGHT_PUNCHES_PER_NODE" using insert(5) by linarith
  moreover have "set kept \<subseteq> set (gt_live t)" using insert(4) by (auto simp: live_at_def)
  ultimately show ?thesis
    using assms(1) insert(3) by (auto simp: table_bounded_def live_punch_new_def MAX_PRFLX_SOURCES_PER_PUNCH_def)
next
  case idle
  then show ?thesis using assms(1) by simp
next
  case (punch src seq tg now r us p vs p')
  have "distinct (lp_prflx p') \<and> length (lp_prflx p') \<le> MAX_PRFLX_SOURCES_PER_PUNCH"
    using punch(5) assms(1) by (cases rule: accept_punch_cases) (auto simp: table_bounded_def punch(6))
  then show ?thesis using assms(1) punch(6,7) by (simp add: table_bounded_def)
next
  case (srflx pid ip now us p vs)
  then show ?thesis using assms(1) by (simp add: table_bounded_def)
qed

text \<open>Every registered punch's tasks are live with it or have ended, once.\<close>

definition all_tasks :: "gateway_table \<Rightarrow> nat multiset" where
  "all_tasks t = mset (gt_ended t) + mset (map lp_tasks (gt_live t))"

primrec started_tasks :: "table_op \<Rightarrow> nat multiset" where
  "started_tasks (TInsert g now) = {#np_tasks g#}"
| "started_tasks (TPunch _ _ _ _) = {#}"
| "started_tasks (TSrflx _ _ _) = {#}"

lemma all_tasks_step:
  assumes "table_step verify t a = (e, t')"
  shows "all_tasks t' = all_tasks t + started_tasks a"
  using assms
proof (cases rule: table_step_cases)
  case (insert g now old kept gone)
  have "image_mset lp_tasks (mset (gt_live t)) = image_mset lp_tasks (mset kept) + image_mset lp_tasks (mset gone)"
    by (simp add: insert(6))
  then show ?thesis by (simp add: all_tasks_def insert live_punch_new_def)
next
  case idle
  have "started_tasks a = {#}" using idle(2) by (metis started_tasks.simps(2,3) table_op.exhaust)
  then show ?thesis using idle(1) by simp
next
  case (punch src seq tg now r us p vs p')
  have "lp_tasks p' = lp_tasks p" using punch(5) by (cases rule: accept_punch_cases) simp_all
  then show ?thesis using punch by (simp add: all_tasks_def)
next
  case (srflx pid ip now us p vs)
  then show ?thesis by (simp add: all_tasks_def)
qed

text \<open>At any point of any history the gateway holds at most two punches of at most four authenticated
  sources each, and the tasks of every punch it ever registered either run with a live entry or have been ended,
  exactly once: none is lost when a punch expires or is superseded.\<close>

lemma gateway_punches_bounded_and_ended:
  "table_bounded (th_table (punch_runs verify ops)) \<and>
   mset (gt_ended (th_table (punch_runs verify ops))) + mset (map lp_tasks (gt_live (th_table (punch_runs verify ops)))) =
     sum_list (map started_tasks ops)"
proof (induction ops rule: rev_induct)
  case Nil
  then show ?case by (simp add: table_default_def table_bounded_def)
next
  case (snoc a ops)
  obtain e t' where step: "table_step verify (th_table (punch_runs verify ops)) a = (e, t')" by fastforce
  show ?case
    using table_bounded_step [OF _ step] all_tasks_step [OF step] snoc
    by (simp add: history_step_simps [OF step] all_tasks_def)
qed

end
