(* ===== verification/TunnelLeg.thy ===== *)
theory TunnelLeg
  imports Prelude ProbeCodec
begin

text \<open>
  The messages of an API tunnel (\<open>crates/device-proto/src/api_tunnel.rs\<close>), the phone's end of one leg
  (\<open>app/ios/ffi/src/relay/tunnel.rs\<close>) and one request over it (\<open>exchange\<close> of \<open>relay/api.rs\<close>). Under a leg lies
  a sealed, ordered transport whose code is outside the repository: it is the requests sent so far, how many
  more it will take before it fails, and what it will deliver: messages of one or more frames, a break, or
  nothing until a timer runs out. A failure's text is a constructor with the values it prints. Ids and offsets
  count requests and bytes of one leg and stay far below \<open>2 ^ 64\<close>.
\<close>

section \<open>Messages\<close>

definition MAX_TUNNEL_CHUNK :: nat where
  "MAX_TUNNEL_CHUNK = 60 * 1024"

record tunnel_header =
  hd_name :: string
  hd_value :: string

record tunnel_reuse =
  idle_ms :: nat

datatype tunnel_request =
    ReqHead nat string string "tunnel_header list" "nat option"
  | ReqBody nat nat "byte list" bool
  | ReqCancel nat string

datatype tunnel_response =
    RespHead nat nat "tunnel_header list" "nat option" "tunnel_reuse option"
  | RespBody nat nat "byte list" bool
  | RespError nat nat string

section \<open>The leg\<close>

datatype dead_reason =
    SendFailed
  | ConnectionEnded
  | GatewayError nat string
  | BodyBeforeHead
  | SecondHead
  | OffsetMismatch nat nat
  | WrongRequest nat nat
  | WentSilent
  | RequestTimedOut

datatype leg_error = LegDead dead_reason | Http nat

record response_head =
  rh_status :: nat
  rh_body_len :: "nat option"
  rh_reuse :: "tunnel_reuse option"

text \<open>The two timers of a request: the budget for its first byte, which runs until the head is read, and the
  budget for the whole of it.\<close>

datatype timer = FirstByte | WholeRequest

datatype wire_event = Arrives "tunnel_response list" | Breaks | Overdue timer

record tunnel_wire =
  tw_sent :: "tunnel_request list"
  tw_room :: "nat option"
  tw_events :: "wire_event list"
  tw_closed :: bool

record leg_io =
  li_wire :: tunnel_wire
  li_pending :: "tunnel_response list"
  li_next_id :: nat
  li_saw :: bool

definition leg_new :: "tunnel_wire \<Rightarrow> leg_io" where
  "leg_new w = \<lparr>li_wire = w, li_pending = [], li_next_id = 1, li_saw = False\<rparr>"

definition claim_request_id :: "leg_io \<Rightarrow> nat \<times> leg_io" where
  "claim_request_id leg = (li_next_id leg, leg\<lparr>li_next_id := li_next_id leg + 1, li_saw := False\<rparr>)"

definition leg_send :: "leg_io \<Rightarrow> tunnel_request \<Rightarrow> (leg_error + unit) \<times> leg_io" where
  "leg_send leg req =
     (let w = li_wire leg in
      case tw_room w of
        Some 0 \<Rightarrow> (Inl (LegDead SendFailed), leg)
      | room \<Rightarrow> (Inr (), leg\<lparr>li_wire := w\<lparr>tw_sent := tw_sent w @ [req], tw_room := map_option (\<lambda>n. n - 1) room\<rparr>\<rparr>))"

text \<open>Awaiting ends with a value, an error, or a timer.\<close>

datatype 'a awaited = Done 'a | Fails leg_error | Expires timer

text \<open>
  The loop of \<open>next_response\<close> on the frames already decoded and what the wire still delivers; \<open>first\<close> says
  whether the first-byte timer runs.
\<close>

fun await_frame ::
    "bool \<Rightarrow> tunnel_response list \<Rightarrow> wire_event list \<Rightarrow> tunnel_response awaited \<times> tunnel_response list \<times> wire_event list" where
  "await_frame first (r # rs) evs = (Done r, rs, evs)"
| "await_frame first [] [] = (Expires WholeRequest, [], [])"
| "await_frame first [] (Arrives rs # evs) = await_frame first rs evs"
| "await_frame first [] (Breaks # evs) = (Fails (LegDead ConnectionEnded), [], evs)"
| "await_frame first [] (Overdue t # evs) =
     (if t = FirstByte \<and> \<not> first then await_frame first [] evs else (Expires t, [], evs))"

definition next_response :: "bool \<Rightarrow> leg_io \<Rightarrow> tunnel_response awaited \<times> leg_io" where
  "next_response first leg =
     (let (x, pending, evs) = await_frame first (li_pending leg) (tw_events (li_wire leg))
      in (x, leg\<lparr>li_pending := pending, li_wire := (li_wire leg)\<lparr>tw_events := evs\<rparr>,
                li_saw := (case x of Done _ \<Rightarrow> True | _ \<Rightarrow> li_saw leg)\<rparr>))"

definition check_id :: "nat \<Rightarrow> nat \<Rightarrow> leg_error option" where
  "check_id got expected = (if got = expected then None else Some (LegDead (WrongRequest got expected)))"

definition judge_head :: "nat \<Rightarrow> tunnel_response \<Rightarrow> response_head awaited" where
  "judge_head rid resp =
     (case resp of
        RespHead i status _ len reuse \<Rightarrow>
          (case check_id i rid of
             Some e \<Rightarrow> Fails e
           | None \<Rightarrow> Done \<lparr>rh_status = status, rh_body_len = len, rh_reuse = reuse\<rparr>)
      | RespError _ status reason \<Rightarrow> Fails (LegDead (GatewayError status reason))
      | RespBody i _ _ _ \<Rightarrow>
          (case check_id i rid of Some e \<Rightarrow> Fails e | None \<Rightarrow> Fails (LegDead BodyBeforeHead)))"

definition expect_response_head :: "leg_io \<Rightarrow> nat \<Rightarrow> response_head awaited \<times> leg_io" where
  "expect_response_head leg rid =
     (case next_response True leg of
        (Done resp, leg') \<Rightarrow> (judge_head rid resp, leg')
      | (Fails e, leg') \<Rightarrow> (Fails e, leg')
      | (Expires t, leg') \<Rightarrow> (Expires t, leg'))"

text \<open>Frames a leg can still see: the measure of the body loop.\<close>

fun frames_left :: "wire_event list \<Rightarrow> nat" where
  "frames_left [] = 0"
| "frames_left (Arrives rs # evs) = length rs + frames_left evs"
| "frames_left (_ # evs) = frames_left evs"

definition leg_frames :: "leg_io \<Rightarrow> nat" where
  "leg_frames leg = length (li_pending leg) + frames_left (tw_events (li_wire leg))"

lemma await_frame_frames:
  "await_frame first rs evs = (Done r, rs', evs') \<Longrightarrow>
     Suc (length rs' + frames_left evs') = length rs + frames_left evs"
  by (induction first rs evs rule: await_frame.induct) (auto split: if_splits)

lemma next_response_frames:
  assumes "next_response first leg = (Done r, leg')"
  shows "leg_frames leg' < leg_frames leg"
proof -
  obtain rs' evs' where "await_frame first (li_pending leg) (tw_events (li_wire leg)) = (Done r, rs', evs')"
    "li_pending leg' = rs'" "tw_events (li_wire leg') = evs'"
    using assms by (auto simp: next_response_def Let_def split: prod.splits)
  then show ?thesis using await_frame_frames by (fastforce simp: leg_frames_def)
qed

function collect_loop :: "nat \<Rightarrow> byte list \<Rightarrow> leg_io \<Rightarrow> byte list awaited \<times> leg_io" where
  "collect_loop rid body leg =
     (case next_response False leg of
        (Fails e, leg') \<Rightarrow> (Fails e, leg')
      | (Expires t, leg') \<Rightarrow> (Expires t, leg')
      | (Done resp, leg') \<Rightarrow>
          (case resp of
             RespBody i offset data last' \<Rightarrow>
               (case check_id i rid of
                  Some e \<Rightarrow> (Fails e, leg')
                | None \<Rightarrow>
                    if offset \<noteq> length body then (Fails (LegDead (OffsetMismatch offset (length body))), leg')
                    else if last' then (Done (body @ data), leg')
                    else collect_loop rid (body @ data) leg')
           | RespError _ status reason \<Rightarrow> (Fails (LegDead (GatewayError status reason)), leg')
           | RespHead i _ _ _ _ \<Rightarrow>
               (case check_id i rid of
                  Some e \<Rightarrow> (Fails e, leg')
                | None \<Rightarrow> (Fails (LegDead SecondHead), leg'))))"
  by pat_completeness auto
termination
  by (relation "measure (\<lambda>(rid, body, leg). leg_frames leg)") (auto dest: next_response_frames [OF sym])

declare collect_loop.simps [simp del]

definition collect_response_body :: "leg_io \<Rightarrow> nat \<Rightarrow> nat option \<Rightarrow> byte list awaited \<times> leg_io" where
  "collect_response_body leg rid len =
     (if len = Some 0 then (Done [], leg) else collect_loop rid [] leg)"

definition leg_close :: "leg_io \<Rightarrow> leg_io" where
  "leg_close leg = leg\<lparr>li_wire := (li_wire leg)\<lparr>tw_closed := True\<rparr>\<rparr>"

section \<open>Request bodies\<close>

text \<open>\<open>slice::chunks\<close>.\<close>

function chunks_of :: "nat \<Rightarrow> 'a list \<Rightarrow> 'a list list" where
  "chunks_of n xs = (if xs = [] \<or> n = 0 then [] else take n xs # chunks_of n (drop n xs))"
  by pat_completeness auto
termination
  by (relation "measure (\<lambda>(n, xs). length xs)") auto

declare chunks_of.simps [simp del]

definition body_frame :: "nat \<Rightarrow> nat \<Rightarrow> nat \<Rightarrow> byte list \<Rightarrow> tunnel_request" where
  "body_frame rid offset size' data = ReqBody rid offset data (offset + length data \<ge> size')"

fun frames_from :: "nat \<Rightarrow> nat \<Rightarrow> nat \<Rightarrow> byte list list \<Rightarrow> tunnel_request list" where
  "frames_from rid size' offset [] = []"
| "frames_from rid size' offset (c # cs) =
     body_frame rid offset size' c # frames_from rid size' (offset + length c) cs"

definition body_frames :: "nat \<Rightarrow> byte list \<Rightarrow> tunnel_request list" where
  "body_frames rid body = frames_from rid (length body) 0 (chunks_of MAX_TUNNEL_CHUNK body)"

definition declared_body_len :: "byte list option \<Rightarrow> nat option" where
  "declared_body_len body =
     (case body of Some b \<Rightarrow> if b = [] then None else Some (length b) | None \<Rightarrow> None)"

definition content_length_header :: "nat \<Rightarrow> tunnel_header" where
  "content_length_header n = \<lparr>hd_name = ''content-length'', hd_value = decimal n\<rparr>"

section \<open>One request\<close>

record exchange_outcome =
  ex_result :: "leg_error + byte list"
  ex_reuse :: "tunnel_reuse option"
  ex_response_seen :: bool

fun send_all :: "leg_io \<Rightarrow> tunnel_request list \<Rightarrow> (leg_error + unit) \<times> leg_io" where
  "send_all leg [] = (Inr (), leg)"
| "send_all leg (r # rs) =
     (case leg_send leg r of
        (Inl e, leg') \<Rightarrow> (Inl e, leg')
      | (Inr _, leg') \<Rightarrow> send_all leg' rs)"

definition request_frames ::
    "nat \<Rightarrow> string \<Rightarrow> string \<Rightarrow> tunnel_header list \<Rightarrow> byte list option \<Rightarrow> tunnel_request list" where
  "request_frames rid method path headers body =
     (let len = declared_body_len body;
          headers' = headers @ (case len of Some n \<Rightarrow> [content_length_header n] | None \<Rightarrow> [])
      in ReqHead rid method path headers' len # (case body of Some b \<Rightarrow> body_frames rid b | None \<Rightarrow> []))"

text \<open>\<open>ExchangeResult\<close>: the error carries the offer that came with it.\<close>

type_synonym exchange_result = "(leg_error \<times> tunnel_reuse option) + (byte list \<times> tunnel_reuse option)"

definition run_exchange ::
    "leg_io \<Rightarrow> string \<Rightarrow> string \<Rightarrow> tunnel_header list \<Rightarrow> byte list option \<Rightarrow> exchange_result option \<times> leg_io" where
  "run_exchange leg method path headers body =
     (let (rid, leg) = claim_request_id leg in
      case send_all leg (request_frames rid method path headers body) of
        (Inl e, leg) \<Rightarrow> (Some (Inl (e, None)), leg)
      | (Inr _, leg) \<Rightarrow>
          (case expect_response_head leg rid of
             (Expires FirstByte, leg) \<Rightarrow> (Some (Inl (LegDead WentSilent, None)), leg)
           | (Expires WholeRequest, leg) \<Rightarrow> (None, leg)
           | (Fails e, leg) \<Rightarrow> (Some (Inl (e, None)), leg)
           | (Done h, leg) \<Rightarrow>
               (case collect_response_body leg rid (rh_body_len h) of
                  (Expires _, leg) \<Rightarrow> (None, leg)
                | (Fails e, leg) \<Rightarrow> (Some (Inl (e, None)), leg)
                | (Done response_body, leg) \<Rightarrow>
                    if \<not> (200 \<le> rh_status h \<and> rh_status h < 300)
                    then (Some (Inl (Http (rh_status h), rh_reuse h)), leg)
                    else (Some (Inr (response_body, rh_reuse h)), leg))))"

definition exchange ::
    "leg_io \<Rightarrow> string \<Rightarrow> string \<Rightarrow> tunnel_header list \<Rightarrow> byte list option \<Rightarrow> exchange_outcome \<times> leg_io" where
  "exchange leg method path headers body =
     (let (out, leg) = run_exchange leg method path headers body;
          response_seen = li_saw leg
      in (case out of
            Some (Inr (b, reuse)) \<Rightarrow> \<lparr>ex_result = Inr b, ex_reuse = reuse, ex_response_seen = response_seen\<rparr>
          | Some (Inl (Http status, reuse)) \<Rightarrow>
              \<lparr>ex_result = Inl (Http status), ex_reuse = reuse, ex_response_seen = response_seen\<rparr>
          | Some (Inl (e, _)) \<Rightarrow> \<lparr>ex_result = Inl e, ex_reuse = None, ex_response_seen = response_seen\<rparr>
          | None \<Rightarrow> \<lparr>ex_result = Inl (LegDead RequestTimedOut), ex_reuse = None, ex_response_seen = response_seen\<rparr>, leg))"

text \<open>The offer to park on, and the rule for a second try.\<close>

definition parkable :: "tunnel_reuse option \<Rightarrow> leg_error + byte list \<Rightarrow> tunnel_reuse option" where
  "parkable reuse result =
     (case result of
        Inl (Http status) \<Rightarrow> if status = 401 \<or> status = 403 then None else reuse
      | _ \<Rightarrow> reuse)"

definition should_retry :: "exchange_outcome \<Rightarrow> bool \<Rightarrow> bool" where
  "should_retry outcome was_pooled \<longleftrightarrow>
     (case ex_result outcome of Inl _ \<Rightarrow> True | Inr _ \<Rightarrow> False) \<and> was_pooled \<and> \<not> ex_response_seen outcome"

section \<open>What a leg has read\<close>

text \<open>The frames a leg will see, in order, and the frames that make up one body.\<close>

fun arriving :: "wire_event list \<Rightarrow> tunnel_response list" where
  "arriving [] = []"
| "arriving (Arrives rs # evs) = rs @ arriving evs"
| "arriving (_ # evs) = arriving evs"

definition visible :: "leg_io \<Rightarrow> tunnel_response list" where
  "visible leg = li_pending leg @ arriving (tw_events (li_wire leg))"

text \<open>The frames of a body of request \<open>rid\<close> from an offset on: contiguous, all of the request, the last one marked.\<close>

fun body_run :: "nat \<Rightarrow> nat \<Rightarrow> tunnel_response list \<Rightarrow> bool" where
  "body_run rid off [RespBody i o' d lst] \<longleftrightarrow> i = rid \<and> o' = off \<and> lst"
| "body_run rid off (RespBody i o' d lst # f # fs) \<longleftrightarrow>
     i = rid \<and> o' = off \<and> \<not> lst \<and> body_run rid (off + length d) (f # fs)"
| "body_run rid off _ \<longleftrightarrow> False"

fun body_bytes :: "tunnel_response list \<Rightarrow> byte list" where
  "body_bytes [] = []"
| "body_bytes (RespBody i o' d lst # fs) = d @ body_bytes fs"
| "body_bytes (_ # fs) = body_bytes fs"

text \<open>A whole response to request \<open>rid\<close>: its head and, unless the head says there is none, its body.\<close>

definition response_run ::
    "nat \<Rightarrow> nat \<Rightarrow> tunnel_reuse option \<Rightarrow> byte list \<Rightarrow> tunnel_response list \<Rightarrow> bool" where
  "response_run rid status reuse b fs \<longleftrightarrow>
     (\<exists>hs len bs. fs = RespHead rid status hs len reuse # bs \<and> b = body_bytes bs \<and>
        (if len = Some 0 then bs = [] else body_run rid 0 bs))"

lemma await_frame_Done:
  "await_frame first rs evs = (Done r, rs', evs') \<Longrightarrow> rs @ arriving evs = r # rs' @ arriving evs'"
  by (induction first rs evs rule: await_frame.induct) (auto split: if_splits)

lemma next_response_Done:
  assumes "next_response first leg = (Done r, leg')"
  shows "visible leg = r # visible leg'" and "li_saw leg'" and "li_next_id leg' = li_next_id leg"
    and "tw_sent (li_wire leg') = tw_sent (li_wire leg)"
  using assms await_frame_Done
  by (auto simp: next_response_def visible_def Let_def split: prod.splits)

lemma check_id_iff [simp]: "check_id got expected = None \<longleftrightarrow> got = expected"
  by (simp add: check_id_def)

lemma collect_loop_body:
  assumes "next_response False leg = (Done (RespBody rid (length body) d lst), leg1)"
  shows "collect_loop rid body leg = (if lst then (Done (body @ d), leg1) else collect_loop rid (body @ d) leg1)"
  using assms by (subst collect_loop.simps) (simp add: check_id_def)

lemma collect_loop_Done:
  assumes "collect_loop rid body leg = (Done b, leg')"
  shows "\<exists>fs. visible leg = fs @ visible leg' \<and> body_run rid (length body) fs \<and> b = body @ body_bytes fs"
  using assms
proof (induction rid body leg rule: collect_loop.induct)
  case (1 rid body leg)
  obtain resp leg1 where nxt: "next_response False leg = (Done resp, leg1)"
    using "1.prems" by (subst (asm) collect_loop.simps) (auto split: prod.splits awaited.splits)
  note vis = next_response_Done(1) [OF nxt]
  obtain i o' d lst where resp: "resp = RespBody i o' d lst" "i = rid" "o' = length body"
    using "1.prems" nxt by (subst (asm) collect_loop.simps)
      (auto split: tunnel_response.splits option.splits if_splits)
  note step = collect_loop_body [of leg rid body d lst leg1]
  show ?case
  proof (cases lst)
    case True
    then have "b = body @ d" "leg' = leg1"
      using "1.prems" nxt resp step by simp_all
    then show ?thesis using vis resp True by (intro exI [of _ "[resp]"]) simp
  next
    case False
    then have "collect_loop rid (body @ d) leg1 = (Done b, leg')"
      using "1.prems" nxt resp step by simp
    then obtain fs where fs: "visible leg1 = fs @ visible leg'" "body_run rid (length (body @ d)) fs"
        "b = (body @ d) @ body_bytes fs"
      using "1.IH" [OF nxt [symmetric] refl resp(1)] resp False by auto
    then obtain f fs' where "fs = f # fs'" by (cases fs) auto
    then show ?thesis
      using fs vis resp False by (intro exI [of _ "resp # fs"]) simp
  qed
qed

text \<open>Sending: frames go out in order, and a leg that fails to send has sent a prefix of them.\<close>

lemma leg_send_state:
  assumes "leg_send leg r = (x, leg')"
  shows "visible leg' = visible leg" "li_next_id leg' = li_next_id leg" "li_saw leg' = li_saw leg"
    "li_pending leg' = li_pending leg" "tw_events (li_wire leg') = tw_events (li_wire leg)"
    "tw_sent (li_wire leg') = tw_sent (li_wire leg) @ (case x of Inl _ \<Rightarrow> [] | Inr _ \<Rightarrow> [r])"
    "tw_room (li_wire leg) = None \<Longrightarrow> x = Inr () \<and> tw_room (li_wire leg') = None"
    "case x of Inl e \<Rightarrow> e = LegDead SendFailed | Inr _ \<Rightarrow> True"
  using assms by (auto simp: leg_send_def visible_def Let_def split: option.splits nat.splits)

lemma send_all_state:
  assumes "send_all leg rs = (x, leg')"
  shows "visible leg' = visible leg \<and> li_next_id leg' = li_next_id leg \<and> li_saw leg' = li_saw leg \<and>
    li_pending leg' = li_pending leg \<and> tw_events (li_wire leg') = tw_events (li_wire leg) \<and>
    (\<exists>k. tw_sent (li_wire leg') = tw_sent (li_wire leg) @ take k rs \<and> (x = Inr () \<longrightarrow> length rs \<le> k)) \<and>
    (tw_room (li_wire leg) = None \<longrightarrow> x = Inr () \<and> tw_room (li_wire leg') = None) \<and>
    (case x of Inl e \<Rightarrow> e = LegDead SendFailed | Inr _ \<Rightarrow> True)"
  using assms
proof (induction rs arbitrary: leg)
  case Nil
  then show ?case by auto
next
  case (Cons r rs)
  obtain y leg1 where one: "leg_send leg r = (y, leg1)" by (cases "leg_send leg r")
  note st = leg_send_state [OF one]
  show ?case
  proof (cases y)
    case (Inl e)
    then show ?thesis using Cons.prems one st by (auto intro: exI [of _ 0])
  next
    case (Inr u)
    then have "send_all leg1 rs = (x, leg')" using Cons.prems one by simp
    from Cons.IH [OF this] obtain k where k: "tw_sent (li_wire leg') = tw_sent (li_wire leg1) @ take k rs"
        "x = Inr () \<longrightarrow> length rs \<le> k"
      by blast
    have "\<exists>k. tw_sent (li_wire leg') = tw_sent (li_wire leg) @ take k (r # rs) \<and> (x = Inr () \<longrightarrow> length (r # rs) \<le> k)"
      using k st(6) Inr by (intro exI [of _ "Suc k"]) simp
    then show ?thesis using Cons.IH [OF \<open>send_all leg1 rs = (x, leg')\<close>] st Inr by simp
  qed
qed

lemma send_all_closed: "send_all leg rs = (x, leg') \<Longrightarrow> tw_closed (li_wire leg') = tw_closed (li_wire leg)"
  by (induction rs arbitrary: leg) (auto simp: leg_send_def Let_def split: prod.splits sum.splits option.splits nat.splits)

section \<open>A response is its own request's\<close>

text \<open>Whatever goes wrong while a response is awaited ends the leg.\<close>

lemma await_frame_Fails: "await_frame first rs evs = (Fails e, rs', evs') \<Longrightarrow> \<exists>d. e = LegDead d"
  by (induction first rs evs rule: await_frame.induct) (auto split: if_splits)

lemma next_response_Fails: "next_response first leg = (Fails e, leg') \<Longrightarrow> \<exists>d. e = LegDead d"
  by (auto simp: next_response_def Let_def split: prod.splits dest: await_frame_Fails)

lemma check_id_Some: "check_id i j = Some e \<Longrightarrow> \<exists>d. e = LegDead d"
  by (auto simp: check_id_def split: if_splits)

lemma judge_head_Fails: "judge_head rid resp = Fails e \<Longrightarrow> \<exists>d. e = LegDead d"
  by (auto simp: judge_head_def split: tunnel_response.splits option.splits dest: check_id_Some)

lemma judge_head_not_Expires: "judge_head rid resp \<noteq> Expires t"
  by (auto simp: judge_head_def split: tunnel_response.splits option.splits)

lemma expect_response_head_cases:
  assumes "expect_response_head leg rid = (x, leg')"
  obtains (head) h hs where "x = Done h"
      "next_response True leg = (Done (RespHead rid (rh_status h) hs (rh_body_len h) (rh_reuse h)), leg')"
    | (dead) d where "x = Fails (LegDead d)"
    | (expired) t where "x = Expires t"
proof -
  obtain y leg1 where nxt: "next_response True leg = (y, leg1)" by (cases "next_response True leg")
  show thesis
  proof (cases y)
    case (Done resp)
    then have x: "x = judge_head rid resp" "leg1 = leg'"
      using assms nxt by (simp_all add: expect_response_head_def)
    show thesis
    proof (cases "judge_head rid resp")
      case (Done h)
      then have "\<exists>hs. resp = RespHead rid (rh_status h) hs (rh_body_len h) (rh_reuse h)"
        by (auto simp: judge_head_def split: tunnel_response.splits option.splits)
      then show thesis using head Done x nxt \<open>y = awaited.Done resp\<close> by blast
    next
      case (Fails e)
      then show thesis using dead x judge_head_Fails by blast
    next
      case (Expires t)
      then show thesis using judge_head_not_Expires by blast
    qed
  next
    case (Fails e)
    then show thesis using dead assms nxt next_response_Fails by (fastforce simp: expect_response_head_def)
  next
    case (Expires t)
    then show thesis using expired [of t] assms nxt by (simp add: expect_response_head_def)
  qed
qed

lemma collect_loop_Fails:
  assumes "collect_loop rid body leg = (Fails e, leg')"
  shows "\<exists>d. e = LegDead d"
  using assms
proof (induction rid body leg rule: collect_loop.induct)
  case (1 rid body leg)
  obtain y leg1 where nxt: "next_response False leg = (y, leg1)" by (cases "next_response False leg")
  show ?case
  proof (cases y)
    case (Done resp)
    show ?thesis
    proof (cases resp)
      case (RespBody i o' d lst)
      then show ?thesis
        using "1.IH" [OF nxt [symmetric] Done] "1.prems" nxt Done
        by (subst (asm) collect_loop.simps) (auto simp: check_id_def split: if_splits)
    qed (use "1.prems" nxt Done in \<open>subst (asm) collect_loop.simps; auto split: option.splits dest: check_id_Some\<close>)+
  next
    case (Fails e')
    then show ?thesis
      using "1.prems" nxt next_response_Fails by (subst (asm) collect_loop.simps) fastforce
  next
    case (Expires t)
    then show ?thesis using "1.prems" nxt by (subst (asm) collect_loop.simps) simp
  qed
qed

lemma collect_response_body_Done:
  assumes "collect_response_body leg rid len = (Done b, leg')"
  shows "\<exists>fs. visible leg = fs @ visible leg' \<and> b = body_bytes fs \<and> (if len = Some 0 then fs = [] else body_run rid 0 fs)"
proof (cases "len = Some 0")
  case True
  then show ?thesis using assms by (simp add: collect_response_body_def)
next
  case False
  then show ?thesis
    using assms collect_loop_Done [of rid "[]" leg b leg'] by (auto simp: collect_response_body_def)
qed

text \<open>Everything a completed request has read: one whole response to its own id, and not a frame more.\<close>

definition answered_with :: "exchange_result \<Rightarrow> nat \<Rightarrow> tunnel_reuse option \<Rightarrow> byte list \<Rightarrow> bool" where
  "answered_with out status reuse b \<longleftrightarrow>
     out = (if 200 \<le> status \<and> status < 300 then Inr (b, reuse) else Inl (Http status, reuse))"

lemma run_exchange_cases:
  assumes "run_exchange leg method path headers body = (out, leg')"
  obtains (answered) fs status reuse b where "visible leg = fs @ visible leg'"
      "response_run (li_next_id leg) status reuse b fs" "out \<noteq> None" "answered_with (the out) status reuse b"
    | (dead) d where "out = Some (Inl (LegDead d, None))"
    | (expired) "out = None"
proof -
  let ?rid = "li_next_id leg"
  let ?leg0 = "leg\<lparr>li_next_id := ?rid + 1, li_saw := False\<rparr>"
  obtain x leg1 where sent: "send_all ?leg0 (request_frames ?rid method path headers body) = (x, leg1)"
    by (cases "send_all ?leg0 (request_frames ?rid method path headers body)")
  note st = send_all_state [OF sent]
  obtain y leg2 where head: "expect_response_head leg1 ?rid = (y, leg2)" by (cases "expect_response_head leg1 ?rid")
  have run: "run_exchange leg method path headers body =
     (case x of
        Inl e \<Rightarrow> (Some (Inl (e, None)), leg1)
      | Inr _ \<Rightarrow>
          (case y of
             Expires FirstByte \<Rightarrow> (Some (Inl (LegDead WentSilent, None)), leg2)
           | Expires WholeRequest \<Rightarrow> (None, leg2)
           | Fails e \<Rightarrow> (Some (Inl (e, None)), leg2)
           | Done h \<Rightarrow>
               (case collect_response_body leg2 ?rid (rh_body_len h) of
                  (Expires _, leg) \<Rightarrow> (None, leg)
                | (Fails e, leg) \<Rightarrow> (Some (Inl (e, None)), leg)
                | (Done b, leg) \<Rightarrow>
                    if \<not> (200 \<le> rh_status h \<and> rh_status h < 300)
                    then (Some (Inl (Http (rh_status h), rh_reuse h)), leg)
                    else (Some (Inr (b, rh_reuse h)), leg))))"
    using sent head by (simp add: run_exchange_def claim_request_id_def split: sum.splits awaited.splits timer.splits)
  show thesis
  proof (cases x)
    case (Inl e)
    then show thesis using dead [of SendFailed] st run assms by simp
  next
    case ok: (Inr u)
    from head show thesis
    proof (cases rule: expect_response_head_cases)
      case (dead d)
      then show thesis using that(2) [of d] run assms ok by simp
    next
      case (expired t)
      then show thesis using that(2) [of WentSilent] that(3) run assms ok by (cases t) simp_all
    next
      case h: (head h hs)
      have seen: "visible leg = RespHead ?rid (rh_status h) hs (rh_body_len h) (rh_reuse h) # visible leg2"
        using next_response_Done(1) [OF h(2)] st by (simp add: visible_def)
      obtain z leg3 where coll: "collect_response_body leg2 ?rid (rh_body_len h) = (z, leg3)"
        by (cases "collect_response_body leg2 ?rid (rh_body_len h)")
      show thesis
      proof (cases z)
        case (Done b)
        obtain fs where fs: "visible leg2 = fs @ visible leg3" "b = body_bytes fs"
            "if rh_body_len h = Some 0 then fs = [] else body_run ?rid 0 fs"
          using collect_response_body_Done coll Done by blast
        show thesis
        proof (rule answered)
          show "visible leg = (RespHead ?rid (rh_status h) hs (rh_body_len h) (rh_reuse h) # fs) @ visible leg'"
            using seen fs(1) run assms ok h(1) coll Done by (auto split: if_splits)
          show "response_run ?rid (rh_status h) (rh_reuse h) b (RespHead ?rid (rh_status h) hs (rh_body_len h) (rh_reuse h) # fs)"
            using fs by (simp add: response_run_def)
          show "out \<noteq> None" "answered_with (the out) (rh_status h) (rh_reuse h) b"
            using run assms ok h(1) coll Done by (auto simp: answered_with_def split: if_splits)
        qed
      next
        case (Fails e)
        then have "\<exists>d. e = LegDead d"
          using coll collect_loop_Fails by (auto simp: collect_response_body_def split: if_splits)
        then show thesis using dead run assms ok h(1) coll Fails by auto
      next
        case (Expires t)
        then show thesis using expired run assms ok h(1) coll by simp
      qed
    qed
  qed
qed

text \<open>C19: The result a caller gets is the answer to its own request, whatever arrives: when a request is
  answered, the leg has read one whole response tagged with that request's id, contiguous to its last frame,
  and not one frame more; anything else on the wire ends the leg. A leg is offered for reuse only then.\<close>

theorem answer_is_the_requests_own:
  assumes "exchange leg method path headers body = (ex, leg')"
    and "ex_reuse ex \<noteq> None \<or> (\<forall>d. ex_result ex \<noteq> Inl (LegDead d))"
  shows "\<exists>fs status reuse b. visible leg = fs @ visible leg' \<and> response_run (li_next_id leg) status reuse b fs \<and>
    ex_reuse ex = reuse \<and>
    ex_result ex = (if 200 \<le> status \<and> status < 300 then Inr b else Inl (Http status))"
proof -
  obtain out leg1 where run: "run_exchange leg method path headers body = (out, leg1)"
    by (cases "run_exchange leg method path headers body")
  from run show ?thesis
  proof (cases rule: run_exchange_cases)
    case (answered fs status reuse b)
    then have "leg' = leg1" "ex_reuse ex = reuse"
      "ex_result ex = (if 200 \<le> status \<and> status < 300 then Inr b else Inl (Http status))"
      using assms(1) run by (auto simp: exchange_def answered_with_def Let_def split: if_splits)
    then show ?thesis using answered(1,2) by blast
  next
    case (dead d)
    then show ?thesis using assms run by (auto simp: exchange_def Let_def)
  next
    case expired
    then show ?thesis using assms run by (auto simp: exchange_def Let_def)
  qed
qed

text \<open>A request during which nothing was heard has read nothing, and failed.\<close>

lemma await_frame_none:
  "await_frame first rs evs = (x, rs', evs') \<Longrightarrow> (\<And>r. x \<noteq> Done r) \<Longrightarrow> rs' @ arriving evs' = rs @ arriving evs"
  by (induction first rs evs rule: await_frame.induct) (auto split: if_splits)

lemma next_response_none:
  assumes "next_response first leg = (x, leg')" and "\<And>r. x \<noteq> Done r"
  shows "visible leg' = visible leg" and "li_saw leg' = li_saw leg"
  using assms await_frame_none
  by (auto simp: next_response_def visible_def Let_def split: prod.splits awaited.splits)

lemma next_response_saw: "next_response first leg = (x, leg') \<Longrightarrow> li_saw leg \<Longrightarrow> li_saw leg'"
  by (auto simp: next_response_def Let_def split: prod.splits awaited.splits)

lemma collect_loop_saw: "collect_loop rid body leg = (x, leg') \<Longrightarrow> li_saw leg \<Longrightarrow> li_saw leg'"
proof (induction rid body leg rule: collect_loop.induct)
  case (1 rid body leg)
  obtain y leg1 where nxt: "next_response False leg = (y, leg1)" by (cases "next_response False leg")
  have saw: "li_saw leg1" using next_response_saw [OF nxt "1.prems"(2)] .
  show ?case
  proof (cases y)
    case (Done resp)
    show ?thesis
    proof (cases resp)
      case (RespBody i o' d lst)
      then show ?thesis
        using "1.IH" [OF nxt [symmetric] Done] "1.prems" nxt Done saw
        by (subst (asm) collect_loop.simps) (auto simp: check_id_def split: if_splits)
    qed (use "1.prems" nxt Done saw in \<open>subst (asm) collect_loop.simps; auto split: option.splits\<close>)+
  qed (use "1.prems" nxt saw in \<open>subst (asm) collect_loop.simps; simp\<close>)+
qed

lemma expect_response_head_unseen:
  assumes "expect_response_head leg rid = (x, leg')" and "\<not> li_saw leg'"
  shows "visible leg' = visible leg" and "\<And>h. x \<noteq> Done h" and "\<And>e. x = Fails e \<Longrightarrow> \<exists>d. e = LegDead d"
proof -
  obtain y leg1 where nxt: "next_response True leg = (y, leg1)" by (cases "next_response True leg")
  have leg1: "leg1 = leg'" using assms(1) nxt by (cases y) (simp_all add: expect_response_head_def)
  have none: "y \<noteq> Done r" for r using next_response_Done(2) nxt leg1 assms(2) by blast
  then show "visible leg' = visible leg" using next_response_none(1) nxt leg1 by blast
  show "x \<noteq> Done h" for h
    using assms(1) nxt none by (cases y) (auto simp: expect_response_head_def)
  show "\<exists>d. e = LegDead d" if "x = Fails e" for e
    using assms(1) nxt none that next_response_Fails by (cases y) (auto simp: expect_response_head_def)
qed

lemma exchange_unseen:
  assumes "exchange leg method path headers body = (ex, leg')" and "\<not> ex_response_seen ex"
  shows "visible leg' = visible leg" and "\<exists>d. ex_result ex = Inl (LegDead d)" and "ex_reuse ex = None"
proof -
  let ?rid = "li_next_id leg"
  let ?leg0 = "leg\<lparr>li_next_id := ?rid + 1, li_saw := False\<rparr>"
  obtain x leg1 where sent: "send_all ?leg0 (request_frames ?rid method path headers body) = (x, leg1)"
    by (cases "send_all ?leg0 (request_frames ?rid method path headers body)")
  note st = send_all_state [OF sent]
  obtain y leg2 where head: "expect_response_head leg1 ?rid = (y, leg2)" by (cases "expect_response_head leg1 ?rid")
  obtain out where run: "run_exchange leg method path headers body = (out, leg')"
    using assms(1) by (auto simp: exchange_def Let_def split: prod.splits)
  have unseen: "\<not> li_saw leg'" and res: "ex_result ex = (case out of Some (Inr (b, _)) \<Rightarrow> Inr b | Some (Inl (e, _)) \<Rightarrow> Inl e | None \<Rightarrow> Inl (LegDead RequestTimedOut))"
    and reuse: "ex_reuse ex = (case out of Some (Inr (_, u)) \<Rightarrow> u | Some (Inl (Http _, u)) \<Rightarrow> u | _ \<Rightarrow> None)"
    using assms run by (auto simp: exchange_def Let_def split: option.splits sum.splits prod.splits leg_error.splits)
  have goal: "visible leg' = visible leg \<and> (out = None \<or> (\<exists>d. out = Some (Inl (LegDead d, None))))"
  proof (cases x)
    case (Inl e)
    then show ?thesis using run sent st by (auto simp: run_exchange_def claim_request_id_def visible_def)
  next
    case ok: (Inr u)
    show ?thesis
    proof (cases "li_saw leg2")
      case False
      note e = expect_response_head_unseen [OF head False]
      show ?thesis
        using run sent ok head e st
        by (cases y) (auto simp: run_exchange_def claim_request_id_def visible_def split: timer.splits)
    next
      case True
      then have "li_saw leg'"
        using run sent ok head
        by (auto simp: run_exchange_def claim_request_id_def collect_response_body_def
            split: awaited.splits timer.splits prod.splits if_splits dest: collect_loop_saw)
      then show ?thesis using unseen by simp
    qed
  qed
  then show "visible leg' = visible leg" "\<exists>d. ex_result ex = Inl (LegDead d)" "ex_reuse ex = None"
    using res reuse by auto
qed

section \<open>A response that arrives is read\<close>

text \<open>The leg will be delivered exactly \<open>fs\<close>, in whatever messages, before \<open>evs\<close>.\<close>

definition delivers :: "leg_io \<Rightarrow> tunnel_response list \<Rightarrow> wire_event list \<Rightarrow> bool" where
  "delivers leg fs evs \<longleftrightarrow>
     (\<exists>groups. li_pending leg @ concat groups = fs \<and> tw_events (li_wire leg) = map Arrives groups @ evs)"

definition same_out :: "leg_io \<Rightarrow> leg_io \<Rightarrow> bool" where
  "same_out leg leg' \<longleftrightarrow> li_next_id leg' = li_next_id leg \<and> tw_sent (li_wire leg') = tw_sent (li_wire leg) \<and>
     tw_room (li_wire leg') = tw_room (li_wire leg) \<and> tw_closed (li_wire leg') = tw_closed (li_wire leg)"

lemma same_out_trans: "same_out a b \<Longrightarrow> same_out b c \<Longrightarrow> same_out a c"
  by (simp add: same_out_def)

lemma await_frame_delivers:
  assumes "rs @ concat groups = r # fs"
  shows "\<exists>rs' groups'. await_frame first rs (map Arrives groups @ evs) = (Done r, rs', map Arrives groups' @ evs) \<and>
    rs' @ concat groups' = fs"
  using assms
proof (induction groups arbitrary: rs)
  case Nil
  then show ?case by (cases rs) (auto intro: exI [of _ "[]"])
next
  case (Cons g groups)
  show ?case
  proof (cases rs)
    case Nil
    then show ?thesis using Cons.IH [of g] Cons.prems by simp
  next
    case (Cons r' rs')
    then show ?thesis using Cons.prems by (auto intro: exI [of _ "g # groups"])
  qed
qed

lemma next_response_delivers:
  assumes "delivers leg (r # fs) evs"
  obtains leg' where "next_response first leg = (Done r, leg')" "delivers leg' fs evs" "same_out leg leg'" "li_saw leg'"
proof -
  obtain groups where g: "li_pending leg @ concat groups = r # fs" "tw_events (li_wire leg) = map Arrives groups @ evs"
    using assms by (auto simp: delivers_def)
  obtain rs' groups' where "await_frame first (li_pending leg) (map Arrives groups @ evs) =
      (Done r, rs', map Arrives groups' @ evs)" "rs' @ concat groups' = fs"
    using await_frame_delivers [OF g(1)] by blast
  then show thesis
    using that g(2) by (auto simp: next_response_def delivers_def same_out_def)
qed

lemma collect_loop_delivers:
  assumes "delivers leg fs evs" and "body_run rid (length body) fs"
  shows "\<exists>leg'. collect_loop rid body leg = (Done (body @ body_bytes fs), leg') \<and> delivers leg' [] evs \<and>
    same_out leg leg' \<and> li_saw leg'"
  using assms
proof (induction fs arbitrary: body leg)
  case Nil
  then show ?case by simp
next
  case (Cons f fs)
  obtain leg1 where nxt: "next_response False leg = (Done f, leg1)" "delivers leg1 fs evs" "same_out leg leg1" "li_saw leg1"
    using next_response_delivers [OF Cons.prems(1)] by blast
  obtain i o' d lst where f: "f = RespBody i o' d lst" using Cons.prems(2) by (cases f; cases fs) auto
  have ids: "i = rid" "o' = length body" using Cons.prems(2) f by (cases fs; auto)+
  note step = collect_loop_body [OF nxt(1) [unfolded f ids]]
  show ?case
  proof (cases fs)
    case Nil
    then have lst using Cons.prems(2) f by simp
    then show ?thesis using step nxt(2-4) Nil f by simp
  next
    case (Cons f' fs')
    then have run: "\<not> lst" "body_run rid (length (body @ d)) fs" using Cons.prems(2) f by simp_all
    obtain leg' where "collect_loop rid (body @ d) leg1 = (Done ((body @ d) @ body_bytes fs), leg')"
        "delivers leg' [] evs" "same_out leg1 leg'" "li_saw leg'"
      using Cons.IH [OF nxt(2) run(2)] by blast
    then show ?thesis using step run(1) nxt(3) f by (auto intro: same_out_trans)
  qed
qed

lemma exchange_delivers:
  assumes "tw_room (li_wire leg) = None" and "delivers leg fs evs"
    and "response_run (li_next_id leg) status reuse b fs"
  obtains leg' where "exchange leg verb path headers body =
      (\<lparr>ex_result = (if 200 \<le> status \<and> status < 300 then Inr b else Inl (Http status)), ex_reuse = reuse,
        ex_response_seen = True\<rparr>, leg')"
    "delivers leg' [] evs" "li_next_id leg' = Suc (li_next_id leg)" "tw_room (li_wire leg') = None"
    "tw_closed (li_wire leg') = tw_closed (li_wire leg)"
    "tw_sent (li_wire leg') = tw_sent (li_wire leg) @ request_frames (li_next_id leg) verb path headers body"
proof -
  let ?rid = "li_next_id leg"
  let ?leg0 = "leg\<lparr>li_next_id := ?rid + 1, li_saw := False\<rparr>"
  let ?req = "request_frames ?rid verb path headers body"
  obtain x leg1 where sent: "send_all ?leg0 ?req = (x, leg1)" by (cases "send_all ?leg0 ?req")
  have closed1: "tw_closed (li_wire leg1) = tw_closed (li_wire leg)"
    using send_all_closed [OF sent] by simp
  note st = send_all_state [OF sent]
  have x: "x = Inr ()" and room1: "tw_room (li_wire leg1) = None" and id1: "li_next_id leg1 = Suc ?rid"
    and out1: "tw_sent (li_wire leg1) = tw_sent (li_wire leg) @ ?req"
    using st assms(1) by auto
  have d1: "delivers leg1 fs evs" using st assms(2) by (simp add: delivers_def)
  obtain hs len bs where fs: "fs = RespHead ?rid status hs len reuse # bs" "b = body_bytes bs"
      "if len = Some 0 then bs = [] else body_run ?rid 0 bs"
    using assms(3) by (auto simp: response_run_def)
  obtain leg2 where nxt: "next_response True leg1 = (Done (RespHead ?rid status hs len reuse), leg2)"
      "delivers leg2 bs evs" "same_out leg1 leg2" "li_saw leg2"
    using next_response_delivers [of leg1] d1 fs(1) by metis
  have head: "expect_response_head leg1 ?rid =
      (Done \<lparr>rh_status = status, rh_body_len = len, rh_reuse = reuse\<rparr>, leg2)"
    using nxt(1) by (simp add: expect_response_head_def judge_head_def check_id_def)
  obtain leg3 where coll: "collect_response_body leg2 ?rid len = (Done b, leg3)" "delivers leg3 [] evs"
      "same_out leg2 leg3" "li_saw leg3"
  proof (cases "len = Some 0")
    case True
    then show thesis using that [of leg2] nxt fs by (simp add: collect_response_body_def same_out_def)
  next
    case False
    then show thesis
      using that collect_loop_delivers [OF nxt(2), of ?rid "[]"] fs by (auto simp: collect_response_body_def)
  qed
  have out: "same_out leg1 leg3" using nxt(3) coll(3) by (rule same_out_trans)
  have "exchange leg verb path headers body =
      (\<lparr>ex_result = (if 200 \<le> status \<and> status < 300 then Inr b else Inl (Http status)), ex_reuse = reuse,
        ex_response_seen = True\<rparr>, leg3)"
    using sent x head coll(1,4) by (simp add: exchange_def run_exchange_def claim_request_id_def)
  then show thesis
    using that [of leg3] coll(2) out id1 room1 out1 closed1 by (simp add: same_out_def)
qed

text \<open>A leg whose gateway answers in two messages, the second holding the last frame of the first answer.\<close>

definition sample_leg :: leg_io where
  "sample_leg = leg_new \<lparr>tw_sent = [], tw_room = None,
     tw_events = [Arrives [RespHead 1 200 [] (Some 3) (Some \<lparr>idle_ms = 60000\<rparr>), RespBody 1 0 [7, 8] False],
                  Arrives [RespBody 1 2 [9] True]], tw_closed = False\<rparr>"

lemma sample_delivers:
  "delivers sample_leg [RespHead 1 200 [] (Some 3) (Some \<lparr>idle_ms = 60000\<rparr>), RespBody 1 0 [7, 8] False, RespBody 1 2 [9] True] []"
  unfolding delivers_def sample_leg_def leg_new_def
  by (rule exI [of _ "[[RespHead 1 200 [] (Some 3) (Some \<lparr>idle_ms = 60000\<rparr>), RespBody 1 0 [7, 8] False], [RespBody 1 2 [9] True]]"])
    simp

lemma sample_exchange:
  "exchange sample_leg ''GET'' ''/v1/x'' [] None =
     (\<lparr>ex_result = Inr [7, 8, 9], ex_reuse = Some \<lparr>idle_ms = 60000\<rparr>, ex_response_seen = True\<rparr>,
      snd (exchange sample_leg ''GET'' ''/v1/x'' [] None))"
proof -
  have "tw_room (li_wire sample_leg) = None" "response_run (li_next_id sample_leg) 200 (Some \<lparr>idle_ms = 60000\<rparr>) [7, 8, 9]
      [RespHead 1 200 [] (Some 3) (Some \<lparr>idle_ms = 60000\<rparr>), RespBody 1 0 [7, 8] False, RespBody 1 2 [9] True]"
    by (simp_all add: sample_leg_def leg_new_def response_run_def)
  then show ?thesis 
    by (rule exchange_delivers [OF _ sample_delivers, where verb = "''GET''" and path = "''/v1/x''" and headers = "[]" and body = None]) simp
qed

theorem answer_is_the_requests_own_witness:
  "\<exists>fs status reuse b. visible sample_leg = fs @ visible (snd (exchange sample_leg ''GET'' ''/v1/x'' [] None)) \<and>
     response_run 1 status reuse b fs \<and> Some \<lparr>idle_ms = 60000\<rparr> = reuse \<and>
     Inr [7, 8, 9] = (if 200 \<le> status \<and> status < 300 then Inr b else Inl (Http status))"
  using answer_is_the_requests_own [OF sample_exchange] by (simp add: sample_leg_def leg_new_def)

end
