(* ===== verification/TunnelSession.thy ===== *)
theory TunnelSession
  imports TunnelLeg
begin

text \<open>
  \<open>crates/gateway/src/channel/api_tunnel.rs\<close>: the gateway's end of an API tunnel leg, after the handshake. The
  HTTP stack is code outside the repository: \<open>http_env\<close> says what it accepts and what the router answers, and
  after how many chunks a handler hangs up on a request body. A source is the requests already decoded and what
  the leg still brings; a sink is what was sent and how much more it takes. Header names are ASCII.
\<close>

section \<open>Constants and types\<close>

definition TUNNEL_IDLE_TIMEOUT :: duration where
  "TUNNEL_IDLE_TIMEOUT = secs 20"

definition TUNNEL_REUSE_IDLE_TIMEOUT :: duration where
  "TUNNEL_REUSE_IDLE_TIMEOUT = secs 60"

definition MAX_BLOB_BYTES :: nat where
  "MAX_BLOB_BYTES = 100 * 1024 * 1024"

definition TUNNEL_HTTP_RESPONSE_LIMIT :: nat where
  "TUNNEL_HTTP_RESPONSE_LIMIT = 8 * 1024 * 1024"

definition HEADER_CONTENT_LENGTH :: string where
  "HEADER_CONTENT_LENGTH = ''content-length''"

definition DEVICE_ID_HEADER :: string where
  "DEVICE_ID_HEADER = ''x-baybo-device-id''"

definition FORBIDDEN_HEADERS :: "string list" where
  "FORBIDDEN_HEADERS =
     [''authorization'', ''connection'', ''host'', ''keep-alive'', ''proxy-authenticate'', ''proxy-authorization'',
      ''te'', ''trailer'', ''transfer-encoding'', ''upgrade'', DEVICE_ID_HEADER]"

datatype leg_state = Reusable | MustClose

datatype body_drain = Drained | Abandoned

definition offer :: "tunnel_reuse option \<Rightarrow> leg_state \<Rightarrow> tunnel_reuse option" where
  "offer reuse st = (case st of Reusable \<Rightarrow> reuse | MustClose \<Rightarrow> None)"

definition reuse_for :: "leg_class \<Rightarrow> tunnel_reuse option" where
  "reuse_for cls =
     (case cls of
        ApiLeg \<Rightarrow> Some \<lparr>idle_ms = nat (TUNNEL_REUSE_IDLE_TIMEOUT div 1000000)\<rparr>
      | BlobLeg \<Rightarrow> None
      | ChatLeg \<Rightarrow> None)"

record request_head =
  rq_id :: nat
  rq_method :: string
  rq_path :: string
  rq_headers :: "tunnel_header list"
  rq_body_len :: "nat option"

record forward_request =
  fw_method :: string
  fw_path :: string
  fw_headers :: "(string \<times> string) list"

text \<open>A response: header names in lower case, values that are text, the body as the stream yields it.\<close>

record http_response =
  hr_status :: nat
  hr_headers :: "(string \<times> string option) list"
  hr_body :: "(string + byte list) list"

record http_env =
  he_method_error :: "string \<Rightarrow> string option"
  he_uri_error :: "string \<Rightarrow> string option"
  he_name_error :: "string \<Rightarrow> string option"
  he_value_error :: "string \<Rightarrow> string option"
  he_request_error :: "forward_request \<Rightarrow> string option"
  he_routes :: "forward_request \<Rightarrow> byte list \<Rightarrow> http_response"
  he_hangs_up :: "forward_request \<Rightarrow> nat option"
  he_admin_bearer :: string
  he_device_id :: string

section \<open>Text\<close>

definition to_ascii_lower :: "string \<Rightarrow> string" where
  "to_ascii_lower s = map (\<lambda>c. if is_ascii_uppercase c then char_of (char_code c + 32) else c) s"

definition is_trimmed :: "char \<Rightarrow> bool" where
  "is_trimmed c \<longleftrightarrow> is_ascii_whitespace c \<or> char_code c = 11"

definition trim :: "string \<Rightarrow> string" where
  "trim s = rev (dropWhile is_trimmed (rev (dropWhile is_trimmed s)))"

text \<open>\<open>str::split\<close> on one character.\<close>

fun split_on :: "char \<Rightarrow> string \<Rightarrow> string list" where
  "split_on sep [] = [[]]"
| "split_on sep (c # cs) =
     (if c = sep then [] # split_on sep cs
      else case split_on sep cs of w # ws \<Rightarrow> (c # w) # ws | [] \<Rightarrow> [[c]])"

text \<open>\<open>str::parse::<u64>\<close>: an optional plus sign, one digit at least, no overflow; the error is what it prints.\<close>

fun parse_digits :: "nat \<Rightarrow> string \<Rightarrow> string + nat" where
  "parse_digits acc [] = Inr acc"
| "parse_digits acc (c # cs) =
     (if \<not> is_ascii_digit c then Inl ''invalid digit found in string''
      else if 10 * acc + (char_code c - 48) \<ge> 2 ^ 64 then Inl ''number too large to fit in target type''
      else parse_digits (10 * acc + (char_code c - 48)) cs)"

definition parse_u64 :: "string \<Rightarrow> string + nat" where
  "parse_u64 s =
     (case s of
        [] \<Rightarrow> Inl ''cannot parse integer from empty string''
      | c # cs \<Rightarrow>
          if c = CHR ''+'' then (if cs = [] then Inl ''invalid digit found in string'' else parse_digits 0 cs)
          else parse_digits 0 s)"

section \<open>Judging a head\<close>

fun check_headers :: "tunnel_header list \<Rightarrow> (nat \<times> string) + unit" where
  "check_headers [] = Inr ()"
| "check_headers (h # hs) =
     (let name = to_ascii_lower (trim (hd_name h)) in
      if name = [] \<or> CHR 0x0D \<in> set name \<or> CHR 0x0A \<in> set name then Inl (400, ''invalid header name'')
      else if name \<in> set FORBIDDEN_HEADERS then Inl (400, ''forbidden tunnel header'')
      else if CHR 0x0D \<in> set (hd_value h) \<or> CHR 0x0A \<in> set (hd_value h) then Inl (400, ''invalid header value'')
      else check_headers hs)"

definition traversal_segment :: "string \<Rightarrow> bool" where
  "traversal_segment segment \<longleftrightarrow>
     (let lower = to_ascii_lower segment
      in segment = ''..'' \<or> lower = ''%2e%2e'' \<or> str_contains ''%2e%2e'' lower)"

definition validate_request_head :: "request_head \<Rightarrow> (nat \<times> string) + unit" where
  "validate_request_head h =
     (if trim (rq_method h) = [] then Inl (400, ''missing request method'')
      else if \<not> starts_with ''/'' (rq_path h) \<or> starts_with ''//'' (rq_path h) \<or> str_contains ''://'' (rq_path h)
      then Inl (400, ''absolute URLs are not allowed'')
      else if \<not> starts_with ''/v1/'' (rq_path h) \<and> rq_path h \<noteq> ''/v1'' then Inl (403, ''path is not allowed'')
      else if list_ex traversal_segment (split_on (CHR ''/'') (hd (split_on (CHR ''?'') (rq_path h))))
      then Inl (400, ''path traversal is not allowed'')
      else check_headers (rq_headers h))"

fun content_length_loop :: "tunnel_header list \<Rightarrow> nat option \<Rightarrow> (nat \<times> string) + nat option" where
  "content_length_loop [] acc = Inr acc"
| "content_length_loop (h # hs) acc =
     (if to_ascii_lower (hd_name h) \<noteq> to_ascii_lower HEADER_CONTENT_LENGTH then content_length_loop hs acc
      else case parse_u64 (hd_value h) of
        Inl e \<Rightarrow> Inl (400, ''invalid content-length header: '' @ e)
      | Inr n \<Rightarrow>
          (case acc of
             Some m \<Rightarrow> if m \<noteq> n then Inl (400, ''conflicting content-length headers'') else content_length_loop hs (Some n)
           | None \<Rightarrow> content_length_loop hs (Some n)))"

definition tunnel_header_content_length :: "tunnel_header list \<Rightarrow> (nat \<times> string) + nat option" where
  "tunnel_header_content_length headers = content_length_loop headers None"

definition request_body_len :: "request_head \<Rightarrow> nat" where
  "request_body_len h =
     (case rq_body_len h of
        Some n \<Rightarrow> n
      | None \<Rightarrow> (case tunnel_header_content_length (rq_headers h) of Inr (Some n) \<Rightarrow> n | _ \<Rightarrow> 0))"

text \<open>The headers a request carries on, up to the first one the HTTP stack refuses.\<close>

fun forward_headers :: "http_env \<Rightarrow> tunnel_header list \<Rightarrow> (nat \<times> string) + (string \<times> string) list" where
  "forward_headers env [] = Inr []"
| "forward_headers env (h # hs) =
     (case he_name_error env (hd_name h) of
        Some e \<Rightarrow> Inl (400, ''invalid header name: '' @ e)
      | None \<Rightarrow>
          if to_ascii_lower (hd_name h) = to_ascii_lower HEADER_CONTENT_LENGTH then forward_headers env hs
          else case he_value_error env (hd_value h) of
            Some e \<Rightarrow> Inl (400, ''invalid header value: '' @ e)
          | None \<Rightarrow>
              (case forward_headers env hs of
                 Inl e \<Rightarrow> Inl e
               | Inr out \<Rightarrow> Inr ((to_ascii_lower (hd_name h), hd_value h) # out)))"

definition build_forward_request :: "http_env \<Rightarrow> request_head \<Rightarrow> (nat \<times> string) + forward_request" where
  "build_forward_request env h =
     (case he_method_error env (rq_method h) of
        Some e \<Rightarrow> Inl (400, ''invalid request method: '' @ e)
      | None \<Rightarrow>
     (case he_uri_error env (rq_path h) of
        Some e \<Rightarrow> Inl (400, ''invalid request path: '' @ e)
      | None \<Rightarrow>
     (case tunnel_header_content_length (rq_headers h) of
        Inl e \<Rightarrow> Inl e
      | Inr header_len \<Rightarrow>
          if (case (header_len, rq_body_len h) of (Some m, Some n) \<Rightarrow> m \<noteq> n | _ \<Rightarrow> False)
          then Inl (400, ''content-length does not match tunnel body length'')
          else
            let effective = (case header_len of Some m \<Rightarrow> Some m | None \<Rightarrow> rq_body_len h) in
            case forward_headers env (rq_headers h) of
              Inl e \<Rightarrow> Inl e
            | Inr hs \<Rightarrow>
                let req = \<lparr>fw_method = rq_method h, fw_path = rq_path h,
                           fw_headers = hs @
                             (case effective of Some n \<Rightarrow> [(HEADER_CONTENT_LENGTH, decimal n)] | None \<Rightarrow> []) @
                             [(''authorization'', ''Bearer '' @ he_admin_bearer env), (DEVICE_ID_HEADER, he_device_id env)]\<rparr>
                in case he_request_error env req of
                     Some e \<Rightarrow> Inl (400, ''invalid forwarded request: '' @ e)
                   | None \<Rightarrow> Inr req)))"

section \<open>The leg's two directions\<close>

record sink =
  sk_sent :: "tunnel_response list"
  sk_room :: "nat option"

definition send_response :: "sink \<Rightarrow> tunnel_response \<Rightarrow> (string + unit) \<times> sink" where
  "send_response s msg =
     (case sk_room s of
        Some 0 \<Rightarrow> (Inl ''send tunnel response'', s)
      | room \<Rightarrow> (Inr (), \<lparr>sk_sent = sk_sent s @ [msg], sk_room = map_option (\<lambda>n. n - 1) room\<rparr>))"

definition send_error :: "sink \<Rightarrow> nat \<Rightarrow> nat \<Rightarrow> string \<Rightarrow> (string + unit) \<times> sink" where
  "send_error s rid status reason = send_response s (RespError rid status reason)"

datatype source_event = Comes "tunnel_request list" | Undecodable string | RunsOut

record source =
  so_pending :: "tunnel_request list"
  so_events :: "source_event list"

datatype request_await = Req tunnel_request | PeerClosed | Bad string | TimedOut

fun await_request ::
    "tunnel_request list \<Rightarrow> source_event list \<Rightarrow> request_await \<times> tunnel_request list \<times> source_event list" where
  "await_request (r # rs) evs = (Req r, rs, evs)"
| "await_request [] [] = (PeerClosed, [], [])"
| "await_request [] (Comes rs # evs) = await_request rs evs"
| "await_request [] (Undecodable e # evs) = (Bad e, [], evs)"
| "await_request [] (RunsOut # evs) = (TimedOut, [], evs)"

definition next_request :: "source \<Rightarrow> request_await \<times> source" where
  "next_request s =
     (let (x, pending, evs) = await_request (so_pending s) (so_events s)
      in (x, \<lparr>so_pending = pending, so_events = evs\<rparr>))"

fun requests_left :: "source_event list \<Rightarrow> nat" where
  "requests_left [] = 0"
| "requests_left (Comes rs # evs) = length rs + requests_left evs"
| "requests_left (_ # evs) = requests_left evs"

definition source_requests :: "source \<Rightarrow> nat" where
  "source_requests s = length (so_pending s) + requests_left (so_events s)"

lemma await_request_left:
  "await_request rs evs = (Req r, rs', evs') \<Longrightarrow>
     Suc (length rs' + requests_left evs') = length rs + requests_left evs"
  by (induction rs evs rule: await_request.induct) auto

lemma next_request_left: "next_request s = (Req r, s') \<Longrightarrow> source_requests s' < source_requests s"
  using await_request_left by (fastforce simp: next_request_def source_requests_def Let_def split: prod.splits)

section \<open>A request body on its way to the handler\<close>

text \<open>
  The loop of \<open>stream_forward_body\<close>: what was received, the chunks handed on, and how many more the handler
  takes before it drops its end (\<open>None\<close>: all). Either of its two timers is \<open>RunsOut\<close>.
\<close>

function stream_loop ::
    "nat \<Rightarrow> nat \<Rightarrow> byte list \<Rightarrow> nat option \<Rightarrow> source \<Rightarrow> ((nat \<times> string) + body_drain) \<times> byte list \<times> source" where
  "stream_loop rid declared got takes s =
     (case next_request s of
        (PeerClosed, s') \<Rightarrow> (Inl (400, ''upload leg closed''), got, s')
      | (Bad e, s') \<Rightarrow> (Inl (400, e), got, s')
      | (TimedOut, s') \<Rightarrow> (Inl (408, ''upload timed out''), got, s')
      | (Req req, s') \<Rightarrow>
          (case req of
             ReqBody i offset data last' \<Rightarrow>
               if i \<noteq> rid then (Inl (400, ''unexpected message during upload''), got, s')
               else if length data > MAX_TUNNEL_CHUNK \<or> offset \<noteq> length got
               then (Inl (400, ''chunk offset mismatch''), got, s')
               else if length got + length data > declared
               then (Inl (400, ''upload exceeded content length''), got, s')
               else if last' \<and> length got + length data \<noteq> declared
               then (Inl (400, ''upload ended before content length''), got, s')
               else if takes = Some 0 then (Inr Abandoned, got, s')
               else if last' then (Inr Drained, got @ data, s')
               else stream_loop rid declared (got @ data) (map_option (\<lambda>n. n - 1) takes) s'
           | ReqCancel i reason \<Rightarrow>
               if i = rid then (Inl (499, reason), got, s')
               else (Inl (400, ''unexpected message during upload''), got, s')
           | ReqHead _ _ _ _ _ \<Rightarrow> (Inl (400, ''unexpected message during upload''), got, s')))"
  by pat_completeness auto
termination
  by (relation "measure (\<lambda>(rid, declared, got, takes, s). source_requests s)") (auto dest: next_request_left [OF sym])

declare stream_loop.simps [simp del]

definition stream_forward_body ::
    "nat \<Rightarrow> nat \<Rightarrow> nat option \<Rightarrow> source \<Rightarrow> ((nat \<times> string) + body_drain) \<times> byte list \<times> source" where
  "stream_forward_body rid declared takes s =
     (if declared = 0 then (Inr Drained, [], s) else stream_loop rid declared [] takes s)"

section \<open>A response on its way out\<close>

definition header_value :: "string \<Rightarrow> (string \<times> string option) list \<Rightarrow> string option" where
  "header_value name headers = (case find (\<lambda>h. fst h = name) headers of Some (_, v) \<Rightarrow> v | None \<Rightarrow> None)"

definition response_content_length :: "(string \<times> string option) list \<Rightarrow> nat option" where
  "response_content_length headers =
     (case header_value HEADER_CONTENT_LENGTH headers of Some v \<Rightarrow> (case parse_u64 v of Inr n \<Rightarrow> Some n | Inl _ \<Rightarrow> None)
      | None \<Rightarrow> None)"

definition forwarded_response_headers :: "(string \<times> string option) list \<Rightarrow> nat option \<Rightarrow> tunnel_header list" where
  "forwarded_response_headers headers body_len =
     (let kept = filter (\<lambda>h. fst h \<notin> set FORBIDDEN_HEADERS) headers;
          out = concat (map (\<lambda>(name, v). case v of Some t \<Rightarrow> [\<lparr>hd_name = name, hd_value = t\<rparr>] | None \<Rightarrow> []) kept);
          has_content_length = list_ex (\<lambda>h. fst h = HEADER_CONTENT_LENGTH) kept
      in out @ (case body_len of
                  Some n \<Rightarrow> if has_content_length then [] else [\<lparr>hd_name = HEADER_CONTENT_LENGTH, hd_value = decimal n\<rparr>]
                | None \<Rightarrow> []))"

text \<open>One chunk of a streamed body, in pieces that fit a tunnel message.\<close>

fun send_pieces_len :: "nat \<Rightarrow> nat \<Rightarrow> nat \<Rightarrow> byte list list \<Rightarrow> sink \<Rightarrow> (string + nat) \<times> sink" where
  "send_pieces_len rid body_len offset [] s = (Inr offset, s)"
| "send_pieces_len rid body_len offset (p # ps) s =
     (let next_offset = offset + length p in
      if next_offset > body_len then (Inl ''forwarded response exceeded content length'', s)
      else case send_response s (RespBody rid offset p (next_offset \<ge> body_len)) of
        (Inl e, s') \<Rightarrow> (Inl e, s')
      | (Inr _, s') \<Rightarrow> send_pieces_len rid body_len next_offset ps s')"

fun send_stream_len :: "nat \<Rightarrow> nat \<Rightarrow> nat \<Rightarrow> (string + byte list) list \<Rightarrow> sink \<Rightarrow> (string + nat) \<times> sink" where
  "send_stream_len rid body_len offset [] s = (Inr offset, s)"
| "send_stream_len rid body_len offset (c # cs) s =
     (case c of
        Inl e \<Rightarrow> (Inl (''read forwarded response body: '' @ e), s)
      | Inr data \<Rightarrow>
          (case send_pieces_len rid body_len offset (chunks_of MAX_TUNNEL_CHUNK data) s of
             (Inl e, s') \<Rightarrow> (Inl e, s')
           | (Inr offset', s') \<Rightarrow> send_stream_len rid body_len offset' cs s'))"

definition send_streaming_http_body :: "nat \<Rightarrow> nat \<Rightarrow> (string + byte list) list \<Rightarrow> sink \<Rightarrow> (string + unit) \<times> sink" where
  "send_streaming_http_body rid body_len body s =
     (if body_len = 0 then (Inr (), s)
      else case send_stream_len rid body_len 0 body s of
        (Inl e, s') \<Rightarrow> (Inl e, s')
      | (Inr offset, s') \<Rightarrow>
          if offset \<noteq> body_len
          then (Inl (''forwarded response ended at '' @ decimal offset @ '' of '' @ decimal body_len @ '' bytes''), s')
          else (Inr (), s'))"

fun send_pieces_open :: "nat \<Rightarrow> nat \<Rightarrow> byte list list \<Rightarrow> sink \<Rightarrow> (string + nat) \<times> sink" where
  "send_pieces_open rid offset [] s = (Inr offset, s)"
| "send_pieces_open rid offset (p # ps) s =
     (case send_response s (RespBody rid offset p False) of
        (Inl e, s') \<Rightarrow> (Inl e, s')
      | (Inr _, s') \<Rightarrow> send_pieces_open rid (offset + length p) ps s')"

fun send_stream_open :: "nat \<Rightarrow> nat \<Rightarrow> (string + byte list) list \<Rightarrow> sink \<Rightarrow> (string + nat) \<times> sink" where
  "send_stream_open rid offset [] s = (Inr offset, s)"
| "send_stream_open rid offset (c # cs) s =
     (case c of
        Inl e \<Rightarrow> (Inl (''read forwarded response body: '' @ e), s)
      | Inr data \<Rightarrow>
          (case send_pieces_open rid offset (chunks_of MAX_TUNNEL_CHUNK data) s of
             (Inl e, s') \<Rightarrow> (Inl e, s')
           | (Inr offset', s') \<Rightarrow> send_stream_open rid offset' cs s'))"

definition send_streaming_http_body_without_len :: "nat \<Rightarrow> (string + byte list) list \<Rightarrow> sink \<Rightarrow> (string + unit) \<times> sink" where
  "send_streaming_http_body_without_len rid body s =
     (case send_stream_open rid 0 body s of
        (Inl e, s') \<Rightarrow> (Inl e, s')
      | (Inr offset, s') \<Rightarrow> send_response s' (RespBody rid offset [] True))"

text \<open>\<open>body::to_bytes\<close> with a limit; the text of its error is the stack's.\<close>

fun to_bytes :: "nat \<Rightarrow> (string + byte list) list \<Rightarrow> string + byte list" where
  "to_bytes room [] = Inr []"
| "to_bytes room (c # cs) =
     (case c of
        Inl e \<Rightarrow> Inl e
      | Inr data \<Rightarrow>
          if length data > room then Inl ''length limit exceeded''
          else case to_bytes (room - length data) cs of Inl e \<Rightarrow> Inl e | Inr rest \<Rightarrow> Inr (data @ rest))"

fun send_buffered :: "nat \<Rightarrow> nat \<Rightarrow> nat \<Rightarrow> byte list list \<Rightarrow> sink \<Rightarrow> (string + unit) \<times> sink" where
  "send_buffered rid whole offset [] s = (Inr (), s)"
| "send_buffered rid whole offset (p # ps) s =
     (let fin = offset + length p in
      case send_response s (RespBody rid offset p (fin = whole)) of
        (Inl e, s') \<Rightarrow> (Inl e, s')
      | (Inr _, s') \<Rightarrow> send_buffered rid whole fin ps s')"

definition is_event_stream :: "(string \<times> string option) list \<Rightarrow> bool" where
  "is_event_stream headers =
     (case header_value ''content-type'' headers of Some v \<Rightarrow> starts_with ''text/event-stream'' v | None \<Rightarrow> False)"

definition send_http_response ::
    "nat \<Rightarrow> http_response \<Rightarrow> tunnel_reuse option \<Rightarrow> sink \<Rightarrow> (string + unit) \<times> sink" where
  "send_http_response rid resp reuse s =
     (case response_content_length (hr_headers resp) of
        Some n \<Rightarrow>
          (case send_response s
              (RespHead rid (hr_status resp) (forwarded_response_headers (hr_headers resp) (Some n)) (Some n) reuse) of
             (Inl e, s') \<Rightarrow> (Inl e, s')
           | (Inr _, s') \<Rightarrow> send_streaming_http_body rid n (hr_body resp) s')
      | None \<Rightarrow>
          if is_event_stream (hr_headers resp) then
            (case send_response s
                (RespHead rid (hr_status resp) (forwarded_response_headers (hr_headers resp) None) None reuse) of
               (Inl e, s') \<Rightarrow> (Inl e, s')
             | (Inr _, s') \<Rightarrow> send_streaming_http_body_without_len rid (hr_body resp) s')
          else
            (case to_bytes TUNNEL_HTTP_RESPONSE_LIMIT (hr_body resp) of
               Inl e \<Rightarrow> (Inl (''read forwarded response body: '' @ e), s)
             | Inr body \<Rightarrow>
                 (case send_response s
                     (RespHead rid (hr_status resp) (forwarded_response_headers (hr_headers resp) (Some (length body)))
                       (Some (length body)) reuse) of
                    (Inl e, s') \<Rightarrow> (Inl e, s')
                  | (Inr _, s') \<Rightarrow>
                      if body = [] then (Inr (), s')
                      else send_buffered rid (length body) 0 (chunks_of MAX_TUNNEL_CHUNK body) s')))"

section \<open>The request loop\<close>

text \<open>Answering with an error always closes the leg.\<close>

definition refuse :: "sink \<Rightarrow> source \<Rightarrow> nat \<Rightarrow> nat \<Rightarrow> string \<Rightarrow> (string + leg_state) \<times> sink \<times> source" where
  "refuse k s rid status reason =
     (case send_error k rid status reason of
        (Inl e, k') \<Rightarrow> (Inl e, k', s)
      | (Inr _, k') \<Rightarrow> (Inr MustClose, k', s))"

definition respond ::
    "sink \<Rightarrow> source \<Rightarrow> nat \<Rightarrow> http_response \<Rightarrow> tunnel_reuse option \<Rightarrow> leg_state \<Rightarrow> (string + leg_state) \<times> sink \<times> source" where
  "respond k s rid resp reuse st =
     (case send_http_response rid resp (offer reuse st) k of
        (Inl e, k') \<Rightarrow> (Inl e, k', s)
      | (Inr _, k') \<Rightarrow> (Inr st, k', s))"

definition handle_http_body_forward ::
    "http_env \<Rightarrow> sink \<Rightarrow> source \<Rightarrow> request_head \<Rightarrow> tunnel_reuse option \<Rightarrow> (string + leg_state) \<times> sink \<times> source" where
  "handle_http_body_forward env k s h reuse =
     (let declared = request_body_len h; rid = rq_id h in
      if declared > MAX_BLOB_BYTES then refuse k s rid 413 ''request body exceeds size limit''
      else case build_forward_request env h of
        Inl (status, reason) \<Rightarrow> refuse k s rid status reason
      | Inr req \<Rightarrow>
          (case stream_forward_body rid declared (he_hangs_up env req) s of
             (Inl (status, reason), _, s') \<Rightarrow> refuse k s' rid status reason
           | (Inr drain, got, s') \<Rightarrow>
               respond k s' rid (he_routes env req got) reuse
                 (case drain of Drained \<Rightarrow> Reusable | Abandoned \<Rightarrow> MustClose)))"

definition handle_http_forward ::
    "http_env \<Rightarrow> sink \<Rightarrow> source \<Rightarrow> request_head \<Rightarrow> tunnel_reuse option \<Rightarrow> (string + leg_state) \<times> sink \<times> source" where
  "handle_http_forward env k s h reuse =
     (if request_body_len h \<noteq> 0 then handle_http_body_forward env k s h reuse
      else case build_forward_request env h of
        Inl (status, reason) \<Rightarrow> refuse k s (rq_id h) status reason
      | Inr req \<Rightarrow> respond k s (rq_id h) (he_routes env req []) reuse Reusable)"

datatype session_end = Finished | Ended string

text \<open>One turn of the loop: the session goes on with its two counters, or ends.\<close>

datatype turn_end = GoesOn nat nat | Stops session_end

definition session_turn ::
    "http_env \<Rightarrow> tunnel_reuse option \<Rightarrow> nat \<Rightarrow> nat \<Rightarrow> sink \<Rightarrow> source \<Rightarrow> turn_end \<times> sink \<times> source" where
  "session_turn env reuse served last_id k s =
     (case next_request s of
        (TimedOut, s) \<Rightarrow>
          (Stops (if served > 0 then Finished else Ended ''timed out waiting for tunnel request''), k, s)
      | (Bad e, s) \<Rightarrow> (Stops (Ended e), k, s)
      | (PeerClosed, s) \<Rightarrow>
          (Stops (if served > 0 then Finished else Ended ''peer closed before request head''), k, s)
      | (Req req, s) \<Rightarrow>
          let error_out = (\<lambda>rid status reason.
                case send_error k rid status reason of
                  (Inl e, k') \<Rightarrow> (Stops (Ended e), k', s)
                | (Inr _, k') \<Rightarrow> (Stops Finished, k', s))
          in case req of
            ReqHead rid method path headers len \<Rightarrow>
              if rid \<le> last_id then error_out rid 400 ''request id must increase''
              else
                let h = \<lparr>rq_id = rid, rq_method = method, rq_path = path, rq_headers = headers, rq_body_len = len\<rparr> in
                (case validate_request_head h of
                   Inl (status, reason) \<Rightarrow> error_out rid status reason
                 | Inr _ \<Rightarrow>
                     (case handle_http_forward env k s h reuse of
                        (Inl e, k', s') \<Rightarrow> (Stops (Ended e), k', s')
                      | (Inr Reusable, k', s') \<Rightarrow>
                          (if reuse \<noteq> None then GoesOn (served + 1) rid else Stops Finished, k', s')
                      | (Inr MustClose, k', s') \<Rightarrow> (Stops Finished, k', s')))
          | ReqBody rid _ _ _ \<Rightarrow>
              if rid \<le> last_id then (GoesOn served last_id, k, s)
              else error_out rid 400 ''body sent before request head''
          | ReqCancel rid reason \<Rightarrow>
              if rid \<le> last_id then (GoesOn served last_id, k, s)
              else (Stops (Ended (''request canceled: '' @ reason)), k, s))"

text \<open>A handler only takes requests off its leg.\<close>

lemma next_request_le: "next_request s = (x, s') \<Longrightarrow> source_requests s' \<le> source_requests s"
proof -
  have "await_request rs evs = (x, rs', evs') \<Longrightarrow> length rs' + requests_left evs' \<le> length rs + requests_left evs"
    for rs evs rs' evs'
    by (induction rs evs rule: await_request.induct) auto
  then show "next_request s = (x, s') \<Longrightarrow> source_requests s' \<le> source_requests s"
    by (fastforce simp: next_request_def source_requests_def Let_def split: prod.splits)
qed

lemma stream_loop_le:
  "stream_loop rid declared got takes s = (x, b, s') \<Longrightarrow> source_requests s' \<le> source_requests s"
proof (induction rid declared got takes s rule: stream_loop.induct)
  case (1 rid declared got takes s)
  obtain y s1 where nxt: "next_request s = (y, s1)" by (cases "next_request s")
  note le = next_request_le [OF nxt]
  show ?case
  proof (cases "\<exists>i offset data lst. y = Req (ReqBody i offset data lst)")
    case True
    then obtain i offset data lst where y: "y = Req (ReqBody i offset data lst)" by blast
    show ?thesis
      using "1.IH" [OF nxt [symmetric] y refl] "1.prems" nxt y le
      by (subst (asm) stream_loop.simps) (auto split: if_splits)
  next
    case False
    then show ?thesis
      using "1.prems" nxt le
      by (subst (asm) stream_loop.simps) (auto split: request_await.splits tunnel_request.splits if_splits)
  qed
qed

lemma handle_http_forward_le:
  assumes "handle_http_forward env k s h reuse = (x, k', s')"
  shows "source_requests s' \<le> source_requests s"
  using assms stream_loop_le
  by (auto simp: handle_http_forward_def handle_http_body_forward_def refuse_def respond_def stream_forward_body_def Let_def
      split: if_splits sum.splits prod.splits)

lemma session_turn_left:
  assumes "session_turn env reuse served last_id k s = (GoesOn served' last', k', s')"
  shows "source_requests s' < source_requests s"
proof -
  obtain req s1 where nxt: "next_request s = (Req req, s1)"
    using assms by (auto simp: session_turn_def split: prod.splits request_await.splits)
  have "source_requests s' \<le> source_requests s1"
    using assms nxt handle_http_forward_le
    by (fastforce simp: session_turn_def Let_def split: tunnel_request.splits if_splits sum.splits prod.splits leg_state.splits)
  then show ?thesis using next_request_left [OF nxt] by linarith
qed

function session_loop ::
    "http_env \<Rightarrow> tunnel_reuse option \<Rightarrow> nat \<Rightarrow> nat \<Rightarrow> sink \<Rightarrow> source \<Rightarrow> session_end \<times> sink \<times> source" where
  "session_loop env reuse served last_id k s =
     (case session_turn env reuse served last_id k s of
        (GoesOn served' last_id', k', s') \<Rightarrow> session_loop env reuse served' last_id' k' s'
      | (Stops e, k', s') \<Rightarrow> (e, k', s'))"
  by pat_completeness auto
termination
  by (relation "measure (\<lambda>(env, reuse, served, last_id, k, s). source_requests s)")
    (auto dest: session_turn_left [OF sym])

declare session_loop.simps [simp del]

text \<open>\<open>run_tunnel_session\<close> once the handshake is done.\<close>

definition run_tunnel_session :: "http_env \<Rightarrow> leg_class \<Rightarrow> nat option \<Rightarrow> source_event list \<Rightarrow> session_end \<times> tunnel_response list" where
  "run_tunnel_session env cls room evs =
     (let (e, k, _) = session_loop env (reuse_for cls) 0 0 \<lparr>sk_sent = [], sk_room = room\<rparr> \<lparr>so_pending = [], so_events = evs\<rparr>
      in (e, sk_sent k))"

section \<open>What a response looks like on the wire\<close>

text \<open>What reaches the client of a response: \<open>None\<close> when its body fails, lies about its length or is too large.\<close>

fun body_content :: "(string + byte list) list \<Rightarrow> byte list option" where
  "body_content [] = Some []"
| "body_content (c # cs) =
     (case c of Inl e \<Rightarrow> None | Inr d \<Rightarrow> map_option (\<lambda>rest. d @ rest) (body_content cs))"

definition response_bytes :: "http_response \<Rightarrow> byte list option" where
  "response_bytes resp =
     (case response_content_length (hr_headers resp) of
        Some n \<Rightarrow>
          if n = 0 then Some []
          else (case body_content (hr_body resp) of Some b \<Rightarrow> if length b = n then Some b else None | None \<Rightarrow> None)
      | None \<Rightarrow>
          (case body_content (hr_body resp) of
             Some b \<Rightarrow>
               if is_event_stream (hr_headers resp) \<or> length b \<le> TUNNEL_HTTP_RESPONSE_LIMIT then Some b else None
           | None \<Rightarrow> None))"

fun piece_frames :: "nat \<Rightarrow> nat \<Rightarrow> nat \<Rightarrow> byte list list \<Rightarrow> tunnel_response list" where
  "piece_frames rid whole offset [] = []"
| "piece_frames rid whole offset (p # ps) =
     RespBody rid offset p (offset + length p = whole) # piece_frames rid whole (offset + length p) ps"

lemma piece_frames_append:
  "piece_frames rid whole offset (ps @ qs) =
     piece_frames rid whole offset ps @ piece_frames rid whole (offset + length (concat ps)) qs"
  by (induction ps arbitrary: offset) (simp_all add: add.assoc)

lemma body_bytes_append: "body_bytes (fs @ gs) = body_bytes fs @ body_bytes gs"
  by (induction fs rule: body_bytes.induct) auto

lemma body_bytes_pieces [simp]: "body_bytes (piece_frames rid whole offset ps) = concat ps"
  by (induction ps arbitrary: offset) auto

lemma body_run_pieces:
  assumes "[] \<notin> set ps" and "ps \<noteq> []" and "offset + length (concat ps) = whole"
  shows "body_run rid offset (piece_frames rid whole offset ps)"
  using assms
proof (induction ps arbitrary: offset)
  case Nil
  then show ?case by simp
next
  case (Cons p ps)
  show ?case
  proof (cases ps)
    case Nil
    then show ?thesis using Cons.prems by simp
  next
    case (Cons q qs)
    then have "q \<noteq> []" using Cons.prems(1) by auto
    then have "1 \<le> length q" by (cases q) auto
    then have "offset + length p \<noteq> whole" using Cons.prems(3) unfolding Cons by auto
    then show ?thesis
      using Cons.IH [of "offset + length p"] Cons.prems Cons by (simp add: add.assoc)
  qed
qed

text \<open>The chunked form of a byte string.\<close>

lemma chunks_of_simps:
  "chunks_of n [] = []"
  "xs \<noteq> [] \<Longrightarrow> 0 < n \<Longrightarrow> chunks_of n xs = take n xs # chunks_of n (drop n xs)"
  by (subst chunks_of.simps; simp)+

lemma chunks_of_props:
  assumes "0 < n"
  shows "concat (chunks_of n xs) = xs" and "[] \<notin> set (chunks_of n xs)" and "\<forall>c \<in> set (chunks_of n xs). length c \<le> n"
    and "chunks_of n xs = [] \<longleftrightarrow> xs = []"
  using assms
  by (induction n xs rule: chunks_of.induct; subst chunks_of.simps; auto)+

lemma tunnel_chunk_pos: "0 < MAX_TUNNEL_CHUNK"
  by (simp add: MAX_TUNNEL_CHUNK_def)

lemma send_response_Inr:
  "send_response s m = (Inr u, s') \<Longrightarrow> sk_sent s' = sk_sent s @ [m]"
  "sk_room s = None \<Longrightarrow> send_response s m = (Inr (), s\<lparr>sk_sent := sk_sent s @ [m]\<rparr>)"
  by (auto simp: send_response_def split: option.splits nat.splits)

lemma send_pieces_len_Inr:
  assumes "send_pieces_len rid whole offset ps s = (Inr offset', s')" and "offset \<le> whole"
  shows "sk_sent s' = sk_sent s @ piece_frames rid whole offset ps \<and> offset' = offset + length (concat ps) \<and>
    offset' \<le> whole"
  using assms
proof (induction ps arbitrary: offset s)
  case Nil
  then show ?case by simp
next
  case (Cons p ps)
  obtain s1 where send: "send_response s (RespBody rid offset p (whole \<le> offset + length p)) = (Inr (), s1)"
      "send_pieces_len rid whole (offset + length p) ps s1 = (Inr offset', s')" "offset + length p \<le> whole"
    using Cons.prems(1) by (auto simp: Let_def split: if_splits sum.splits prod.splits)
  have "(whole \<le> offset + length p) = (offset + length p = whole)" using send(3) by auto
  then show ?case
    using Cons.IH [OF send(2,3)] send_response_Inr(1) [OF send(1)] by (simp add: add.assoc)
qed

lemma send_pieces_len_ok:
  assumes "sk_room s = None" and "offset + length (concat ps) \<le> whole"
  shows "\<exists>s'. send_pieces_len rid whole offset ps s = (Inr (offset + length (concat ps)), s') \<and> sk_room s' = None"
  using assms
proof (induction ps arbitrary: offset s)
  case Nil
  then show ?case by simp
next
  case (Cons p ps)
  then show ?case
    using Cons.IH [of "s\<lparr>sk_sent := sk_sent s @ [RespBody rid offset p (whole \<le> offset + length p)]\<rparr>" "offset + length p"]
    by (simp add: Let_def send_response_Inr(2) add.assoc)
qed

lemma send_pieces_open_Inr:
  assumes "send_pieces_open rid offset ps s = (Inr offset', s')"
  shows "\<exists>fs. sk_sent s' = sk_sent s @ fs \<and> offset' = offset + length (concat ps) \<and>
    (\<forall>more b. body_run rid offset' more \<longrightarrow> body_run rid offset (fs @ more)) \<and> body_bytes fs = concat ps"
  using assms
proof (induction ps arbitrary: offset s)
  case Nil
  then show ?case by (auto intro: exI [of _ "[]"])
next
  case (Cons p ps)
  obtain s1 where send: "send_response s (RespBody rid offset p False) = (Inr (), s1)"
      "send_pieces_open rid (offset + length p) ps s1 = (Inr offset', s')"
    using Cons.prems by (auto split: sum.splits prod.splits)
  obtain fs where fs: "sk_sent s' = sk_sent s1 @ fs" "offset' = offset + length p + length (concat ps)"
      "\<And>more. body_run rid offset' more \<Longrightarrow> body_run rid (offset + length p) (fs @ more)" "body_bytes fs = concat ps"
    using Cons.IH [OF send(2)] by blast
  have "body_run rid offset ((RespBody rid offset p False # fs) @ more)" if "body_run rid offset' more" for more
    using fs(3) [OF that] by (cases "fs @ more") auto
  then show ?case
    using fs(1,2,4) send_response_Inr(1) [OF send(1)]
    by (intro exI [of _ "RespBody rid offset p False # fs"]) (simp add: add.assoc)
qed

lemma send_pieces_open_ok:
  assumes "sk_room s = None"
  shows "\<exists>s'. send_pieces_open rid offset ps s = (Inr (offset + length (concat ps)), s') \<and> sk_room s' = None"
  using assms
proof (induction ps arbitrary: offset s)
  case Nil
  then show ?case by simp
next
  case (Cons p ps)
  then show ?case
    using Cons.IH [of "s\<lparr>sk_sent := sk_sent s @ [RespBody rid offset p False]\<rparr>" "offset + length p"]
    by (simp add: send_response_Inr(2) add.assoc)
qed

lemma send_stream_len_Inr:
  assumes "send_stream_len rid whole offset body s = (Inr offset', s')" and "offset \<le> whole"
  shows "\<exists>ps b. body_content body = Some b \<and> concat ps = b \<and> [] \<notin> set ps \<and> offset' = offset + length b \<and> offset' \<le> whole \<and>
    sk_sent s' = sk_sent s @ piece_frames rid whole offset ps"
  using assms
proof (induction body arbitrary: offset s)
  case Nil
  then show ?case by (auto intro: exI [of _ "[]"])
next
  case (Cons c body)
  obtain d where c: "c = Inr d" using Cons.prems(1) by (cases c) auto
  let ?ps = "chunks_of MAX_TUNNEL_CHUNK d"
  obtain off1 s1 where one: "send_pieces_len rid whole offset ?ps s = (Inr off1, s1)"
      "send_stream_len rid whole off1 body s1 = (Inr offset', s')"
    using Cons.prems(1) c by (auto split: sum.splits prod.splits)
  note p = send_pieces_len_Inr [OF one(1) Cons.prems(2)]
  then obtain ps b where rest: "body_content body = Some b" "concat ps = b" "[] \<notin> set ps" "offset' = off1 + length b"
      "offset' \<le> whole" "sk_sent s' = sk_sent s1 @ piece_frames rid whole off1 ps"
    using Cons.IH [OF one(2)] by blast
  show ?case
    using p rest c chunks_of_props(1,2) [OF tunnel_chunk_pos, of d]
    by (intro exI [of _ "?ps @ ps"] exI [of _ "d @ b"]) (simp add: piece_frames_append)
qed

lemma send_stream_len_ok:
  assumes "sk_room s = None" and "body_content body = Some b" and "offset + length b \<le> whole"
  shows "\<exists>s'. send_stream_len rid whole offset body s = (Inr (offset + length b), s') \<and> sk_room s' = None"
  using assms
proof (induction body arbitrary: offset s b)
  case Nil
  then show ?case by simp
next
  case (Cons c body)
  obtain d r where c: "c = Inr d" "body_content body = Some r" "b = d @ r"
    using Cons.prems(2) by (auto split: sum.splits)
  have "offset + length (concat (chunks_of MAX_TUNNEL_CHUNK d)) \<le> whole"
    using Cons.prems(3) c chunks_of_props(1) [OF tunnel_chunk_pos, of d] by simp
  from send_pieces_len_ok [OF Cons.prems(1) this] obtain s1 where
      "send_pieces_len rid whole offset (chunks_of MAX_TUNNEL_CHUNK d) s = (Inr (offset + length d), s1)" "sk_room s1 = None"
    using chunks_of_props(1) [OF tunnel_chunk_pos, of d] by auto
  then show ?case
    using Cons.IH [of s1 r "offset + length d"] c Cons.prems(3) by (auto simp: add.assoc)
qed

lemma send_stream_open_Inr:
  assumes "send_stream_open rid offset body s = (Inr offset', s')"
  shows "\<exists>fs b. body_content body = Some b \<and> sk_sent s' = sk_sent s @ fs \<and>
    (\<forall>more. body_run rid offset' more \<longrightarrow> body_run rid offset (fs @ more)) \<and> body_bytes fs = b"
  using assms
proof (induction body arbitrary: offset s)
  case Nil
  then show ?case by (auto intro: exI [of _ "[]"])
next
  case (Cons c body)
  obtain d where c: "c = Inr d" using Cons.prems by (cases c) auto
  obtain off1 s1 where one: "send_pieces_open rid offset (chunks_of MAX_TUNNEL_CHUNK d) s = (Inr off1, s1)"
      "send_stream_open rid off1 body s1 = (Inr offset', s')"
    using Cons.prems c by (auto split: sum.splits prod.splits)
  obtain fs1 where fs1: "sk_sent s1 = sk_sent s @ fs1" "\<And>more. body_run rid off1 more \<Longrightarrow> body_run rid offset (fs1 @ more)"
      "body_bytes fs1 = d"
    using send_pieces_open_Inr [OF one(1)] chunks_of_props(1) [OF tunnel_chunk_pos, of d] by auto
  obtain fs b where fs: "body_content body = Some b" "sk_sent s' = sk_sent s1 @ fs"
      "\<And>more. body_run rid offset' more \<Longrightarrow> body_run rid off1 (fs @ more)" "body_bytes fs = b"
    using Cons.IH [OF one(2)] by blast
  show ?case
    using c fs1 fs by (intro exI [of _ "fs1 @ fs"] exI [of _ "d @ b"]) (simp add: body_bytes_append)
qed

lemma send_stream_open_ok:
  assumes "sk_room s = None" and "body_content body = Some b"
  shows "\<exists>s'. send_stream_open rid offset body s = (Inr (offset + length b), s') \<and> sk_room s' = None"
  using assms
proof (induction body arbitrary: offset s b)
  case Nil
  then show ?case by simp
next
  case (Cons c body)
  obtain d r where c: "c = Inr d" "body_content body = Some r" "b = d @ r"
    using Cons.prems(2) by (auto split: sum.splits)
  obtain s1 where "send_pieces_open rid offset (chunks_of MAX_TUNNEL_CHUNK d) s = (Inr (offset + length d), s1)"
      "sk_room s1 = None"
    using send_pieces_open_ok [OF Cons.prems(1), of rid offset "chunks_of MAX_TUNNEL_CHUNK d"]
      chunks_of_props(1) [OF tunnel_chunk_pos, of d] by auto
  then show ?case using Cons.IH [of s1 r "offset + length d"] c by (auto simp: add.assoc)
qed

lemma send_buffered_Inr:
  "send_buffered rid whole offset ps s = (Inr u, s') \<Longrightarrow> sk_sent s' = sk_sent s @ piece_frames rid whole offset ps"
  by (induction ps arbitrary: offset s)
    (auto simp: Let_def split: sum.splits prod.splits dest!: send_response_Inr(1))

lemma send_buffered_ok:
  "sk_room s = None \<Longrightarrow> \<exists>s'. send_buffered rid whole offset ps s = (Inr (), s') \<and> sk_room s' = None"
  by (induction ps arbitrary: offset s) (auto simp: Let_def send_response_Inr(2))

lemma to_bytes_Inr: "to_bytes room body = Inr b \<longleftrightarrow> body_content body = Some b \<and> length b \<le> room"
proof (induction body arbitrary: room b)
  case Nil
  then show ?case by auto
next
  case (Cons c body)
  show ?case
  proof (cases c)
    case (Inl e)
    then show ?thesis by simp
  next
    case (Inr d)
    show ?thesis
    proof (cases "to_bytes (room - length d) body")
      case (Inl e)
      then have "\<not> (body_content body = Some r \<and> length r \<le> room - length d)" for r
        using Cons.IH [of "room - length d" r] by simp
      then have no: "body_content body = Some r \<Longrightarrow> room < length d + length r" for r
        by fastforce
      then show ?thesis using \<open>c = Inr d\<close> Inl by (auto dest: no)
    next
      case (Inr r)
      then have "body_content body = Some r" "length r \<le> room - length d"
        using Cons.IH [of "room - length d" r] by simp_all
      then show ?thesis using \<open>c = Inr d\<close> Inr by auto
    qed
  qed
qed

lemma send_http_response_Inr:
  assumes "send_http_response rid resp reuse s = (Inr u, s')"
  obtains fs b where "response_bytes resp = Some b" "sk_sent s' = sk_sent s @ fs"
    "response_run rid (hr_status resp) reuse b fs"
proof (cases "response_content_length (hr_headers resp)")
  case (Some n)
  let ?head = "RespHead rid (hr_status resp) (forwarded_response_headers (hr_headers resp) (Some n)) (Some n) reuse"
  obtain s1 where one: "send_response s ?head = (Inr (), s1)" "send_streaming_http_body rid n (hr_body resp) s1 = (Inr u, s')"
    using assms Some by (auto simp: send_http_response_def split: sum.splits prod.splits)
  note sent = send_response_Inr(1) [OF one(1)]
  show thesis
  proof (cases "n = 0")
    case True
    then show thesis
      using that [of "[]" "[?head]"] sent one(2) Some
      by (simp add: send_streaming_http_body_def response_bytes_def response_run_def)
  next
    case False
    then obtain ps b where b: "body_content (hr_body resp) = Some b" "concat ps = b" "[] \<notin> set ps" "length b = n"
        "sk_sent s' = sk_sent s1 @ piece_frames rid n 0 ps"
      using one(2) send_stream_len_Inr [of rid n 0 "hr_body resp" s1]
      by (auto simp: send_streaming_http_body_def split: sum.splits prod.splits if_splits)
    have "ps \<noteq> []" using b(2,4) False by auto
    then have "body_run rid 0 (piece_frames rid n 0 ps)" using body_run_pieces b by simp
    then show thesis
      using that [of b "?head # piece_frames rid n 0 ps"] sent b Some False
      by (simp add: response_bytes_def response_run_def)
  qed
next
  case None
  show thesis
  proof (cases "is_event_stream (hr_headers resp)")
    case True
    let ?head = "RespHead rid (hr_status resp) (forwarded_response_headers (hr_headers resp) None) None reuse"
    obtain s1 where one: "send_response s ?head = (Inr (), s1)"
        "send_streaming_http_body_without_len rid (hr_body resp) s1 = (Inr u, s')"
      using assms None True by (auto simp: send_http_response_def split: sum.splits prod.splits)
    obtain off s2 where two: "send_stream_open rid 0 (hr_body resp) s1 = (Inr off, s2)"
        "send_response s2 (RespBody rid off [] True) = (Inr u, s')"
      using one(2) by (auto simp: send_streaming_http_body_without_len_def split: sum.splits prod.splits)
    obtain fs b where fs: "body_content (hr_body resp) = Some b" "sk_sent s2 = sk_sent s1 @ fs"
        "\<And>more. body_run rid off more \<Longrightarrow> body_run rid 0 (fs @ more)" "body_bytes fs = b"
      using send_stream_open_Inr [OF two(1)] by blast
    show thesis
      using that [of b "?head # fs @ [RespBody rid off [] True]"] fs True None
        send_response_Inr(1) [OF one(1)] send_response_Inr(1) [OF two(2)]
      by (simp add: response_bytes_def response_run_def body_bytes_append)
  next
    case False
    obtain b where b: "to_bytes TUNNEL_HTTP_RESPONSE_LIMIT (hr_body resp) = Inr b"
      using assms None False by (auto simp: send_http_response_def split: sum.splits)
    let ?head = "RespHead rid (hr_status resp) (forwarded_response_headers (hr_headers resp) (Some (length b))) (Some (length b)) reuse"
    let ?ps = "chunks_of MAX_TUNNEL_CHUNK b"
    obtain s1 where one: "send_response s ?head = (Inr (), s1)"
        "(if b = [] then (Inr (), s1) else send_buffered rid (length b) 0 ?ps s1) = (Inr u, s')"
      using assms None False b by (auto simp: send_http_response_def split: sum.splits prod.splits if_splits)
    note props = chunks_of_props [OF tunnel_chunk_pos, of b]
    have "sk_sent s' = sk_sent s @ ?head # piece_frames rid (length b) 0 ?ps"
      using one send_response_Inr(1) [OF one(1)] send_buffered_Inr [of rid "length b" 0 ?ps s1 u s'] props(4)
      by (auto split: if_splits simp: chunks_of_simps)
    moreover have "response_run rid (hr_status resp) reuse b (?head # piece_frames rid (length b) 0 ?ps)"
      using props body_run_pieces [of ?ps 0 "length b" rid] by (auto simp: response_run_def chunks_of_simps)
    ultimately show thesis
      using that b False None by (auto simp: response_bytes_def to_bytes_Inr)
  qed
qed

lemma send_http_response_ok:
  assumes "sk_room s = None" and "response_bytes resp = Some b"
  shows "\<exists>s'. send_http_response rid resp reuse s = (Inr (), s') \<and> sk_room s' = None"
proof (cases "response_content_length (hr_headers resp)")
  case (Some n)
  let ?s = "s\<lparr>sk_sent := sk_sent s @
     [RespHead rid (hr_status resp) (forwarded_response_headers (hr_headers resp) (Some n)) (Some n) reuse]\<rparr>"
  have sent: "send_http_response rid resp reuse s = send_streaming_http_body rid n (hr_body resp) ?s"
    using Some assms(1) by (simp add: send_http_response_def send_response_Inr(2))
  show ?thesis
  proof (cases "n = 0")
    case True
    then show ?thesis using assms(1) by (simp add: sent send_streaming_http_body_def)
  next
    case False
    then have b: "body_content (hr_body resp) = Some b" "length b = n"
      using assms(2) Some by (auto simp: response_bytes_def split: option.splits if_splits)
    obtain s' where "send_stream_len rid n 0 (hr_body resp) ?s = (Inr (0 + length b), s')" "sk_room s' = None"
      using send_stream_len_ok [of ?s "hr_body resp" b 0 n rid] assms(1) b by auto
    then show ?thesis using b False by (simp add: sent send_streaming_http_body_def)
  qed
next
  case None
  then obtain c where c: "body_content (hr_body resp) = Some c"
      "is_event_stream (hr_headers resp) \<or> length c \<le> TUNNEL_HTTP_RESPONSE_LIMIT"
    using assms(2) by (auto simp: response_bytes_def split: option.splits if_splits)
  show ?thesis
  proof (cases "is_event_stream (hr_headers resp)")
    case True
    obtain s2 where "send_stream_open rid 0 (hr_body resp)
        (s\<lparr>sk_sent := sk_sent s @ [RespHead rid (hr_status resp) (forwarded_response_headers (hr_headers resp) None) None reuse]\<rparr>) =
        (Inr (0 + length c), s2)" "sk_room s2 = None"
      using send_stream_open_ok [of "s\<lparr>sk_sent := sk_sent s @
        [RespHead rid (hr_status resp) (forwarded_response_headers (hr_headers resp) None) None reuse]\<rparr>" _ c rid 0]
        assms(1) c(1) by auto
    then show ?thesis
      using None True assms(1)
      by (simp add: send_http_response_def send_response_Inr(2) send_streaming_http_body_without_len_def)
  next
    case False
    then have "to_bytes TUNNEL_HTTP_RESPONSE_LIMIT (hr_body resp) = Inr c" using c by (simp add: to_bytes_Inr)
    then show ?thesis
      using None False assms(1) send_buffered_ok
      by (auto simp: send_http_response_def send_response_Inr(2))
  qed
qed

section \<open>What a session says\<close>

text \<open>
  What a session has said while it went on: whole responses, each to a higher id than the one before, each with the
  leg's offer. The last argument is the id of the last one.
\<close>

inductive answers :: "tunnel_reuse option \<Rightarrow> nat \<Rightarrow> tunnel_response list \<Rightarrow> nat \<Rightarrow> bool" for reuse l where
  answers_none: "answers reuse l [] l"
| answers_more:
    "answers reuse l fs m \<Longrightarrow> m < rid \<Longrightarrow> reuse \<noteq> None \<Longrightarrow> response_run rid status reuse b gs \<Longrightarrow>
       answers reuse l (fs @ gs) rid"

text \<open>How a session that ended in order took its leave.\<close>

definition farewell :: "nat \<Rightarrow> tunnel_response list \<Rightarrow> bool" where
  "farewell l fs \<longleftrightarrow>
     fs = [] \<or> (\<exists>rid status reason. fs = [RespError rid status reason]) \<or>
     (\<exists>rid status b. l < rid \<and> response_run rid status None b fs)"

lemma refuse_Inr:
  "refuse k s rid status reason = (Inr st, k', s') \<Longrightarrow>
     st = MustClose \<and> sk_sent k' = sk_sent k @ [RespError rid status reason]"
  by (auto simp: refuse_def send_error_def split: prod.splits sum.splits dest: send_response_Inr(1))

lemma respond_Inr:
  assumes "respond k s rid resp reuse st = (Inr st', k', s')"
  shows "st' = st \<and> (\<exists>b fs. response_bytes resp = Some b \<and> sk_sent k' = sk_sent k @ fs \<and>
    response_run rid (hr_status resp) (offer reuse st) b fs)"
proof -
  have "st' = st" "send_http_response rid resp (offer reuse st) k = (Inr (), k')"
    using assms by (auto simp: respond_def split: prod.splits sum.splits)
  then show ?thesis using send_http_response_Inr [of rid resp "offer reuse st" k "()" k'] by blast
qed

lemma handle_http_forward_Inr:
  assumes "handle_http_forward env k s h reuse = (Inr st, k', s')"
  shows "\<exists>fs. sk_sent k' = sk_sent k @ fs \<and>
    ((st = MustClose \<and> (\<exists>status reason. fs = [RespError (rq_id h) status reason])) \<or>
     (\<exists>status b. response_run (rq_id h) status (offer reuse st) b fs))"
  using assms
  by (auto simp: handle_http_forward_def handle_http_body_forward_def Let_def
      split: if_splits sum.splits prod.splits dest!: refuse_Inr respond_Inr)

lemma send_error_Inr: "send_error k rid status reason = (Inr u, k') \<Longrightarrow> sk_sent k' = sk_sent k @ [RespError rid status reason]"
  by (auto simp: send_error_def dest: send_response_Inr(1))

lemma session_turn_goes_on:
  assumes "session_turn env reuse served last_id k s = (GoesOn served' last', k', s')"
  shows "(sk_sent k' = sk_sent k \<and> served' = served \<and> last' = last_id) \<or>
    (\<exists>fs status b. sk_sent k' = sk_sent k @ fs \<and> last_id < last' \<and> served' = Suc served \<and> reuse \<noteq> None \<and>
       response_run last' status reuse b fs)"
proof -
  obtain req s1 where nxt: "next_request s = (Req req, s1)"
    using assms by (auto simp: session_turn_def split: prod.splits request_await.splits)
  show ?thesis
  proof (cases req)
    case (ReqHead rid verb path headers len)
    let ?h = "\<lparr>rq_id = rid, rq_method = verb, rq_path = path, rq_headers = headers, rq_body_len = len\<rparr>"
    have r: "handle_http_forward env k s1 ?h reuse = (Inr Reusable, k', s')" "last_id < rid" "last' = rid"
        "served' = Suc served" "reuse \<noteq> None"
      using assms nxt ReqHead
      by (auto simp: session_turn_def Let_def split: if_splits sum.splits prod.splits leg_state.splits)
    from handle_http_forward_Inr [OF r(1)] show ?thesis
      using r(2-) by (auto simp: offer_def)
  qed (use assms nxt in \<open>auto simp: session_turn_def Let_def split: if_splits sum.splits prod.splits\<close>)
qed

lemma session_turn_finished:
  assumes "session_turn env reuse served last_id k s = (Stops Finished, k', s')"
  shows "\<exists>fs. sk_sent k' = sk_sent k @ fs \<and> farewell last_id fs"
proof (cases "\<exists>rid verb path headers len s1. next_request s = (Req (ReqHead rid verb path headers len), s1)")
  case True
  then obtain rid verb path headers len s1 where
    nxt: "next_request s = (Req (ReqHead rid verb path headers len), s1)" by blast
  let ?h = "\<lparr>rq_id = rid, rq_method = verb, rq_path = path, rq_headers = headers, rq_body_len = len\<rparr>"
  consider status reason where "send_error k rid status reason = (Inr (), k')"
    | st where "handle_http_forward env k s1 ?h reuse = (Inr st, k', s')" "last_id < rid" "st = Reusable \<Longrightarrow> reuse = None"
    using assms nxt
    by (auto simp: session_turn_def Let_def split: if_splits sum.splits prod.splits leg_state.splits)
  then show ?thesis
  proof cases
    case 1
    then show ?thesis using send_error_Inr by (fastforce simp: farewell_def)
  next
    case 2
    then have "offer reuse st = None" by (cases st) (simp_all add: offer_def)
    then show ?thesis using handle_http_forward_Inr [OF 2(1)] 2(2) by (auto simp: farewell_def)
  qed
next
  case False
  then show ?thesis
    using assms
    by (auto simp: session_turn_def Let_def farewell_def
        split: prod.splits request_await.splits tunnel_request.splits if_splits sum.splits dest!: send_error_Inr)
qed

lemma answers_first:
  assumes "response_run rid status reuse b gs" and "l < rid" and "reuse \<noteq> None" and "answers reuse rid fs m"
  shows "answers reuse l (gs @ fs) m"
  using assms(4)
proof induction
  case (answers_none)
  show ?case using answers_more [OF answers.answers_none assms(2,3,1)] by simp
next
  case (answers_more fs m rid' status' b' gs')
  then show ?case
    using answers.answers_more [OF answers_more.IH answers_more.hyps(2-4)] by simp
qed

lemma answers_le: "answers reuse l fs m \<Longrightarrow> l \<le> m"
  by (induction rule: answers.induct) auto

text \<open>What a session that ends in order has sent, whatever the client sent it, is whole answers to ids that only
  grow, each offering the leg again, and then at most one farewell: an error, or a whole answer that takes the offer
  back. A leg that still stands on an offer was left open for its next request.\<close>

lemma offers_are_kept:
  assumes "session_loop env reuse served last_id k s = (Finished, k', s')"
  shows "\<exists>fs m gs. sk_sent k' = sk_sent k @ fs @ gs \<and> answers reuse last_id fs m \<and> farewell m gs"
  using assms
proof (induction env reuse served last_id k s rule: session_loop.induct)
  case (1 env reuse served last_id k s)
  obtain t k1 s1 where turn: "session_turn env reuse served last_id k s = (t, k1, s1)"
    by (cases "session_turn env reuse served last_id k s")
  show ?case
  proof (cases t)
    case (Stops e)
    then have "session_turn env reuse served last_id k s = (Stops Finished, k', s')"
      using "1.prems" turn by (subst (asm) session_loop.simps) simp
    from session_turn_finished [OF this] show ?thesis
      using answers_none [of reuse last_id] by (metis append_Nil)
  next
    case (GoesOn served' last')
    then have "session_loop env reuse served' last' k1 s1 = (Finished, k', s')"
      using "1.prems" turn by (subst (asm) session_loop.simps) simp
    then obtain fs m gs where rest: "sk_sent k' = sk_sent k1 @ fs @ gs" "answers reuse last' fs m" "farewell m gs"
      using "1.IH" [OF turn [symmetric] GoesOn] turn by blast
    from session_turn_goes_on [OF turn [unfolded GoesOn]] show ?thesis
    proof (elim disjE exE conjE)
      assume "sk_sent k1 = sk_sent k" "last' = last_id"
      then show ?thesis using rest by auto
    next
      fix hs status b
      assume one: "sk_sent k1 = sk_sent k @ hs" "last_id < last'" "reuse \<noteq> None" "response_run last' status reuse b hs"
      have "answers reuse last_id (hs @ fs) m" using answers_first [OF one(4,2,3) rest(2)] .
      then show ?thesis using rest one(1) by (intro exI [of _ "hs @ fs"] exI [of _ m] exI [of _ gs]) simp
    qed
  qed
qed

end
