(* ===== verification/LegPool.thy ===== *)
theory LegPool
  imports CarrierState TunnelLeg
begin

text \<open>
  \<open>app/ios/ffi/src/relay/leg_pool.rs\<close>: the phone's pool of warm tunnel legs, and the caller of \<open>relay/api.rs\<close>
  that takes a leg, runs a request on it and settles what becomes of it. A leg's stream is a parameter of the
  pool's type. Every operation gets the two clocks it reads: \<open>Instant\<close>, which stops while the device sleeps,
  and \<open>SystemTime\<close>, which the user can set back.
\<close>

section \<open>The pool\<close>

definition millis :: "int \<Rightarrow> duration" where
  "millis n = n * 1000000"

definition MAX_POOLED_LEGS :: nat where
  "MAX_POOLED_LEGS = 3"

definition CLIENT_IDLE_MARGIN :: duration where
  "CLIENT_IDLE_MARGIN = secs 10"

definition CLIENT_IDLE_CAP :: duration where
  "CLIENT_IDLE_CAP = secs 120"

definition UNPROVEN_LEG_TTL :: duration where
  "UNPROVEN_LEG_TTL = secs 12"

record clocks =
  mono :: instant
  wall :: instant

record 'io pooled_leg =
  pl_io :: 'io
  pl_binding :: binding_key
  pl_epoch :: nat
  pl_ttl :: duration
  pl_parked_mono :: instant
  pl_parked_wall :: instant
  pl_was_pooled :: bool

definition leg_fresh :: "'io \<Rightarrow> binding_key \<Rightarrow> nat \<Rightarrow> clocks \<Rightarrow> 'io pooled_leg" where
  "leg_fresh io binding ep c =
     \<lparr>pl_io = io, pl_binding = binding, pl_epoch = ep, pl_ttl = UNPROVEN_LEG_TTL, pl_parked_mono = mono c,
      pl_parked_wall = wall c, pl_was_pooled = False\<rparr>"

definition park_stamp :: "duration \<Rightarrow> clocks \<Rightarrow> 'io pooled_leg \<Rightarrow> 'io pooled_leg" where
  "park_stamp ttl c leg = leg\<lparr>pl_ttl := ttl, pl_parked_mono := mono c, pl_parked_wall := wall c\<rparr>"

text \<open>\<open>Instant::elapsed\<close> is zero when the clock reads earlier; \<open>SystemTime::elapsed\<close> is an error then.\<close>

definition within_ttl :: "'io pooled_leg \<Rightarrow> clocks \<Rightarrow> bool" where
  "within_ttl leg c \<longleftrightarrow>
     \<not> max 0 (mono c - pl_parked_mono leg) \<ge> pl_ttl leg \<and>
     (if wall c \<ge> pl_parked_wall leg then wall c - pl_parked_wall leg < pl_ttl leg else False)"

definition leg_usable :: "'io pooled_leg \<Rightarrow> binding_key \<Rightarrow> nat \<Rightarrow> clocks \<Rightarrow> bool" where
  "leg_usable leg key ep c \<longleftrightarrow> pl_epoch leg = ep \<and> pl_binding leg = key \<and> within_ttl leg c"

definition ttl_for :: "tunnel_reuse \<Rightarrow> duration" where
  "ttl_for reuse = max 0 (min (millis (int (idle_ms reuse))) CLIENT_IDLE_CAP - CLIENT_IDLE_MARGIN)"

record 'io leg_pool =
  po_legs :: "'io pooled_leg list"
  po_epoch :: nat

definition pool_new :: "'io leg_pool" where
  "pool_new = \<lparr>po_legs = [], po_epoch = 0\<rparr>"

definition pool_prune :: "clocks \<Rightarrow> 'io leg_pool \<Rightarrow> 'io leg_pool" where
  "pool_prune c p = p\<lparr>po_legs := filter (\<lambda>leg. pl_epoch leg = po_epoch p \<and> within_ttl leg c) (po_legs p)\<rparr>"

text \<open>\<open>rposition\<close> and \<open>remove\<close>: the newest leg that passes, and the others.\<close>

fun take_last :: "('a \<Rightarrow> bool) \<Rightarrow> 'a list \<Rightarrow> ('a \<times> 'a list) option" where
  "take_last P [] = None"
| "take_last P (x # xs) =
     (case take_last P xs of
        Some (y, ys) \<Rightarrow> Some (y, x # ys)
      | None \<Rightarrow> if P x then Some (x, xs) else None)"

definition pool_take :: "binding_key \<Rightarrow> clocks \<Rightarrow> 'io leg_pool \<Rightarrow> 'io pooled_leg option \<times> 'io leg_pool" where
  "pool_take key c p =
     (let p' = pool_prune c p in
      case take_last (\<lambda>leg. leg_usable leg key (po_epoch p') c) (po_legs p') of
        None \<Rightarrow> (None, p')
      | Some (leg, legs) \<Rightarrow> (Some (leg\<lparr>pl_was_pooled := True\<rparr>), p'\<lparr>po_legs := legs\<rparr>))"

definition pool_park ::
    "'io pooled_leg \<Rightarrow> tunnel_reuse option \<Rightarrow> clocks \<Rightarrow> 'io leg_pool \<Rightarrow> 'io pooled_leg option \<times> 'io leg_pool" where
  "pool_park leg reuse c p =
     (case reuse of
        None \<Rightarrow> (Some leg, p)
      | Some r \<Rightarrow>
          let ttl = ttl_for r in
          if ttl = 0 then (Some leg, p)
          else
            let p' = pool_prune c p in
            if pl_epoch leg \<noteq> po_epoch p' \<or> length (po_legs p') \<ge> MAX_POOLED_LEGS then (Some leg, p')
            else (None, p'\<lparr>po_legs := po_legs p' @ [(park_stamp ttl c leg)\<lparr>pl_was_pooled := False\<rparr>]\<rparr>))"

definition pool_park_unproven ::
    "'io pooled_leg \<Rightarrow> clocks \<Rightarrow> 'io leg_pool \<Rightarrow> 'io pooled_leg option \<times> 'io leg_pool" where
  "pool_park_unproven leg c p =
     (let p' = pool_prune c p in
      if pl_epoch leg \<noteq> po_epoch p' \<or> length (po_legs p') \<ge> MAX_POOLED_LEGS then (Some leg, p')
      else (None, p'\<lparr>po_legs := po_legs p' @ [leg]\<rparr>))"

definition pool_has_usable :: "binding_key \<Rightarrow> clocks \<Rightarrow> 'io leg_pool \<Rightarrow> bool \<times> 'io leg_pool" where
  "pool_has_usable key c p =
     (let p' = pool_prune c p in (\<exists>leg \<in> set (po_legs p'). leg_usable leg key (po_epoch p') c, p'))"

definition pool_invalidate :: "'io leg_pool \<Rightarrow> 'io leg_pool" where
  "pool_invalidate p = \<lparr>po_legs = [], po_epoch = po_epoch p + 1\<rparr>"

text \<open>\<open>warm\<close>: the dial's result is \<open>dialed\<close>; what other tasks do to the pool while it runs is \<open>meanwhile\<close>.
  A leg that is not parked is closed.\<close>

definition warm ::
    "binding_key option \<Rightarrow> 'io option \<Rightarrow> ('io leg_pool \<Rightarrow> 'io leg_pool) \<Rightarrow> nat \<Rightarrow> clocks \<Rightarrow> clocks \<Rightarrow> clocks \<Rightarrow>
     'io leg_pool \<Rightarrow> 'io pooled_leg option \<times> 'io leg_pool" where
  "warm paired dialed meanwhile ep c1 c2 c3 p =
     (case paired of
        None \<Rightarrow> (None, p)
      | Some key \<Rightarrow>
          let (some_warm, p1) = pool_has_usable key c1 p in
          if some_warm then (None, p1)
          else
            let p2 = meanwhile p1 in
            case dialed of
              Some io \<Rightarrow> pool_park_unproven (leg_fresh io key ep c2) c3 p2
            | None \<Rightarrow> (None, p2))"

section \<open>One gateway call\<close>

datatype replay_policy = Converges | Never

text \<open>
  What a call meets: the pairing record's binding, the dial's leg or its error, the clock readings of its pool
  operations, and what other tasks do to the pool across each of its awaits.
\<close>

record call_env =
  ce_paired :: "binding_key option"
  ce_dial :: "string + leg_io"
  ce_take :: clocks
  ce_settle1 :: clocks
  ce_dialed :: clocks
  ce_settle2 :: clocks
  ce_during1 :: "leg_io leg_pool \<Rightarrow> leg_io leg_pool"
  ce_during_dial :: "leg_io leg_pool \<Rightarrow> leg_io leg_pool"
  ce_during2 :: "leg_io leg_pool \<Rightarrow> leg_io leg_pool"

text \<open>What the caller gets back: \<open>LegError\<close> or the reason there was no leg.\<close>

datatype call_error = NotPaired | DialFailed string | CallFailed leg_error

text \<open>Settling parks the leg or closes it; the closed leg is returned for the record of what was closed.\<close>

definition settle ::
    "leg_io pooled_leg \<Rightarrow> tunnel_reuse option \<Rightarrow> clocks \<Rightarrow> leg_io leg_pool \<Rightarrow> leg_io list \<times> leg_io leg_pool" where
  "settle leg reuse c p =
     (case pool_park leg reuse c p of
        (Some orphan, p') \<Rightarrow> ([leg_close (pl_io orphan)], p')
      | (None, p') \<Rightarrow> ([], p'))"

definition call_result :: "leg_error + byte list \<Rightarrow> call_error + byte list" where
  "call_result r = (case r of Inl e \<Rightarrow> Inl (CallFailed e) | Inr b \<Rightarrow> Inr b)"

text \<open>The second half of \<open>request_with_policy\<close>: the request on a leg dialed for it.\<close>

definition request_fresh ::
    "call_env \<Rightarrow> binding_key \<Rightarrow> string \<Rightarrow> string \<Rightarrow> tunnel_header list \<Rightarrow> byte list option \<Rightarrow> leg_io leg_pool \<Rightarrow>
     (call_error + byte list) \<times> exchange_outcome list \<times> leg_io list \<times> leg_io leg_pool" where
  "request_fresh env key method path headers body p =
     (let ep = po_epoch p; p = ce_during_dial env p in
      case ce_dial env of
        Inl e \<Rightarrow> (Inl (DialFailed e), [], [], p)
      | Inr io \<Rightarrow>
          let leg = leg_fresh io key ep (ce_dialed env);
              (outcome, io') = exchange (pl_io leg) method path headers body;
              p = ce_during2 env p;
              (closed, p) = settle (leg\<lparr>pl_io := io'\<rparr>) (parkable (ex_reuse outcome) (ex_result outcome)) (ce_settle2 env) p
          in (call_result (ex_result outcome), [outcome], closed, p))"

definition request_with_policy ::
    "call_env \<Rightarrow> string \<Rightarrow> string \<Rightarrow> tunnel_header list \<Rightarrow> byte list option \<Rightarrow> replay_policy \<Rightarrow> leg_io leg_pool \<Rightarrow>
     (call_error + byte list) \<times> exchange_outcome list \<times> leg_io list \<times> leg_io leg_pool" where
  "request_with_policy env method path headers body replay p =
     (case ce_paired env of
        None \<Rightarrow> (Inl NotPaired, [], [], p)
      | Some key \<Rightarrow>
          (case pool_take key (ce_take env) p of
             (None, p) \<Rightarrow> request_fresh env key method path headers body p
           | (Some leg, p) \<Rightarrow>
               let (outcome, io') = exchange (pl_io leg) method path headers body;
                   retry = (replay = Converges \<and> should_retry outcome (pl_was_pooled leg));
                   p = ce_during1 env p;
                   (closed, p) = settle (leg\<lparr>pl_io := io'\<rparr>) (parkable (ex_reuse outcome) (ex_result outcome)) (ce_settle1 env) p
               in if \<not> retry then (call_result (ex_result outcome), [outcome], closed, p)
                  else
                    let (r, outs, closed', p) = request_fresh env key method path headers body p
                    in (r, outcome # outs, closed @ closed', p)))"

section \<open>Histories of the pool\<close>

text \<open>What any task may do to the pool; a leg comes back with whatever offer its last response carried.\<close>

datatype 'io pool_op =
    OTake binding_key clocks
  | OPark "'io pooled_leg" "tunnel_reuse option" clocks
  | OParkUnproven "'io pooled_leg" clocks
  | OHasUsable binding_key clocks
  | OInvalidate

primrec pool_step :: "'io leg_pool \<Rightarrow> 'io pool_op \<Rightarrow> 'io leg_pool" where
  "pool_step p (OTake key c) = snd (pool_take key c p)"
| "pool_step p (OPark leg reuse c) = snd (pool_park leg reuse c p)"
| "pool_step p (OParkUnproven leg c) = snd (pool_park_unproven leg c p)"
| "pool_step p (OHasUsable key c) = snd (pool_has_usable key c p)"
| "pool_step p OInvalidate = pool_invalidate p"

abbreviation pool_run :: "'io pool_op list \<Rightarrow> 'io leg_pool" where
  "pool_run ops \<equiv> foldl pool_step pool_new ops"

text \<open>The leg as an operation puts it into the pool.\<close>

primrec parked_by :: "'io pool_op \<Rightarrow> 'io pooled_leg option" where
  "parked_by (OTake key c) = None"
| "parked_by (OPark leg reuse c) =
     map_option (\<lambda>r. (park_stamp (ttl_for r) c leg)\<lparr>pl_was_pooled := False\<rparr>) reuse"
| "parked_by (OParkUnproven leg c) = Some leg"
| "parked_by (OHasUsable key c) = None"
| "parked_by OInvalidate = None"

lemma take_last_Some:
  "take_last P xs = Some (y, ys) \<Longrightarrow> P y \<and> y \<in> set xs \<and> set ys \<subseteq> set xs \<and> length xs = Suc (length ys)"
  by (induction xs arbitrary: ys) (auto split: option.splits if_splits)

lemma prune_sub: "set (po_legs (pool_prune c p)) \<subseteq> set (po_legs p)"
  "po_epoch (pool_prune c p) = po_epoch p" "length (po_legs (pool_prune c p)) \<le> length (po_legs p)"
  by (auto simp: pool_prune_def)

lemma pool_take_Some:
  assumes "pool_take key c p = (Some leg, p')"
  obtains l where "l \<in> set (po_legs p)" "leg = l\<lparr>pl_was_pooled := True\<rparr>" "leg_usable l key (po_epoch p) c"
proof -
  let ?p = "pool_prune c p"
  obtain l legs where "take_last (\<lambda>leg. leg_usable leg key (po_epoch ?p) c) (po_legs ?p) = Some (l, legs)"
      "leg = l\<lparr>pl_was_pooled := True\<rparr>"
    using assms by (auto simp: pool_take_def Let_def split: option.splits)
  then show thesis using that take_last_Some prune_sub [of c p] by fastforce
qed

lemma pool_take_legs:
  "set (po_legs (snd (pool_take key c p))) \<subseteq> set (po_legs p)"
  "length (po_legs (snd (pool_take key c p))) \<le> length (po_legs p)"
  "po_epoch (snd (pool_take key c p)) = po_epoch p"
  using prune_sub [of c p]
  by (auto simp: pool_take_def Let_def split: option.splits dest!: take_last_Some)

lemma pool_park_legs:
  "set (po_legs (snd (pool_park leg reuse c p))) \<subseteq> set (po_legs p) \<union> set_option (parked_by (OPark leg reuse c))"
  "length (po_legs p) \<le> MAX_POOLED_LEGS \<Longrightarrow> length (po_legs (snd (pool_park leg reuse c p))) \<le> MAX_POOLED_LEGS"
  "po_epoch (snd (pool_park leg reuse c p)) = po_epoch p"
  using prune_sub [of c p] by (auto simp: pool_park_def Let_def split: option.splits)

lemma pool_park_unproven_legs:
  "set (po_legs (snd (pool_park_unproven leg c p))) \<subseteq> insert leg (set (po_legs p))"
  "length (po_legs p) \<le> MAX_POOLED_LEGS \<Longrightarrow> length (po_legs (snd (pool_park_unproven leg c p))) \<le> MAX_POOLED_LEGS"
  "po_epoch (snd (pool_park_unproven leg c p)) = po_epoch p"
  using prune_sub [of c p] by (auto simp: pool_park_unproven_def Let_def)

lemma pool_step_legs:
  "set (po_legs (pool_step p a)) \<subseteq> set (po_legs p) \<union> set_option (parked_by a)"
  "a \<noteq> OInvalidate \<Longrightarrow> po_epoch (pool_step p a) = po_epoch p"
  "length (po_legs p) \<le> MAX_POOLED_LEGS \<Longrightarrow> length (po_legs (pool_step p a)) \<le> MAX_POOLED_LEGS"
proof -
  show "set (po_legs (pool_step p a)) \<subseteq> set (po_legs p) \<union> set_option (parked_by a)"
  proof (cases a)
    case (OPark leg reuse c)
    then show ?thesis using pool_park_legs(1) by simp
  next
    case (OParkUnproven leg c)
    then show ?thesis using pool_park_unproven_legs(1) by fastforce
  qed (auto simp: pool_has_usable_def pool_invalidate_def Let_def dest: subsetD [OF pool_take_legs(1)] subsetD [OF prune_sub(1)])
  show "a \<noteq> OInvalidate \<Longrightarrow> po_epoch (pool_step p a) = po_epoch p"
    by (cases a) (simp_all add: pool_take_legs pool_park_legs pool_park_unproven_legs pool_has_usable_def prune_sub Let_def)
  show "length (po_legs (pool_step p a)) \<le> MAX_POOLED_LEGS" if "length (po_legs p) \<le> MAX_POOLED_LEGS"
    using that le_trans [OF pool_take_legs(2)] le_trans [OF prune_sub(3)]
    by (cases a) (simp_all add: pool_park_legs pool_park_unproven_legs pool_has_usable_def pool_invalidate_def Let_def)
qed

text \<open>Where a pooled leg comes from: one operation put it there, and the pool was not invalidated since.\<close>

definition put_by :: "'io pool_op list \<Rightarrow> 'io pooled_leg \<Rightarrow> bool" where
  "put_by ops l \<longleftrightarrow> (\<exists>pre a post. ops = pre @ a # post \<and> parked_by a = Some l \<and> OInvalidate \<notin> set post)"

lemma put_by_snoc: "put_by ops l \<Longrightarrow> a \<noteq> OInvalidate \<Longrightarrow> put_by (ops @ [a]) l"
  unfolding put_by_def by fastforce

lemma put_by_last: "parked_by a = Some l \<Longrightarrow> put_by (ops @ [a]) l"
  unfolding put_by_def by fastforce

lemma pool_run_put_by: "l \<in> set (po_legs (pool_run ops)) \<Longrightarrow> put_by ops l"
proof (induction ops arbitrary: l rule: rev_induct)
  case Nil
  then show ?case by (simp add: pool_new_def)
next
  case (snoc a ops)
  show ?case
  proof (cases "a = OInvalidate")
    case True
    then show ?thesis using snoc.prems by (simp add: pool_invalidate_def)
  next
    case False
    then have "l \<in> set (po_legs (pool_run ops)) \<or> parked_by a = Some l"
      using snoc.prems pool_step_legs(1) [of "pool_run ops" a] by (auto dest: subsetD)
    then show ?thesis using snoc.IH put_by_snoc [OF _ False] put_by_last by blast
  qed
qed

lemma pool_run_bounded: "length (po_legs (pool_run ops)) \<le> MAX_POOLED_LEGS"
  by (induction ops rule: rev_induct) (simp_all add: pool_new_def pool_step_legs(3))

lemma within_ttl_young:
  "within_ttl l c \<Longrightarrow> mono c - pl_parked_mono l < pl_ttl l \<and> 0 \<le> wall c - pl_parked_wall l \<and>
     wall c - pl_parked_wall l < pl_ttl l"
  by (auto simp: within_ttl_def split: if_splits)

lemma ttl_for_margin: "0 < ttl_for r \<Longrightarrow> ttl_for r + CLIENT_IDLE_MARGIN \<le> millis (int (idle_ms r))"
  by (auto simp: ttl_for_def)

text \<open>How long the gateway will still wait on a leg when the pool hands it out, on either clock.\<close>

definition outlives :: "clocks \<Rightarrow> clocks \<Rightarrow> duration \<Rightarrow> bool" where
  "outlives parked now budget' \<longleftrightarrow>
     mono now - mono parked < budget' \<and> 0 \<le> wall now - wall parked \<and> wall now - wall parked < budget'"

text \<open>C26: Whatever tasks do to the pool, it holds at most three legs, and a leg it hands out is of the caller's
  binding and of the current epoch, was put there since the last invalidation, and by both clocks either was
  parked on an offer that still has more than ten seconds to run, or was never used and is younger than its
  own unproven budget.\<close>

theorem pool_hands_out_living_legs:
  assumes "pool_take key c (pool_run ops) = (Some leg, p')"
  shows "length (po_legs (pool_run ops)) \<le> MAX_POOLED_LEGS \<and> pl_binding leg = key \<and>
    pl_epoch leg = po_epoch (pool_run ops) \<and>
    (\<exists>pre a post l. ops = pre @ a # post \<and> OInvalidate \<notin> set post \<and> pl_io leg = pl_io l \<and>
       ((\<exists>r c0. a = OPark l (Some r) c0 \<and> outlives c0 c (millis (int (idle_ms r)) - CLIENT_IDLE_MARGIN)) \<or>
        (\<exists>c0. a = OParkUnproven l c0 \<and> within_ttl l c)))"
proof -
  obtain l where l: "l \<in> set (po_legs (pool_run ops))" "leg = l\<lparr>pl_was_pooled := True\<rparr>"
      "leg_usable l key (po_epoch (pool_run ops)) c"
    using pool_take_Some [OF assms] by blast
  obtain pre a post where origin: "ops = pre @ a # post" "parked_by a = Some l" "OInvalidate \<notin> set post"
    using pool_run_put_by [OF l(1)] by (auto simp: put_by_def)
  have young: "within_ttl l c" using l(3) by (simp add: leg_usable_def)
  have src: "\<exists>l'. pl_io leg = pl_io l' \<and>
      ((\<exists>r c0. a = OPark l' (Some r) c0 \<and> outlives c0 c (millis (int (idle_ms r)) - CLIENT_IDLE_MARGIN)) \<or>
       (\<exists>c0. a = OParkUnproven l' c0 \<and> within_ttl l' c))"
  proof (cases a)
    case (OPark l' reuse c0)
    then obtain r where r: "reuse = Some r" "l = (park_stamp (ttl_for r) c0 l')\<lparr>pl_was_pooled := False\<rparr>"
      using origin(2) by (cases reuse) auto
    have "outlives c0 c (ttl_for r)"
      using within_ttl_young [OF young] r(2) by (simp add: outlives_def park_stamp_def)
    moreover from this have "0 < ttl_for r" by (auto simp: outlives_def)
    ultimately have "outlives c0 c (millis (int (idle_ms r)) - CLIENT_IDLE_MARGIN)"
      using ttl_for_margin [of r] by (auto simp: outlives_def)
    then show ?thesis using OPark r l(2) by (intro exI [of _ l']) (simp add: park_stamp_def)
  next
    case (OParkUnproven l' c0)
    then show ?thesis using origin(2) l(2) young by (intro exI [of _ l']) simp
  qed (use origin(2) in simp_all)
  then show ?thesis
    using origin(1,3) l(2,3) pool_run_bounded by (fastforce simp: leg_usable_def)
qed

definition sample_key :: binding_key where
  "sample_key = \<lparr>bk_node = ''n'', bk_pubkey = ''k'', bk_device = ''d''\<rparr>"

definition sample_pooled :: "nat pooled_leg" where
  "sample_pooled = leg_fresh 5 sample_key 0 \<lparr>mono = 0, wall = 0\<rparr>"

theorem pool_hands_out_living_legs_witness:
  "length (po_legs (pool_run [OPark sample_pooled (Some \<lparr>idle_ms = 60000\<rparr>) \<lparr>mono = secs 1, wall = secs 1\<rparr>])) \<le> MAX_POOLED_LEGS \<and>
    pl_binding sample_pooled = sample_key \<and>
    pl_epoch sample_pooled = po_epoch (pool_run [OPark sample_pooled (Some \<lparr>idle_ms = 60000\<rparr>) \<lparr>mono = secs 1, wall = secs 1\<rparr>]) \<and>
    (\<exists>pre a post l. [OPark sample_pooled (Some \<lparr>idle_ms = 60000\<rparr>) \<lparr>mono = secs 1, wall = secs 1\<rparr>] = pre @ a # post \<and>
       OInvalidate \<notin> set post \<and> (5 :: nat) = pl_io l \<and>
       ((\<exists>r c0. a = OPark l (Some r) c0 \<and>
           outlives c0 \<lparr>mono = secs 50, wall = secs 50\<rparr> (millis (int (idle_ms r)) - CLIENT_IDLE_MARGIN)) \<or>
        (\<exists>c0. a = OParkUnproven l c0 \<and> within_ttl l \<lparr>mono = secs 50, wall = secs 50\<rparr>)))"
proof -
  let ?leg = "(park_stamp (secs 50) \<lparr>mono = secs 1, wall = secs 1\<rparr> sample_pooled)\<lparr>pl_was_pooled := True\<rparr>"
  have "\<exists>p'. pool_take sample_key \<lparr>mono = secs 50, wall = secs 50\<rparr>
      (pool_run [OPark sample_pooled (Some \<lparr>idle_ms = 60000\<rparr>) \<lparr>mono = secs 1, wall = secs 1\<rparr>]) = (Some ?leg, p')"
    by (simp add: pool_take_def pool_park_def pool_new_def pool_prune_def ttl_for_def millis_def secs_def CLIENT_IDLE_CAP_def
        CLIENT_IDLE_MARGIN_def MAX_POOLED_LEGS_def sample_pooled_def leg_fresh_def park_stamp_def within_ttl_def leg_usable_def Let_def)
  then obtain p' where "pool_take sample_key \<lparr>mono = secs 50, wall = secs 50\<rparr>
      (pool_run [OPark sample_pooled (Some \<lparr>idle_ms = 60000\<rparr>) \<lparr>mono = secs 1, wall = secs 1\<rparr>]) = (Some ?leg, p')" ..
  from pool_hands_out_living_legs [OF this] show ?thesis
    by (simp add: sample_pooled_def leg_fresh_def park_stamp_def)
qed

section \<open>What a call may do twice\<close>

text \<open>The first leg of a call heard nothing: it came warm from the pool, every frame it could still see is unread,
  and the request failed for it.\<close>

definition silent_leg ::
    "call_env \<Rightarrow> string \<Rightarrow> string \<Rightarrow> tunnel_header list \<Rightarrow> byte list option \<Rightarrow> leg_io leg_pool \<Rightarrow> exchange_outcome \<Rightarrow> bool" where
  "silent_leg env method path headers body p o1 \<longleftrightarrow>
     (\<exists>key leg p1 io'. ce_paired env = Some key \<and> pool_take key (ce_take env) p = (Some leg, p1) \<and>
        exchange (pl_io leg) method path headers body = (o1, io') \<and> visible io' = visible (pl_io leg) \<and>
        (\<exists>d. ex_result o1 = Inl (LegDead d)))"

lemma request_fresh_result:
  assumes "request_fresh env key method path headers body p = (r, outs, closed, p')"
  shows "(\<exists>m. outs = [] \<and> r = Inl (DialFailed m)) \<or> (\<exists>o1. outs = [o1] \<and> r = call_result (ex_result o1))"
  using assms by (auto simp: request_fresh_def Let_def split: sum.splits prod.splits)

text \<open>C25: A request goes out on at most two legs, and on a second one only when its route converges and the first
  leg, warm from the pool, failed before one frame of it was heard. Past the gateway's first word, on a leg dialed
  for the call, or on a route that may not be replayed, the first outcome is the caller's.\<close>

theorem only_silence_is_replayed:
  assumes "request_with_policy env method path headers body replay p = (r, outs, closed, p')"
  shows "case outs of
      [] \<Rightarrow> r = Inl NotPaired \<or> (\<exists>m. r = Inl (DialFailed m))
    | [o1] \<Rightarrow> r = call_result (ex_result o1) \<or>
        (\<exists>m. r = Inl (DialFailed m)) \<and> replay = Converges \<and> silent_leg env method path headers body p o1
    | [o1, o2] \<Rightarrow> r = call_result (ex_result o2) \<and> replay = Converges \<and> silent_leg env method path headers body p o1
    | _ \<Rightarrow> False"
proof (cases "ce_paired env")
  case None
  then show ?thesis using assms by (simp add: request_with_policy_def)
next
  case (Some key)
  obtain t p1 where take: "pool_take key (ce_take env) p = (t, p1)" by (cases "pool_take key (ce_take env) p")
  show ?thesis
  proof (cases t)
    case None
    then have "request_fresh env key method path headers body p1 = (r, outs, closed, p')"
      using assms Some take by (simp add: request_with_policy_def)
    from request_fresh_result [OF this] show ?thesis by auto
  next
    case leg: (Some leg)
    obtain o1 io' where ex: "exchange (pl_io leg) method path headers body = (o1, io')"
      by (cases "exchange (pl_io leg) method path headers body")
    let ?retry = "replay = Converges \<and> should_retry o1 (pl_was_pooled leg)"
    obtain c1 p2 where set: "settle (leg\<lparr>pl_io := io'\<rparr>) (parkable (ex_reuse o1) (ex_result o1)) (ce_settle1 env) (ce_during1 env p1) = (c1, p2)"
      by (cases "settle (leg\<lparr>pl_io := io'\<rparr>) (parkable (ex_reuse o1) (ex_result o1)) (ce_settle1 env) (ce_during1 env p1)")
    show ?thesis
    proof (cases ?retry)
      case False
      then show ?thesis
        using assms Some take leg ex set by (auto simp: request_with_policy_def Let_def)
    next
      case True
      then have unseen: "\<not> ex_response_seen o1" by (simp add: should_retry_def)
      have silent: "silent_leg env method path headers body p o1"
        using Some take leg ex exchange_unseen [OF ex unseen] unfolding silent_leg_def by blast
      obtain outs2 c2 where "request_fresh env key method path headers body p2 = (r, outs2, c2, p')" "outs = o1 # outs2"
        using assms Some take leg ex set True by (auto simp: request_with_policy_def Let_def split: prod.splits)
      with request_fresh_result [OF this(1)] silent True show ?thesis by auto
    qed
  qed
qed

text \<open>A warm leg a NAT has dropped, and a call that finds it.\<close>

definition silent_io :: leg_io where
  "silent_io = leg_new \<lparr>tw_sent = [], tw_room = None, tw_events = [Overdue FirstByte], tw_closed = False\<rparr>"

definition silent_pool :: "leg_io leg_pool" where
  "silent_pool = \<lparr>po_legs = [leg_fresh silent_io sample_key 0 \<lparr>mono = 0, wall = 0\<rparr>], po_epoch = 0\<rparr>"

definition sample_call :: call_env where
  "sample_call = \<lparr>ce_paired = Some sample_key, ce_dial = Inr sample_leg, ce_take = \<lparr>mono = 1, wall = 1\<rparr>,
     ce_settle1 = \<lparr>mono = 2, wall = 2\<rparr>, ce_dialed = \<lparr>mono = 3, wall = 3\<rparr>, ce_settle2 = \<lparr>mono = 4, wall = 4\<rparr>,
     ce_during1 = (\<lambda>p. p), ce_during_dial = (\<lambda>p. p), ce_during2 = (\<lambda>p. p)\<rparr>"

definition silent_outcome :: exchange_outcome where
  "silent_outcome = \<lparr>ex_result = Inl (LegDead WentSilent), ex_reuse = None, ex_response_seen = False\<rparr>"

definition sample_outcome :: exchange_outcome where
  "sample_outcome = \<lparr>ex_result = Inr [7, 8, 9], ex_reuse = Some \<lparr>idle_ms = 60000\<rparr>, ex_response_seen = True\<rparr>"

lemma silent_exchange: "fst (exchange silent_io ''GET'' ''/v1/x'' [] None) = silent_outcome"
  by (simp add: exchange_def run_exchange_def claim_request_id_def silent_io_def leg_new_def request_frames_def
      declared_body_len_def leg_send_def expect_response_head_def next_response_def silent_outcome_def Let_def)

lemma answered_exchange: "fst (exchange sample_leg ''GET'' ''/v1/x'' [] None) = sample_outcome"
  by (subst sample_exchange) (simp add: sample_outcome_def)

lemma sample_call_result:
  obtains closed p' where "request_with_policy sample_call ''GET'' ''/v1/x'' [] None Converges silent_pool =
    (Inr [7, 8, 9], [silent_outcome, sample_outcome], closed, p')"
proof -
  have take: "pool_take sample_key \<lparr>mono = 1, wall = 1\<rparr> silent_pool =
      (Some ((leg_fresh silent_io sample_key 0 \<lparr>mono = 0, wall = 0\<rparr>)\<lparr>pl_was_pooled := True\<rparr>), pool_new)"
    by (simp add: pool_take_def silent_pool_def pool_prune_def leg_usable_def within_ttl_def leg_fresh_def
        UNPROVEN_LEG_TTL_def secs_def pool_new_def Let_def)
  have retry: "should_retry silent_outcome True" by (simp add: should_retry_def silent_outcome_def)
  have fresh: "fst (request_fresh sample_call sample_key ''GET'' ''/v1/x'' [] None q) = Inr [7, 8, 9] \<and>
      fst (snd (request_fresh sample_call sample_key ''GET'' ''/v1/x'' [] None q)) = [sample_outcome]" for q
    by (simp add: request_fresh_def sample_call_def leg_fresh_def answered_exchange case_prod_unfold Let_def)
      (simp add: sample_outcome_def call_result_def)
  have "fst (request_with_policy sample_call ''GET'' ''/v1/x'' [] None Converges silent_pool) = Inr [7, 8, 9] \<and>
      fst (snd (request_with_policy sample_call ''GET'' ''/v1/x'' [] None Converges silent_pool)) = [silent_outcome, sample_outcome]"
    using fresh take retry silent_exchange
    by (simp add: request_with_policy_def sample_call_def [THEN arg_cong [of _ _ ce_paired]]
        sample_call_def [THEN arg_cong [of _ _ ce_take]] leg_fresh_def case_prod_unfold Let_def)
  then show thesis using that by (metis prod.collapse)
qed

theorem only_silence_is_replayed_witness:
  "\<exists>r. r = call_result (ex_result sample_outcome) \<and> r = Inr [7, 8, 9] \<and>
    silent_leg sample_call ''GET'' ''/v1/x'' [] None silent_pool silent_outcome"
proof -
  obtain closed p' where "request_with_policy sample_call ''GET'' ''/v1/x'' [] None Converges silent_pool =
      (Inr [7, 8, 9], [silent_outcome, sample_outcome], closed, p')"
    by (rule sample_call_result)
  from only_silence_is_replayed [OF this] show ?thesis by simp
qed

end
