(* ===== verification/TunnelEnds.thy ===== *)
theory TunnelEnds
  imports TunnelSession LegPool
begin

text \<open>
  The two ends of an API tunnel on one leg: the phone's exchanges of \<open>TunnelLeg\<close> against the gateway's session of
  \<open>TunnelSession\<close>, over a transport that loses nothing and groups frames into messages as it likes. Each call's
  frames reach the gateway, one turn of the session answers, and what the turn sent reaches the phone.
\<close>

section \<open>What a source still brings\<close>

definition brings :: "source \<Rightarrow> tunnel_request list \<Rightarrow> source_event list \<Rightarrow> bool" where
  "brings s rs evs \<longleftrightarrow> (\<exists>groups. so_pending s @ concat groups = rs \<and> so_events s = map Comes groups @ evs)"

lemma await_request_brings:
  assumes "rs @ concat groups = r # fs"
  shows "\<exists>rs' groups'. await_request rs (map Comes groups @ evs) = (Req r, rs', map Comes groups' @ evs) \<and>
    rs' @ concat groups' = fs"
  using assms
proof (induction groups arbitrary: rs)
  case Nil
  then show ?case by (cases rs) (auto intro: exI [of _ "[]"])
next
  case (Cons g groups)
  show ?case
  proof (cases rs)
    case Nil
    then show ?thesis using Cons.IH [of g] Cons.prems by simp
  next
    case (Cons r' rs')
    then show ?thesis using Cons.prems by (auto intro: exI [of _ "g # groups"])
  qed
qed

lemma next_request_brings:
  assumes "brings s (r # rs) evs"
  obtains s' where "next_request s = (Req r, s')" "brings s' rs evs"
proof -
  obtain groups where g: "so_pending s @ concat groups = r # rs" "so_events s = map Comes groups @ evs"
    using assms by (auto simp: brings_def)
  obtain rs' groups' where "await_request (so_pending s) (map Comes groups @ evs) = (Req r, rs', map Comes groups' @ evs)"
      "rs' @ concat groups' = rs"
    using await_request_brings [OF g(1)] by blast
  then show thesis using that g(2) by (auto simp: next_request_def brings_def)
qed

text \<open>A body the phone sends is the body the gateway takes.\<close>

lemma stream_loop_frames:
  assumes "brings s (frames_from rid whole (length got) cs) evs" and "length got + length (concat cs) = whole"
    and "cs \<noteq> []" and "[] \<notin> set cs" and "\<forall>c \<in> set cs. length c \<le> MAX_TUNNEL_CHUNK"
  shows "\<exists>s'. stream_loop rid whole got None s = (Inr Drained, got @ concat cs, s') \<and> brings s' [] evs"
  using assms
proof (induction cs arbitrary: got s)
  case Nil
  then show ?case by simp
next
  case (Cons c cs)
  have "brings s (ReqBody rid (length got) c (length got + length c \<ge> whole) #
      frames_from rid whole (length got + length c) cs) evs"
    using Cons.prems(1) by (simp add: body_frame_def)
  then obtain s1 where nxt: "next_request s = (Req (ReqBody rid (length got) c (length got + length c \<ge> whole)), s1)"
      "brings s1 (frames_from rid whole (length got + length c) cs) evs"
    using next_request_brings by blast
  have c: "length c \<le> MAX_TUNNEL_CHUNK" using Cons.prems(5) by simp
  show ?case
  proof (cases cs)
    case Nil
    then show ?thesis using nxt Cons.prems(2) c by (subst stream_loop.simps) simp
  next
    case (Cons d ds)
    then have "d \<noteq> []" using Cons.prems(4) by auto
    then have "0 < length (concat cs)" using Cons by simp
    then have early: "\<not> whole \<le> length got + length c" using Cons.prems(2) unfolding concat.simps length_append by linarith
    obtain s' where s': "stream_loop rid whole (got @ c) None s1 = (Inr Drained, (got @ c) @ concat cs, s')" "brings s' [] evs"
      using Cons.IH [of s1 "got @ c"] nxt(2) Cons.prems Cons by auto
    have "stream_loop rid whole got None s = stream_loop rid whole (got @ c) None s1"
      using nxt(1) Cons.prems(2) c early by (subst stream_loop.simps) simp
    then show ?thesis using s' by simp
  qed
qed

lemma stream_forward_body_frames:
  assumes "brings s (body_frames rid body) evs" and "body \<noteq> []"
  shows "\<exists>s'. stream_forward_body rid (length body) None s = (Inr Drained, body, s') \<and> brings s' [] evs"
  using stream_loop_frames [of s rid "length body" "[]" "chunks_of MAX_TUNNEL_CHUNK body" evs]
    chunks_of_props [OF tunnel_chunk_pos, of body] assms
  by (simp add: stream_forward_body_def body_frames_def)

section \<open>One call across the leg\<close>

record api_call =
  ac_method :: string
  ac_path :: string
  ac_headers :: "tunnel_header list"
  ac_body :: "byte list option"

definition call_body :: "api_call \<Rightarrow> byte list" where
  "call_body c = (case ac_body c of Some b \<Rightarrow> b | None \<Rightarrow> [])"

definition call_head :: "nat \<Rightarrow> api_call \<Rightarrow> request_head" where
  "call_head rid c =
     \<lparr>rq_id = rid, rq_method = ac_method c, rq_path = ac_path c,
      rq_headers = ac_headers c @
        (case declared_body_len (ac_body c) of Some n \<Rightarrow> [content_length_header n] | None \<Rightarrow> []),
      rq_body_len = declared_body_len (ac_body c)\<rparr>"

text \<open>What the handler answers to a call the gateway accepts whole, and its bytes as they reach the phone.\<close>

definition handler_answer :: "http_env \<Rightarrow> api_call \<Rightarrow> (nat \<times> byte list) option" where
  "handler_answer env c =
     (case (validate_request_head (call_head 0 c), build_forward_request env (call_head 0 c)) of
        (Inr _, Inr req) \<Rightarrow>
          if he_hangs_up env req = None \<and> length (call_body c) \<le> MAX_BLOB_BYTES \<and>
             tunnel_header_content_length (ac_headers c) = Inr None
          then map_option (\<lambda>b. (hr_status (he_routes env req (call_body c)), b))
                 (response_bytes (he_routes env req (call_body c)))
          else None
      | _ \<Rightarrow> None)"

lemma call_head_sel:
  "rq_id (call_head rid c) = rid" "rq_method (call_head rid c) = ac_method c" "rq_path (call_head rid c) = ac_path c"
  "rq_headers (call_head rid c) =
     ac_headers c @ (case declared_body_len (ac_body c) of Some n \<Rightarrow> [content_length_header n] | None \<Rightarrow> [])"
  "rq_body_len (call_head rid c) = declared_body_len (ac_body c)"
  by (simp_all add: call_head_def)

lemma call_head_id:
  "validate_request_head (call_head rid c) = validate_request_head (call_head 0 c)"
  "build_forward_request env (call_head rid c) = build_forward_request env (call_head 0 c)"
  unfolding validate_request_head_def build_forward_request_def call_head_sel by (rule refl)+

lemma request_frames_call:
  "request_frames rid (ac_method c) (ac_path c) (ac_headers c) (ac_body c) =
     ReqHead rid (ac_method c) (ac_path c) (rq_headers (call_head rid c)) (rq_body_len (call_head rid c)) #
       body_frames rid (call_body c)"
  by (auto simp: request_frames_def call_head_def call_body_def Let_def body_frames_def chunks_of_simps split: option.splits)

lemma call_body_len:
  assumes "tunnel_header_content_length (ac_headers c) = Inr None"
  shows "request_body_len (call_head rid c) = length (call_body c)"
  using assms
  by (auto simp: request_body_len_def call_head_def declared_body_len_def call_body_def split: option.splits)

lemma respond_ok:
  assumes "sk_room k = None" and "response_bytes resp = Some b"
  obtains fs k' where "respond k s rid resp reuse st = (Inr st, k', s)" "sk_room k' = None"
    "sk_sent k' = sk_sent k @ fs" "response_run rid (hr_status resp) (offer reuse st) b fs"
proof -
  obtain k' where send: "send_http_response rid resp (offer reuse st) k = (Inr (), k')" "sk_room k' = None"
    using send_http_response_ok [OF assms] by blast
  obtain b' fs where "response_bytes resp = Some b'" "sk_sent k' = sk_sent k @ fs"
      "response_run rid (hr_status resp) (offer reuse st) b' fs"
    using send_http_response_Inr [OF send(1)] by blast
  then show thesis using that send assms(2) by (simp add: respond_def)
qed

lemma call_answered:
  assumes "handler_answer env c = Some (status, b)" and "sk_room k = None"
    and "brings s (request_frames rid (ac_method c) (ac_path c) (ac_headers c) (ac_body c)) evs"
  obtains s1 fs k' s' where
    "next_request s = (Req (ReqHead rid (ac_method c) (ac_path c) (rq_headers (call_head rid c)) (rq_body_len (call_head rid c))), s1)"
    "validate_request_head (call_head rid c) = Inr ()"
    "handle_http_forward env k s1 (call_head rid c) reuse = (Inr Reusable, k', s')"
    "sk_room k' = None" "sk_sent k' = sk_sent k @ fs" "response_run rid status reuse b fs" "brings s' [] evs"
proof -
  obtain u req where ok: "validate_request_head (call_head rid c) = Inr u" "build_forward_request env (call_head rid c) = Inr req"
      "he_hangs_up env req = None" "length (call_body c) \<le> MAX_BLOB_BYTES"
      "tunnel_header_content_length (ac_headers c) = Inr None" "response_bytes (he_routes env req (call_body c)) = Some b"
      "status = hr_status (he_routes env req (call_body c))"
    using assms(1) by (auto simp: handler_answer_def call_head_id(1) [of rid] call_head_id(2) [of env rid]
        split: sum.splits if_splits)
  obtain s1 where nxt: "next_request s = (Req (ReqHead rid (ac_method c) (ac_path c) (rq_headers (call_head rid c))
        (rq_body_len (call_head rid c))), s1)" "brings s1 (body_frames rid (call_body c)) evs"
    using next_request_brings assms(3) unfolding request_frames_call by blast
  obtain s2 where body: "brings s2 [] evs"
      "handle_http_forward env k s1 (call_head rid c) reuse = respond k s2 rid (he_routes env req (call_body c)) reuse Reusable"
  proof (cases "call_body c = []")
    case True
    then show thesis
      using that [of s1] nxt(2) ok call_body_len [OF ok(5), of rid]
      by (simp add: handle_http_forward_def body_frames_def chunks_of_simps call_head_def)
  next
    case False
    obtain s2 where "stream_forward_body rid (length (call_body c)) None s1 = (Inr Drained, call_body c, s2)" "brings s2 [] evs"
      using stream_forward_body_frames [OF nxt(2) False] by blast
    then show thesis
      using that [of s2] False ok call_body_len [OF ok(5), of rid]
      by (simp add: handle_http_forward_def handle_http_body_forward_def Let_def) (simp add: call_head_def)
  qed
  obtain fs k' where "respond k s2 rid (he_routes env req (call_body c)) reuse Reusable = (Inr Reusable, k', s2)"
      "sk_room k' = None" "sk_sent k' = sk_sent k @ fs" "response_run rid status reuse b fs"
    by (rule respond_ok [OF assms(2) ok(6), of s2 rid reuse Reusable]) (simp add: offer_def ok(7))
  then show thesis
    using that [of s1 k' s2 fs] nxt(1) ok(1) body by simp
qed

lemma call_head_eta:
  "\<lparr>rq_id = rid, rq_method = ac_method c, rq_path = ac_path c, rq_headers = rq_headers (call_head rid c),
    rq_body_len = rq_body_len (call_head rid c)\<rparr> = call_head rid c"
  by (simp add: call_head_def)

lemma session_turn_answers:
  assumes "handler_answer env c = Some (status, b)" and "last_id < rid" and "sk_room k = None"
    and "brings s (request_frames rid (ac_method c) (ac_path c) (ac_headers c) (ac_body c)) evs"
  obtains fs k' s' where "session_turn env reuse served last_id k s =
      (if reuse \<noteq> None then GoesOn (Suc served) rid else Stops Finished, k', s')"
    "sk_room k' = None" "sk_sent k' = sk_sent k @ fs" "response_run rid status reuse b fs" "brings s' [] evs"
proof -
  obtain s1 fs k' s' where
    "next_request s = (Req (ReqHead rid (ac_method c) (ac_path c) (rq_headers (call_head rid c)) (rq_body_len (call_head rid c))), s1)"
    "validate_request_head (call_head rid c) = Inr ()"
    "handle_http_forward env k s1 (call_head rid c) reuse = (Inr Reusable, k', s')"
    "sk_room k' = None" "sk_sent k' = sk_sent k @ fs" "response_run rid status reuse b fs" "brings s' [] evs"
    by (rule call_answered [OF assms(1,3,4)])
  then show thesis
    using that [of k' s' fs] assms(2) by (simp add: session_turn_def call_head_eta)
qed

section \<open>The length a phone prints is the length a gateway reads\<close>

lemma digit_is_digit: "m < 10 \<Longrightarrow> is_ascii_digit (char_of (48 + m :: nat))"
  by (simp add: is_ascii_digit_def char_code_def of_char_of take_bit_eq_mod)

lemma decimal_digits: "list_all is_ascii_digit (decimal n)"
  by (induction n rule: decimal.induct) (subst decimal.simps, simp add: digit_is_digit)

lemma parse_digits_append:
  "parse_digits acc (cs @ ds) = (case parse_digits acc cs of Inl e \<Rightarrow> Inl e | Inr n \<Rightarrow> parse_digits n ds)"
  by (induction cs arbitrary: acc) auto

lemma parse_digits_decimal: "n < 2 ^ 64 \<Longrightarrow> parse_digits 0 (decimal n) = Inr n"
proof (induction n rule: decimal.induct)
  case (1 n)
  have digit: "char_code (char_of (48 + m :: nat)) = 48 + m" if "m < 10" for m
    using that by (simp add: char_code_def of_char_of take_bit_eq_mod)
  show ?case
  proof (cases "n < 10")
    case True
    then show ?thesis by (subst decimal.simps) (simp add: digit digit_is_digit)
  next
    case False
    have "parse_digits 0 (decimal (n div 10)) = Inr (n div 10)"
      using "1.IH" [OF False] "1.prems" by (meson div_le_dividend le_less_trans)
    moreover have "10 * (n div 10) + n mod 10 = n" by simp
    ultimately show ?thesis
      using False "1.prems" by (subst decimal.simps) (simp add: parse_digits_append digit digit_is_digit)
  qed
qed

lemma parse_u64_decimal:
  assumes "n < 2 ^ 64"
  shows "parse_u64 (decimal n) = Inr n"
proof -
  obtain d ds where dec: "decimal n = d # ds" by (cases "decimal n") auto
  have "is_ascii_digit d" using decimal_digits [of n] dec by simp
  then have "d \<noteq> CHR ''+''" by (auto simp: is_ascii_digit_def char_code_def)
  then show ?thesis using parse_digits_decimal [OF assms] by (simp add: parse_u64_def dec)
qed

lemma content_length_loop_append:
  "content_length_loop (hs @ gs) acc = (case content_length_loop hs acc of Inl e \<Rightarrow> Inl e | Inr acc' \<Rightarrow> content_length_loop gs acc')"
  by (induction hs arbitrary: acc) (auto split: option.splits sum.splits)

lemma phone_length_agrees:
  assumes "tunnel_header_content_length headers = Inr None" and "n < 2 ^ 64"
  shows "tunnel_header_content_length (headers @ [content_length_header n]) = Inr (Some n)"
  using assms parse_u64_decimal [OF assms(2)]
  by (simp add: tunnel_header_content_length_def content_length_loop_append content_length_header_def HEADER_CONTENT_LENGTH_def)

section \<open>Many calls on one leg\<close>

record ends =
  en_leg :: leg_io
  en_served :: nat
  en_last :: nat
  en_sink :: sink
  en_source :: source

text \<open>One call: \<open>up\<close> and \<open>down\<close> group frames into messages.\<close>

definition one_call ::
    "http_env \<Rightarrow> tunnel_reuse option \<Rightarrow> (tunnel_request list \<Rightarrow> tunnel_request list list) \<Rightarrow>
     (tunnel_response list \<Rightarrow> tunnel_response list list) \<Rightarrow> ends \<Rightarrow> api_call \<Rightarrow> exchange_outcome \<times> ends option" where
  "one_call env reuse up down e c =
     (let frames = request_frames (li_next_id (en_leg e)) (ac_method c) (ac_path c) (ac_headers c) (ac_body c);
          src = (en_source e)\<lparr>so_events := so_events (en_source e) @ map Comes (up frames)\<rparr>;
          (t, k, src') = session_turn env reuse (en_served e) (en_last e) (en_sink e) src;
          said = drop (length (sk_sent (en_sink e))) (sk_sent k);
          wire = (li_wire (en_leg e))\<lparr>tw_events := tw_events (li_wire (en_leg e)) @ map Arrives (down said)\<rparr>;
          (ex, leg) = exchange ((en_leg e)\<lparr>li_wire := wire\<rparr>) (ac_method c) (ac_path c) (ac_headers c) (ac_body c)
      in (ex, case t of
                GoesOn served last' \<Rightarrow>
                  Some \<lparr>en_leg = leg, en_served = served, en_last = last', en_sink = k, en_source = src'\<rparr>
              | Stops _ \<Rightarrow> None))"

fun calls_on_leg ::
    "http_env \<Rightarrow> tunnel_reuse option \<Rightarrow> (tunnel_request list \<Rightarrow> tunnel_request list list) \<Rightarrow>
     (tunnel_response list \<Rightarrow> tunnel_response list list) \<Rightarrow> ends \<Rightarrow> api_call list \<Rightarrow> exchange_outcome list \<times> ends option" where
  "calls_on_leg env reuse up down e [] = ([], Some e)"
| "calls_on_leg env reuse up down e (c # cs) =
     (case one_call env reuse up down e c of
        (ex, None) \<Rightarrow> ([ex], None)
      | (ex, Some e') \<Rightarrow> (let (exs, fin) = calls_on_leg env reuse up down e' cs in (ex # exs, fin)))"

definition ends_new :: ends where
  "ends_new = \<lparr>en_leg = leg_new \<lparr>tw_sent = [], tw_room = None, tw_events = [], tw_closed = False\<rparr>, en_served = 0, en_last = 0,
     en_sink = \<lparr>sk_sent = [], sk_room = None\<rparr>, en_source = \<lparr>so_pending = [], so_events = []\<rparr>\<rparr>"

text \<open>Both ends at rest: nothing in flight, neither wire failing, and the phone's next id above the last one served.\<close>

definition at_rest :: "ends \<Rightarrow> bool" where
  "at_rest e \<longleftrightarrow>
     delivers (en_leg e) [] [] \<and> tw_room (li_wire (en_leg e)) = None \<and> brings (en_source e) [] [] \<and>
     sk_room (en_sink e) = None \<and> li_next_id (en_leg e) = Suc (en_last e)"

definition outcome_of :: "tunnel_reuse option \<Rightarrow> nat \<times> byte list \<Rightarrow> exchange_outcome" where
  "outcome_of reuse a =
     (let (status, b) = a in
      \<lparr>ex_result = (if 200 \<le> status \<and> status < 300 then Inr b else Inl (Http status)), ex_reuse = reuse,
       ex_response_seen = True\<rparr>)"

lemma at_rest_new: "at_rest ends_new"
  by (simp add: at_rest_def ends_new_def leg_new_def delivers_def brings_def)

lemma delivers_more:
  assumes "delivers leg [] []" and "concat (down fs) = fs"
  shows "delivers (leg\<lparr>li_wire := (li_wire leg)\<lparr>tw_events := tw_events (li_wire leg) @ map Arrives (down fs)\<rparr>\<rparr>) fs []"
proof -
  obtain groups where "li_pending leg @ concat groups = []" "tw_events (li_wire leg) = map Arrives groups"
    using assms(1) by (auto simp: delivers_def)
  then show ?thesis
    using assms(2) unfolding delivers_def by (intro exI [of _ "groups @ down fs"]) simp
qed

lemma brings_more:
  assumes "brings s [] []" and "concat (up rs) = rs"
  shows "brings (s\<lparr>so_events := so_events s @ map Comes (up rs)\<rparr>) rs []"
proof -
  obtain groups where "so_pending s @ concat groups = []" "so_events s = map Comes groups"
    using assms(1) by (auto simp: brings_def)
  then show ?thesis
    using assms(2) unfolding brings_def by (intro exI [of _ "groups @ up rs"]) simp
qed

lemma one_call_answered:
  assumes rest: "at_rest e" and ans: "handler_answer env c = Some a" and reuse: "reuse \<noteq> None"
    and up: "\<And>rs. concat (up rs) = rs" and down: "\<And>fs. concat (down fs) = fs"
  shows "\<exists>e'. one_call env reuse up down e c = (outcome_of reuse a, Some e') \<and> at_rest e' \<and>
    en_served e' = Suc (en_served e)"
proof -
  obtain status b where a: "a = (status, b)" by (cases a)
  let ?rid = "li_next_id (en_leg e)"
  let ?frames = "request_frames ?rid (ac_method c) (ac_path c) (ac_headers c) (ac_body c)"
  let ?src = "(en_source e)\<lparr>so_events := so_events (en_source e) @ map Comes (up ?frames)\<rparr>"
  have b: "brings ?src ?frames []" using rest brings_more [of "en_source e" up ?frames] up by (simp add: at_rest_def)
  have room: "sk_room (en_sink e) = None" "en_last e < ?rid" using rest by (simp_all add: at_rest_def)
  obtain fs k src' where turn:
      "session_turn env reuse (en_served e) (en_last e) (en_sink e) ?src = (GoesOn (Suc (en_served e)) ?rid, k, src')"
      "sk_room k = None" "sk_sent k = sk_sent (en_sink e) @ fs" "response_run ?rid status reuse b fs" "brings src' [] []"
    by (rule session_turn_answers [OF ans [unfolded a] room(2,1) b, of reuse "en_served e"]) (simp add: reuse)
  let ?leg = "(en_leg e)\<lparr>li_wire := (li_wire (en_leg e))\<lparr>tw_events := tw_events (li_wire (en_leg e)) @ map Arrives (down fs)\<rparr>\<rparr>"
  have d: "delivers ?leg fs []" using rest delivers_more [of "en_leg e" down fs] down by (simp add: at_rest_def)
  have "tw_room (li_wire ?leg) = None" "response_run (li_next_id ?leg) status reuse b fs"
    using rest turn(4) by (simp_all add: at_rest_def)
  from exchange_delivers [OF this(1) d this(2), of "ac_method c" "ac_path c" "ac_headers c" "ac_body c"]
  obtain leg' where ex: "exchange ?leg (ac_method c) (ac_path c) (ac_headers c) (ac_body c) = (outcome_of reuse a, leg')"
      "delivers leg' [] []" "li_next_id leg' = Suc ?rid" "tw_room (li_wire leg') = None"
    unfolding outcome_of_def a by auto
  then show ?thesis
    using turn by (simp add: one_call_def at_rest_def Let_def)
qed

text \<open>C18: However the transport groups their frames, any number of calls the gateway accepts, made one after another
  on one leg, each get the answer the handler gave to that very call, byte for byte, and the leg is offered again every
  time. Both ends finish at rest, ready for the next call.\<close>

theorem every_call_gets_its_own_answer:
  assumes "\<forall>c \<in> set cs. handler_answer env c \<noteq> None"
    and "\<forall>rs. concat (up rs) = rs" and "\<forall>fs. concat (down fs) = fs"
  shows "\<exists>e. calls_on_leg env (reuse_for ApiLeg) up down ends_new cs =
      (map (\<lambda>c. outcome_of (reuse_for ApiLeg) (the (handler_answer env c))) cs, Some e) \<and>
    at_rest e \<and> en_served e = length cs"
proof -
  have "\<exists>e'. calls_on_leg env (reuse_for ApiLeg) up down e cs =
      (map (\<lambda>c. outcome_of (reuse_for ApiLeg) (the (handler_answer env c))) cs, Some e') \<and>
    at_rest e' \<and> en_served e' = en_served e + length cs" if "at_rest e" for e
    using assms(1) that
  proof (induction cs arbitrary: e)
    case Nil
    then show ?case by simp
  next
    case (Cons c cs)
    obtain a where a: "handler_answer env c = Some a" using Cons.prems(1) by auto
    obtain e1 where one: "one_call env (reuse_for ApiLeg) up down e c = (outcome_of (reuse_for ApiLeg) a, Some e1)"
        "at_rest e1" "en_served e1 = Suc (en_served e)"
      using one_call_answered [OF Cons.prems(2) a, of "reuse_for ApiLeg" up down] assms(2,3) by (auto simp: reuse_for_def)
    then show ?case using Cons.IH [OF _ one(2)] Cons.prems(1) a by auto
  qed
  from this [OF at_rest_new] show ?thesis by (simp add: ends_new_def)
qed

text \<open>A gateway that answers every GET with one byte and every POST with the body it got, twice.\<close>

definition sample_env :: http_env where
  "sample_env = \<lparr>he_method_error = (\<lambda>_. None), he_uri_error = (\<lambda>_. None), he_name_error = (\<lambda>_. None),
     he_value_error = (\<lambda>_. None), he_request_error = (\<lambda>_. None),
     he_routes = (\<lambda>req body. if fw_method req = ''GET''
        then \<lparr>hr_status = 404, hr_headers = [(''content-length'', Some ''1'')], hr_body = [Inr [7]]\<rparr>
        else \<lparr>hr_status = 200, hr_headers = [], hr_body = [Inr body, Inr body]\<rparr>),
     he_hangs_up = (\<lambda>_. None), he_admin_bearer = ''secret'', he_device_id = ''phone''\<rparr>"

definition sample_calls :: "api_call list" where
  "sample_calls =
     [\<lparr>ac_method = ''POST'', ac_path = ''/v1/echo'', ac_headers = [\<lparr>hd_name = ''accept'', hd_value = ''*''\<rparr>], ac_body = Some [1, 2]\<rparr>,
      \<lparr>ac_method = ''GET'', ac_path = ''/v1/none?x=..'', ac_headers = [], ac_body = None\<rparr>]"

lemma decimal_two: "decimal 2 = ''2''"
  by code_simp

lemmas judged =
  handler_answer_def call_head_def call_body_def declared_body_len_def content_length_header_def validate_request_head_def
  traversal_segment_def build_forward_request_def tunnel_header_content_length_def trim_def is_trimmed_def
  is_ascii_whitespace_def to_ascii_lower_def is_ascii_uppercase_def char_code_def FORBIDDEN_HEADERS_def
  DEVICE_ID_HEADER_def HEADER_CONTENT_LENGTH_def parse_u64_def is_ascii_digit_def MAX_BLOB_BYTES_def request_body_len_def

lemmas answered =
  response_bytes_def response_content_length_def header_value_def is_event_stream_def TUNNEL_HTTP_RESPONSE_LIMIT_def
  forwarded_response_headers_def

lemma sample_answers: "map (handler_answer sample_env) sample_calls = [Some (200, [1, 2, 1, 2]), Some (404, [7])]"
  by (simp add: sample_calls_def sample_env_def judged answered decimal_two decimal_two [unfolded numeral_2_eq_2] Let_def)

theorem every_call_gets_its_own_answer_witness:
  "\<exists>e. calls_on_leg sample_env (reuse_for ApiLeg) (\<lambda>rs. [rs]) (map (\<lambda>f. [f])) ends_new sample_calls =
      ([outcome_of (reuse_for ApiLeg) (200, [1, 2, 1, 2]), outcome_of (reuse_for ApiLeg) (404, [7])], Some e) \<and>
    at_rest e \<and> en_served e = 2"
proof -
  have len: "length sample_calls = 2" by (simp add: sample_calls_def)
  have map2: "map (\<lambda>c. outcome_of (reuse_for ApiLeg) (the (handler_answer sample_env c))) sample_calls =
      map (\<lambda>a. outcome_of (reuse_for ApiLeg) (the a)) (map (handler_answer sample_env) sample_calls)"
    by simp
  have "\<forall>c \<in> set sample_calls. handler_answer sample_env c \<noteq> None"
    using sample_answers by (simp add: sample_calls_def)
  from every_call_gets_its_own_answer [OF this, of "\<lambda>rs. [rs]" "map (\<lambda>f. [f])"] show ?thesis
    unfolding map2 sample_answers len by (simp add: concat_map_singleton)
qed

text \<open>A leg the phone still uses is one the gateway still waits on: while the pool counts a leg parked on the
  gateway's own offer as living, a margin of at least ten seconds of the gateway's patience is left on both clocks, and
  a leg that was dialed ahead is dropped before the gateway stops waiting for its first request.\<close>

lemma phone_gives_up_first:
  assumes "reuse_for cls = Some r"
  shows "(within_ttl (park_stamp (ttl_for r) c0 leg) c \<longrightarrow>
      mono c - mono c0 + CLIENT_IDLE_MARGIN < TUNNEL_REUSE_IDLE_TIMEOUT \<and> 0 \<le> wall c - wall c0 \<and>
      wall c - wall c0 + CLIENT_IDLE_MARGIN < TUNNEL_REUSE_IDLE_TIMEOUT) \<and>
    (within_ttl (leg_fresh io key ep c0) c \<longrightarrow> mono c - mono c0 < TUNNEL_IDLE_TIMEOUT \<and>
      0 \<le> wall c - wall c0 \<and> wall c - wall c0 < TUNNEL_IDLE_TIMEOUT)"
proof -
  have "ttl_for r + CLIENT_IDLE_MARGIN = TUNNEL_REUSE_IDLE_TIMEOUT" "UNPROVEN_LEG_TTL < TUNNEL_IDLE_TIMEOUT"
    using assms by (auto simp: reuse_for_def ttl_for_def TUNNEL_REUSE_IDLE_TIMEOUT_def CLIENT_IDLE_MARGIN_def
        CLIENT_IDLE_CAP_def UNPROVEN_LEG_TTL_def TUNNEL_IDLE_TIMEOUT_def millis_def secs_def split: leg_class.splits)
  then show ?thesis
    using within_ttl_young [of "park_stamp (ttl_for r) c0 leg" c] within_ttl_young [of "leg_fresh io key ep c0" c]
    by (auto simp: park_stamp_def leg_fresh_def)
qed

lemma phone_gives_up_first_witness:
  "TUNNEL_REUSE_IDLE_TIMEOUT = secs 60 \<and> secs 49 + CLIENT_IDLE_MARGIN < TUNNEL_REUSE_IDLE_TIMEOUT"
proof -
  let ?r = "\<lparr>idle_ms = 60000\<rparr>" and ?start = "\<lparr>mono = 0, wall = 0\<rparr>" and ?c = "\<lparr>mono = secs 49, wall = secs 49\<rparr>"
  have r: "reuse_for ApiLeg = Some ?r" by (simp add: reuse_for_def TUNNEL_REUSE_IDLE_TIMEOUT_def secs_def)
  have "within_ttl (park_stamp (ttl_for ?r) ?start sample_pooled) ?c"
    by (simp add: within_ttl_def park_stamp_def ttl_for_def millis_def CLIENT_IDLE_CAP_def CLIENT_IDLE_MARGIN_def secs_def)
  then show ?thesis
    using phone_gives_up_first [OF r, of ?start sample_pooled ?c "()" sample_key 0] by (simp add: TUNNEL_REUSE_IDLE_TIMEOUT_def)
qed

text \<open>A session with one answered GET, then a body nobody announced.\<close>

definition sample_session :: "session_end \<times> sink \<times> source" where
  "sample_session = session_loop sample_env (reuse_for ApiLeg) 0 0 \<lparr>sk_sent = [], sk_room = None\<rparr>
     \<lparr>so_pending = [], so_events = [Comes [ReqHead 4 ''GET'' ''/v1/x'' [] None, ReqBody 4 0 [] True], Comes [ReqBody 9 0 [] True]]\<rparr>"

lemma sample_session_result:
  "sample_session = (Finished, \<lparr>sk_sent = [RespHead 4 404 [\<lparr>hd_name = ''content-length'', hd_value = ''1''\<rparr>] (Some 1)
     (Some \<lparr>idle_ms = 60000\<rparr>), RespBody 4 0 [7] True, RespError 9 400 ''body sent before request head''], sk_room = None\<rparr>,
     \<lparr>so_pending = [], so_events = []\<rparr>)"
proof -
  have "chunks_of MAX_TUNNEL_CHUNK [7 :: byte] = [[7]]"
    by (simp add: chunks_of_simps MAX_TUNNEL_CHUNK_def)
  then show ?thesis
    unfolding sample_session_def
    by (simp add: session_loop.simps session_turn_def next_request_def handle_http_forward_def respond_def send_http_response_def
        send_response_def send_error_def send_streaming_http_body_def offer_def reuse_for_def TUNNEL_REUSE_IDLE_TIMEOUT_def
        secs_def sample_env_def judged answered Let_def)
qed

theorem offers_are_kept_witness:
  "\<exists>fs m gs. sk_sent (fst (snd sample_session)) = fs @ gs \<and> answers (reuse_for ApiLeg) 0 fs m \<and> farewell m gs"
proof -
  obtain k s where r: "sample_session = (Finished, k, s)" using sample_session_result by blast
  from offers_are_kept [OF r [unfolded sample_session_def]] show ?thesis by (simp add: r)
qed

text \<open>The guard on dot segments knows two of their four spellings.\<close>

lemma mixed_dots_pass:
  "validate_request_head (call_head 1 \<lparr>ac_method = ''GET'', ac_path = ''/v1/.%2e/x'', ac_headers = [], ac_body = None\<rparr>) = Inr ()"
  "validate_request_head (call_head 1 \<lparr>ac_method = ''GET'', ac_path = ''/v1/%2e%2e/x'', ac_headers = [], ac_body = None\<rparr>) =
     Inl (400, ''path traversal is not allowed'')"
  by (simp_all add: judged)

end
