(* ===== verification/BlobService.thy ===== *)
theory BlobService
  imports TunnelSession
begin

text \<open>
  \<open>crates/gateway/src/channel/blobs.rs\<close>: the gateway's routes for files. The blob store is a trait object: its
  record \<open>blob_store\<close> takes the store's state. The pairing service's verdict, the JSON of an answer and the HTTP
  stack's test on a header value are the parameters of \<open>blob_stack\<close>.
\<close>

section \<open>Constants and types\<close>

definition DEFAULT_BLOB_MIME :: string where
  "DEFAULT_BLOB_MIME = ''application/octet-stream''"

definition HEADER_CONTENT_SHA256 :: string where
  "HEADER_CONTENT_SHA256 = ''x-baybo-content-sha256''"

definition DEVICE_UPLOAD_IDENTITY_PREFIX :: string where
  "DEVICE_UPLOAD_IDENTITY_PREFIX = ''device:''"

definition HEADER_DECK_CARD :: string where
  "HEADER_DECK_CARD = ''x-baybo-deck-card''"

definition HEADER_PROJECT :: string where
  "HEADER_PROJECT = ''x-baybo-project''"

definition HEADER_BOT_ID :: string where
  "HEADER_BOT_ID = ''x-baybo-bot-id''"

definition HEADER_USER_ID :: string where
  "HEADER_USER_ID = ''x-baybo-user-id''"

definition DECK_UPLOADER_PREFIX :: string where
  "DECK_UPLOADER_PREFIX = ''deck:''"

definition PROJECT_UPLOADER_PREFIX :: string where
  "PROJECT_UPLOADER_PREFIX = ''project:''"

definition SHA256_PREFIX :: string where
  "SHA256_PREFIX = ''sha256:''"

text \<open>A stream of chunks ends or breaks with an error.\<close>

type_synonym byte_stream = "(string + byte list) list"

datatype storage_error = StorageNotFound | StorageTooLarge nat nat | StorageOther string

record blob_meta =
  bm_mime :: string
  bm_size :: nat

record 's blob_store =
  bs_stat :: "'s \<Rightarrow> string \<Rightarrow> storage_error + blob_meta"
  bs_open_at :: "'s \<Rightarrow> string \<Rightarrow> nat \<Rightarrow> storage_error + byte_stream"
  bs_put_stream :: "'s \<Rightarrow> byte_stream \<Rightarrow> string \<Rightarrow> string option \<Rightarrow> nat \<Rightarrow> (storage_error + string) \<times> 's"
  bs_delete :: "'s \<Rightarrow> string \<Rightarrow> 's"

datatype check_outcome = CheckApproved | CheckPending string

record blob_stack =
  bk_check :: "string \<Rightarrow> string \<Rightarrow> string \<Rightarrow> string + check_outcome"
  bk_value_ok :: "string \<Rightarrow> bool"
  bk_upload_json :: "string \<Rightarrow> byte list"
  bk_pairing_json :: "string \<Rightarrow> byte list"

datatype authed_client =
    ClientTui
  | ClientTool
  | ClientWeb
  | ClientDevice string
  | ClientSubprocess "string option"

datatype upload_auth =
    Bypass
  | Approved string string string
  | UploadDevice string
  | UploadPending string
  | Reject nat string

datatype blob_service_error =
    BadRequest string
  | BlobNotFound
  | RangeNotSatisfiable string
  | PayloadTooLarge nat
  | ContentHashMismatch
  | StoreFailure

record blob_download =
  bd_status :: nat
  bd_mime :: string
  bd_len :: nat
  bd_range :: "string option"
  bd_reader :: byte_stream

text \<open>\<open>HeaderMap::get\<close>: the first value under a name.\<close>

definition request_header :: "(string \<times> string) list \<Rightarrow> string \<Rightarrow> string option" where
  "request_header headers name = map_option snd (find (\<lambda>h. fst h = name) headers)"

section \<open>Who uploads\<close>

definition authorize_upload :: "blob_stack \<Rightarrow> authed_client \<Rightarrow> (string \<times> string) list \<Rightarrow> upload_auth" where
  "authorize_upload stk authed headers =
     (case authed of
        ClientTui \<Rightarrow> Bypass
      | ClientTool \<Rightarrow> Bypass
      | ClientWeb \<Rightarrow> Bypass
      | ClientDevice d \<Rightarrow> UploadDevice d
      | ClientSubprocess None \<Rightarrow> Reject 403 ''subprocess token has no bound channel_type''
      | ClientSubprocess (Some ct) \<Rightarrow>
          (case request_header headers HEADER_BOT_ID of
             None \<Rightarrow> Reject 400 ''missing or empty x-baybo-bot-id header''
           | Some bot_id \<Rightarrow>
               if bot_id = [] then Reject 400 ''missing or empty x-baybo-bot-id header''
               else case request_header headers HEADER_USER_ID of
                 None \<Rightarrow> Reject 400 ''missing or empty x-baybo-user-id header''
               | Some user_id \<Rightarrow>
                   if user_id = [] then Reject 400 ''missing or empty x-baybo-user-id header''
                   else case bk_check stk ct bot_id user_id of
                     Inr CheckApproved \<Rightarrow> Approved ct bot_id user_id
                   | Inr (CheckPending code) \<Rightarrow> UploadPending code
                   | Inl _ \<Rightarrow> Reject 500 ''pairing check failed''))"

text \<open>A header that names something: present and not blank.\<close>

definition named_by :: "(string \<times> string) list \<Rightarrow> string \<Rightarrow> string option" where
  "named_by headers name =
     (case request_header headers name of
        Some v \<Rightarrow> if trim v = [] then None else Some (trim v)
      | None \<Rightarrow> None)"

definition deck_uploader_identity :: "string \<Rightarrow> string" where
  "deck_uploader_identity card_id = DECK_UPLOADER_PREFIX @ card_id"

definition project_uploader_identity :: "string \<Rightarrow> string" where
  "project_uploader_identity project_id = PROJECT_UPLOADER_PREFIX @ project_id"

definition project_upload_identity :: "(string \<times> string) list \<Rightarrow> string option" where
  "project_upload_identity headers = map_option project_uploader_identity (named_by headers HEADER_PROJECT)"

definition device_upload_identity :: "string \<Rightarrow> (string \<times> string) list \<Rightarrow> string" where
  "device_upload_identity device_id headers =
     (case named_by headers HEADER_DECK_CARD of
        Some card_id \<Rightarrow> deck_uploader_identity card_id
      | None \<Rightarrow> DEVICE_UPLOAD_IDENTITY_PREFIX @ device_id)"

section \<open>Answers\<close>

definition text_response :: "nat \<Rightarrow> string \<Rightarrow> http_response" where
  "text_response status msg =
     \<lparr>hr_status = status, hr_headers = [(''content-type'', Some ''text/plain; charset=utf-8'')],
      hr_body = [Inr (map of_char msg)]\<rparr>"

definition json_response :: "nat \<Rightarrow> byte list \<Rightarrow> http_response" where
  "json_response status json =
     \<lparr>hr_status = status, hr_headers = [(''content-type'', Some ''application/json'')], hr_body = [Inr json]\<rparr>"

fun status_code :: "blob_service_error \<Rightarrow> nat" where
  "status_code (BadRequest _) = 400"
| "status_code ContentHashMismatch = 400"
| "status_code BlobNotFound = 404"
| "status_code (RangeNotSatisfiable _) = 416"
| "status_code (PayloadTooLarge _) = 413"
| "status_code StoreFailure = 500"

fun client_message :: "blob_service_error \<Rightarrow> string" where
  "client_message (BadRequest reason) = reason"
| "client_message (RangeNotSatisfiable reason) = reason"
| "client_message BlobNotFound = ''blob not found''"
| "client_message (PayloadTooLarge limit) = ''blob exceeds '' @ decimal limit @ ''-byte cap''"
| "client_message ContentHashMismatch = ''content hash mismatch''"
| "client_message StoreFailure = ''blob store failure''"

definition service_error_response :: "blob_service_error \<Rightarrow> http_response" where
  "service_error_response err =
     (if status_code err = 404 then \<lparr>hr_status = 404, hr_headers = [], hr_body = []\<rparr>
      else text_response (status_code err) (client_message err))"

section \<open>Downloads\<close>

definition parse_range_start :: "string option \<Rightarrow> nat" where
  "parse_range_start v =
     (case Option.bind v (strip_prefix ''bytes='') of
        None \<Rightarrow> 0
      | Some rest \<Rightarrow> (case parse_u64 (takeWhile (\<lambda>c. c \<noteq> CHR ''-'') rest) of Inr n \<Rightarrow> n | Inl _ \<Rightarrow> 0))"

definition open_download ::
    "'s blob_store \<Rightarrow> 's \<Rightarrow> string \<Rightarrow> nat \<Rightarrow> blob_service_error + blob_download" where
  "open_download store st blob_id offset =
     (case bs_stat store st blob_id of
        Inl StorageNotFound \<Rightarrow> Inl BlobNotFound
      | Inl _ \<Rightarrow> Inl StoreFailure
      | Inr meta \<Rightarrow>
          if offset > bm_size meta then Inl (RangeNotSatisfiable ''range starts past end of blob'')
          else case bs_open_at store st blob_id offset of
            Inl StorageNotFound \<Rightarrow> Inl BlobNotFound
          | Inl _ \<Rightarrow> Inl StoreFailure
          | Inr reader \<Rightarrow>
              Inr \<lparr>bd_status = (if offset > 0 then 206 else 200), bd_mime = bm_mime meta,
                   bd_len = bm_size meta - offset,
                   bd_range = (if offset > 0
                     then Some (''bytes '' @ decimal offset @ ''-'' @ decimal (bm_size meta - 1) @ ''/'' @ decimal (bm_size meta))
                     else None),
                   bd_reader = reader\<rparr>)"

definition download ::
    "blob_stack \<Rightarrow> 's blob_store \<Rightarrow> 's \<Rightarrow> string \<Rightarrow> (string \<times> string) list \<Rightarrow> http_response" where
  "download stk store st blob_id headers =
     (case open_download store st blob_id (parse_range_start (request_header headers ''range'')) of
        Inl err \<Rightarrow> service_error_response err
      | Inr d \<Rightarrow>
          \<lparr>hr_status = bd_status d,
           hr_headers =
             (if bk_value_ok stk (bd_mime d) then [(''content-type'', Some (bd_mime d))] else []) @
             [(HEADER_CONTENT_LENGTH, Some (decimal (bd_len d)))] @
             (case bd_range d of Some r \<Rightarrow> [(''content-range'', Some r)] | None \<Rightarrow> []),
           hr_body = bd_reader d\<rparr>)"

section \<open>Uploads\<close>

definition is_sha256_hex :: "string \<Rightarrow> bool" where
  "is_sha256_hex v \<longleftrightarrow>
     length v = 64 \<and> list_all (\<lambda>c. is_ascii_digit c \<or> (97 \<le> char_code c \<and> char_code c \<le> 102)) v"

definition require_sha256_hex :: "string option \<Rightarrow> blob_service_error + string" where
  "require_sha256_hex v =
     (case v of
        Some v \<Rightarrow> if is_sha256_hex v then Inr v else Inl (BadRequest ''missing content hash'')
      | None \<Rightarrow> Inl (BadRequest ''missing content hash''))"

definition digest_of_id :: "string \<Rightarrow> string" where
  "digest_of_id blob_id =
     (case strip_prefix SHA256_PREFIX blob_id of
        Some rest \<Rightarrow> hd (split_on (CHR ''.'') rest)
      | None \<Rightarrow> [])"

definition put_upload ::
    "'s blob_store \<Rightarrow> 's \<Rightarrow> byte_stream \<Rightarrow> string \<Rightarrow> string option \<Rightarrow> string option \<Rightarrow> (blob_service_error + string) \<times> 's" where
  "put_upload store st stream mime identity claimed =
     (case bs_put_stream store st stream mime identity MAX_BLOB_BYTES of
        (Inl (StorageTooLarge limit _), st') \<Rightarrow> (Inl (PayloadTooLarge limit), st')
      | (Inl _, st') \<Rightarrow> (Inl StoreFailure, st')
      | (Inr blob_id, st') \<Rightarrow>
          (case claimed of
             Some c \<Rightarrow>
               if digest_of_id blob_id \<noteq> c then (Inl ContentHashMismatch, bs_delete store st' blob_id)
               else (Inr blob_id, st')
           | None \<Rightarrow> (Inr blob_id, st')))"

text \<open>The closure \<open>upload\<close> ends in, once it is known whose upload it is.\<close>

definition upload_as ::
    "blob_stack \<Rightarrow> 's blob_store \<Rightarrow> 's \<Rightarrow> (string \<times> string) list \<Rightarrow> byte_stream \<Rightarrow> string option \<Rightarrow> http_response \<times> 's" where
  "upload_as stk store st headers body identity =
     (let mime = (case request_header headers ''content-type'' of Some m \<Rightarrow> m | None \<Rightarrow> DEFAULT_BLOB_MIME);
          put = (\<lambda>claimed.
            case put_upload store st body mime identity claimed of
              (Inr blob_id, st') \<Rightarrow> (json_response 201 (bk_upload_json stk blob_id), st')
            | (Inl err, st') \<Rightarrow> (service_error_response err, st'))
      in case request_header headers HEADER_CONTENT_SHA256 of
           Some v \<Rightarrow>
             (case require_sha256_hex (Some v) of
                Inr c \<Rightarrow> put (Some c)
              | Inl err \<Rightarrow> (service_error_response err, st))
         | None \<Rightarrow> put None)"

definition upload ::
    "blob_stack \<Rightarrow> 's blob_store \<Rightarrow> 's \<Rightarrow> authed_client \<Rightarrow> (string \<times> string) list \<Rightarrow> byte_stream \<Rightarrow> http_response \<times> 's" where
  "upload stk store st authed headers body =
     (case authorize_upload stk authed headers of
        Bypass \<Rightarrow> upload_as stk store st headers body (project_upload_identity headers)
      | Approved ct bot_id user \<Rightarrow> upload_as stk store st headers body (Some (ct @ '':'' @ bot_id @ '':'' @ user))
      | UploadDevice d \<Rightarrow> upload_as stk store st headers body (Some (device_upload_identity d headers))
      | UploadPending code \<Rightarrow> (json_response 403 (bk_pairing_json stk code), st)
      | Reject status msg \<Rightarrow> (text_response status msg, st))"

section \<open>The gates\<close>

lemma upload_refused:
  assumes "authorize_upload stk authed headers = Reject status msg \<or> (\<exists>code. authorize_upload stk authed headers = UploadPending code)"
  shows "snd (upload stk store st authed headers body) = st"
  using assms by (auto simp: upload_def Let_def)

lemma sidecar_gate:
  "authorize_upload stk (ClientSubprocess ct) headers =
     (case ct of
        None \<Rightarrow> Reject 403 ''subprocess token has no bound channel_type''
      | Some c \<Rightarrow> authorize_upload stk (ClientSubprocess (Some c)) headers)"
  by (cases ct) (simp_all add: authorize_upload_def)

text \<open>An upload that is stored under a claimed digest has it.\<close>

lemma stored_under_its_claim:
  assumes "put_upload store st stream mime identity (Some c) = (Inr blob_id, st')"
  shows "digest_of_id blob_id = c"
  using assms by (auto simp: put_upload_def split: prod.splits sum.splits storage_error.splits if_splits)

text \<open>Who an accepted upload is stored for, and the storing itself.\<close>

definition upload_in_the_name_of ::
    "blob_stack \<Rightarrow> authed_client \<Rightarrow> (string \<times> string) list \<Rightarrow> string option \<Rightarrow> bool" where
  "upload_in_the_name_of stk authed headers identity \<longleftrightarrow>
     (case authed of
        ClientSubprocess ct \<Rightarrow> (\<exists>c b u. ct = Some c \<and>
          request_header headers HEADER_BOT_ID = Some b \<and> b \<noteq> [] \<and>
          request_header headers HEADER_USER_ID = Some u \<and> u \<noteq> [] \<and>
          bk_check stk c b u = Inr CheckApproved \<and> identity = Some (c @ '':'' @ b @ '':'' @ u))
      | ClientDevice d \<Rightarrow> identity = Some (device_upload_identity d headers)
      | _ \<Rightarrow> identity = project_upload_identity headers)"

lemma refused_status:
  "authorize_upload stk authed headers = Reject status msg \<Longrightarrow> status \<in> {400, 403, 500}"
  by (auto simp: authorize_upload_def split: authed_client.splits option.splits sum.splits check_outcome.splits if_splits)

lemma accepted_upload:
  assumes "\<nexists>status msg. authorize_upload stk authed headers = Reject status msg"
    and "\<nexists>code. authorize_upload stk authed headers = UploadPending code"
  shows "\<exists>identity. upload_in_the_name_of stk authed headers identity \<and>
    upload stk store st authed headers body = upload_as stk store st headers body identity"
  using assms
  by (auto simp: authorize_upload_def upload_def upload_in_the_name_of_def
      split: authed_client.splits option.splits sum.splits check_outcome.splits if_splits)

lemma upload_as_stores:
  assumes "upload_as stk store st headers body identity = (resp, st')"
  shows "(st' = st \<and> hr_status resp = 400) \<or> (\<exists>mime claimed. st' = snd (put_upload store st body mime identity claimed))"
  using assms
  by (auto simp: upload_as_def Let_def require_sha256_hex_def service_error_response_def text_response_def
      split: option.splits prod.splits sum.splits if_splits) (metis snd_conv)+

text \<open>C30: An upload that changes the store is one the gateway knows the sender of. A subprocess sidecar's is stored only when
  the token is bound to a channel, the bot and the user are named, and the pairing service has approved that very triple,
  and it is stored in the name of the triple; a device's is stored in the name of the device or of the deck card it names.
  The terminal client, the web client and the tool sidecar need no pairing: theirs is stored in the name of the project it
  names, or of nobody. Every other upload is answered 400, 403 or 500 (a wrong digest claim among them), the store as it was.\<close>

theorem uploads_have_a_known_sender:
  assumes "upload stk store st authed headers body = (resp, st')"
  shows "(st' = st \<and> hr_status resp \<in> {400, 403, 500}) \<or>
    (\<exists>mime identity claimed. st' = snd (put_upload store st body mime identity claimed) \<and>
      (case authed of
         ClientSubprocess ct \<Rightarrow> (\<exists>c b u. ct = Some c \<and>
           request_header headers HEADER_BOT_ID = Some b \<and> b \<noteq> [] \<and>
           request_header headers HEADER_USER_ID = Some u \<and> u \<noteq> [] \<and>
           bk_check stk c b u = Inr CheckApproved \<and> identity = Some (c @ '':'' @ b @ '':'' @ u))
       | ClientDevice d \<Rightarrow> identity = Some (device_upload_identity d headers)
       | _ \<Rightarrow> identity = project_upload_identity headers))"
proof (cases "(\<exists>status msg. authorize_upload stk authed headers = Reject status msg) \<or>
    (\<exists>code. authorize_upload stk authed headers = UploadPending code)")
  case True
  then have "st' = st" "hr_status resp \<in> {400, 403, 500}"
    using assms refused_status [of stk authed headers]
    by (auto simp: upload_def Let_def text_response_def json_response_def)
  then show ?thesis by simp
next
  case False
  then obtain identity where known: "upload_in_the_name_of stk authed headers identity"
      and stored: "upload stk store st authed headers body = upload_as stk store st headers body identity"
    using accepted_upload [of stk authed headers store st body] by blast
  have "upload_as stk store st headers body identity = (resp, st')" using assms stored by simp
  from upload_as_stores [OF this] show ?thesis
  proof
    assume "\<exists>mime claimed. st' = snd (put_upload store st body mime identity claimed)"
    then show ?thesis using known unfolding upload_in_the_name_of_def by blast
  qed simp
qed

definition strict_stack :: blob_stack where
  "strict_stack = \<lparr>bk_check = (\<lambda>_ _ _. Inr (CheckPending ''K7QX'')), bk_value_ok = (\<lambda>_. True),
     bk_upload_json = map of_char, bk_pairing_json = map of_char\<rparr>"

definition counting_store :: "nat blob_store" where
  "counting_store = \<lparr>bs_stat = (\<lambda>_ _. Inl StorageNotFound), bs_open_at = (\<lambda>_ _ _. Inl StorageNotFound),
     bs_put_stream = (\<lambda>n _ _ _ _. (Inr ''sha256:00.ab'', n + 1)), bs_delete = (\<lambda>n _. n)\<rparr>"

definition open_stack :: blob_stack where
  "open_stack = strict_stack\<lparr>bk_check := (\<lambda>_ _ _. Inr CheckApproved)\<rparr>"

theorem uploads_have_a_known_sender_witness:
  "(\<exists>resp. upload strict_stack counting_store 5 (ClientSubprocess (Some ''telegram''))
      [(HEADER_BOT_ID, ''b''), (HEADER_USER_ID, ''u'')] [Inr [1, 2]] = (resp, 5) \<and> hr_status resp \<in> {400, 403, 500}) \<and>
   snd (upload open_stack counting_store 5 (ClientSubprocess (Some ''telegram''))
      [(HEADER_BOT_ID, ''b''), (HEADER_USER_ID, ''u'')] [Inr [1, 2]]) = 6"
proof -
  let ?h = "[(HEADER_BOT_ID, ''b''), (HEADER_USER_ID, ''u'')]"
  obtain resp st' where u: "upload strict_stack counting_store 5 (ClientSubprocess (Some ''telegram'')) ?h [Inr [1, 2]] = (resp, st')"
    by fastforce
  have "st' = 5 \<and> hr_status resp \<in> {400, 403, 500}"
    using uploads_have_a_known_sender [OF u] by (simp add: strict_stack_def)
  moreover have "snd (upload open_stack counting_store 5 (ClientSubprocess (Some ''telegram'')) ?h [Inr [1, 2]]) = 6"
    by (simp add: upload_def upload_as_def authorize_upload_def put_upload_def open_stack_def counting_store_def Let_def
        request_header_def HEADER_BOT_ID_def HEADER_USER_ID_def HEADER_CONTENT_SHA256_def split: prod.splits sum.splits)
  ultimately show ?thesis using u by blast
qed

end
