(* ===== verification/BlobTransfer.thy ===== *)
theory BlobTransfer
  imports TunnelEnds BlobService
begin

text \<open>
  Files over a tunnel leg: \<open>app/ios/ffi/src/relay/blob.rs\<close> and the cache of \<open>blob_helper.rs\<close> it fills, against the
  gateway's session of \<open>TunnelSession\<close> and routes of \<open>BlobService\<close>. One cache entry is its two files, the part a
  download appends to and the published one; which calls on them fail is \<open>file_faults\<close>. SHA-256 is the parameter
  \<open>sha\<close>, a hasher the bytes it was given. No timer runs on a blob leg: a call that waits for ever is \<open>None\<close>.
\<close>

section \<open>The cache entry\<close>

record part_files =
  pf_part :: "byte list option"
  pf_file :: "byte list option"

record file_faults =
  ff_read :: "string option"
  ff_open :: "string option"
  ff_writes :: "nat option"
  ff_torn :: nat
  ff_flush :: "string option"
  ff_rename :: "string option"

datatype blob_error =
    NotPairedYet
  | DialFailedWith string
  | LegFailed leg_error
  | FileFailed string
  | DownloadHttp nat
  | DownloadError nat string
  | ResumeNotAccepted
  | BodyForRequest nat
  | BodyOffset nat nat
  | DigestMismatch
  | InvalidBlobId
  | UploadHttp nat
  | DecodeBlobId
  | UploadedIdInvalid
  | UploadedIdMismatch

definition bytes_sha256_hex :: "(byte list \<Rightarrow> byte list) \<Rightarrow> byte list \<Rightarrow> string" where
  "bytes_sha256_hex sha bytes = encode_lower_hex (sha bytes)"

definition hash_existing_part :: "file_faults \<Rightarrow> part_files \<Rightarrow> blob_error + byte list" where
  "hash_existing_part ff f =
     (case pf_part f of
        None \<Rightarrow> Inr []
      | Some bytes \<Rightarrow> (case ff_read ff of Some e \<Rightarrow> Inl (FileFailed e) | None \<Rightarrow> Inr bytes))"

definition open_part_append :: "file_faults \<Rightarrow> part_files \<Rightarrow> (blob_error + unit) \<times> part_files" where
  "open_part_append ff f =
     (case ff_open ff of
        Some e \<Rightarrow> (Inl (FileFailed (''open part: '' @ e)), f)
      | None \<Rightarrow> (Inr (), f\<lparr>pf_part := Some (case pf_part f of Some b \<Rightarrow> b | None \<Rightarrow> [])\<rparr>))"

definition remove_part :: "part_files \<Rightarrow> part_files" where
  "remove_part f = f\<lparr>pf_part := None\<rparr>"

definition append_part :: "byte list \<Rightarrow> part_files \<Rightarrow> part_files" where
  "append_part data f = f\<lparr>pf_part := map_option (\<lambda>b. b @ data) (pf_part f)\<rparr>"

text \<open>A failed rename leaves both files as they were.\<close>

definition finalize_download ::
    "(byte list \<Rightarrow> byte list) \<Rightarrow> file_faults \<Rightarrow> string \<Rightarrow> byte list \<Rightarrow> part_files \<Rightarrow> (blob_error + unit) \<times> part_files" where
  "finalize_download sha ff expected_hex hashed f =
     (if bytes_sha256_hex sha hashed \<noteq> expected_hex then (Inl DigestMismatch, remove_part f)
      else case ff_flush ff of
        Some e \<Rightarrow> (Inl (FileFailed (''flush part: '' @ e)), f)
      | None \<Rightarrow>
          (case ff_rename ff of
             Some e \<Rightarrow> (Inl (FileFailed (''rename part -> dest: '' @ e)), f)
           | None \<Rightarrow> (Inr (), f\<lparr>pf_part := None, pf_file := pf_part f\<rparr>)))"

section \<open>A download\<close>

definition BLOB_REQUEST_ID :: nat where
  "BLOB_REQUEST_ID = 1"

definition PATH_BLOBS :: string where
  "PATH_BLOBS = ''/v1/blobs''"

definition HEADER_RANGE :: string where
  "HEADER_RANGE = ''range''"

text \<open>A leg no timer runs on.\<close>

definition untimed :: "leg_io \<Rightarrow> leg_io" where
  "untimed leg = leg\<lparr>li_wire := (li_wire leg)\<lparr>
     tw_events := filter (\<lambda>v. case v of Overdue _ \<Rightarrow> False | _ \<Rightarrow> True) (tw_events (li_wire leg))\<rparr>\<rparr>"

function download_loop ::
    "(byte list \<Rightarrow> byte list) \<Rightarrow> file_faults \<Rightarrow> string \<Rightarrow> nat option \<Rightarrow> nat \<Rightarrow> byte list \<Rightarrow> part_files \<Rightarrow> leg_io \<Rightarrow>
     (blob_error + unit) option \<times> part_files \<times> leg_io" where
  "download_loop sha ff expected_hex writes expected hashed f leg =
     (case next_response False leg of
        (Expires _, leg') \<Rightarrow> (None, f, leg')
      | (Fails e, leg') \<Rightarrow> (Some (Inl (LegFailed e)), f, leg')
      | (Done resp, leg') \<Rightarrow>
          (case resp of
             RespBody i offset data last' \<Rightarrow>
               if i \<noteq> BLOB_REQUEST_ID then (Some (Inl (BodyForRequest i)), remove_part f, leg')
               else if offset \<noteq> expected then (Some (Inl (BodyOffset offset expected)), remove_part f, leg')
               else if writes = Some 0
               then (Some (Inl (FileFailed ''write part'')), append_part (take (ff_torn ff) data) f, leg')
               else if last' then
                 (case finalize_download sha ff expected_hex (hashed @ data) (append_part data f) of
                    (Inl e, f') \<Rightarrow> (Some (Inl e), f', leg')
                  | (Inr _, f') \<Rightarrow> (Some (Inr ()), f', leg_close leg'))
               else download_loop sha ff expected_hex (map_option (\<lambda>n. n - 1) writes) (expected + length data)
                      (hashed @ data) (append_part data f) leg'
           | RespError _ status reason \<Rightarrow> (Some (Inl (DownloadError status reason)), f, leg')
           | RespHead _ _ _ _ _ \<Rightarrow> download_loop sha ff expected_hex writes expected hashed f leg'))"
  by pat_completeness auto
termination
  by (relation "measure (\<lambda>(sha, ff, hex, writes, expected, hashed, f, leg). leg_frames leg)")
    (auto dest: next_response_frames [OF sym])

declare download_loop.simps [simp del]

definition range_headers :: "nat \<Rightarrow> tunnel_header list" where
  "range_headers resume_from =
     (if resume_from > 0
      then [\<lparr>hd_name = HEADER_RANGE, hd_value = ''bytes='' @ decimal resume_from @ ''-''\<rparr>] else [])"

text \<open>What follows the response head.\<close>

definition download_body ::
    "(byte list \<Rightarrow> byte list) \<Rightarrow> file_faults \<Rightarrow> string \<Rightarrow> byte list \<Rightarrow> response_head \<Rightarrow> part_files \<Rightarrow> leg_io \<Rightarrow>
     (blob_error + unit) option \<times> part_files \<times> leg_io" where
  "download_body sha ff expected_hex hashed h f leg =
     (if \<not> (rh_status h = 200 \<or> rh_status h = 206) then (Some (Inl (DownloadHttp (rh_status h))), f, leg)
      else if length hashed > 0 \<and> rh_status h \<noteq> 206 then (Some (Inl ResumeNotAccepted), f, leg)
      else case open_part_append ff f of
        (Inl e, f') \<Rightarrow> (Some (Inl e), f', leg)
      | (Inr _, f') \<Rightarrow>
          if rh_body_len h = Some 0 then
            (case finalize_download sha ff expected_hex hashed f' of
               (Inl e, f'') \<Rightarrow> (Some (Inl e), f'', leg)
             | (Inr _, f'') \<Rightarrow> (Some (Inr ()), f'', leg_close leg))
          else download_loop sha ff expected_hex (ff_writes ff) (length hashed) hashed f' leg)"

text \<open>\<open>download_to_path\<close> on the leg it dialed.\<close>

definition download_on_leg ::
    "(byte list \<Rightarrow> byte list) \<Rightarrow> file_faults \<Rightarrow> string \<Rightarrow> string \<Rightarrow> part_files \<Rightarrow> leg_io \<Rightarrow>
     (blob_error + unit) option \<times> part_files \<times> leg_io" where
  "download_on_leg sha ff blob_id expected_hex f leg =
     (case hash_existing_part ff f of
        Inl e \<Rightarrow> (Some (Inl e), f, leg)
      | Inr hashed \<Rightarrow>
          (case leg_send leg (ReqHead BLOB_REQUEST_ID ''GET'' (PATH_BLOBS @ ''/'' @ blob_id) (range_headers (length hashed)) None) of
             (Inl e, leg') \<Rightarrow> (Some (Inl (LegFailed e)), f, leg')
           | (Inr _, leg') \<Rightarrow>
               (case expect_response_head leg' BLOB_REQUEST_ID of
                  (Expires _, leg'') \<Rightarrow> (None, f, leg'')
                | (Fails e, leg'') \<Rightarrow> (Some (Inl (LegFailed e)), f, leg'')
                | (Done h, leg'') \<Rightarrow> download_body sha ff expected_hex hashed h f leg'')))"

definition download_to_path ::
    "(byte list \<Rightarrow> byte list) \<Rightarrow> file_faults \<Rightarrow> bool \<Rightarrow> string + leg_io \<Rightarrow> string \<Rightarrow> string \<Rightarrow> part_files \<Rightarrow>
     (blob_error + unit) option \<times> part_files" where
  "download_to_path sha ff paired dial blob_id expected_hex f =
     (if \<not> paired then (Some (Inl NotPairedYet), f)
      else case dial of
        Inl e \<Rightarrow> (Some (Inl (DialFailedWith e)), f)
      | Inr leg \<Rightarrow> (let (r, f', _) = download_on_leg sha ff blob_id expected_hex f (untimed leg) in (r, f')))"

definition blob_id_sha256_hex :: "string \<Rightarrow> string option" where
  "blob_id_sha256_hex blob_id = map_option (\<lambda>rest. hd (split_on (CHR ''.'') rest)) (strip_prefix ''sha256:'' blob_id)"

definition cache_entry :: "string \<Rightarrow> blob_error + string" where
  "cache_entry blob_id =
     (case blob_id_sha256_hex blob_id of
        Some hex \<Rightarrow> if is_sha256_hex hex then Inr hex else Inl InvalidBlobId
      | None \<Rightarrow> Inl InvalidBlobId)"

definition read_cached :: "file_faults \<Rightarrow> part_files \<Rightarrow> blob_error + byte list" where
  "read_cached ff f =
     (case pf_file f of
        None \<Rightarrow> Inl (FileFailed ''read cached blob'')
      | Some b \<Rightarrow> (case ff_read ff of Some e \<Rightarrow> Inl (FileFailed e) | None \<Rightarrow> Inr b))"

text \<open>The files of the entry named by a digest; its lock makes the whole one step.\<close>

definition read_or_download_blob_bytes ::
    "(byte list \<Rightarrow> byte list) \<Rightarrow> file_faults \<Rightarrow> bool \<Rightarrow> string + leg_io \<Rightarrow> string \<Rightarrow> (string \<Rightarrow> part_files) \<Rightarrow>
     (blob_error + byte list) option \<times> (string \<Rightarrow> part_files)" where
  "read_or_download_blob_bytes sha ff paired dial blob_id cache =
     (case cache_entry blob_id of
        Inl e \<Rightarrow> (Some (Inl e), cache)
      | Inr hex \<Rightarrow>
          if pf_file (cache hex) \<noteq> None then (Some (read_cached ff (cache hex)), cache)
          else case download_to_path sha ff paired dial blob_id hex (cache hex) of
            (None, f) \<Rightarrow> (None, cache(hex := f))
          | (Some (Inl e), f) \<Rightarrow> (Some (Inl e), cache(hex := f))
          | (Some (Inr _), f) \<Rightarrow> (Some (read_cached ff f), cache(hex := f)))"

section \<open>An upload\<close>

definition ensure_blob_id_matches :: "string \<Rightarrow> string \<Rightarrow> blob_error + unit" where
  "ensure_blob_id_matches expected_hex blob_id =
     (case blob_id_sha256_hex blob_id of
        Some hex \<Rightarrow>
          if \<not> is_sha256_hex hex then Inl UploadedIdInvalid
          else if hex = expected_hex then Inr () else Inl UploadedIdMismatch
      | None \<Rightarrow> Inl UploadedIdInvalid)"

definition upload_head :: "string \<Rightarrow> string \<Rightarrow> nat \<Rightarrow> string option \<Rightarrow> tunnel_request" where
  "upload_head mime_type expected_hex size' deck_card =
     ReqHead BLOB_REQUEST_ID ''POST'' PATH_BLOBS
       ([\<lparr>hd_name = ''content-type'', hd_value = mime_type\<rparr>,
         \<lparr>hd_name = ''content-length'', hd_value = decimal size'\<rparr>,
         \<lparr>hd_name = HEADER_CONTENT_SHA256, hd_value = expected_hex\<rparr>] @
        (case deck_card of Some c \<Rightarrow> [\<lparr>hd_name = HEADER_DECK_CARD, hd_value = c\<rparr>] | None \<Rightarrow> []))
       (Some size')"

definition open_upload_leg ::
    "bool \<Rightarrow> string + leg_io \<Rightarrow> string \<Rightarrow> string \<Rightarrow> nat \<Rightarrow> string option \<Rightarrow> blob_error + leg_io" where
  "open_upload_leg paired dial mime_type expected_hex size' deck_card =
     (if \<not> paired then Inl NotPairedYet
      else case dial of
        Inl e \<Rightarrow> Inl (DialFailedWith e)
      | Inr leg \<Rightarrow>
          (case leg_send (untimed leg) (upload_head mime_type expected_hex size' deck_card) of
             (Inl e, _) \<Rightarrow> Inl (LegFailed e)
           | (Inr _, leg') \<Rightarrow> Inr leg'))"

text \<open>\<open>serde_json\<close> reads the answer: the parameter \<open>parse\<close>.\<close>

definition finish_upload ::
    "(byte list \<Rightarrow> string option) \<Rightarrow> string \<Rightarrow> leg_io \<Rightarrow> (blob_error + string) option \<times> leg_io" where
  "finish_upload parse expected_hex leg =
     (case expect_response_head leg BLOB_REQUEST_ID of
        (Expires _, leg) \<Rightarrow> (None, leg)
      | (Fails e, leg) \<Rightarrow> (Some (Inl (LegFailed e)), leg)
      | (Done h, leg) \<Rightarrow>
          (case collect_response_body leg BLOB_REQUEST_ID (rh_body_len h) of
             (Expires _, leg) \<Rightarrow> (None, leg)
           | (Fails e, leg) \<Rightarrow> (Some (Inl (LegFailed e)), leg)
           | (Done body, leg) \<Rightarrow>
               (Some (if \<not> (200 \<le> rh_status h \<and> rh_status h < 300) then Inl (UploadHttp (rh_status h))
                      else case parse body of
                        None \<Rightarrow> Inl DecodeBlobId
                      | Some blob_id \<Rightarrow>
                          (case ensure_blob_id_matches expected_hex blob_id of
                             Inl e \<Rightarrow> Inl e
                           | Inr _ \<Rightarrow> Inr blob_id)), leg_close leg)))"

definition upload_bytes_over_tunnel ::
    "(byte list \<Rightarrow> string option) \<Rightarrow> bool \<Rightarrow> string + leg_io \<Rightarrow> byte list \<Rightarrow> string \<Rightarrow> string \<Rightarrow> string option \<Rightarrow>
     (blob_error + string) option" where
  "upload_bytes_over_tunnel parse paired dial bytes mime_type expected_hex deck_card =
     (case open_upload_leg paired dial mime_type expected_hex (length bytes) deck_card of
        Inl e \<Rightarrow> Some (Inl e)
      | Inr leg \<Rightarrow>
          (case send_all leg (body_frames BLOB_REQUEST_ID bytes) of
             (Inl e, _) \<Rightarrow> Some (Inl (LegFailed e))
           | (Inr _, leg') \<Rightarrow> fst (finish_upload parse expected_hex leg')))"

text \<open>What an upload puts into the cache: the bytes under their own digest, unless something is there already.\<close>

definition cache_uploaded_bytes :: "file_faults \<Rightarrow> string \<Rightarrow> byte list \<Rightarrow> part_files \<Rightarrow> (blob_error + unit) \<times> part_files" where
  "cache_uploaded_bytes ff expected_hex bytes f =
     (if \<not> is_sha256_hex expected_hex then (Inl InvalidBlobId, f)
      else if pf_file f \<noteq> None then (Inr (), f)
      else if ff_writes ff = Some 0 then (Inl (FileFailed ''write cached blob''), f)
      else case ff_rename ff of
        Some e \<Rightarrow> (Inl (FileFailed (''rename cached blob: '' @ e)), f)
      | None \<Rightarrow> (Inr (), f\<lparr>pf_file := Some bytes\<rparr>))"

definition upload_bytes ::
    "(byte list \<Rightarrow> byte list) \<Rightarrow> (byte list \<Rightarrow> string option) \<Rightarrow> file_faults \<Rightarrow> bool \<Rightarrow> string + leg_io \<Rightarrow> byte list \<Rightarrow> string \<Rightarrow>
     string option \<Rightarrow> (string \<Rightarrow> part_files) \<Rightarrow> (blob_error + string) option \<times> (string \<Rightarrow> part_files)" where
  "upload_bytes sha parse ff paired dial bytes mime_type deck_card cache =
     (let hex = bytes_sha256_hex sha bytes in
      case upload_bytes_over_tunnel parse paired dial bytes mime_type hex deck_card of
        Some (Inr blob_id) \<Rightarrow> (Some (Inr blob_id), cache(hex := snd (cache_uploaded_bytes ff hex bytes (cache hex))))
      | r \<Rightarrow> (r, cache))"

lemma upload_names_its_bytes:
  assumes "upload_bytes sha parse ff paired dial bytes mime_type deck_card cache = (Some (Inr blob_id), cache')"
  shows "blob_id_sha256_hex blob_id = Some (bytes_sha256_hex sha bytes)"
  using assms
  by (auto simp: upload_bytes_def upload_bytes_over_tunnel_def finish_upload_def ensure_blob_id_matches_def Let_def
      split: option.splits sum.splits prod.splits awaited.splits if_splits)

section \<open>What is published is what was hashed\<close>

definition names_digest :: "(byte list \<Rightarrow> byte list) \<Rightarrow> string \<Rightarrow> part_files \<Rightarrow> bool" where
  "names_digest sha hex f \<longleftrightarrow> (\<forall>b. pf_file f = Some b \<longrightarrow> bytes_sha256_hex sha b = hex)"

lemma finalize_names_digest:
  assumes "finalize_download sha ff hex hashed f = (r, f')" and "pf_part f = Some hashed" and "names_digest sha hex f"
  shows "names_digest sha hex f' \<and> (r = Inr () \<longrightarrow> pf_file f' = Some hashed)"
  using assms by (auto simp: finalize_download_def remove_part_def names_digest_def split: if_splits option.splits)

lemma parts_keep_digest [simp]:
  "names_digest sha hex (remove_part f) = names_digest sha hex f"
  "names_digest sha hex (append_part data f) = names_digest sha hex f"
  by (simp_all add: names_digest_def remove_part_def append_part_def)

lemma part_appended [simp]: "pf_part f = Some hashed \<Longrightarrow> pf_part (append_part data f) = Some (hashed @ data)"
  by (simp add: append_part_def)

lemma download_loop_names_digest:
  assumes "download_loop sha ff hex writes expected hashed f leg = (r, f', leg')"
    and "pf_part f = Some hashed" and "names_digest sha hex f"
  shows "names_digest sha hex f' \<and> (r = Some (Inr ()) \<longrightarrow> pf_file f' \<noteq> None)"
  using assms
proof (induction sha ff hex writes expected hashed f leg rule: download_loop.induct)
  case (1 sha ff hex writes expected hashed f leg)
  obtain y leg1 where nxt: "next_response False leg = (y, leg1)" by (cases "next_response False leg")
  show ?case
  proof (cases y)
    case (Done resp)
    show ?thesis
    proof (cases resp)
      case (RespBody i offset data lst)
      show ?thesis
      proof (cases "i \<noteq> BLOB_REQUEST_ID \<or> offset \<noteq> expected \<or> writes = Some 0 \<or> lst")
        case True
        then show ?thesis
          using "1.prems" nxt Done RespBody finalize_names_digest [of sha ff hex "hashed @ data" "append_part data f"]
          by (subst (asm) download_loop.simps) (auto split: if_splits prod.splits sum.splits)
      next
        case False
        then have "download_loop sha ff hex (map_option (\<lambda>n. n - 1) writes) (expected + length data) (hashed @ data)
            (append_part data f) leg1 = (r, f', leg')"
          using "1.prems"(1) nxt Done RespBody by (subst (asm) download_loop.simps) simp
        then show ?thesis
          using "1.IH"(2) [OF nxt [symmetric] Done RespBody] False "1.prems" by simp
      qed
    next
      case (RespHead i st hs len reuse)
      then have "download_loop sha ff hex writes expected hashed f leg1 = (r, f', leg')"
        using "1.prems"(1) nxt Done by (subst (asm) download_loop.simps) simp
      then show ?thesis using "1.IH"(1) [OF nxt [symmetric] Done RespHead] "1.prems" by simp
    next
      case (RespError i st reason)
      then show ?thesis using "1.prems" nxt Done by (subst (asm) download_loop.simps) auto
    qed
  qed (use "1.prems" nxt in \<open>subst (asm) download_loop.simps; auto\<close>)+
qed

lemma download_on_leg_names_digest:
  assumes "download_on_leg sha ff blob_id hex f leg = (r, f', leg')" and "names_digest sha hex f"
  shows "names_digest sha hex f' \<and> (r = Some (Inr ()) \<longrightarrow> pf_file f' \<noteq> None)"
proof -
  consider "r \<noteq> Some (Inr ())" "f' = f"
    | hashed h leg1 where "hash_existing_part ff f = Inr hashed" "download_body sha ff hex hashed h f leg1 = (r, f', leg')"
    using assms(1) by (auto simp: download_on_leg_def split: sum.splits prod.splits awaited.splits)
  then show ?thesis
  proof cases
    case 1
    then show ?thesis using assms(2) by simp
  next
    case 2
    have hashed: "hashed = (case pf_part f of Some b \<Rightarrow> b | None \<Rightarrow> [])"
      using 2(1) by (auto simp: hash_existing_part_def split: option.splits)
    show ?thesis
    proof (cases "r \<noteq> Some (Inr ()) \<and> f' = f")
      case False
      then obtain u f1 where open': "open_part_append ff f = (Inr u, f1)"
          "(if rh_body_len h = Some 0 then
             (case finalize_download sha ff hex hashed f1 of
                (Inl e, f'') \<Rightarrow> (Some (Inl e), f'', leg1)
              | (Inr _, f'') \<Rightarrow> (Some (Inr ()), f'', leg_close leg1))
            else download_loop sha ff hex (ff_writes ff) (length hashed) hashed f1 leg1) = (r, f', leg')"
        using 2(2)
        by (auto simp: download_body_def open_part_append_def split: if_splits option.splits)
      then have f1: "pf_part f1 = Some hashed" "names_digest sha hex f1"
        using assms(2) hashed
        by (auto simp: open_part_append_def names_digest_def split: option.splits)
      show ?thesis
      proof (cases "rh_body_len h = Some 0")
        case True
        then show ?thesis
          using open'(2) finalize_names_digest [of sha ff hex hashed f1] f1
          by (auto split: prod.splits sum.splits)
      next
        case False
        then show ?thesis using open'(2) download_loop_names_digest f1 by simp
      qed
    qed (use assms(2) in simp)
  qed
qed

lemma download_to_path_names_digest:
  assumes "download_to_path sha ff paired dial blob_id hex f = (r, f')" and "names_digest sha hex f"
  shows "names_digest sha hex f' \<and> (r = Some (Inr ()) \<longrightarrow> pf_file f' \<noteq> None)"
  using assms download_on_leg_names_digest
  by (auto simp: download_to_path_def split: if_splits sum.splits prod.splits)

datatype cache_op =
    CacheDownload file_faults bool "string + leg_io" string
  | CacheUpload "byte list \<Rightarrow> string option" file_faults bool "string + leg_io" "byte list" string "string option"

definition cache_step :: "(byte list \<Rightarrow> byte list) \<Rightarrow> (string \<Rightarrow> part_files) \<Rightarrow> cache_op \<Rightarrow> string \<Rightarrow> part_files" where
  "cache_step sha cache a =
     (case a of
        CacheDownload ff paired dial blob_id \<Rightarrow> snd (read_or_download_blob_bytes sha ff paired dial blob_id cache)
      | CacheUpload parse ff paired dial bytes mime_type deck_card \<Rightarrow>
          snd (upload_bytes sha parse ff paired dial bytes mime_type deck_card cache))"

definition cache_ok :: "(byte list \<Rightarrow> byte list) \<Rightarrow> (string \<Rightarrow> part_files) \<Rightarrow> bool" where
  "cache_ok sha cache \<longleftrightarrow> (\<forall>hex. names_digest sha hex (cache hex))"

lemma read_or_download_ok:
  assumes "read_or_download_blob_bytes sha ff paired dial blob_id cache = (r, cache')" and "cache_ok sha cache"
  shows "cache_ok sha cache' \<and>
    (\<forall>b. r = Some (Inr b) \<longrightarrow> blob_id_sha256_hex blob_id = Some (bytes_sha256_hex sha b))"
proof (cases "cache_entry blob_id")
  case (Inl e)
  then show ?thesis using assms by (auto simp: read_or_download_blob_bytes_def)
next
  case (Inr hex)
  then have id: "blob_id_sha256_hex blob_id = Some hex"
    by (auto simp: cache_entry_def split: option.splits if_splits)
  have true: "bytes_sha256_hex sha b = hex" if "read_cached ff f = Inr b" "names_digest sha hex f" for f b
    using that by (auto simp: read_cached_def names_digest_def split: option.splits)
  have entry: "names_digest sha hex (cache hex)" using assms(2) by (simp add: cache_ok_def)
  show ?thesis
  proof (cases "pf_file (cache hex) = None")
    case False
    then show ?thesis
      using assms Inr id true [OF _ entry] by (auto simp: read_or_download_blob_bytes_def)
  next
    case none: True
    obtain q f where down: "download_to_path sha ff paired dial blob_id hex (cache hex) = (q, f)" by fastforce
    note f = download_to_path_names_digest [OF down entry]
    have "cache' = cache(hex := f)" "\<And>b. r = Some (Inr b) \<Longrightarrow> read_cached ff f = Inr b"
      using assms(1) Inr none down
      by (auto simp: read_or_download_blob_bytes_def split: option.splits sum.splits)
    then show ?thesis using f assms(2) id true by (auto simp: cache_ok_def)
  qed
qed

lemma cache_step_ok: "cache_ok sha cache \<Longrightarrow> cache_ok sha (cache_step sha cache a)"
proof (cases a)
  case (CacheDownload ff paired dial blob_id)
  then show "cache_ok sha cache \<Longrightarrow> ?thesis"
    using read_or_download_ok [of sha ff paired dial blob_id cache] by (simp add: cache_step_def) (metis prod.collapse)
next
  case (CacheUpload parse ff paired dial bytes mime_type deck_card)
  then show "cache_ok sha cache \<Longrightarrow> ?thesis"
    by (auto simp: cache_step_def upload_bytes_def cache_ok_def names_digest_def cache_uploaded_bytes_def Let_def
        split: option.splits sum.splits)
qed

interpretation blob_cache: invariant_machine "cache_step sha" "cache_ok sha" for sha
  by unfold_locales (rule cache_step_ok)

text \<open>C27: Whatever gateways send, wherever connections and disks fail and whatever partial downloads were left behind,
  the bytes a caller gets for a blob id have the digest the id names; so has every file ever published.\<close>

theorem blob_bytes_have_their_digest:
  assumes "\<forall>hex. pf_file (cache hex) = None"
    and "read_or_download_blob_bytes sha ff paired dial blob_id (foldl (cache_step sha) cache ops) = (Some (Inr b), cache')"
  shows "blob_id_sha256_hex blob_id = Some (bytes_sha256_hex sha b) \<and> cache_ok sha cache'"
proof -
  have "cache_ok sha cache" using assms(1) by (simp add: cache_ok_def names_digest_def)
  then have "cache_ok sha (foldl (cache_step sha) cache ops)" by (rule blob_cache.run_inv)
  then show ?thesis using read_or_download_ok [OF assms(2)] by simp
qed

section \<open>A download from the gateway's end\<close>

text \<open>What the store promises of a blob: its size, and a reader from any offset on.\<close>

definition holds_blob :: "'s blob_store \<Rightarrow> 's \<Rightarrow> string \<Rightarrow> byte list \<Rightarrow> bool" where
  "holds_blob store st blob_id content \<longleftrightarrow>
     length content < 2 ^ 64 \<and>
     (\<exists>mime. bs_stat store st blob_id = Inr \<lparr>bm_mime = mime, bm_size = length content\<rparr>) \<and>
     (\<forall>n \<le> length content. \<exists>reader. bs_open_at store st blob_id n = Inr reader \<and> body_content reader = Some (drop n content))"

lemma takeWhile_decimal: "takeWhile (\<lambda>c. c \<noteq> CHR ''-'') (decimal n @ CHR ''-'' # xs) = decimal n"
proof -
  have "c \<noteq> CHR ''-''" if "c \<in> set (decimal n)" for c
    using that decimal_digits [of n] by (auto simp: list_all_iff is_ascii_digit_def char_code_def)
  then show ?thesis by (simp add: takeWhile_append2)
qed

lemma parse_range_start_decimal:
  "n < 2 ^ 64 \<Longrightarrow> parse_range_start (Some (''bytes='' @ decimal n @ ''-'')) = n"
  unfolding parse_range_start_def bind.simps strip_prefix_append
  by (simp add: takeWhile_decimal parse_u64_decimal)

lemma download_answer:
  assumes "holds_blob store st blob_id content" and "parse_range_start (request_header headers ''range'') = n"
    and "n \<le> length content"
  shows "hr_status (download stk store st blob_id headers) = (if n > 0 then 206 else 200)"
    and "response_bytes (download stk store st blob_id headers) = Some (drop n content)"
proof -
  obtain mime reader where store: "bs_stat store st blob_id = Inr \<lparr>bm_mime = mime, bm_size = length content\<rparr>"
      "bs_open_at store st blob_id n = Inr reader" "body_content reader = Some (drop n content)" "length content < 2 ^ 64"
    using assms(1,3) by (auto simp: holds_blob_def)
  let ?d = "download stk store st blob_id headers"
  have d: "hr_status ?d = (if n > 0 then 206 else 200)" "hr_body ?d = reader"
      "response_content_length (hr_headers ?d) = Some (length content - n)"
    using store assms(2,3) parse_u64_decimal [of "length content - n"]
    by (auto simp: download_def open_download_def response_content_length_def header_value_def HEADER_CONTENT_LENGTH_def)
  then show "hr_status ?d = (if n > 0 then 206 else 200)" by simp
  show "response_bytes ?d = Some (drop n content)"
    using d store(3) by (simp add: response_bytes_def)
qed

text \<open>The call a download makes, and the request its handler gets.\<close>

definition blob_call :: "string \<Rightarrow> nat \<Rightarrow> api_call" where
  "blob_call blob_id n =
     \<lparr>ac_method = ''GET'', ac_path = PATH_BLOBS @ ''/'' @ blob_id, ac_headers = range_headers n, ac_body = None\<rparr>"

lemma range_lower: "to_ascii_lower HEADER_RANGE = ''range''"
  by (simp add: to_ascii_lower_def HEADER_RANGE_def is_ascii_uppercase_def char_code_def)

lemma content_length_lower: "to_ascii_lower HEADER_CONTENT_LENGTH = ''content-length''"
  by (simp add: to_ascii_lower_def HEADER_CONTENT_LENGTH_def is_ascii_uppercase_def char_code_def)

lemma blob_call_range:
  assumes "build_forward_request env (call_head rid (blob_call blob_id n)) = Inr req" and "n < 2 ^ 64"
  shows "parse_range_start (request_header (fw_headers req) ''range'') = n"
proof (cases "n = 0")
  case True
  then have "request_header (fw_headers req) ''range'' = None"
    using assms(1)
    by (auto simp: build_forward_request_def call_head_def blob_call_def range_headers_def declared_body_len_def
        tunnel_header_content_length_def request_header_def DEVICE_ID_HEADER_def Let_def split: option.splits)
  then show ?thesis using True by (simp add: parse_range_start_def)
next
  case False
  then have "request_header (fw_headers req) ''range'' = Some (''bytes='' @ decimal n @ ''-'')"
    using assms(1)
    by (auto simp: build_forward_request_def call_head_def blob_call_def range_headers_def declared_body_len_def
        tunnel_header_content_length_def request_header_def range_lower content_length_lower Let_def
        split: option.splits sum.splits)
  then show ?thesis using parse_range_start_decimal [OF assms(2)] by simp
qed

section \<open>Both ends of a download\<close>

text \<open>The router leads a GET of a blob to \<open>download\<close>; it has no body to hang up on.\<close>

definition blob_gateway :: "http_env \<Rightarrow> blob_stack \<Rightarrow> 's blob_store \<Rightarrow> 's \<Rightarrow> bool" where
  "blob_gateway env stk store st \<longleftrightarrow>
     (\<forall>blob_id n req. build_forward_request env (call_head 0 (blob_call blob_id n)) = Inr req \<longrightarrow>
        he_hangs_up env req = None \<and> he_routes env req [] = download stk store st blob_id (fw_headers req))"

definition gateway_accepts :: "http_env \<Rightarrow> string \<Rightarrow> nat \<Rightarrow> bool" where
  "gateway_accepts env blob_id n \<longleftrightarrow>
     validate_request_head (call_head 0 (blob_call blob_id n)) = Inr () \<and>
     (case build_forward_request env (call_head 0 (blob_call blob_id n)) of Inr _ \<Rightarrow> True | Inl _ \<Rightarrow> False)"

definition no_faults :: file_faults where
  "no_faults = \<lparr>ff_read = None, ff_open = None, ff_writes = None, ff_torn = 0, ff_flush = None, ff_rename = None\<rparr>"

text \<open>A download over a leg of its own, whose gateway serves the head it was sent; \<open>down\<close> groups its frames.\<close>

definition download_from_gateway ::
    "http_env \<Rightarrow> (byte list \<Rightarrow> byte list) \<Rightarrow> file_faults \<Rightarrow> (tunnel_response list \<Rightarrow> tunnel_response list list) \<Rightarrow>
     string \<Rightarrow> string \<Rightarrow> part_files \<Rightarrow> (blob_error + unit) option \<times> part_files" where
  "download_from_gateway env sha ff down blob_id expected_hex f =
     (let n = (case pf_part f of Some b \<Rightarrow> length b | None \<Rightarrow> 0);
          (_, frames) = run_tunnel_session env BlobLeg None
            [Comes [ReqHead BLOB_REQUEST_ID ''GET'' (PATH_BLOBS @ ''/'' @ blob_id) (range_headers n) None]];
          leg = leg_new \<lparr>tw_sent = [], tw_room = None, tw_events = map Arrives (down frames), tw_closed = False\<rparr>
      in download_to_path sha ff True (Inr leg) blob_id expected_hex f)"

lemma range_no_length: "tunnel_header_content_length (range_headers n) = Inr None"
  by (simp add: range_headers_def tunnel_header_content_length_def range_lower content_length_lower)

lemma blob_handler_answer:
  assumes "blob_gateway env stk store st" and "gateway_accepts env blob_id n" and "holds_blob store st blob_id content"
    and "n \<le> length content"
  shows "handler_answer env (blob_call blob_id n) = Some ((if n > 0 then 206 else 200), drop n content)"
proof -
  obtain req where req: "build_forward_request env (call_head 0 (blob_call blob_id n)) = Inr req"
      "validate_request_head (call_head 0 (blob_call blob_id n)) = Inr ()"
    using assms(2) by (auto simp: gateway_accepts_def split: sum.splits)
  have route: "he_hangs_up env req = None" "he_routes env req [] = download stk store st blob_id (fw_headers req)"
    using assms(1) req(1) by (auto simp: blob_gateway_def)
  have "n < 2 ^ 64" using assms(3,4) by (auto simp: holds_blob_def)
  from download_answer [OF assms(3) blob_call_range [OF req(1) this] assms(4)]
  show ?thesis
    using req route range_no_length by (simp add: handler_answer_def call_body_def blob_call_def MAX_BLOB_BYTES_def)
qed

lemma blob_session:
  assumes "handler_answer env (blob_call blob_id n) = Some (status, b)"
  obtains fs where "run_tunnel_session env BlobLeg None
      [Comes [ReqHead BLOB_REQUEST_ID ''GET'' (PATH_BLOBS @ ''/'' @ blob_id) (range_headers n) None]] = (Finished, fs)"
    "response_run BLOB_REQUEST_ID status None b fs"
proof -
  let ?c = "blob_call blob_id n"
  let ?s = "\<lparr>so_pending = [], so_events = [Comes [ReqHead BLOB_REQUEST_ID ''GET'' (PATH_BLOBS @ ''/'' @ blob_id)
      (range_headers n) None]]\<rparr>"
  let ?k = "\<lparr>sk_sent = [], sk_room = None\<rparr>"
  have frames: "request_frames BLOB_REQUEST_ID (ac_method ?c) (ac_path ?c) (ac_headers ?c) (ac_body ?c) =
      [ReqHead BLOB_REQUEST_ID ''GET'' (PATH_BLOBS @ ''/'' @ blob_id) (range_headers n) None]"
    by (simp add: blob_call_def request_frames_def declared_body_len_def)
  have b: "brings ?s (request_frames BLOB_REQUEST_ID (ac_method ?c) (ac_path ?c) (ac_headers ?c) (ac_body ?c)) []"
    unfolding frames brings_def
    by (intro exI [of _ "[[ReqHead BLOB_REQUEST_ID ''GET'' (PATH_BLOBS @ ''/'' @ blob_id) (range_headers n) None]]"]) simp
  have pos: "sk_room ?k = None" "0 < BLOB_REQUEST_ID" by (simp_all add: BLOB_REQUEST_ID_def)
  obtain fs k' s' where turn:
      "session_turn env None 0 0 ?k ?s = (if None \<noteq> (None :: tunnel_reuse option) then GoesOn (Suc 0) BLOB_REQUEST_ID
        else Stops Finished, k', s')"
      "sk_sent k' = sk_sent ?k @ fs" "response_run BLOB_REQUEST_ID status None b fs"
    by (rule session_turn_answers [OF assms pos(2,1) b, where served = 0 and reuse = None])
  have "run_tunnel_session env BlobLeg None (so_events ?s) = (Finished, fs)"
    using turn(1,2) by (simp add: run_tunnel_session_def reuse_for_def session_loop.simps [of env None 0 0])
  then show thesis using that turn(3) by simp
qed

lemma append_part_append [simp]: "append_part b (append_part a f) = append_part (a @ b) f"
  by (cases "pf_part f") (simp_all add: append_part_def)

lemma download_loop_delivers:
  assumes "delivers leg fs []" and "body_run BLOB_REQUEST_ID expected fs"
  shows "\<exists>leg'. download_loop sha ff hex None expected hashed f leg =
    (let (x, f') = finalize_download sha ff hex (hashed @ body_bytes fs) (append_part (body_bytes fs) f) in (Some x, f', leg'))"
  using assms
proof (induction fs arbitrary: expected hashed f leg)
  case Nil
  then show ?case by simp
next
  case (Cons g fs)
  obtain leg1 where nxt: "next_response False leg = (Done g, leg1)" "delivers leg1 fs []"
    using next_response_delivers [OF Cons.prems(1)] by blast
  obtain d lst where g: "g = RespBody BLOB_REQUEST_ID expected d lst" using Cons.prems(2) by (cases g; cases fs) auto
  show ?case
  proof (cases fs)
    case Nil
    then have lst using Cons.prems(2) g by simp
    obtain x f' where fin: "finalize_download sha ff hex (hashed @ d) (append_part d f) = (x, f')" by fastforce
    have "download_loop sha ff hex None expected hashed f leg =
        (Some x, f', case x of Inl _ \<Rightarrow> leg1 | Inr _ \<Rightarrow> leg_close leg1)"
      using nxt(1) g \<open>lst\<close> fin by (subst download_loop.simps) (auto split: sum.splits)
    then show ?thesis using fin g Nil by auto
  next
    case (Cons g' fs')
    then have run: "\<not> lst" "body_run BLOB_REQUEST_ID (expected + length d) fs" using Cons.prems(2) g by simp_all
    have "download_loop sha ff hex None expected hashed f leg =
        download_loop sha ff hex None (expected + length d) (hashed @ d) (append_part d f) leg1"
      using nxt(1) g run(1) by (subst download_loop.simps) simp
    then show ?thesis using Cons.IH [OF nxt(2) run(2), of "hashed @ d" "append_part d f"] g by simp
  qed
qed

lemma untimed_arrivals:
  "untimed (leg_new \<lparr>tw_sent = [], tw_room = None, tw_events = map Arrives gs, tw_closed = False\<rparr>) =
     leg_new \<lparr>tw_sent = [], tw_room = None, tw_events = map Arrives gs, tw_closed = False\<rparr>"
  by (simp add: untimed_def leg_new_def comp_def)

text \<open>A download is its head judged and its body run, whatever the grouping.\<close>

lemma download_from_gateway_body:
  assumes "handler_answer env (blob_call blob_id (length p)) = Some (status, b)"
    and "p = (case pf_part f of Some p \<Rightarrow> p | None \<Rightarrow> [])" and "\<forall>fs. concat (down fs) = fs"
  shows "\<exists>len bs leg. b = body_bytes bs \<and> (if len = Some 0 then bs = [] else body_run BLOB_REQUEST_ID 0 bs) \<and>
    delivers leg bs [] \<and>
    download_from_gateway env sha no_faults down blob_id hex f =
       (let (r, f', _) = download_body sha no_faults hex p \<lparr>rh_status = status, rh_body_len = len, rh_reuse = None\<rparr> f leg
        in (r, f'))"
proof -
  let ?n = "length p"
  obtain fs where run: "run_tunnel_session env BlobLeg None
      [Comes [ReqHead BLOB_REQUEST_ID ''GET'' (PATH_BLOBS @ ''/'' @ blob_id) (range_headers ?n) None]] = (Finished, fs)"
      "response_run BLOB_REQUEST_ID status None b fs"
    by (rule blob_session [OF assms(1)])
  obtain hs len bs where fs: "fs = RespHead BLOB_REQUEST_ID status hs len None # bs" "b = body_bytes bs"
      "if len = Some 0 then bs = [] else body_run BLOB_REQUEST_ID 0 bs"
    using run(2) by (auto simp: response_run_def)
  let ?leg = "leg_new \<lparr>tw_sent = [], tw_room = None, tw_events = map Arrives (down fs), tw_closed = False\<rparr>"
  let ?req = "ReqHead BLOB_REQUEST_ID ''GET'' (PATH_BLOBS @ ''/'' @ blob_id) (range_headers ?n) None"
  obtain leg1 where send: "leg_send ?leg ?req = (Inr (), leg1)" "delivers leg1 fs []"
    using assms(3) by (auto simp: leg_send_def leg_new_def delivers_def)
  obtain leg2 where nxt: "next_response True leg1 = (Done (RespHead BLOB_REQUEST_ID status hs len None), leg2)" "delivers leg2 bs []"
    using next_response_delivers send(2) fs(1) by metis
  have head: "expect_response_head leg1 BLOB_REQUEST_ID = (Done \<lparr>rh_status = status, rh_body_len = len, rh_reuse = None\<rparr>, leg2)"
    using nxt(1) by (simp add: expect_response_head_def judge_head_def check_id_def)
  have part: "hash_existing_part no_faults f = Inr p"
    using assms(2) by (simp add: hash_existing_part_def no_faults_def split: option.splits)
  have n: "(case pf_part f of Some p \<Rightarrow> length p | None \<Rightarrow> 0) = ?n" using assms(2) by (simp split: option.splits)
  have "download_from_gateway env sha no_faults down blob_id hex f =
       (let (r, f', _) = download_body sha no_faults hex p \<lparr>rh_status = status, rh_body_len = len, rh_reuse = None\<rparr> f leg2
        in (r, f'))"
    unfolding download_from_gateway_def n
    using run(1) send(1) head part by (simp add: download_to_path_def untimed_arrivals download_on_leg_def)
  then show ?thesis using fs(2,3) nxt(2) by blast
qed

text \<open>C28: A download that starts from nothing publishes exactly the bytes the gateway's store holds, however the
  store cuts its reader and the transport groups its frames.\<close>

theorem download_fetches_the_blob:
  assumes "blob_gateway env stk store st" and "gateway_accepts env blob_id 0" and "holds_blob store st blob_id content"
    and "bytes_sha256_hex sha content = hex" and "pf_part f = None" and "\<forall>fs. concat (down fs) = fs"
  shows "download_from_gateway env sha no_faults down blob_id hex f =
    (Some (Inr ()), f\<lparr>pf_part := None, pf_file := Some content\<rparr>)"
proof -
  have "handler_answer env (blob_call blob_id 0) = Some (200, content)"
    using blob_handler_answer [OF assms(1-3)] by simp
  then obtain len bs leg where b: "content = body_bytes bs" "if len = Some 0 then bs = [] else body_run BLOB_REQUEST_ID 0 bs"
      "delivers leg bs []" "download_from_gateway env sha no_faults down blob_id hex f =
       (let (r, f', _) = download_body sha no_faults hex [] \<lparr>rh_status = 200, rh_body_len = len, rh_reuse = None\<rparr> f leg
        in (r, f'))"
    using download_from_gateway_body [of env blob_id "[]" 200 content f down sha hex] assms(5,6) by auto
  have fin: "finalize_download sha no_faults hex content (f\<lparr>pf_part := Some content\<rparr>) =
      (Inr (), f\<lparr>pf_part := None, pf_file := Some content\<rparr>)"
    using assms(4) by (simp add: finalize_download_def no_faults_def)
  show ?thesis
  proof (cases "len = Some 0")
    case True
    then have "content = []" using b(1,2) by simp
    then show ?thesis
      using b(4) True fin assms(5) by (simp add: download_body_def open_part_append_def no_faults_def)
  next
    case False
    then obtain leg' where "download_loop sha no_faults hex None 0 [] (f\<lparr>pf_part := Some []\<rparr>) leg =
        (Some (Inr ()), f\<lparr>pf_part := None, pf_file := Some content\<rparr>, leg')"
      using download_loop_delivers [OF b(3), of 0 sha no_faults hex "[]" "f\<lparr>pf_part := Some []\<rparr>"] b(1,2) fin
      by (auto simp: append_part_def)
    then show ?thesis
      using b(4) False assms(5) by (simp add: download_body_def open_part_append_def) (simp add: no_faults_def)
  qed
qed

text \<open>C29: A download that finds part of the blob on disk asks for the rest, is sent the rest from offset zero of the
  answer, expects it at the offset of the blob, and fails: it never resumes, and throws away the part it had.\<close>

theorem download_never_resumes:
  assumes "blob_gateway env stk store st" and "gateway_accepts env blob_id (length p)" and "holds_blob store st blob_id content"
    and "pf_part f = Some p" and "p \<noteq> []" and "length p < length content" and "\<forall>fs. concat (down fs) = fs"
  shows "download_from_gateway env sha no_faults down blob_id hex f =
    (Some (Inl (BodyOffset 0 (length p))), f\<lparr>pf_part := None\<rparr>)"
proof -
  have ans: "handler_answer env (blob_call blob_id (length p)) = Some (206, drop (length p) content)"
    using blob_handler_answer [OF assms(1-3)] assms(5,6) by simp
  have part: "p = (case pf_part f of Some p \<Rightarrow> p | None \<Rightarrow> [])" using assms(4) by simp
  obtain len bs leg where b: "drop (length p) content = body_bytes bs"
      "if len = Some 0 then bs = [] else body_run BLOB_REQUEST_ID 0 bs" "delivers leg bs []"
      "download_from_gateway env sha no_faults down blob_id hex f =
       (let (r, f', _) = download_body sha no_faults hex p \<lparr>rh_status = 206, rh_body_len = len, rh_reuse = None\<rparr> f leg
        in (r, f'))"
    using download_from_gateway_body [OF ans part assms(7), of sha hex] by blast
  have len: "len \<noteq> Some 0" using b(1,2) assms(6) by auto
  obtain d lst bs' where bs: "bs = RespBody BLOB_REQUEST_ID 0 d lst # bs'"
  proof (cases bs)
    case Nil
    then show thesis using b(2) len by simp
  next
    case (Cons g gs)
    then show thesis using that b(2) len by (cases g; cases gs) auto
  qed
  obtain leg1 where "next_response False leg = (Done (RespBody BLOB_REQUEST_ID 0 d lst), leg1)"
    using next_response_delivers b(3) bs by metis
  then have "download_loop sha no_faults hex None (length p) p (f\<lparr>pf_part := Some p\<rparr>) leg =
      (Some (Inl (BodyOffset 0 (length p))), f\<lparr>pf_part := None\<rparr>, leg1)"
    using assms(5) by (subst download_loop.simps) (simp add: remove_part_def)
  then show ?thesis
    using b(4) len assms(4) by (simp add: download_body_def open_part_append_def) (simp add: no_faults_def)
qed

section \<open>Concrete transfers\<close>

definition halves :: "byte list \<Rightarrow> byte list list" where
  "halves bs = [take 1 bs, drop 1 bs]"

lemma halves_content: "body_content (map Inr (halves bs)) = Some bs"
  unfolding halves_def list.map body_content.simps sum.case option.map append_Nil2 append_take_drop_id by (rule refl)

definition sample_store :: "unit blob_store" where
  "sample_store = \<lparr>bs_stat = (\<lambda>_ _. Inr \<lparr>bm_mime = ''image/png'', bm_size = 3\<rparr>),
     bs_open_at = (\<lambda>_ _ n. Inr (map Inr (halves (drop n [1, 2, 3])))),
     bs_put_stream = (\<lambda>st _ _ _ _. (Inl (StorageOther ''read only''), st)), bs_delete = (\<lambda>st _. st)\<rparr>"

definition sample_stack :: blob_stack where
  "sample_stack = \<lparr>bk_check = (\<lambda>_ _ _. Inr CheckApproved), bk_value_ok = (\<lambda>_. True), bk_upload_json = map of_char,
     bk_pairing_json = map of_char\<rparr>"

definition sample_blob_env :: http_env where
  "sample_blob_env = sample_env\<lparr>he_routes := (\<lambda>req _.
     download sample_stack sample_store () (drop (length PATH_BLOBS + 1) (fw_path req)) (fw_headers req))\<rparr>"

definition sample_blob_id :: string where
  "sample_blob_id = ''sha256:00.ab''"

lemma forward_request_path: "build_forward_request env h = Inr req \<Longrightarrow> fw_path req = rq_path h"
  by (auto simp: build_forward_request_def Let_def split: option.splits sum.splits if_splits)

lemma sample_blob_gateway: "blob_gateway sample_blob_env sample_stack sample_store ()"
proof -
  have "fw_path req = PATH_BLOBS @ ''/'' @ blob_id"
    if "build_forward_request sample_blob_env (call_head 0 (blob_call blob_id n)) = Inr req" for blob_id n req
    using forward_request_path [OF that] by (simp add: call_head_def blob_call_def)
  note path = this
  show ?thesis
    unfolding blob_gateway_def
  proof (intro allI impI conjI)
    fix blob_id n req
    assume "build_forward_request sample_blob_env (call_head 0 (blob_call blob_id n)) = Inr req"
    from path [OF this] show "he_hangs_up sample_blob_env req = None"
        "he_routes sample_blob_env req [] = download sample_stack sample_store () blob_id (fw_headers req)"
      by (simp_all add: sample_blob_env_def sample_env_def)
  qed
qed

lemma sample_holds: "holds_blob sample_store () sample_blob_id [1, 2, 3]"
  unfolding holds_blob_def sample_store_def blob_store.simps using halves_content by auto

lemma decimal_one: "decimal (Suc 0) = ''1''"
  by code_simp

lemma sample_accepts: "gateway_accepts sample_blob_env sample_blob_id 0" "gateway_accepts sample_blob_env sample_blob_id 1"
  by (simp_all add: gateway_accepts_def sample_blob_env_def sample_env_def sample_blob_id_def blob_call_def range_headers_def
      HEADER_RANGE_def PATH_BLOBS_def judged decimal_one Let_def)

theorem download_fetches_the_blob_witness:
  "download_from_gateway sample_blob_env (\<lambda>_. [0]) no_faults (map (\<lambda>f. [f])) sample_blob_id ''00''
     \<lparr>pf_part = None, pf_file = None\<rparr> = (Some (Inr ()), \<lparr>pf_part = None, pf_file = Some [1, 2, 3]\<rparr>)"
  using download_fetches_the_blob [OF sample_blob_gateway sample_accepts(1) sample_holds, of "\<lambda>_. [0]" "''00''"
      "\<lparr>pf_part = None, pf_file = None\<rparr>" "map (\<lambda>f. [f])"]
  by (simp add: bytes_sha256_hex_def LOWER_HEX_DIGITS_def concat_map_singleton)

theorem download_never_resumes_witness:
  "download_from_gateway sample_blob_env (\<lambda>_. [0]) no_faults (\<lambda>fs. [fs]) sample_blob_id ''00''
     \<lparr>pf_part = Some [1], pf_file = None\<rparr> = (Some (Inl (BodyOffset 0 1)), \<lparr>pf_part = None, pf_file = None\<rparr>)"
  using download_never_resumes [of sample_blob_env sample_stack sample_store "()" sample_blob_id "[1]" "[1, 2, 3]"
      "\<lparr>pf_part = Some [1], pf_file = None\<rparr>" "\<lambda>fs. [fs]" "\<lambda>_. [0]" "''00''"] sample_blob_gateway sample_accepts(2) sample_holds
  by simp

text \<open>A gateway that sends one byte, to a phone whose digests are all zero.\<close>

definition zero_id :: string where
  "zero_id = ''sha256:'' @ replicate 64 (CHR ''0'') @ ''.ab''"

definition one_byte_leg :: leg_io where
  "one_byte_leg = leg_new \<lparr>tw_sent = [], tw_room = None,
     tw_events = [Overdue FirstByte, Arrives [RespHead 1 200 [] (Some 1) None, RespBody 1 0 [7] True]], tw_closed = False\<rparr>"

lemma split_on_first: "c \<notin> set w \<Longrightarrow> split_on c (w @ c # rest) = w # split_on c rest"
  by (induction w) auto

lemma zero_digest: "bytes_sha256_hex (\<lambda>_. replicate 32 0) bs = replicate 64 (CHR ''0'')"
proof -
  have "encode_lower_hex (replicate n 0) = replicate (2 * n) (CHR ''0'')" for n
    by (induction n) (simp_all add: LOWER_HEX_DIGITS_def)
  from this [of 32] show ?thesis by (simp add: bytes_sha256_hex_def)
qed

lemma zero_entry: "blob_id_sha256_hex zero_id = Some (replicate 64 (CHR ''0''))" "cache_entry zero_id = Inr (replicate 64 (CHR ''0''))"
proof -
  have "strip_prefix ''sha256:'' zero_id = Some (replicate 64 (CHR ''0'') @ ''.ab'')"
    unfolding zero_id_def by (rule strip_prefix_append)
  then show id: "blob_id_sha256_hex zero_id = Some (replicate 64 (CHR ''0''))"
    unfolding blob_id_sha256_hex_def by (simp add: split_on_first [of "CHR ''.''" "replicate 64 (CHR ''0'')" "''ab''", simplified])
  have "is_sha256_hex (replicate 64 (CHR ''0''))"
    by (simp add: is_sha256_hex_def list_all_iff is_ascii_digit_def char_code_def)
  then show "cache_entry zero_id = Inr (replicate 64 (CHR ''0''))" using id by (simp add: cache_entry_def)
qed

lemma one_byte_download:
  obtains cache' where "read_or_download_blob_bytes (\<lambda>_. replicate 32 0) no_faults True (Inr one_byte_leg) zero_id
     (\<lambda>_. \<lparr>pf_part = None, pf_file = None\<rparr>) = (Some (Inr [7]), cache')"
proof -
  have "download_to_path (\<lambda>_. replicate 32 0) no_faults True (Inr one_byte_leg) zero_id (replicate 64 (CHR ''0''))
      \<lparr>pf_part = None, pf_file = None\<rparr> = (Some (Inr ()), \<lparr>pf_part = None, pf_file = Some [7]\<rparr>)"
    by (simp add: download_to_path_def download_on_leg_def download_body_def untimed_def one_byte_leg_def leg_new_def
        hash_existing_part_def open_part_append_def no_faults_def leg_send_def expect_response_head_def next_response_def
        judge_head_def check_id_def BLOB_REQUEST_ID_def download_loop.simps finalize_download_def zero_digest append_part_def
        leg_close_def)
  then show thesis
    using that zero_entry by (simp add: read_or_download_blob_bytes_def read_cached_def no_faults_def)
qed

theorem blob_bytes_have_their_digest_witness:
  "\<exists>cache'. blob_id_sha256_hex zero_id = Some (bytes_sha256_hex (\<lambda>_. replicate 32 0) [7]) \<and> cache_ok (\<lambda>_. replicate 32 0) cache'"
proof -
  obtain cache' where "read_or_download_blob_bytes (\<lambda>_. replicate 32 0) no_faults True (Inr one_byte_leg) zero_id
     (foldl (cache_step (\<lambda>_. replicate 32 0)) (\<lambda>_. \<lparr>pf_part = None, pf_file = None\<rparr>) []) = (Some (Inr [7]), cache')"
    using one_byte_download by auto
  from blob_bytes_have_their_digest [OF _ this] show ?thesis by auto
qed

end
