(* ===== verification/PeerLatch.thy ===== *)
theory PeerLatch
  imports PunchRendezvous
begin

text \<open>
  \<open>crates/carrier/src/rendezvous.rs\<close> and \<open>burst.rs\<close>: one side's rendezvous for one punch, shared by gateway and
  phone, and the pacing of its punches. What \<open>select!\<close> picks is an event: the deadline, a reply or the end of the
  replies, or a tick that sends the \<open>Register\<close> again.
\<close>

section \<open>The rule of a punch\<close>

definition REGISTER_RETRY_INTERVAL :: duration where
  "REGISTER_RETRY_INTERVAL = 250 * 1000000"

definition is_loopback :: "ip_addr \<Rightarrow> bool" where
  "is_loopback ip =
     (case ip of
        V4 a \<Rightarrow> drop_bit 24 a = 127
      | V6 a \<Rightarrow> a = ipv6_localhost)"

definition own_addresses :: "ip_addr list \<Rightarrow> ip_addr list" where
  "own_addresses addresses = filter (\<lambda>ip. \<not> is_loopback ip) (map canonical_ip addresses)"

definition own_contains :: "ip_addr list \<Rightarrow> ip_addr \<Rightarrow> bool" where
  "own_contains own ip \<longleftrightarrow> canonical_ip ip \<in> set own"

record received_probe =
  rp_datagram :: probe_datagram
  rp_source :: "ip_addr \<times> 16 word"
  rp_local_ip :: "ip_addr option"

datatype peer_event = EvRegistered | Latched socket_addr_v4 | Repeated | Conflict | Ignored

record peer_latch =
  la_punch_id :: punch_id
  la_rendezvous :: "ip_addr \<times> 16 word"
  la_key :: rendezvous_key
  la_policy :: address_policy
  la_own :: "ip_addr list"
  la_latched :: "socket_addr_v4 option"

definition latch_new ::
    "punch_id \<Rightarrow> socket_addr_v4 \<Rightarrow> rendezvous_key \<Rightarrow> address_policy \<Rightarrow> ip_addr list \<Rightarrow> peer_latch" where
  "latch_new pid rendezvous key policy own =
     \<lparr>la_punch_id = pid, la_rendezvous = (V4 (fst rendezvous), snd rendezvous), la_key = key, la_policy = policy,
      la_own = own, la_latched = None\<rparr>"

definition observe :: "mac \<Rightarrow> peer_latch \<Rightarrow> received_probe \<Rightarrow> peer_event \<times> peer_latch" where
  "observe hmac l probe =
     (if rp_source probe \<noteq> la_rendezvous l \<or> \<not> verifies hmac (la_key l) (rp_datagram probe) then (Ignored, l)
      else case rp_datagram probe of
        Registered pid _ \<Rightarrow> (if pid = la_punch_id l then EvRegistered else Ignored, l)
      | Peer pid srflx _ \<Rightarrow>
          if pid \<noteq> la_punch_id l then (Ignored, l)
          else if snd srflx = 0 \<or> public_v4 (la_policy l) (V4 (fst srflx)) = None \<or> own_contains (la_own l) (V4 (fst srflx))
          then (Ignored, l)
          else (case la_latched l of
                  None \<Rightarrow> (Latched srflx, l\<lparr>la_latched := Some srflx\<rparr>)
                | Some latched \<Rightarrow> (if latched = srflx then Repeated else Conflict, l))
      | _ \<Rightarrow> (Ignored, l))"

section \<open>A registration\<close>

datatype register_outcome = PeerFound socket_addr_v4 | NoPeer bool

record registration =
  rg_register :: probe_datagram
  rg_rendezvous :: socket_addr_v4
  rg_latch :: peer_latch
  rg_registered :: bool

definition registration_new ::
    "mac \<Rightarrow> punch_id \<Rightarrow> punch_role \<Rightarrow> rendezvous_key \<Rightarrow> socket_addr_v4 \<Rightarrow> address_policy \<Rightarrow> ip_addr list \<Rightarrow>
     registration option" where
  "registration_new hmac pid r key rendezvous policy own =
     (if own_contains own (V4 (fst rendezvous)) then None
      else case key_register hmac key pid r of
        None \<Rightarrow> None
      | Some reg \<Rightarrow>
          Some \<lparr>rg_register = reg, rg_rendezvous = rendezvous, rg_latch = latch_new pid rendezvous key policy own,
                rg_registered = False\<rparr>)"

definition no_peer :: "registration \<Rightarrow> register_outcome" where
  "no_peer g = NoPeer (rg_registered g)"

datatype select_event = Expired | RepliesEnd | Reply received_probe | ResendTick

text \<open>
  The loop of \<open>until_peer\<close>: its outcome, what it left of the events, the \<open>Register\<close>s it sent or tried to send. An
  outcome of \<open>None\<close> is a loop still waiting.
\<close>

fun until_peer ::
    "mac \<Rightarrow> registration \<Rightarrow> select_event list \<Rightarrow> register_outcome option \<times> select_event list \<times> probe_datagram list \<times> registration" where
  "until_peer hmac g [] = (None, [], [], g)"
| "until_peer hmac g (Expired # evs) = (Some (no_peer g), evs, [], g)"
| "until_peer hmac g (RepliesEnd # evs) = (Some (no_peer g), evs, [], g)"
| "until_peer hmac g (Reply probe # evs) =
     (case observe hmac (rg_latch g) probe of
        (Latched srflx, l) \<Rightarrow> (Some (PeerFound srflx), evs, [], g\<lparr>rg_latch := l\<rparr>)
      | (EvRegistered, l) \<Rightarrow> until_peer hmac (g\<lparr>rg_latch := l, rg_registered := True\<rparr>) evs
      | (_, l) \<Rightarrow> until_peer hmac (g\<lparr>rg_latch := l\<rparr>) evs)"
| "until_peer hmac g (ResendTick # evs) =
     (let (x, evs, sent, g') = until_peer hmac g evs in (x, evs, rg_register g # sent, g'))"

text \<open>The loop of \<open>watch\<close>, which has no tick of its own.\<close>

fun watch :: "mac \<Rightarrow> registration \<Rightarrow> select_event list \<Rightarrow> registration" where
  "watch hmac g (Reply probe # evs) = watch hmac (g\<lparr>rg_latch := snd (observe hmac (rg_latch g) probe)\<rparr>) evs"
| "watch hmac g (ResendTick # evs) = watch hmac g evs"
| "watch hmac g _ = g"

section \<open>The pace of a burst\<close>

definition PUNCH_BURST :: nat where
  "PUNCH_BURST = 5"

definition PUNCH_INTERVAL :: duration where
  "PUNCH_INTERVAL = 200 * 1000000"

record punch_burst =
  pb_released :: nat
  pb_next_at :: "instant option"

definition burst_new :: punch_burst where
  "burst_new = \<lparr>pb_released = 0, pb_next_at = None\<rparr>"

text \<open>
  A call made at \<open>now\<close> that is not cancelled goes on at the later of \<open>now\<close> and the wake-up it waits for, and reads
  the clock \<open>late\<close> after that.
\<close>

definition next_round :: "punch_burst \<Rightarrow> instant \<Rightarrow> duration \<Rightarrow> (nat \<times> instant) option \<times> punch_burst" where
  "next_round b now late =
     (if pb_released b \<ge> PUNCH_BURST then (None, b)
      else
        let woken = (case pb_next_at b of Some at' \<Rightarrow> max now at' | None \<Rightarrow> now) + late
        in (Some (pb_released b, woken),
            \<lparr>pb_released = pb_released b + 1, pb_next_at = Some (woken + PUNCH_INTERVAL)\<rparr>))"

section \<open>The latch\<close>

text \<open>The mapping a probe names, when it is a \<open>Peer\<close> that counts for a punch.\<close>

definition peer_of :: "mac \<Rightarrow> peer_latch \<Rightarrow> received_probe \<Rightarrow> socket_addr_v4 option" where
  "peer_of hmac l probe =
     (case rp_datagram probe of
        Peer pid srflx _ \<Rightarrow>
          if rp_source probe = la_rendezvous l \<and> verifies hmac (la_key l) (rp_datagram probe) \<and> pid = la_punch_id l \<and>
             snd srflx \<noteq> 0 \<and> public_v4 (la_policy l) (V4 (fst srflx)) \<noteq> None \<and> \<not> own_contains (la_own l) (V4 (fst srflx))
          then Some srflx else None
      | _ \<Rightarrow> None)"

lemma peer_of_latched [simp]: "peer_of hmac (l\<lparr>la_latched := x\<rparr>) probe = peer_of hmac l probe"
  by (simp add: peer_of_def split: probe_datagram.splits)

lemma observe_state:
  "snd (observe hmac l probe) =
     (case (la_latched l, peer_of hmac l probe) of (None, Some a) \<Rightarrow> l\<lparr>la_latched := Some a\<rparr> | _ \<Rightarrow> l)"
  by (auto simp: observe_def peer_of_def split: probe_datagram.splits option.splits)

lemma observe_event:
  "fst (observe hmac l probe) =
     (case peer_of hmac l probe of
        Some a \<Rightarrow> (case la_latched l of None \<Rightarrow> Latched a | Some b \<Rightarrow> if b = a then Repeated else Conflict)
      | None \<Rightarrow> (case rp_datagram probe of
          Registered pid _ \<Rightarrow>
            if rp_source probe = la_rendezvous l \<and> verifies hmac (la_key l) (rp_datagram probe) \<and> pid = la_punch_id l
            then EvRegistered else Ignored
        | _ \<Rightarrow> Ignored))"
  by (auto simp: observe_def peer_of_def split: probe_datagram.splits option.splits)

lemma observe_Latched:
  "observe hmac l probe = (Latched a, l') \<Longrightarrow> la_latched l = None \<and> peer_of hmac l probe = Some a \<and> la_latched l' = Some a"
  using observe_event [of hmac l probe] observe_state [of hmac l probe]
  by (auto split: option.splits probe_datagram.splits if_splits)

definition first_of :: "'a list \<Rightarrow> 'a option" where
  "first_of xs = (case xs of [] \<Rightarrow> None | x # _ \<Rightarrow> Some x)"

lemma latch_run:
  "la_latched (foldl (\<lambda>l p. snd (observe hmac l p)) l ps) =
     (case la_latched l of Some a \<Rightarrow> Some a | None \<Rightarrow> first_of (List.map_filter (peer_of hmac l) ps))"
proof (induction ps arbitrary: l)
  case Nil
  then show ?case by (simp add: first_of_def map_filter_simps split: option.splits)
next
  case (Cons p ps)
  have peers: "peer_of hmac (snd (observe hmac l p)) q = peer_of hmac l q" for q
    by (simp add: observe_state split: option.splits)
  show ?case
    using Cons.IH [of "snd (observe hmac l p)"]
    by (auto simp: peers observe_state map_filter_simps first_of_def split: option.splits)
qed

text \<open>Whatever datagrams reach a side in whatever order, the peer it latches is the first that came from the
  rendezvous address, named this punch, was tagged under the role's key and mapped to a public IPv4 address with a port
  that is none of the side's own; no later one replaces it.\<close>

lemma latch_is_the_first_valid_peer:
  shows "la_latched (foldl (\<lambda>l p. snd (observe hmac l p)) (latch_new pid rendezvous key policy own) ps) =
    first_of (List.map_filter (peer_of hmac (latch_new pid rendezvous key policy own)) ps)"
  by (simp add: latch_run) (simp add: latch_new_def)

text \<open>How a registration ends.\<close>

lemma until_peer_reply:
  assumes "la_latched (rg_latch g) = None" and "peer_of hmac (rg_latch g) probe = None"
  obtains reg where "until_peer hmac g (Reply probe # evs) = until_peer hmac (g\<lparr>rg_registered := reg\<rparr>) evs"
proof -
  have "snd (observe hmac (rg_latch g) probe) = rg_latch g" by (simp add: observe_state assms)
  moreover have "fst (observe hmac (rg_latch g) probe) \<in> {EvRegistered, Ignored}"
    using assms by (auto simp: observe_event split: probe_datagram.splits)
  ultimately have "observe hmac (rg_latch g) probe \<in> {(EvRegistered, rg_latch g), (Ignored, rg_latch g)}"
    by (cases "observe hmac (rg_latch g) probe") auto
  then show thesis using that [of True] that [of "rg_registered g"] by auto
qed

lemma until_peer_found:
  assumes "until_peer hmac g evs = (Some (PeerFound a), rest, sent, g')" and "la_latched (rg_latch g) = None"
  shows "\<exists>pre probe. evs = pre @ Reply probe # rest \<and> peer_of hmac (rg_latch g) probe = Some a \<and>
    (\<forall>q. Reply q \<in> set pre \<longrightarrow> peer_of hmac (rg_latch g) q = None) \<and> Expired \<notin> set pre \<and> RepliesEnd \<notin> set pre \<and>
    la_latched (rg_latch g') = Some a"
  using assms
proof (induction evs arbitrary: g sent)
  case Nil
  then show ?case by simp
next
  case (Cons v evs)
  have later: ?case
    if later_run: "until_peer hmac g1 evs = (Some (PeerFound a), rest, sent1, g')"
      and same: "rg_latch g1 = rg_latch g"
      and go_on: "v \<noteq> Expired" "v \<noteq> RepliesEnd" "\<And>q. v = Reply q \<Longrightarrow> peer_of hmac (rg_latch g) q = None" for g1 sent1
  proof -
    have "la_latched (rg_latch g1) = None" using Cons.prems(2) same by simp
    from Cons.IH [OF later_run this] obtain pre probe where "evs = pre @ Reply probe # rest"
        "peer_of hmac (rg_latch g) probe = Some a"
        "\<forall>q. Reply q \<in> set pre \<longrightarrow> peer_of hmac (rg_latch g) q = None" "Expired \<notin> set pre" "RepliesEnd \<notin> set pre"
        "la_latched (rg_latch g') = Some a"
      using same by auto
    then show ?thesis using go_on by (intro exI [of _ "v # pre"] exI [of _ probe]) auto
  qed
  show ?case
  proof (cases v)
    case (Reply probe)
    show ?thesis
    proof (cases "peer_of hmac (rg_latch g) probe")
      case None
      obtain reg where "until_peer hmac g (Reply probe # evs) = until_peer hmac (g\<lparr>rg_registered := reg\<rparr>) evs"
        using until_peer_reply [OF Cons.prems(2) None] by blast
      then show ?thesis using later [of "g\<lparr>rg_registered := reg\<rparr>" sent] Cons.prems(1) Reply None by simp
    next
      case (Some b)
      then obtain l where l: "observe hmac (rg_latch g) probe = (Latched b, l)" "la_latched l = Some b"
        using observe_event [of hmac "rg_latch g" probe] observe_state [of hmac "rg_latch g" probe] Cons.prems(2)
        by (cases "observe hmac (rg_latch g) probe") simp
      then show ?thesis
        using Cons.prems(1) Reply Some by (intro exI [of _ "[]"] exI [of _ probe]) auto
    qed
  next
    case ResendTick
    then obtain sent1 where "until_peer hmac g evs = (Some (PeerFound a), rest, sent1, g')"
      using Cons.prems(1) by (auto split: prod.splits)
    then show ?thesis using later [of g] ResendTick by simp
  qed (use Cons.prems in \<open>simp_all add: no_peer_def\<close>)
qed

lemma until_peer_sent: "until_peer hmac g evs = (x, rest, sent, g') \<Longrightarrow> set sent \<subseteq> {rg_register g}"
proof (induction hmac g evs arbitrary: sent rule: until_peer.induct)
  case (4 hmac g probe evs)
  then show ?case by (auto split: prod.splits peer_event.splits)
next
  case (5 hmac g evs)
  then show ?case by (auto split: prod.splits)
qed auto

section \<open>Two sides and the relay between them\<close>

text \<open>C16: When a side latches a mapping out of an answer the relay gave on its rendezvous socket, the answer was to a
  \<open>Register\<close> of one role of that very punch, and the mapping is where a \<open>Register\<close> of the other role, tagged under the
  other role's key, had come from: the two sides of one punch find each other and nobody else.\<close>

theorem sides_find_each_other:
  assumes "s = history hmac t ops"
    and "reply_to hmac policy (world s) bytes source now = (Some ans, w')" and "decode ans = Inr d"
    and "observe hmac l \<lparr>rp_datagram = d, rp_source = src, rp_local_ip = local_ip\<rparr> = (Latched srflx, l')"
  shows "\<exists>r p ks tg0 tg1. decode bytes = Inr (Register (la_punch_id l) r tg0) \<and>
    hm_get (live_punches (world s)) (la_punch_id l) = Some p \<and> pu_keys p = Some ks \<and>
    (Register (la_punch_id l) (other_role r) tg1, srflx) \<in> set (arrived s) \<and>
    verifies hmac (for_role ks (other_role r)) (Register (la_punch_id l) (other_role r) tg1) \<and>
    public_v4 (la_policy l) (V4 (fst srflx)) \<noteq> None \<and> \<not> own_contains (la_own l) (V4 (fst srflx)) \<and>
    la_latched l' = Some srflx"
proof -
  have peer: "peer_of hmac l \<lparr>rp_datagram = d, rp_source = src, rp_local_ip = local_ip\<rparr> = Some srflx" "la_latched l' = Some srflx"
    using observe_Latched [OF assms(4)] by simp_all
  then obtain tg where d: "d = Peer (la_punch_id l) srflx tg" "public_v4 (la_policy l) (V4 (fst srflx)) \<noteq> None"
      "\<not> own_contains (la_own l) (V4 (fst srflx))"
    by (auto simp: peer_of_def split: probe_datagram.splits if_splits)
  obtain pid r tg0 observed reply where reg: "decode bytes = Inr (Register pid r tg0)"
      "register_datagram hmac (world s) (Register pid r tg0) (observed, snd source) now = (Some reply, w')" "ans = encode reply"
    using assms(2)
    by (auto simp: reply_to_def split: sum.splits probe_datagram.splits ip_addr.splits if_splits prod.splits)
  have "datagram_ok (Register pid r tg0)" using reg(1) decode_iff by blast
  then have "decode (encode reply) = Inr reply" using register_reply_ok [OF reg(2)] decode_iff by blast
  then have "reply = Peer (la_punch_id l) srflx tg" using assms(3) reg(3) d(1) by simp
  from peer_reply_source [OF assms(1) reg(2) [unfolded this]] show ?thesis
    using reg(1) d(2,3) peer(2) by auto
qed

abbreviation sample_world :: punch_world where
  "sample_world \<equiv> world (history sample_mac 0 sample_registered)"

abbreviation sample_latch :: peer_latch where
  "sample_latch \<equiv> latch_new (sample_draws 0 0) (17301505, 7777) (for_role sample_keys Gateway) \<lparr>test_ranges = False\<rparr> []"

definition sample_answer :: probe_datagram where
  "sample_answer = Peer (sample_draws 0 0) (16909060, 5000) (1 # 50 # replicate 14 0)"

lemma sample_reply:
  "fst (reply_to sample_mac \<lparr>test_ranges = False\<rparr> sample_world (encode (sample_register Gateway)) (V4 84281096, 6000) 2) =
     Some (encode sample_answer)"
  by code_simp

lemma sample_answer_decodes: "decode (encode sample_answer) = Inr sample_answer"
  by code_simp

lemma sample_latches:
  "fst (observe sample_mac sample_latch
      \<lparr>rp_datagram = sample_answer, rp_source = (V4 17301505, 7777), rp_local_ip = None\<rparr>) = Latched (16909060, 5000)"
  by code_simp

theorem sides_find_each_other_witness:
  "\<exists>r tg1. (Register (sample_draws 0 0) r tg1, (16909060, 5000)) \<in> set (arrived (history sample_mac 0 sample_registered)) \<and>
    verifies sample_mac (for_role sample_keys r) (Register (sample_draws 0 0) r tg1)"
proof -
  obtain w' where r: "reply_to sample_mac \<lparr>test_ranges = False\<rparr> sample_world (encode (sample_register Gateway))
      (V4 84281096, 6000) 2 = (Some (encode sample_answer), w')"
    using sample_reply by (metis prod.collapse)
  obtain l where l: "observe sample_mac sample_latch
      \<lparr>rp_datagram = sample_answer, rp_source = (V4 17301505, 7777), rp_local_ip = None\<rparr> = (Latched (16909060, 5000), l)"
    using sample_latches by (metis prod.collapse)
  have keys: "map_option pu_keys (hm_get (live_punches sample_world) (sample_draws 0 0)) = Some (Some sample_keys)"
    by code_simp
  have "la_punch_id sample_latch = sample_draws 0 0" by (simp add: latch_new_def)
  from sides_find_each_other [OF refl r sample_answer_decodes l, unfolded this] obtain rl p ks tg1
    where p: "hm_get (live_punches sample_world) (sample_draws 0 0) = Some p" "pu_keys p = Some ks"
      and other: "(Register (sample_draws 0 0) (other_role rl) tg1, (16909060, 5000)) \<in> set (arrived (history sample_mac 0 sample_registered))"
        "verifies sample_mac (for_role ks (other_role rl)) (Register (sample_draws 0 0) (other_role rl) tg1)"
    by blast
  have "ks = sample_keys" using keys unfolding p(1) option.map p(2) by (simp only: option.inject)
  with other show ?thesis by blast
qed

section \<open>Bursts\<close>

lemma next_round_spaced:
  assumes "next_round b now late = (Some (i, at'), b')" and "0 \<le> late"
    and "next_round b' now' late' = (Some (j, at''), b'')" and "0 \<le> late'"
  shows "j = Suc i \<and> at' + PUNCH_INTERVAL \<le> at'' \<and> now \<le> at'"
  using assms by (auto simp: next_round_def Let_def split: if_splits option.splits)

end
