(* ===== verification/SkillNotices.thy ===== *)
theory SkillNotices
  imports ContextWire
begin

text \<open>
  What a session is told about its skills: the summaries of \<open>crates/skills/src/registry.rs\<close>, the listing and the reminder
  of \<open>render.rs\<close>, and the diff a changed listing is reported by (\<open>crates/context/src/prompts/line_diff.rs\<close> and
  \<open>skills_update.rs\<close>). The line diff of the \<open>similar\<close> crate and the escaping of one line by a regular expression are
  parameters; of the diff, only that it can be applied is ever assumed.
\<close>

section \<open>Summaries\<close>

datatype trust_level = Trusted | Installed | Untrusted

record skill_summary =
  ss_name :: string
  ss_command :: "string option"
  ss_description :: string
  ss_argument_hint :: "string option"
  ss_agent_invocable :: bool
  ss_channels :: "string list"
  ss_trust_level :: trust_level

definition allows_channel :: "string \<Rightarrow> skill_summary \<Rightarrow> bool" where
  "allows_channel channel s \<longleftrightarrow> ss_channels s = [] \<or> channel \<in> set (ss_channels s)"

section \<open>Listings\<close>

definition REMINDER_OPEN :: string where
  "REMINDER_OPEN = ''<system-reminder>'' @ newline"

definition REMINDER_CLOSE :: string where
  "REMINDER_CLOSE = newline @ ''</system-reminder>''"

definition REMINDER_HEADER :: string where
  "REMINDER_HEADER = ''The following skills are available for use with the Skill tool:'' @ newline @ newline"

definition REMINDER_EMPTY :: string where
  "REMINDER_EMPTY = ''No skills are currently available.''"

definition skill_line :: "(string \<Rightarrow> string) \<Rightarrow> skill_summary \<Rightarrow> string" where
  "skill_line one_line s =
     ''- '' @ ss_name s @ '': '' @ one_line (ss_description s)
     @ (case ss_argument_hint s of None \<Rightarrow> [] | Some hint \<Rightarrow> '' '' @ one_line hint)"

definition render_skill_listing :: "(string \<Rightarrow> string) \<Rightarrow> skill_summary list \<Rightarrow> string" where
  "render_skill_listing one_line ss = join newline (map (skill_line one_line) ss)"

definition render_skill_reminder :: "(string \<Rightarrow> string) \<Rightarrow> skill_summary list \<Rightarrow> string" where
  "render_skill_reminder one_line ss =
     REMINDER_OPEN
     @ (if ss = [] then REMINDER_EMPTY else REMINDER_HEADER @ render_skill_listing one_line ss)
     @ REMINDER_CLOSE"

text \<open>\<open>str::strip_suffix\<close>.\<close>

definition strip_end :: "string \<Rightarrow> string \<Rightarrow> string option" where
  "strip_end p s = map_option rev (strip_prefix (rev p) (rev s))"

definition skill_reminder_listing :: "string \<Rightarrow> string option" where
  "skill_reminder_listing reminder =
     Option.bind (strip_prefix REMINDER_OPEN reminder) (\<lambda>s. Option.bind (strip_end REMINDER_CLOSE s)
       (\<lambda>body. if body = REMINDER_EMPTY then Some [] else strip_prefix REMINDER_HEADER body))"

lemma strip_end_append [simp]: "strip_end p (s @ p) = Some s"
  by (simp add: strip_end_def)

text \<open>The listing read back from a reminder is the one it was rendered from.\<close>

lemma reminder_listing [simp]:
  "skill_reminder_listing (render_skill_reminder one_line ss) = Some (render_skill_listing one_line ss)"
proof -
  have "hd (REMINDER_HEADER @ t) \<noteq> hd REMINDER_EMPTY" for t by (simp add: REMINDER_HEADER_def REMINDER_EMPTY_def)
  then have "REMINDER_HEADER @ t \<noteq> REMINDER_EMPTY" for t by metis
  then show ?thesis
    by (simp add: skill_reminder_listing_def render_skill_reminder_def render_skill_listing_def)
qed

section \<open>Diffs\<close>

text \<open>A side is terminated only when it has content.\<close>

definition terminate_text :: "string \<Rightarrow> string" where
  "terminate_text s = (if s = [] then [] else s @ newline)"

definition unified_diff :: "(string \<Rightarrow> string \<Rightarrow> string) \<Rightarrow> string \<Rightarrow> string \<Rightarrow> string" where
  "unified_diff line_diff prior current = line_diff (terminate_text prior) (terminate_text current)"

text \<open>
  What is relied on of the line diff, and of texts whose last line is terminated only: it is empty exactly when the sides
  agree, and the new side can be made from the old one and the diff.
\<close>

definition applies :: "(string \<Rightarrow> string \<Rightarrow> string) \<Rightarrow> (string \<Rightarrow> string \<Rightarrow> string) \<Rightarrow> bool" where
  "applies line_diff patch \<longleftrightarrow>
     (\<forall>a b. let old = terminate_text a; new = terminate_text b
       in (line_diff old new = [] \<longleftrightarrow> old = new) \<and> patch old (line_diff old new) = new)"

text \<open>The text a reader who patches the terminated copy is left with.\<close>

definition patched :: "(string \<Rightarrow> string \<Rightarrow> string) \<Rightarrow> string \<Rightarrow> string \<Rightarrow> string" where
  "patched patch prior diff = butlast (patch (terminate_text prior) diff)"

lemma terminate_same [simp]: "terminate_text a = terminate_text b \<longleftrightarrow> a = b"
  by (auto simp: terminate_text_def newline_def)

lemma butlast_terminate [simp]: "butlast (terminate_text a) = a"
  by (simp add: terminate_text_def newline_def)

lemma unified_diff_empty: "applies line_diff patch \<Longrightarrow> unified_diff line_diff a b = [] \<longleftrightarrow> a = b"
  by (simp add: applies_def unified_diff_def Let_def)

lemma patched_diff: "applies line_diff patch \<Longrightarrow> patched patch a (unified_diff line_diff a b) = b"
  by (simp add: applies_def unified_diff_def patched_def Let_def)

text \<open>A diff that restates the new side shows the assumption can hold.\<close>

definition restate :: "string \<Rightarrow> string \<Rightarrow> string" where
  "restate a b = (if a = b then [] else CHR ''+'' # b)"

definition take_restated :: "string \<Rightarrow> string \<Rightarrow> string" where
  "take_restated a d = (if d = [] then a else tl d)"

lemma restate_applies: "applies restate take_restated"
  by (simp add: applies_def restate_def take_restated_def Let_def)

section \<open>The notice\<close>

definition DIFF_ATTR :: string where
  "DIFF_ATTR = ''diff''"

definition SKILLS_FRAMING_BODY :: string where
  "SKILLS_FRAMING_BODY =
     ''The skills listed in the earlier system-reminder have changed since it was written. Below is a unified diff against that listing: `-` lines are skills that are gone ''
     @ em_dash
     @ '' they are uninstalled, and calling one will fail ''
     @ em_dash
     @ '' and `+` lines are available now. If this conversation carries more than one such update, the last one wins.''"

definition SKILLS_NOTHING_DIFFERS_BODY :: string where
  "SKILLS_NOTHING_DIFFERS_BODY =
     ''Disregard any earlier skills update in this conversation: the skills listed in the earlier system-reminder are available again exactly as listed there.''"

definition skills_update_head :: string where
  "skills_update_head =
     SKILLS_FRAMING_BODY @ newline @ newline @ ''<skills_update>'' @ newline @ ''<skills '' @ DIFF_ATTR @ ''>'' @ newline"

definition skills_update_tail :: string where
  "skills_update_tail = ''</skills>'' @ newline @ ''</skills_update>''"

definition skills_wrap_update ::
    "(string \<Rightarrow> string \<Rightarrow> string) \<Rightarrow> string \<Rightarrow> string \<Rightarrow> bool \<Rightarrow> string option" where
  "skills_wrap_update line_diff seeded current told_before =
     (let diff = unified_diff line_diff seeded current
      in if diff = [] then (if told_before then Some SKILLS_NOTHING_DIFFERS_BODY else None)
         else Some (skills_update_head @ diff @ skills_update_tail))"

text \<open>The listing a reader holds who was shown \<open>seeded\<close> and then, last of all, the update \<open>told\<close>.\<close>

definition told_listing :: "(string \<Rightarrow> string \<Rightarrow> string) \<Rightarrow> string \<Rightarrow> string option \<Rightarrow> string" where
  "told_listing patch seeded told =
     (case told of
        None \<Rightarrow> seeded
      | Some t \<Rightarrow>
          (case Option.bind (strip_prefix skills_update_head t) (strip_end skills_update_tail) of
             Some diff \<Rightarrow> patched patch seeded diff
           | None \<Rightarrow> seeded))"

lemma nothing_differs_no_head: "strip_prefix skills_update_head SKILLS_NOTHING_DIFFERS_BODY = None"
  by (simp add: strip_prefix_def skills_update_head_def SKILLS_FRAMING_BODY_def SKILLS_NOTHING_DIFFERS_BODY_def)

text \<open>Whatever was told before, a reader of the update holds the current listing.\<close>

lemma told_update:
  "applies line_diff patch \<Longrightarrow> skills_wrap_update line_diff seeded current told_before = Some t \<Longrightarrow>
     told_listing patch seeded (Some t) = current"
  by (auto simp: skills_wrap_update_def Let_def told_listing_def nothing_differs_no_head unified_diff_empty patched_diff
      split: if_splits)

lemma told_nothing:
  "applies line_diff patch \<Longrightarrow> skills_wrap_update line_diff seeded current told_before = None \<Longrightarrow>
     seeded = current \<and> \<not> told_before"
  by (auto simp: skills_wrap_update_def Let_def unified_diff_empty split: if_splits)

end
