(* ===== verification/PromptUpdate.thy ===== *)
theory PromptUpdate
  imports SkillNotices
begin

text \<open>
  An assembled system prompt as its parts (\<open>crates/context/src/prompts/soul.rs\<close>) and the notice that reports what of it
  moved (\<open>system_prompt_update.rs\<close>): which parts the leading row does not carry, how each is described, and the envelope.
  Paths are the strings the prompt prints.
\<close>

section \<open>Prompts\<close>

datatype section_tag = TagSoul | TagIdentity | TagSharedUserProfile | TagUserNotes | TagMemory

definition tag_str :: "section_tag \<Rightarrow> string" where
  "tag_str tag =
     (case tag of
        TagSoul \<Rightarrow> ''soul'' | TagIdentity \<Rightarrow> ''identity'' | TagSharedUserProfile \<Rightarrow> ''shared_user_profile''
      | TagUserNotes \<Rightarrow> ''user_notes'' | TagMemory \<Rightarrow> ''memory'')"

datatype prompt_part = PartHint string | PartSection section_tag string string

definition trim_end_newlines :: "string \<Rightarrow> string" where
  "trim_end_newlines s = rev (dropWhile (\<lambda>c. [c] = newline) (rev s))"

definition section_head :: "section_tag \<Rightarrow> string \<Rightarrow> string" where
  "section_head tag path = ''<'' @ tag_str tag @ '' path='' @ quote_char @ path @ quote_char"

definition render_part :: "prompt_part \<Rightarrow> string" where
  "render_part p =
     (case p of
        PartHint t \<Rightarrow> t
      | PartSection tag path body \<Rightarrow>
          section_head tag path @ ''>'' @ newline @ trim_end_newlines body @ newline @ ''</'' @ tag_str tag @ ''>'')"

definition PART_SEPARATOR :: string where
  "PART_SEPARATOR = newline @ newline"

definition FALLBACK_SYSTEM_PROMPT :: string where
  "FALLBACK_SYSTEM_PROMPT = ''You are Baybo, an intelligent assistant.''"

definition opaque_prompt :: "string \<Rightarrow> prompt_part list" where
  "opaque_prompt t = [PartHint t]"

definition prompt_sections :: "prompt_part list \<Rightarrow> (string \<times> string) list" where
  "prompt_sections ps = List.map_filter (\<lambda>p. case p of PartSection _ path body \<Rightarrow> Some (path, body) | PartHint _ \<Rightarrow> None) ps"

definition prompt_text :: "prompt_part list \<Rightarrow> string" where
  "prompt_text ps = join PART_SEPARATOR (map render_part ps)"

section \<open>Blocks\<close>

text \<open>What the conversation last wrote to a file: whether the file still says so, and the body of a whole write.\<close>

record self_write =
  sw_still_current :: bool
  sw_body :: "string option"

datatype update_block =
    FullBlock string
  | DiffBlock section_tag string string
  | SinceYourWrite section_tag string string
  | MovedBlock section_tag string
  | SelfEdited section_tag string

definition SINCE_YOUR_WRITE_ATTR :: string where
  "SINCE_YOUR_WRITE_ATTR = ''changed_since_you_wrote_it''"

definition SELF_EDITED_ATTR :: string where
  "SELF_EDITED_ATTR = ''edited_by_you_in_this_conversation''"

definition MOVED_ATTR :: string where
  "MOVED_ATTR = ''content_unchanged''"

definition diff_block :: "section_tag \<Rightarrow> string \<Rightarrow> string \<Rightarrow> string \<Rightarrow> string" where
  "diff_block tag path diff attrs =
     section_head tag path @ '' '' @ attrs @ ''>'' @ newline @ diff @ ''</'' @ tag_str tag @ ''>''"

definition self_closing :: "section_tag \<Rightarrow> string \<Rightarrow> string \<Rightarrow> string" where
  "self_closing tag path attr = section_head tag path @ '' '' @ attr @ ''/>''"

definition render_block :: "update_block \<Rightarrow> string" where
  "render_block b =
     (case b of
        FullBlock t \<Rightarrow> t
      | DiffBlock tag path diff \<Rightarrow> diff_block tag path diff DIFF_ATTR
      | SinceYourWrite tag path diff \<Rightarrow> diff_block tag path diff (DIFF_ATTR @ '' '' @ SINCE_YOUR_WRITE_ATTR)
      | MovedBlock tag path \<Rightarrow> self_closing tag path MOVED_ATTR
      | SelfEdited tag path \<Rightarrow> self_closing tag path SELF_EDITED_ATTR)"

section \<open>Framing\<close>

definition UPDATE_FRAMING_BODY :: string where
  "UPDATE_FRAMING_BODY =
     ''The system prompt above was assembled when this conversation started; some of its sources have changed since. Each block below updates the part carrying the same tag ''
     @ em_dash @ '' anything not named is still current, and the last such update wins.'' @ newline @ newline
     @ ''Any `path` a block carries is where that file lives now. Any other path the prompt above gives for that tag is dead: it may still exist on disk, so writing there appears to succeed and is never read.''"

definition DIFF_FRAMING :: string where
  "DIFF_FRAMING =
     ''A block marked `diff` is a unified diff against the copy in the system prompt above. An unmarked block is that part''
     @ [CHR 0x27] @ ''s full current text.''"

definition SINCE_YOUR_WRITE_FRAMING :: string where
  "SINCE_YOUR_WRITE_FRAMING =
     ''A block marked `changed_since_you_wrote_it` is a unified diff against the copy YOU wrote earlier in this conversation, not the older one in the system prompt above. Something else has written to that file since.''"

definition SELF_EDIT_FRAMING :: string where
  "SELF_EDIT_FRAMING =
     ''An empty block marked `edited_by_you_in_this_conversation` is not a replacement: you rewrote that file yourself earlier in this conversation, so the copy above is out of date exactly where you changed it and accurate everywhere else. Your own edit is what it says now; `Read` the path for the exact bytes.''"

definition PROMPT_NOTHING_DIFFERS_BODY :: string where
  "PROMPT_NOTHING_DIFFERS_BODY =
     ''Disregard any earlier system-prompt update in this conversation: the files behind the system prompt have changed back, so the prompt above is accurate again and every path it names is current.''"

section \<open>What moved\<close>

text \<open>\<open>str::find\<close>.\<close>

fun str_find :: "string \<Rightarrow> string \<Rightarrow> nat option" where
  "str_find pat [] = (if pat = [] then Some 0 else None)"
| "str_find pat (c # cs) = (if starts_with pat (c # cs) then Some 0 else map_option Suc (str_find pat cs))"

definition after_find :: "string \<Rightarrow> string \<Rightarrow> string option" where
  "after_find pat s = map_option (\<lambda>i. drop (i + length pat) s) (str_find pat s)"

definition seeded_section_body :: "string \<Rightarrow> section_tag \<Rightarrow> string option" where
  "seeded_section_body seeded tag =
     (case after_find (''<'' @ tag_str tag @ '' path='' @ quote_char) seeded of
        None \<Rightarrow> None
      | Some attr \<Rightarrow>
          (case str_find quote_char attr of
             None \<Rightarrow> None
           | Some path_end \<Rightarrow>
               (case after_find (''>'' @ newline) (drop path_end attr) of
                  None \<Rightarrow> None
                | Some body \<Rightarrow> map_option (\<lambda>n. take n body) (str_find (newline @ ''</'' @ tag_str tag @ ''>'') body))))"

definition worthwhile_diff ::
    "(string \<Rightarrow> string \<Rightarrow> string) \<Rightarrow> string \<Rightarrow> string \<Rightarrow> string \<Rightarrow> nat \<Rightarrow> string option" where
  "worthwhile_diff line_diff prior body txt' framing_charge =
     (let diff = unified_diff line_diff prior body
      in if diff \<noteq> [] \<and> length diff + framing_charge < length txt' then Some diff else None)"

definition block_against_own_write ::
    "(string \<Rightarrow> string \<Rightarrow> string) \<Rightarrow> self_write \<Rightarrow> section_tag \<Rightarrow> string \<Rightarrow> string \<Rightarrow> string \<Rightarrow> update_block option" where
  "block_against_own_write line_diff mine tag path body txt' =
     (if sw_still_current mine then Some (SelfEdited tag path)
      else
        (case sw_body mine of
           None \<Rightarrow> None
         | Some base \<Rightarrow>
             let base = trim_end_newlines base
             in if base = body then Some (SelfEdited tag path)
                else map_option (SinceYourWrite tag path) (worthwhile_diff line_diff base body txt' 0)))"

definition block_for ::
    "(string \<Rightarrow> string \<Rightarrow> string) \<Rightarrow> prompt_part \<Rightarrow> string \<Rightarrow> string \<Rightarrow> (string \<Rightarrow> self_write option) \<Rightarrow> update_block" where
  "block_for line_diff part txt' seeded self_written =
     (case part of
        PartHint _ \<Rightarrow> FullBlock txt'
      | PartSection tag path body \<Rightarrow>
          let body = trim_end_newlines body in
          (case Option.bind (self_written path) (\<lambda>mine. block_against_own_write line_diff mine tag path body txt') of
             Some b \<Rightarrow> b
           | None \<Rightarrow>
               (case seeded_section_body seeded tag of
                  None \<Rightarrow> FullBlock txt'
                | Some prior \<Rightarrow>
                    if prior = body then MovedBlock tag path
                    else
                      (case worthwhile_diff line_diff prior body txt' (length DIFF_FRAMING) of
                         Some diff \<Rightarrow> DiffBlock tag path diff
                       | None \<Rightarrow> FullBlock txt'))))"

definition build_blocks ::
    "(string \<Rightarrow> string \<Rightarrow> string) \<Rightarrow> prompt_part list \<Rightarrow> string \<Rightarrow> (string \<Rightarrow> self_write option) \<Rightarrow> update_block list" where
  "build_blocks line_diff current seeded self_written =
     map (\<lambda>part. block_for line_diff part (render_part part) seeded self_written)
       (filter (\<lambda>part. \<not> str_contains (render_part part) seeded) current)"

definition is_diff_block :: "update_block \<Rightarrow> bool" where
  "is_diff_block b = (case b of DiffBlock _ _ _ \<Rightarrow> True | _ \<Rightarrow> False)"

definition is_since_your_write :: "update_block \<Rightarrow> bool" where
  "is_since_your_write b = (case b of SinceYourWrite _ _ _ \<Rightarrow> True | _ \<Rightarrow> False)"

definition is_self_edited :: "update_block \<Rightarrow> bool" where
  "is_self_edited b = (case b of SelfEdited _ _ \<Rightarrow> True | _ \<Rightarrow> False)"

definition prompt_wrap_update :: "update_block list \<Rightarrow> string" where
  "prompt_wrap_update blocks =
     (if blocks = [] then PROMPT_NOTHING_DIFFERS_BODY
      else
        UPDATE_FRAMING_BODY
        @ (if list_ex is_diff_block blocks then newline @ newline @ DIFF_FRAMING else [])
        @ (if list_ex is_since_your_write blocks then newline @ newline @ SINCE_YOUR_WRITE_FRAMING else [])
        @ (if list_ex is_self_edited blocks then newline @ newline @ SELF_EDIT_FRAMING else [])
        @ newline @ newline @ ''<system_prompt_update>'' @ newline
        @ join (newline @ newline) (map render_block blocks) @ newline @ ''</system_prompt_update>'')"

text \<open>The body read back for a tag is the one its first section was rendered with.\<close>

lemma str_find_first:
  "starts_with pat (drop n s) \<Longrightarrow> n \<le> length s \<Longrightarrow> (\<And>i. i < n \<Longrightarrow> \<not> starts_with pat (drop i s)) \<Longrightarrow> str_find pat s = Some n"
proof (induction n arbitrary: s)
  case 0
  then show ?case by (cases s) (simp_all add: starts_with_iff)
next
  case (Suc n)
  then obtain c cs where s: "s = c # cs" by (cases s) auto
  have "str_find pat cs = Some n"
    using Suc.prems(1,2) Suc.prems(3) [of "Suc _"] s by (intro Suc.IH) simp_all
  then show ?case using Suc.prems(3) [of 0] s by simp
qed

lemma str_find_there:
  "(\<And>i. i < length u \<Longrightarrow> \<not> starts_with pat (drop i (u @ pat @ v))) \<Longrightarrow> str_find pat (u @ pat @ v) = Some (length u)"
  by (rule str_find_first) (simp_all add: starts_with_iff)

lemma after_find_there:
  "(\<And>i. i < length u \<Longrightarrow> \<not> starts_with pat (drop i (u @ pat @ v))) \<Longrightarrow> after_find pat (u @ pat @ v) = Some v"
  using str_find_there [of u pat v] by (simp add: after_find_def)

lemma seeded_body_back:
  assumes "\<And>i. i < length u \<Longrightarrow>
      \<not> starts_with (''<'' @ tag_str tag @ '' path='' @ quote_char) (drop i (u @ render_part (PartSection tag path body) @ v))"
    and "CHR 0x22 \<notin> set path"
    and "\<And>i. i < length (trim_end_newlines body) \<Longrightarrow>
      \<not> starts_with (newline @ ''</'' @ tag_str tag @ ''>'') (drop i (trim_end_newlines body @ newline @ ''</'' @ tag_str tag @ ''>'' @ v))"
  shows "seeded_section_body (u @ render_part (PartSection tag path body) @ v) tag = Some (trim_end_newlines body)"
proof -
  let ?open = "''<'' @ tag_str tag @ '' path='' @ quote_char" and ?close = "newline @ ''</'' @ tag_str tag @ ''>''"
  let ?rest = "''>'' @ newline @ trim_end_newlines body @ ?close @ v"
  have split: "u @ render_part (PartSection tag path body) @ v = u @ ?open @ path @ quote_char @ ?rest"
    by (simp add: render_part_def section_head_def)
  have attr: "after_find ?open (u @ render_part (PartSection tag path body) @ v) = Some (path @ quote_char @ ?rest)"
    using after_find_there [of u ?open "path @ quote_char @ ?rest"] assms(1) unfolding split append_assoc by blast
  have "\<not> starts_with quote_char (drop i (path @ quote_char @ ?rest))" if i: "i < length path" for i
  proof -
    have "path ! i \<noteq> CHR 0x22" using assms(2) nth_mem [OF i] by metis
    then show ?thesis using i by (auto simp: quote_char_def starts_with_iff Cons_nth_drop_Suc [symmetric])
  qed
  then have quote: "str_find quote_char (path @ quote_char @ ?rest) = Some (length path)" by (rule str_find_there)
  have body: "after_find (''>'' @ newline) (quote_char @ ?rest) = Some (trim_end_newlines body @ ?close @ v)"
    by (simp add: after_find_def quote_char_def newline_def)
  have "str_find ?close (trim_end_newlines body @ ?close @ v) = Some (length (trim_end_newlines body))"
    using assms(3) by (intro str_find_there) simp_all
  then show ?thesis unfolding seeded_section_body_def attr using quote body by simp
qed

section \<open>What a block says\<close>

text \<open>
  The part a reader of a block is left with, who holds the leading row and its own writes. A block of the reader's own
  edit names the body it wrote, when it wrote the whole of it.
\<close>

definition reads_as ::
    "(string \<Rightarrow> string \<Rightarrow> string) \<Rightarrow> string \<Rightarrow> (string \<Rightarrow> self_write option) \<Rightarrow> update_block \<Rightarrow> string option" where
  "reads_as patch seeded self_written b =
     (case b of
        FullBlock t \<Rightarrow> Some t
      | DiffBlock tag path diff \<Rightarrow>
          map_option (\<lambda>prior. render_part (PartSection tag path (patched patch prior diff))) (seeded_section_body seeded tag)
      | SinceYourWrite tag path diff \<Rightarrow>
          map_option (\<lambda>base. render_part (PartSection tag path (patched patch (trim_end_newlines base) diff)))
            (Option.bind (self_written path) sw_body)
      | MovedBlock tag path \<Rightarrow>
          map_option (\<lambda>prior. render_part (PartSection tag path prior)) (seeded_section_body seeded tag)
      | SelfEdited tag path \<Rightarrow>
          map_option (\<lambda>base. render_part (PartSection tag path base)) (Option.bind (self_written path) sw_body))"

lemma trim_twice [simp]: "trim_end_newlines (trim_end_newlines s) = trim_end_newlines s"
proof -
  have "dropWhile P (dropWhile P xs) = dropWhile P xs" for P and xs :: string by (induction xs) auto
  then show ?thesis by (simp add: trim_end_newlines_def)
qed

lemma render_trimmed [simp]: "render_part (PartSection tag path (trim_end_newlines body)) = render_part (PartSection tag path body)"
  by (simp add: render_part_def)

lemma render_same_trim:
  "trim_end_newlines base = trim_end_newlines body \<Longrightarrow> render_part (PartSection tag path base) = render_part (PartSection tag path body)"
  by (simp add: render_part_def)

lemma worthwhile_patched:
  "applies line_diff patch \<Longrightarrow> worthwhile_diff line_diff prior body t charge = Some diff \<Longrightarrow> patched patch prior diff = body"
  by (auto simp: worthwhile_diff_def Let_def patched_diff split: if_splits)

text \<open>
  Every block says its part exactly, the pointer at the reader's own edit apart, which says so only of a file that still
  has the bytes that edit left.
\<close>

lemma block_says_part:
  assumes "applies line_diff patch"
  shows "reads_as patch seeded mine (block_for line_diff part (render_part part) seeded mine) = Some (render_part part) \<or>
    (\<exists>tag path body w. part = PartSection tag path body \<and> mine path = Some w \<and> sw_still_current w \<and>
      block_for line_diff part (render_part part) seeded mine = SelfEdited tag path)"
proof (cases part)
  case (PartSection tag path body)
  let ?b = "block_for line_diff part (render_part part) seeded mine"
  show ?thesis
  proof (cases "Option.bind (mine path)
      (\<lambda>w. block_against_own_write line_diff w tag path (trim_end_newlines body) (render_part part))")
    case (Some b)
    then obtain w where w: "mine path = Some w"
        "block_against_own_write line_diff w tag path (trim_end_newlines body) (render_part part) = Some b"
      by (auto simp: bind_eq_Some_conv)
    have b: "?b = b" using Some PartSection by (simp add: block_for_def Let_def)
    show ?thesis
    proof (cases "sw_still_current w")
      case True
      then show ?thesis using w b PartSection by (auto simp: block_against_own_write_def)
    next
      case False
      then obtain base where base: "sw_body w = Some base" using w(2) by (auto simp: block_against_own_write_def split: option.splits)
      show ?thesis
      proof (cases "trim_end_newlines base = trim_end_newlines body")
        case True
        then have "b = SelfEdited tag path" using w(2) False base by (simp add: block_against_own_write_def)
        then show ?thesis using b PartSection w(1) base render_same_trim [OF True] by (simp add: reads_as_def)
      next
        case differs: False
        then obtain diff where d: "worthwhile_diff line_diff (trim_end_newlines base) (trim_end_newlines body) (render_part part) 0 = Some diff"
            "b = SinceYourWrite tag path diff"
          using w(2) False base by (auto simp: block_against_own_write_def Let_def)
        then show ?thesis
          using b PartSection w(1) base worthwhile_patched [OF assms d(1)] by (simp add: reads_as_def)
      qed
    qed
  next
    case None
    show ?thesis
      using None PartSection worthwhile_patched [OF assms]
      by (auto simp: block_for_def Let_def reads_as_def split: option.splits)
  qed
qed (simp add: block_for_def reads_as_def)

end
