(* ===== verification/SessionLog.thy ===== *)
theory SessionLog
  imports Messages
begin

text \<open>
  The message log of one session, the part of \<open>crates/storage/src/sqlite/session.rs\<close> that holds transcripts
  (\<open>session_messages\<close>), with the row types of \<open>crates/store/src/session.rs\<close>. A statement runs whole or not at all, so
  an operation here is one that commits; where a write can fail is the caller's to say. Messages are stored as their
  JSON and read back as they were; the search index is not modelled. Ordinals start at zero and grow.
\<close>

section \<open>Rows\<close>

record ('v, 'm) stored_message =
  sm_ordinal :: nat
  sm_superseded_by :: "nat option"
  sm_created_at :: int
  sm_compaction_inserted :: bool
  sm_source_event_id :: "string option"
  sm_message :: "('v, 'm) chat_message"

record ('v, 'm) active_message_row =
  ar_ordinal :: nat
  ar_message :: "('v, 'm) chat_message"

record token_anchor =
  ta_model_id :: string
  ta_actual_tokens :: nat
  ta_message_count :: nat
  ta_request_overhead :: nat
  ta_through_ordinal :: nat

datatype append_outcome = AppendInserted nat | AppendExisting nat

definition outcome_ordinal :: "append_outcome \<Rightarrow> nat" where
  "outcome_ordinal o' = (case o' of AppendInserted n \<Rightarrow> n | AppendExisting n \<Rightarrow> n)"

definition was_inserted :: "append_outcome \<Rightarrow> bool" where
  "was_inserted o' = (case o' of AppendInserted _ \<Rightarrow> True | AppendExisting _ \<Rightarrow> False)"

text \<open>The rows of the session, in the order they were inserted, and the anchor columns of its \<open>sessions\<close> row.\<close>

record ('v, 'm) session_log =
  rows :: "('v, 'm) stored_message list"
  anchor :: "token_anchor option"

definition log_new :: "('v, 'm) session_log" where
  "log_new = \<lparr>rows = [], anchor = None\<rparr>"

section \<open>Writing\<close>

text \<open>\<open>MAX(ordinal)\<close>, which is \<open>NULL\<close> over no rows, and \<open>COALESCE(MAX(ordinal), -1) + 1\<close>.\<close>

definition latest_session_ordinal :: "('v, 'm) session_log \<Rightarrow> nat option" where
  "latest_session_ordinal L =
     (if rows L = [] then None else Some (foldr max (map sm_ordinal (rows L)) 0))"

definition next_ordinal :: "('v, 'm) session_log \<Rightarrow> nat" where
  "next_ordinal L = (case latest_session_ordinal L of None \<Rightarrow> 0 | Some n \<Rightarrow> n + 1)"

definition append_session_message ::
    "int \<Rightarrow> ('v, 'm) chat_message \<Rightarrow> ('v, 'm) session_log \<Rightarrow> nat \<times> ('v, 'm) session_log" where
  "append_session_message now msg L =
     (next_ordinal L,
      L\<lparr>rows := rows L @
        [\<lparr>sm_ordinal = next_ordinal L, sm_superseded_by = None, sm_created_at = now, sm_compaction_inserted = False,
          sm_source_event_id = None, sm_message = msg\<rparr>]\<rparr>)"

definition find_message_ordinal_by_source_event_id :: "string \<Rightarrow> ('v, 'm) session_log \<Rightarrow> nat option" where
  "find_message_ordinal_by_source_event_id event L =
     map_option sm_ordinal (find (\<lambda>r. sm_source_event_id r = Some event) (rows L))"

text \<open>
  \<open>INSERT ... ON CONFLICT DO NOTHING\<close> under the unique index on \<open>(session_id, source_event_id)\<close>. An empty id is refused.
\<close>

definition append_session_message_idempotent ::
    "int \<Rightarrow> string \<Rightarrow> ('v, 'm) chat_message \<Rightarrow> ('v, 'm) session_log \<Rightarrow> append_outcome option \<times> ('v, 'm) session_log" where
  "append_session_message_idempotent now event msg L =
     (if event = [] then (None, L)
      else case find_message_ordinal_by_source_event_id event L of
        None \<Rightarrow>
          (Some (AppendInserted (next_ordinal L)),
           L\<lparr>rows := rows L @
             [\<lparr>sm_ordinal = next_ordinal L, sm_superseded_by = None, sm_created_at = now, sm_compaction_inserted = False,
               sm_source_event_id = Some event, sm_message = msg\<rparr>]\<rparr>)
      | Some n \<Rightarrow> (Some (AppendExisting n), L))"

definition supersede :: "nat \<Rightarrow> ('v, 'm) stored_message \<Rightarrow> ('v, 'm) stored_message" where
  "supersede n r = (if sm_superseded_by r = None then r\<lparr>sm_superseded_by := Some n\<rparr> else r)"

fun inserted_rows :: "nat \<Rightarrow> int \<Rightarrow> ('v, 'm) chat_message list \<Rightarrow> ('v, 'm) stored_message list" where
  "inserted_rows n now [] = []"
| "inserted_rows n now (msg # msgs) =
     \<lparr>sm_ordinal = n, sm_superseded_by = None, sm_created_at = now, sm_compaction_inserted = True,
      sm_source_event_id = None, sm_message = msg\<rparr> # inserted_rows (Suc n) now msgs"

definition apply_session_compaction ::
    "int \<Rightarrow> ('v, 'm) chat_message list \<Rightarrow> ('v, 'm) session_log \<Rightarrow> nat \<times> ('v, 'm) session_log" where
  "apply_session_compaction now new_active L =
     (let n = next_ordinal L
      in (n, L\<lparr>rows := map (supersede n) (rows L) @ inserted_rows n now new_active\<rparr>))"

definition record_token_anchor ::
    "string \<Rightarrow> nat \<Rightarrow> nat \<Rightarrow> nat \<Rightarrow> ('v, 'm) session_log \<Rightarrow> ('v, 'm) session_log" where
  "record_token_anchor model tokens message_count overhead L =
     (case latest_session_ordinal L of
        None \<Rightarrow> L
      | Some n \<Rightarrow>
          L\<lparr>anchor := Some \<lparr>ta_model_id = model, ta_actual_tokens = tokens, ta_message_count = message_count,
                            ta_request_overhead = overhead, ta_through_ordinal = n\<rparr>\<rparr>)"

section \<open>Reading\<close>

definition by_ordinal :: "('v, 'm) stored_message list \<Rightarrow> ('v, 'm) stored_message list" where
  "by_ordinal rs = sort_key sm_ordinal rs"

definition load_active_session_message_rows :: "('v, 'm) session_log \<Rightarrow> ('v, 'm) active_message_row list" where
  "load_active_session_message_rows L =
     map (\<lambda>r. \<lparr>ar_ordinal = sm_ordinal r, ar_message = sm_message r\<rparr>)
       (by_ordinal (filter (\<lambda>r. sm_superseded_by r = None) (rows L)))"

definition load_token_anchor :: "('v, 'm) session_log \<Rightarrow> token_anchor option" where
  "load_token_anchor L = anchor L"

definition count_active_messages :: "('v, 'm) session_log \<Rightarrow> nat" where
  "count_active_messages L = length (filter (\<lambda>r. sm_superseded_by r = None) (rows L))"

definition active_index_of_ordinal :: "nat \<Rightarrow> ('v, 'm) session_log \<Rightarrow> nat option" where
  "active_index_of_ordinal n L =
     (if \<exists>r \<in> set (rows L). sm_superseded_by r = None \<and> sm_ordinal r = n
      then Some (length (filter (\<lambda>r. sm_superseded_by r = None \<and> sm_ordinal r < n) (rows L)))
      else None)"

definition load_session_messages_with_supersede :: "('v, 'm) session_log \<Rightarrow> ('v, 'm) stored_message list" where
  "load_session_messages_with_supersede L = by_ordinal (rows L)"

text \<open>The reads of the chat view: the rows compactions did not write, a page back from a cursor or on from one.\<close>

definition load_active_session_messages_tail ::
    "nat option \<Rightarrow> nat \<Rightarrow> ('v, 'm) session_log \<Rightarrow> (nat \<times> int \<times> ('v, 'm) chat_message) list" where
  "load_active_session_messages_tail before limit L =
     (if limit = 0 then []
      else
        rev (take limit
          (map (\<lambda>r. (sm_ordinal r, sm_created_at r, sm_message r))
            (rev (by_ordinal (filter (\<lambda>r. \<not> sm_compaction_inserted r \<and>
              (case before of None \<Rightarrow> True | Some b \<Rightarrow> sm_ordinal r < b)) (rows L)))))))"

definition load_active_session_messages_since ::
    "nat \<Rightarrow> nat \<Rightarrow> ('v, 'm) session_log \<Rightarrow> (nat \<times> int \<times> ('v, 'm) chat_message) list" where
  "load_active_session_messages_since after limit L =
     (if limit = 0 then []
      else
        take limit
          (map (\<lambda>r. (sm_ordinal r, sm_created_at r, sm_message r))
            (by_ordinal (filter (\<lambda>r. \<not> sm_compaction_inserted r \<and> after < sm_ordinal r) (rows L)))))"

definition compaction_boundaries :: "('v, 'm) session_log \<Rightarrow> (nat \<times> int) list" where
  "compaction_boundaries L =
     map (\<lambda>r. (sm_ordinal r, sm_created_at r))
       (by_ordinal (filter (\<lambda>r. Some (sm_ordinal r) \<in> sm_superseded_by ` set (rows L)) (rows L)))"

section \<open>Histories\<close>

datatype ('v, 'm) log_op =
    LAppend int "('v, 'm) chat_message"
  | LAppendOnce int string "('v, 'm) chat_message"
  | LCompact int "('v, 'm) chat_message list"
  | LAnchor string nat nat nat

definition log_step :: "('v, 'm) session_log \<Rightarrow> ('v, 'm) log_op \<Rightarrow> ('v, 'm) session_log" where
  "log_step L p =
     (case p of
        LAppend now msg \<Rightarrow> snd (append_session_message now msg L)
      | LAppendOnce now event msg \<Rightarrow> snd (append_session_message_idempotent now event msg L)
      | LCompact now msgs \<Rightarrow> snd (apply_session_compaction now msgs L)
      | LAnchor model tokens n overhead \<Rightarrow> record_token_anchor model tokens n overhead L)"

abbreviation log_run :: "('v, 'm) session_log \<Rightarrow> ('v, 'm) log_op list \<Rightarrow> ('v, 'm) session_log" where
  "log_run L ps \<equiv> foldl log_step L ps"

text \<open>A manager never writes an empty compaction (\<open>run_compression\<close> refuses one).\<close>

definition proper_op :: "('v, 'm) log_op \<Rightarrow> bool" where
  "proper_op p = (case p of LCompact _ msgs \<Rightarrow> msgs \<noteq> [] | _ \<Rightarrow> True)"

text \<open>Ordinals count the rows; a row is superseded by the first row of a later compaction.\<close>

definition counted :: "('v, 'm) session_log \<Rightarrow> bool" where
  "counted L \<longleftrightarrow> map sm_ordinal (rows L) = [0..<length (rows L)]"

definition row_ok :: "nat \<Rightarrow> ('v, 'm) stored_message \<Rightarrow> bool" where
  "row_ok n r \<longleftrightarrow> (\<forall>s. sm_superseded_by r = Some s \<longrightarrow> sm_ordinal r < s \<and> s < n)"

definition log_ok :: "('v, 'm) session_log \<Rightarrow> bool" where
  "log_ok L \<longleftrightarrow> counted L \<and> list_all (row_ok (length (rows L))) (rows L)"

lemma foldr_max_upt: "foldr max [0..<Suc n] 0 = n"
proof -
  have "foldr max xs (0 :: nat) = Max (insert 0 (set xs))" for xs by (induction xs) (simp_all add: insert_commute)
  moreover have "Max (insert 0 (set [0..<Suc n])) = n" by (rule Max_eqI) auto
  ultimately show ?thesis by (simp del: upt_Suc)
qed

lemma counted_latest:
  "counted L \<Longrightarrow> latest_session_ordinal L = (case length (rows L) of 0 \<Rightarrow> None | Suc n \<Rightarrow> Some n)"
  by (cases "length (rows L)") (auto simp: counted_def latest_session_ordinal_def foldr_max_upt simp del: upt_Suc)

lemma counted_next: "counted L \<Longrightarrow> next_ordinal L = length (rows L)"
  by (simp add: next_ordinal_def counted_latest split: nat.splits)

lemma counted_less: "counted L \<Longrightarrow> r \<in> set (rows L) \<Longrightarrow> sm_ordinal r < length (rows L)"
  unfolding counted_def by (metis atLeastLessThan_iff image_eqI set_map set_upt)

lemma log_ok_new [simp]: "log_ok log_new"
  by (simp add: log_ok_def counted_def log_new_def)

lemma counted_new [simp]: "counted log_new"
  by (simp add: counted_def log_new_def)

lemma row_ok_mono: "row_ok n r \<Longrightarrow> n \<le> m \<Longrightarrow> row_ok m r"
  by (force simp: row_ok_def)

lemma inserted_rows_shape [simp]:
  "length (inserted_rows n now msgs) = length msgs"
  "map sm_ordinal (inserted_rows n now msgs) = [n..<n + length msgs]"
  "map sm_message (inserted_rows n now msgs) = msgs"
  by (induction msgs arbitrary: n) (simp_all add: upt_conv_Cons del: upt_Suc)

lemma inserted_rows_fields:
  "r \<in> set (inserted_rows n now msgs) \<Longrightarrow>
     sm_superseded_by r = None \<and> sm_compaction_inserted r \<and> sm_source_event_id r = None \<and> sm_created_at r = now \<and>
     n \<le> sm_ordinal r"
  by (induction msgs arbitrary: n) (auto dest: Suc_leD)

lemma supersede_fields [simp]:
  "sm_ordinal (supersede n r) = sm_ordinal r" "sm_message (supersede n r) = sm_message r"
  "sm_created_at (supersede n r) = sm_created_at r" "sm_compaction_inserted (supersede n r) = sm_compaction_inserted r"
  "sm_source_event_id (supersede n r) = sm_source_event_id r"
  by (simp_all add: supersede_def)

lemma append_shape:
  "rows (snd (append_session_message now msg L)) = rows L @
     [\<lparr>sm_ordinal = next_ordinal L, sm_superseded_by = None, sm_created_at = now, sm_compaction_inserted = False,
       sm_source_event_id = None, sm_message = msg\<rparr>]"
  by (simp add: append_session_message_def)

lemma compact_shape:
  "rows (snd (apply_session_compaction now msgs L)) =
     map (supersede (next_ordinal L)) (rows L) @ inserted_rows (next_ordinal L) now msgs"
  by (simp add: apply_session_compaction_def Let_def)

lemma append_once_shape:
  "snd (append_session_message_idempotent now event msg L) = L \<or>
   event \<noteq> [] \<and> find_message_ordinal_by_source_event_id event L = None \<and>
   rows (snd (append_session_message_idempotent now event msg L)) = rows L @
     [\<lparr>sm_ordinal = next_ordinal L, sm_superseded_by = None, sm_created_at = now, sm_compaction_inserted = False,
       sm_source_event_id = Some event, sm_message = msg\<rparr>]"
  by (auto simp: append_session_message_idempotent_def split: option.splits)

lemma anchor_shape: "rows (record_token_anchor model tokens n overhead L) = rows L"
  by (simp add: record_token_anchor_def split: option.splits)

lemma counted_add:
  "counted L \<Longrightarrow> rows L' = rows L @ [r] \<Longrightarrow> sm_ordinal r = next_ordinal L \<Longrightarrow> counted L'"
  by (simp add: counted_next) (simp add: counted_def)

lemma counted_compact: "counted L \<Longrightarrow> counted (snd (apply_session_compaction now msgs L))"
  by (simp add: compact_shape counted_next counted_def o_def) (simp add: upt_add_eq_append [of 0])

lemma log_ok_add:
  assumes "log_ok L" and "rows L' = rows L @ [r]" and "sm_ordinal r = next_ordinal L" and "sm_superseded_by r = None"
  shows "log_ok L'"
proof -
  have "list_all (row_ok (Suc (length (rows L)))) (rows L)"
    using assms(1) unfolding log_ok_def list_all_iff by (meson row_ok_mono le_SucI order_refl)
  then show ?thesis using assms counted_add [OF _ assms(2,3)] by (simp add: log_ok_def row_ok_def)
qed

lemma log_ok_compact:
  assumes "log_ok L" and "msgs \<noteq> []"
  shows "log_ok (snd (apply_session_compaction now msgs L))"
proof -
  let ?n = "length (rows L)"
  have counted: "counted L" and len: "next_ordinal L = ?n"
    and old: "\<And>r. r \<in> set (rows L) \<Longrightarrow> row_ok ?n r"
    using assms(1) by (simp_all add: log_ok_def counted_next list_all_iff)
  have "row_ok (?n + length msgs) (supersede ?n r)" if r: "r \<in> set (rows L)" for r
    using old [OF r] counted_less [OF counted r] assms(2) by (auto simp: row_ok_def supersede_def split: if_splits)
  moreover have "row_ok (?n + length msgs) r" if "r \<in> set (inserted_rows ?n now msgs)" for r
    using inserted_rows_fields [OF that] by (simp add: row_ok_def)
  ultimately show ?thesis
    using counted_compact [OF counted] unfolding log_ok_def compact_shape len by (auto simp: list_all_iff)
qed

lemma counted_step: "counted L \<Longrightarrow> counted (log_step L p)"
proof (cases p)
  case (LAppendOnce now event msg)
  then show "counted L \<Longrightarrow> ?thesis"
    using append_once_shape [of now event msg L] by (auto simp: log_step_def intro: counted_add)
qed (auto simp: log_step_def counted_add [OF _ append_shape] counted_compact counted_def [of "record_token_anchor _ _ _ _ _"]
    anchor_shape counted_def [of L])

lemma log_ok_step: "log_ok L \<Longrightarrow> proper_op p \<Longrightarrow> log_ok (log_step L p)"
proof (cases p)
  case (LAppendOnce now event msg)
  then show "log_ok L \<Longrightarrow> ?thesis" using append_once_shape [of now event msg L] by (auto simp: log_step_def intro: log_ok_add)
next
  case (LAnchor model tokens n overhead)
  then show "log_ok L \<Longrightarrow> ?thesis" by (simp add: log_step_def log_ok_def counted_def anchor_shape)
qed (simp_all add: log_step_def proper_op_def log_ok_add [OF _ append_shape] log_ok_compact)

lemma counted_run: "counted L \<Longrightarrow> counted (log_run L ps)"
  by (induction ps arbitrary: L) (simp_all add: counted_step)

lemma log_ok_run: "log_ok L \<Longrightarrow> list_all proper_op ps \<Longrightarrow> log_ok (log_run L ps)"
  by (induction ps arbitrary: L) (simp_all add: log_ok_step)

section \<open>Reads of a log\<close>

lemma counted_sorted: "counted L \<Longrightarrow> sorted (map sm_ordinal (filter P (rows L)))"
  using sorted_filter [of sm_ordinal "rows L" P] by (simp add: counted_def)

lemma by_ordinal_filter [simp]: "counted L \<Longrightarrow> by_ordinal (filter P (rows L)) = filter P (rows L)"
  by (simp add: by_ordinal_def sort_key_id_if_sorted counted_sorted)

lemma by_ordinal_rows [simp]: "counted L \<Longrightarrow> by_ordinal (rows L) = rows L"
  using by_ordinal_filter [of L "\<lambda>_. True"] by simp

lemma count_active_rows: "count_active_messages L = length (load_active_session_message_rows L)"
  by (simp add: count_active_messages_def load_active_session_message_rows_def by_ordinal_def)

lemma active_rows:
  "counted L \<Longrightarrow> map ar_message (load_active_session_message_rows L) =
     map sm_message (filter (\<lambda>r. sm_superseded_by r = None) (rows L))"
  by (simp add: load_active_session_message_rows_def)

definition conversation :: "('v, 'm) session_log \<Rightarrow> ('v, 'm) stored_message list" where
  "conversation L = filter (\<lambda>r. \<not> sm_compaction_inserted r) (rows L)"

abbreviation shown :: "('v, 'm) stored_message \<Rightarrow> nat \<times> int \<times> ('v, 'm) chat_message" where
  "shown r \<equiv> (sm_ordinal r, sm_created_at r, sm_message r)"

fun said :: "('v, 'm) session_log \<Rightarrow> ('v, 'm) log_op list \<Rightarrow> ('v, 'm) chat_message list" where
  "said L [] = []"
| "said L (p # ps) =
     (case p of
        LAppend _ msg \<Rightarrow> [msg]
      | LAppendOnce _ event msg \<Rightarrow>
          if event = [] \<or> find_message_ordinal_by_source_event_id event L \<noteq> None then [] else [msg]
      | _ \<Rightarrow> []) @ said (log_step L p) ps"

lemma conversation_step: "map sm_message (conversation (log_step L p)) = map sm_message (conversation L) @ said L [p]"
proof (cases p)
  case (LAppendOnce now event msg)
  then show ?thesis
    by (auto simp: log_step_def conversation_def append_session_message_idempotent_def split: option.splits)
next
  case (LCompact now msgs)
  have "filter (\<lambda>r. \<not> sm_compaction_inserted r) (inserted_rows n now msgs) = []" for n
    using inserted_rows_fields by (fastforce simp: filter_empty_conv)
  then show ?thesis using LCompact by (simp add: log_step_def conversation_def compact_shape filter_map o_def)
qed (simp_all add: log_step_def conversation_def append_shape anchor_shape)

lemma conversation_run: "map sm_message (conversation (log_run L ps)) = map sm_message (conversation L) @ said L ps"
proof (induction ps arbitrary: L)
  case (Cons p ps)
  have "said L (p # ps) = said L [p] @ said (log_step L p) ps" by simp
  then show ?case using Cons [of "log_step L p"] conversation_step [of L p] by (simp del: said.simps)
qed simp

lemma last_rows: "rev (take k (map f (rev xs))) = map f (drop (length xs - k) xs)"
  by (simp add: rev_map [symmetric] take_rev drop_map)

lemma tail_reads:
  assumes "counted L"
  shows "load_active_session_messages_tail before limit L =
    (let xs = filter (\<lambda>r. case before of None \<Rightarrow> True | Some b \<Rightarrow> sm_ordinal r < b) (conversation L)
     in map shown (drop (length xs - limit) xs))"
  using assms
  by (cases "limit = 0") (simp_all add: load_active_session_messages_tail_def last_rows conversation_def Let_def)

text \<open>C13: Compactions never reach the chat view: after any writes, a page of \<open>limit\<close> rows read from the end is the
  last \<open>limit\<close> messages that were said, in the order they were said, each source event once.\<close>

theorem view_is_the_conversation:
  "map (snd \<circ> snd) (load_active_session_messages_tail None limit (log_run log_new ps)) =
    drop (length (said log_new ps) - limit) (said log_new ps)"
proof -
  have said: "map sm_message (conversation (log_run log_new ps)) = said log_new ps"
    using conversation_run [of log_new ps] by (simp add: conversation_def [of log_new]) (simp add: log_new_def)
  then have "length (conversation (log_run log_new ps)) = length (said log_new ps)" by (metis length_map)
  then show ?thesis
    using tail_reads [OF counted_run [OF counted_new], of None limit ps] said
    by (simp add: drop_map [symmetric] o_def)
qed

text \<open>Scrolling up: a page and the page before its first row make one longer page.\<close>

lemma pages_join:
  assumes "counted L" and "load_active_session_messages_tail before k L = (n, at', msg) # page"
    and "length page + 1 = k"
  shows "load_active_session_messages_tail (Some n) j L @ load_active_session_messages_tail before k L =
    load_active_session_messages_tail before (j + k) L"
proof -
  define xs where "xs = filter (\<lambda>r. case before of None \<Rightarrow> True | Some b \<Rightarrow> sm_ordinal r < b) (conversation L)"
  have tail: "load_active_session_messages_tail before m L = map shown (drop (length xs - m) xs)" for m
    unfolding tail_reads [OF assms(1)] Let_def xs_def by (rule refl)
  have page: "map shown (drop (length xs - k) xs) = (n, at', msg) # page" using assms(2) tail by simp
  have len: "k \<le> length xs" using arg_cong [OF page, of length] assms(3) by simp
  have sorted: "sorted_wrt (\<lambda>r q. sm_ordinal r < sm_ordinal q) (rows L)"
    using assms(1) sorted_wrt_map [of "(<)" sm_ordinal "rows L"] by (simp add: counted_def strict_sorted_iff)
  then have sorted: "sorted_wrt (\<lambda>r q. sm_ordinal r < sm_ordinal q) xs"
    unfolding xs_def conversation_def by (intro sorted_wrt_filter)
  obtain ys r zs where split: "xs = ys @ r # zs" "length ys = length xs - k" "sm_ordinal r = n"
  proof -
    obtain r zs where "drop (length xs - k) xs = r # zs" "shown r = (n, at', msg)" using page by (auto simp: map_eq_Cons_conv)
    then show thesis using that [of "take (length xs - k) xs" r zs] append_take_drop_id [of "length xs - k" xs] by simp
  qed
  have "r \<in> set xs" using split(1) by simp
  then have before: "n \<le> b" if "before = Some b" for b using that split(3) by (simp add: xs_def)
  have "filter (\<lambda>q. sm_ordinal q < n) xs = ys"
    using sorted split by (auto simp: sorted_wrt_append filter_empty_conv)
  moreover have "filter (\<lambda>q. sm_ordinal q < n) xs = filter (\<lambda>q. sm_ordinal q < n) (conversation L)"
    using before by (auto simp: xs_def intro!: filter_cong split: option.splits)
  ultimately have "load_active_session_messages_tail (Some n) j L = map shown (drop (length ys - j) ys)"
    using tail_reads [OF assms(1), of "Some n" j] by (simp add: Let_def)
  moreover have "length ys - j = length xs - (j + k)" "length xs - k = length ys" using split len by simp_all
  ultimately show ?thesis using split(1) by (simp add: tail)
qed

section \<open>Source events\<close>

lemma find_map_same: "(\<And>x. P (f x) = P x) \<Longrightarrow> find P (map f xs) = map_option f (find P xs)"
  by (induction xs) simp_all

lemma event_stays:
  assumes "find_message_ordinal_by_source_event_id event L = Some n"
  shows "find_message_ordinal_by_source_event_id event (log_step L p) = Some n"
proof -
  have add: "find_message_ordinal_by_source_event_id event L' = Some n" if "rows L' = rows L @ rs" for L' rs
    using assms that by (auto simp: find_message_ordinal_by_source_event_id_def find_append split: option.splits)
  show ?thesis
  proof (cases p)
    case (LCompact now msgs)
    then show ?thesis
      using assms
      by (auto simp: log_step_def compact_shape find_message_ordinal_by_source_event_id_def find_append find_map_same)
  next
    case (LAppendOnce now e msg)
    then show ?thesis using append_once_shape [of now e msg L] add assms by (auto simp: log_step_def)
  next
    case (LAnchor model tokens k overhead)
    then show ?thesis using add [of _ "[]"] by (simp add: log_step_def anchor_shape)
  qed (simp add: log_step_def add [OF append_shape])
qed

lemma event_stays_run:
  "find_message_ordinal_by_source_event_id event L = Some n \<Longrightarrow>
     find_message_ordinal_by_source_event_id event (log_run L ps) = Some n"
  by (induction ps arbitrary: L) (simp_all add: event_stays)

text \<open>C14: A row that came from a source event is written once: a second delivery of the event, after any writes and
  compactions, changes nothing and is told the ordinal of the row the first one left.\<close>

theorem event_is_written_once:
  assumes "append_session_message_idempotent now event msg L = (Some outcome, L1)"
  shows "append_session_message_idempotent now' event msg' (log_run L1 ps) =
    (Some (AppendExisting (outcome_ordinal outcome)), log_run L1 ps)"
proof -
  have "event \<noteq> []" using assms by (auto simp: append_session_message_idempotent_def split: if_splits)
  moreover have "find_message_ordinal_by_source_event_id event L1 = Some (outcome_ordinal outcome)"
    using assms
    by (auto simp: append_session_message_idempotent_def outcome_ordinal_def find_message_ordinal_by_source_event_id_def
        find_append split: if_splits option.splits)
  then have "find_message_ordinal_by_source_event_id event (log_run L1 ps) = Some (outcome_ordinal outcome)"
    by (rule event_stays_run)
  ultimately show ?thesis by (simp add: append_session_message_idempotent_def)
qed

theorem event_is_written_once_witness:
  "append_session_message_idempotent 9 ''cron-7'' (tool_row []) (log_run
      (snd (append_session_message_idempotent 1 ''cron-7'' (tool_row [] :: (unit, unit) chat_message) log_new))
      [LCompact 5 [tool_row []]]) =
    (Some (AppendExisting 0), log_run
      (snd (append_session_message_idempotent 1 ''cron-7'' (tool_row [] :: (unit, unit) chat_message) log_new))
      [LCompact 5 [tool_row []]])"
proof -
  have "append_session_message_idempotent 1 ''cron-7'' (tool_row [] :: (unit, unit) chat_message) log_new =
      (Some (AppendInserted 0), snd (append_session_message_idempotent 1 ''cron-7'' (tool_row []) log_new))"
    by (simp add: append_session_message_idempotent_def find_message_ordinal_by_source_event_id_def log_new_def
        next_ordinal_def latest_session_ordinal_def)
  from event_is_written_once [OF this, of 9 "tool_row []" "[LCompact 5 [tool_row []]]"]
  show ?thesis by (simp only: outcome_ordinal_def append_outcome.case)
qed

end
