(* ===== verification/ContextManager.thy ===== *)
theory ContextManager
  imports PromptUpdate SessionLog TranscriptRepair
begin

text \<open>
  \<open>ContextManager\<close> of \<open>crates/context/src/lib.rs\<close>, the owner of a session's transcript: what it charges for a message,
  appending, restoring from the session's log, and the provider's count it anchors on; with \<open>budget.rs\<close> and
  \<open>tokenizer.rs\<close>. The manager's handles are \<open>context_env\<close>: its tokenizer, its view of the skill registry and of the
  system prompt's sources. A write to the log takes whether the store accepted it.
\<close>

section \<open>Budget\<close>

text \<open>
  A non-negative \<open>f64\<close> is \<open>m / 2 ^ e\<close>. A \<open>usize\<close> becomes the nearest \<open>f64\<close>, ties to even, and so does a product; \<open>as usize\<close>
  drops the fraction and stops at the maximum.
\<close>

type_synonym f64 = "nat \<times> nat"

function bit_length :: "nat \<Rightarrow> nat" where
  "bit_length n = (if n = 0 then 0 else Suc (bit_length (n div 2)))"
  by auto
termination by (relation "measure id") auto

declare bit_length.simps [simp del]

definition round53 :: "nat \<Rightarrow> nat" where
  "round53 n =
     (if bit_length n \<le> 53 then n
      else
        let unit = 2 ^ (bit_length n - 53);
            q = n div unit;
            r = n mod unit
        in (if 2 * r > unit \<or> (2 * r = unit \<and> odd q) then q + 1 else q) * unit)"

definition usize_max :: nat where
  "usize_max = 2 ^ 64 - 1"

definition f64_share :: "nat \<Rightarrow> f64 \<Rightarrow> nat" where
  "f64_share n x = (case x of (m, e) \<Rightarrow> min usize_max (round53 (round53 n * m) div 2 ^ e))"

record token_budget =
  tb_max_tokens :: nat
  tb_threshold :: f64
  tb_max_active :: nat
  tb_current :: nat

definition budget_new :: "nat \<Rightarrow> f64 \<Rightarrow> nat \<Rightarrow> token_budget" where
  "budget_new max_tokens threshold max_active =
     \<lparr>tb_max_tokens = max_tokens, tb_threshold = threshold, tb_max_active = max_active, tb_current = 0\<rparr>"

definition compression_ceiling :: "token_budget \<Rightarrow> nat" where
  "compression_ceiling b =
     (let share = f64_share (tb_max_tokens b) (tb_threshold b)
      in if tb_max_active b = 0 then share else min share (tb_max_active b))"

definition needs_compression :: "token_budget \<Rightarrow> bool" where
  "needs_compression b \<longleftrightarrow> compression_ceiling b < tb_current b"

section \<open>Tokenizers\<close>

datatype audio_delivery = AudioNative | AudioStub

text \<open>\<open>Tokenizer\<close>: what a manager relies on of one.\<close>

locale tokenizer =
  fixes count_message :: "('v, 'm) chat_message \<Rightarrow> nat"
    and count_media :: "('v, 'm) chat_message \<Rightarrow> audio_delivery \<Rightarrow> nat"
  assumes by_content: "content m = content m' \<Longrightarrow> count_message m = count_message m'"
    and text_has_no_media: "list_all is_text (content m) \<Longrightarrow> count_media m a = 0"
    and only_audio_depends:
      "list_all (\<lambda>b. case b of AudioBlock _ _ _ _ \<Rightarrow> False | _ \<Rightarrow> True) (content m) \<Longrightarrow> count_media m a = count_media m a'"

definition MESSAGE_OVERHEAD :: nat where
  "MESSAGE_OVERHEAD = 4"

definition TOOL_USE_OVERHEAD :: nat where
  "TOOL_USE_OVERHEAD = 20"

definition BYTES_PER_TOKEN :: nat where
  "BYTES_PER_TOKEN = 4"

definition PADDING_NUM :: nat where
  "PADDING_NUM = 23"

definition PADDING_DEN :: nat where
  "PADDING_DEN = 20"

text \<open>The characters of a UTF-8 string as their code points and lengths.\<close>

definition utf8_len :: "char \<Rightarrow> nat" where
  "utf8_len c = (let n = char_code c in if n < 128 then 1 else if n < 224 then 2 else if n < 240 then 3 else 4)"

fun code_point :: "string \<Rightarrow> nat" where
  "code_point [] = 0"
| "code_point (c # cs) =
     (let n = char_code c; lead = (if n < 128 then n else if n < 224 then n mod 32 else if n < 240 then n mod 16 else n mod 8)
      in foldl (\<lambda>acc b. 64 * acc + char_code b mod 64) lead cs)"

function chars :: "string \<Rightarrow> string list" where
  "chars [] = []"
| "chars (c # cs) = (c # take (utf8_len c - 1) cs) # chars (drop (utf8_len c - 1) cs)"
  by pat_completeness auto
termination by (relation "measure length") auto

definition is_dense_script :: "string \<Rightarrow> bool" where
  "is_dense_script ch \<longleftrightarrow>
     length ch = 4 \<or>
     (let n = code_point ch in
        (0x13A0 \<le> n \<and> n \<le> 0x13FF) \<or> (0x2E80 \<le> n \<and> n \<le> 0x2FDF) \<or> (0x3400 \<le> n \<and> n \<le> 0x4DBF) \<or>
        (0xA000 \<le> n \<and> n \<le> 0xA4CF))"

fun count_chars :: "string list \<Rightarrow> nat \<times> nat" where
  "count_chars [] = (0, 0)"
| "count_chars (ch # chs) =
     (let (bytes, dense) = count_chars chs
      in if is_dense_script ch then (bytes, dense + length ch)
         else if list_all is_ascii_digit ch then (bytes + 2, dense)
         else (bytes + length ch, dense))"

definition div_ceil :: "nat \<Rightarrow> nat \<Rightarrow> nat" where
  "div_ceil a b = (a + b - 1) div b"

definition count_text :: "string \<Rightarrow> nat" where
  "count_text t =
     (let (bytes, dense) = count_chars (chars t)
      in div_ceil (bytes * PADDING_NUM) (BYTES_PER_TOKEN * PADDING_DEN) + dense)"

definition AUDIO_TOKENS_PER_SECOND :: nat where
  "AUDIO_TOKENS_PER_SECOND = 32"

definition MAX_AUDIO_SECONDS :: nat where
  "MAX_AUDIO_SECONDS = 1800"

definition MS_PER_SECOND :: nat where
  "MS_PER_SECOND = 1000"

definition audio_tokens :: "nat option \<Rightarrow> nat" where
  "audio_tokens duration_ms =
     (case duration_ms of
        Some ms \<Rightarrow> min (div_ceil ms MS_PER_SECOND) MAX_AUDIO_SECONDS
      | None \<Rightarrow> MAX_AUDIO_SECONDS) * AUDIO_TOKENS_PER_SECOND"

text \<open>
  What the providers' tables charge an image and a document, and the text that stands in for a block. The second argument
  of a document's price is its MIME type, then its pages and its size.
\<close>

record ('v, 'm) block_prices =
  bp_image :: "nat option \<Rightarrow> nat option \<Rightarrow> nat"
  bp_document :: "string \<Rightarrow> string \<Rightarrow> nat option \<Rightarrow> nat option \<Rightarrow> nat"
  bp_stub :: "('v, 'm) content_block \<Rightarrow> string"

definition content_block_tokens ::
    "('v, 'm) block_prices \<Rightarrow> ('v, 'm) content_block \<Rightarrow> audio_delivery \<Rightarrow> nat" where
  "content_block_tokens p b audio =
     (case b of
        ImageBlock _ _ _ width height \<Rightarrow> max (bp_image p width height) (length (bp_stub p b))
      | AudioBlock _ _ _ duration_ms \<Rightarrow>
          max (case audio of AudioNative \<Rightarrow> audio_tokens duration_ms | AudioStub \<Rightarrow> 0) (length (bp_stub p b))
      | FileBlock _ filename mime _ pages bytes \<Rightarrow> max (bp_document p filename mime pages bytes) (length (bp_stub p b))
      | _ \<Rightarrow> 0)"

definition heuristic_media :: "('v, 'm) block_prices \<Rightarrow> ('v, 'm) chat_message \<Rightarrow> audio_delivery \<Rightarrow> nat" where
  "heuristic_media p msg audio = sum_list (map (\<lambda>b. content_block_tokens p b audio) (content msg))"

definition thinking_text :: "thinking_content list \<Rightarrow> string" where
  "thinking_text cs =
     join newline (List.map_filter (\<lambda>c. case c of ThinkingText t _ \<Rightarrow> Some t | ThinkingSummary t \<Rightarrow> Some t | _ \<Rightarrow> None) cs)"

definition heuristic_block :: "('v \<Rightarrow> string) \<Rightarrow> ('v, 'm) content_block \<Rightarrow> nat" where
  "heuristic_block to_json b =
     (case b of
        TextBlock t \<Rightarrow> count_text t
      | ToolUse _ _ input _ \<Rightarrow> TOOL_USE_OVERHEAD + count_text (to_json input)
      | ToolResult _ body _ \<Rightarrow> TOOL_USE_OVERHEAD + count_text body
      | Thinking _ cs \<Rightarrow> TOOL_USE_OVERHEAD + count_text (thinking_text cs)
      | _ \<Rightarrow> 0)"

definition heuristic_message :: "('v, 'm) block_prices \<Rightarrow> ('v \<Rightarrow> string) \<Rightarrow> ('v, 'm) chat_message \<Rightarrow> nat" where
  "heuristic_message p to_json msg =
     MESSAGE_OVERHEAD + heuristic_media p msg AudioNative + sum_list (map (heuristic_block to_json) (content msg))"

lemma sum_list_zero: "list_all (\<lambda>x. f x = (0 :: nat)) xs \<Longrightarrow> sum_list (map f xs) = 0"
  by (induction xs) simp_all

lemma sum_list_same: "list_all (\<lambda>x. f x = g x) xs \<Longrightarrow> sum_list (map f xs) = sum_list (map g xs)"
  by (induction xs) simp_all

interpretation heuristic: tokenizer "heuristic_message p to_json" "heuristic_media p" for p and to_json
proof
  fix m m' :: "('a, 'b) chat_message" and a a'
  show "content m = content m' \<Longrightarrow> heuristic_message p to_json m = heuristic_message p to_json m'"
    by (simp add: heuristic_message_def heuristic_media_def)
  show "heuristic_media p m a = 0" if "list_all is_text (content m)"
  proof -
    have "content_block_tokens p b a = 0" if "is_text b" for b :: "('a, 'b) content_block"
      using that by (cases b) (simp_all add: is_text_def content_block_tokens_def)
    then show ?thesis using that by (auto simp: heuristic_media_def list_all_iff intro!: sum_list_zero)
  qed
  show "heuristic_media p m a = heuristic_media p m a'"
    if "list_all (\<lambda>b. case b of AudioBlock _ _ _ _ \<Rightarrow> False | _ \<Rightarrow> True) (content m)"
  proof -
    have "content_block_tokens p b a = content_block_tokens p b a'"
      if "case b of AudioBlock _ _ _ _ \<Rightarrow> False | _ \<Rightarrow> True" for b :: "('a, 'b) content_block"
      using that by (cases b) (simp_all add: content_block_tokens_def)
    then show ?thesis using that unfolding heuristic_media_def by (auto simp: list_all_iff intro!: sum_list_same)
  qed
qed

section \<open>The manager\<close>

definition delivers_media :: "role \<Rightarrow> bool" where
  "delivers_media r \<longleftrightarrow> r = RoleUser"

record message_tokens =
  mt_text :: nat
  mt_media :: nat

definition mt_total :: "message_tokens \<Rightarrow> nat" where
  "mt_total t = mt_text t + mt_media t"

record token_baseline =
  bl_actual_tokens :: nat
  bl_message_count :: nat
  bl_request_overhead :: nat

record file_fingerprint =
  fp_mtime :: int
  fp_size :: nat

datatype prompt_version = SubagentVersion string | PersonaVersion "(string \<times> file_fingerprint option) list"

text \<open>
  What a manager reads of other parts: its tokenizer; members of a tool call's input (the skill a call of the \<open>Skill\<close> tool
  names, the path and the content a write was given) and of a result's metadata; the registry's summaries for its scope, its
  channel, the escaping of a line and the line diff; a skill's definition, its template and renderings; the assembled system
  prompt (\<open>None\<close> when it cannot be resolved), the version of its sources before and after it was assembled, a file's
  fingerprint and its text; and the path of the session's log file.
\<close>

record ('v, 'm, 's) context_env =
  ce_count_message :: "('v, 'm) chat_message \<Rightarrow> nat"
  ce_count_media :: "('v, 'm) chat_message \<Rightarrow> audio_delivery \<Rightarrow> nat"
  ce_count_text :: "string \<Rightarrow> nat"
  ce_skill_arg :: "'v \<Rightarrow> string option"
  ce_file_arg :: "'v \<Rightarrow> string option"
  ce_content_arg :: "'v \<Rightarrow> string option"
  ce_write_fingerprint :: "'m \<Rightarrow> file_fingerprint option"
  ce_summaries :: "skill_summary list"
  ce_channel :: string
  ce_one_line :: "string \<Rightarrow> string"
  ce_line_diff :: "string \<Rightarrow> string \<Rightarrow> string"
  ce_get_scoped :: "string \<Rightarrow> 's option"
  ce_template :: "'s \<Rightarrow> string"
  ce_with_template :: "string \<Rightarrow> 's \<Rightarrow> 's"
  ce_render_block :: "'s \<Rightarrow> string"
  ce_slash_body :: "'s \<Rightarrow> string"
  ce_prompt :: "prompt_part list option"
  ce_version :: prompt_version
  ce_version_after :: prompt_version
  ce_stat :: "string \<Rightarrow> file_fingerprint option"
  ce_read :: "string \<Rightarrow> string option"
  ce_transcript_path :: string

definition invocable_skill_summaries :: "('v, 'm, 's) context_env \<Rightarrow> skill_summary list" where
  "invocable_skill_summaries env =
     filter (\<lambda>s. ss_agent_invocable s \<and> ss_trust_level s \<noteq> Untrusted \<and> allows_channel (ce_channel env) s) (ce_summaries env)"

definition slash_skill_summaries :: "('v, 'm, 's) context_env \<Rightarrow> skill_summary list" where
  "slash_skill_summaries env =
     filter (\<lambda>s. ss_command s \<noteq> None \<and> ss_trust_level s \<noteq> Untrusted \<and> allows_channel (ce_channel env) s) (ce_summaries env)"

record ('v, 'm) context_manager =
  cm_keep_recent :: nat
  cm_budget :: token_budget
  cm_messages :: "('v, 'm) chat_message list"
  cm_diverged :: bool
  cm_per_message :: "message_tokens list"
  cm_called_skills :: "string list"
  cm_baseline :: "token_baseline option"
  cm_request_overhead :: nat
  cm_audio :: audio_delivery
  cm_current_model :: "string option"
  cm_declined_at :: "nat option"
  cm_tail :: "('v, 'm) transient_tail"
  cm_task_reminder_raw :: nat
  cm_progress_raw :: nat
  cm_prompt_version :: "prompt_version option"
  cm_skills_version :: "string option"
  cm_prompt_anchors :: "(string \<times> file_fingerprint) list"
  cm_deferred_notice :: "string option"

definition from_config :: "nat \<Rightarrow> f64 \<Rightarrow> nat \<Rightarrow> string option \<Rightarrow> ('v, 'm) context_manager" where
  "from_config keep_recent threshold max_active notice =
     \<lparr>cm_keep_recent = keep_recent, cm_budget = budget_new 0 threshold max_active, cm_messages = [], cm_diverged = False,
      cm_per_message = [], cm_called_skills = [], cm_baseline = None, cm_request_overhead = 0, cm_audio = AudioNative,
      cm_current_model = None, cm_declined_at = None,
      cm_tail = \<lparr>task_reminder = None, progress_observation = None, notification_cue = None\<rparr>,
      cm_task_reminder_raw = 0, cm_progress_raw = 0,
      cm_prompt_version = None, cm_skills_version = None, cm_prompt_anchors = [], cm_deferred_notice = notice\<rparr>"

section \<open>Counting\<close>

definition split_tokens ::
    "('v, 'm, 's) context_env \<Rightarrow> audio_delivery \<Rightarrow> ('v, 'm) chat_message \<Rightarrow> message_tokens" where
  "split_tokens env audio msg =
     \<lparr>mt_text = ce_count_message env msg - ce_count_media env msg AudioNative,
      mt_media = (if delivers_media (role msg) then ce_count_media env msg audio else 0)\<rparr>"

definition message_budget_tokens ::
    "('v, 'm, 's) context_env \<Rightarrow> audio_delivery \<Rightarrow> ('v, 'm) chat_message \<Rightarrow> message_tokens" where
  "message_budget_tokens env audio msg =
     (let t = extract_text (content msg);
          framed = (\<lambda>text'. split_tokens env audio
            (user_row (TextBlock text' # filter (\<lambda>b. \<not> is_text b) (content msg))))
      in case source msg of
           SrcUserInterjection \<Rightarrow> framed (wrap_interjections [t])
         | SrcRecalledMemory \<Rightarrow> framed (wrap_recalled_memories [t])
         | _ \<Rightarrow> split_tokens env audio msg)"

definition transient_tail_raw :: "('v, 'm) context_manager \<Rightarrow> nat" where
  "transient_tail_raw c = cm_task_reminder_raw c + cm_progress_raw c"

definition unanchored_request_tokens :: "('v, 'm) context_manager \<Rightarrow> nat \<Rightarrow> nat" where
  "unanchored_request_tokens c n = n + cm_request_overhead c + transient_tail_raw c"

definition count_tokens :: "('v, 'm) context_manager \<Rightarrow> nat" where
  "count_tokens c =
     (case cm_baseline c of
        Some b \<Rightarrow>
          if bl_message_count b \<le> length (cm_messages c)
          then bl_actual_tokens b + (cm_request_overhead c - bl_request_overhead b) + transient_tail_raw c
               + sum_list (map mt_total (drop (bl_message_count b) (cm_per_message c)))
          else unanchored_request_tokens c (sum_list (map mt_total (cm_per_message c)))
      | None \<Rightarrow> unanchored_request_tokens c (sum_list (map mt_total (cm_per_message c))))"

definition update_budget :: "('v, 'm) context_manager \<Rightarrow> ('v, 'm) context_manager" where
  "update_budget c = c\<lparr>cm_budget := (cm_budget c)\<lparr>tb_current := count_tokens c\<rparr>\<rparr>"

definition invalidate_baseline :: "('v, 'm) context_manager \<Rightarrow> ('v, 'm) context_manager" where
  "invalidate_baseline c = c\<lparr>cm_baseline := None\<rparr>"

definition set_current_model :: "string \<Rightarrow> ('v, 'm) context_manager \<Rightarrow> ('v, 'm) context_manager" where
  "set_current_model model c =
     (if cm_current_model c = Some model then c
      else
        let switching = cm_current_model c \<noteq> None; c = c\<lparr>cm_current_model := Some model\<rparr>
        in if switching then invalidate_baseline c else c)"

text \<open>A tool is its name, its description and the text of its schema.\<close>

definition tool_definition_tokens :: "('v, 'm, 's) context_env \<Rightarrow> string \<times> string \<times> string \<Rightarrow> nat" where
  "tool_definition_tokens env tool =
     (case tool of (name, description, schema) \<Rightarrow>
        ce_count_text env name + ce_count_text env description + ce_count_text env schema)"

definition note_request_tools ::
    "('v, 'm, 's) context_env \<Rightarrow> (string \<times> string \<times> string) list \<Rightarrow> ('v, 'm) context_manager \<Rightarrow> ('v, 'm) context_manager" where
  "note_request_tools env tools c = c\<lparr>cm_request_overhead := sum_list (map (tool_definition_tokens env) tools)\<rparr>"

definition set_active_model_context_window :: "nat \<Rightarrow> ('v, 'm) context_manager \<Rightarrow> ('v, 'm) context_manager" where
  "set_active_model_context_window window c = c\<lparr>cm_budget := (cm_budget c)\<lparr>tb_max_tokens := window\<rparr>\<rparr>"

definition message_carries_audio :: "('v, 'm) chat_message \<Rightarrow> bool" where
  "message_carries_audio msg = list_ex (\<lambda>b. case b of AudioBlock _ _ _ _ \<Rightarrow> True | _ \<Rightarrow> False) (content msg)"

definition carries_audio :: "nat \<Rightarrow> ('v, 'm) context_manager \<Rightarrow> bool" where
  "carries_audio n c = list_ex message_carries_audio (take n (cm_messages c))"

definition set_active_model_audio_delivery ::
    "('v, 'm, 's) context_env \<Rightarrow> audio_delivery \<Rightarrow> ('v, 'm) context_manager \<Rightarrow> ('v, 'm) context_manager" where
  "set_active_model_audio_delivery env audio c =
     (if cm_audio c = audio then c
      else
        let c = c\<lparr>cm_audio := audio\<rparr>;
            c = (case cm_baseline c of
                   Some b \<Rightarrow> if audio = AudioNative \<and> carries_audio (bl_message_count b) c then invalidate_baseline c else c
                 | None \<Rightarrow> c)
        in update_budget (c\<lparr>cm_per_message :=
             map (\<lambda>(m, t). if message_carries_audio m then message_budget_tokens env audio m else t)
               (zip (cm_messages c) (cm_per_message c))\<rparr>))"

definition raw_tokens :: "('v, 'm, 's) context_env \<Rightarrow> ('v, 'm) chat_message option \<Rightarrow> nat" where
  "raw_tokens env m = (case m of None \<Rightarrow> 0 | Some m \<Rightarrow> ce_count_message env m)"

text \<open>The reminder is the rendered checklist, none for an empty one.\<close>

definition refresh_task_reminder ::
    "('v, 'm, 's) context_env \<Rightarrow> string option \<Rightarrow> ('v, 'm) context_manager \<Rightarrow> ('v, 'm) context_manager" where
  "refresh_task_reminder env rendered c =
     (let reminder = map_option (\<lambda>t. agent_context [TextBlock t]) rendered
      in update_budget (c\<lparr>cm_tail := (cm_tail c)\<lparr>task_reminder := reminder\<rparr>, cm_task_reminder_raw := raw_tokens env reminder\<rparr>))"

definition set_progress_observation ::
    "('v, 'm, 's) context_env \<Rightarrow> string option \<Rightarrow> ('v, 'm) context_manager \<Rightarrow> ('v, 'm) context_manager" where
  "set_progress_observation env rendered c =
     (if rendered = None \<and> progress_observation (cm_tail c) = None then c
      else
        let observation = map_option (\<lambda>t. agent_context [TextBlock t]) rendered
        in update_budget (c\<lparr>cm_tail := (cm_tail c)\<lparr>progress_observation := observation\<rparr>,
                            cm_progress_raw := raw_tokens env observation\<rparr>))"

definition set_notification_cue :: "string option \<Rightarrow> ('v, 'm) context_manager \<Rightarrow> ('v, 'm) context_manager" where
  "set_notification_cue cue c =
     c\<lparr>cm_tail := (cm_tail c)\<lparr>notification_cue := map_option (\<lambda>t. agent_context [TextBlock t]) cue\<rparr>\<rparr>"

section \<open>Called skills\<close>

definition SKILL_TOOL_NAME :: string where
  "SKILL_TOOL_NAME = ''Skill''"

definition push_called_skill :: "string list \<Rightarrow> string \<Rightarrow> string list" where
  "push_called_skill acc name = (if name \<in> set acc then acc else acc @ [name])"

definition record_skill_calls ::
    "('v, 'm, 's) context_env \<Rightarrow> string list \<Rightarrow> ('v, 'm) chat_message \<Rightarrow> string list" where
  "record_skill_calls env acc msg =
     foldl (\<lambda>acc b.
       case b of
         ToolUse _ name input _ \<Rightarrow>
           if name \<noteq> SKILL_TOOL_NAME then acc
           else (case ce_skill_arg env input of None \<Rightarrow> acc | Some skill \<Rightarrow> push_called_skill acc skill)
       | _ \<Rightarrow> acc) acc (content msg)"

definition scan_skill_calls :: "('v, 'm, 's) context_env \<Rightarrow> ('v, 'm) chat_message list \<Rightarrow> string list" where
  "scan_skill_calls env ms = foldl (record_skill_calls env) [] ms"

text \<open>The spaces of \<open>char::is_whitespace\<close>, in UTF-8.\<close>

definition is_white_space :: "string \<Rightarrow> bool" where
  "is_white_space ch \<longleftrightarrow>
     (let n = code_point ch in
        (9 \<le> n \<and> n \<le> 13) \<or> n = 32 \<or> n = 0x85 \<or> n = 0xA0 \<or> n = 0x1680 \<or> (0x2000 \<le> n \<and> n \<le> 0x200A) \<or>
        n = 0x2028 \<or> n = 0x2029 \<or> n = 0x202F \<or> n = 0x205F \<or> n = 0x3000)"

definition trim_start :: "string \<Rightarrow> string" where
  "trim_start t = concat (dropWhile is_white_space (chars t))"

definition trim_text :: "string \<Rightarrow> string" where
  "trim_text t = concat (rev (dropWhile is_white_space (rev (dropWhile is_white_space (chars t)))))"

definition detect_slash_invocation :: "string \<Rightarrow> skill_summary list \<Rightarrow> (string \<times> string) option" where
  "detect_slash_invocation user_text skills =
     (case strip_prefix ''/'' (trim_start user_text) of
        None \<Rightarrow> None
      | Some rest \<Rightarrow>
          let cmd = concat (takeWhile (\<lambda>ch. \<not> is_white_space ch) (chars rest));
              args = trim_text (concat (dropWhile (\<lambda>ch. \<not> is_white_space ch) (chars rest)))
          in if cmd = [] then None
             else map_option (\<lambda>s. (ss_name s, args)) (find (\<lambda>s. ss_command s = Some cmd) skills))"

definition called_skills_in :: "('v, 'm, 's) context_env \<Rightarrow> ('v, 'm) chat_message list \<Rightarrow> string list" where
  "called_skills_in env ms =
     foldl (\<lambda>called m.
       if source m \<noteq> SrcUser then called
       else (case detect_slash_invocation (extract_text (content m)) (invocable_skill_summaries env) of
               Some (name, _) \<Rightarrow> push_called_skill called name
             | None \<Rightarrow> called)) (scan_skill_calls env ms) ms"

section \<open>Changing the transcript\<close>

definition push_message ::
    "('v, 'm, 's) context_env \<Rightarrow> ('v, 'm) chat_message \<Rightarrow> ('v, 'm) context_manager \<Rightarrow> ('v, 'm) context_manager" where
  "push_message env msg c =
     update_budget (c\<lparr>cm_called_skills := record_skill_calls env (cm_called_skills c) msg,
                      cm_messages := cm_messages c @ [msg],
                      cm_per_message := cm_per_message c @ [message_budget_tokens env (cm_audio c) msg]\<rparr>)"

type_synonym ('v, 'm) live = "('v, 'm) context_manager \<times> ('v, 'm) session_log"

definition append_row ::
    "('v, 'm, 's) context_env \<Rightarrow> bool \<Rightarrow> int \<Rightarrow> ('v, 'm) chat_message \<Rightarrow> ('v, 'm) live \<Rightarrow> nat option \<times> ('v, 'm) live" where
  "append_row env ok now msg s =
     (case s of (c, L) \<Rightarrow>
        if ok then (case append_session_message now msg L of (n, L) \<Rightarrow> (Some n, push_message env msg c, L))
        else (None, c, L))"

definition append_idempotent ::
    "('v, 'm, 's) context_env \<Rightarrow> bool \<Rightarrow> int \<Rightarrow> string \<Rightarrow> ('v, 'm) chat_message \<Rightarrow> ('v, 'm) live \<Rightarrow>
     append_outcome option \<times> ('v, 'm) live" where
  "append_idempotent env ok now event msg s =
     (case s of (c, L) \<Rightarrow>
        if \<not> ok then (None, c, L)
        else (case append_session_message_idempotent now event msg L of
                (None, L) \<Rightarrow> (None, c, L)
              | (Some outcome, L) \<Rightarrow> (Some outcome, if was_inserted outcome then push_message env msg c else c, L)))"

definition replace_first_message ::
    "('v, 'm, 's) context_env \<Rightarrow> ('v, 'm) chat_message \<Rightarrow> ('v, 'm) context_manager \<Rightarrow> ('v, 'm) context_manager" where
  "replace_first_message env msg c =
     (if cm_messages c = [] then c
      else update_budget (invalidate_baseline
        (c\<lparr>cm_per_message := (cm_per_message c)[0 := message_budget_tokens env (cm_audio c) msg],
           cm_messages := (cm_messages c)[0 := msg], cm_diverged := True\<rparr>)))"

definition restore_messages ::
    "('v, 'm, 's) context_env \<Rightarrow> ('v, 'm) chat_message list \<Rightarrow> ('v, 'm) context_manager \<Rightarrow> ('v, 'm) context_manager" where
  "restore_messages env ms c =
     (update_budget (invalidate_baseline
        (c\<lparr>cm_per_message := map (message_budget_tokens env (cm_audio c)) ms, cm_called_skills := called_skills_in env ms,
           cm_messages := ms, cm_diverged := True, cm_prompt_version := None, cm_skills_version := None\<rparr>)))\<lparr>cm_declined_at := None\<rparr>"

definition record_call_actual :: "bool \<Rightarrow> nat \<Rightarrow> ('v, 'm) live \<Rightarrow> ('v, 'm) live" where
  "record_call_actual ok actual s =
     (case s of (c, L) \<Rightarrow>
        if actual = 0 then (c, L)
        else
          let tokens = actual - transient_tail_raw c;
              n = length (cm_messages c);
              overhead = cm_request_overhead c
          in (c\<lparr>cm_baseline := Some \<lparr>bl_actual_tokens = tokens, bl_message_count = n, bl_request_overhead = overhead\<rparr>\<rparr>,
              case cm_current_model c of
                Some model \<Rightarrow> if \<not> cm_diverged c \<and> ok then record_token_anchor model tokens n overhead L else L
              | None \<Rightarrow> L))"

section \<open>Restoring\<close>

definition restorable_anchor_len ::
    "bool \<Rightarrow> ('v, 'm) session_log \<Rightarrow> ('v, 'm) active_message_row list \<Rightarrow> (token_anchor \<times> nat) option" where
  "restorable_anchor_len ok L rs =
     (case (if ok then load_token_anchor L else None) of
        None \<Rightarrow> None
      | Some a \<Rightarrow>
          let covered = length (takeWhile (\<lambda>r. ar_ordinal r \<le> ta_through_ordinal a) rs)
          in if covered = ta_message_count a \<and> 0 < covered then Some (a, covered) else None)"

definition install_restored_anchor ::
    "token_anchor \<Rightarrow> nat \<Rightarrow> ('v, 'm) context_manager \<Rightarrow> ('v, 'm) context_manager" where
  "install_restored_anchor a n c =
     update_budget (c\<lparr>cm_current_model := Some (ta_model_id a),
       cm_baseline := Some \<lparr>bl_actual_tokens = ta_actual_tokens a, bl_message_count = n,
                            bl_request_overhead = ta_request_overhead a\<rparr>\<rparr>)"

text \<open>The fills a repair made, written one by one: what the store accepted of them, and the log then.\<close>

fun persist_fills ::
    "bool list \<Rightarrow> int \<Rightarrow> ('v, 'm) chat_message list \<Rightarrow> ('v, 'm) session_log \<Rightarrow> ('v, 'm) chat_message list \<times> ('v, 'm) session_log" where
  "persist_fills oks now [] L = ([], L)"
| "persist_fills oks now (fill # fs) L =
     (if oks \<noteq> [] \<and> hd oks
      then (case persist_fills (tl oks) now fs (snd (append_session_message now fill L)) of (kept, L) \<Rightarrow> (fill # kept, L))
      else persist_fills (tl oks) now fs L)"

definition restore_from_store ::
    "('v, 'm, 's) context_env \<Rightarrow> bool \<Rightarrow> bool \<Rightarrow> bool list \<Rightarrow> int \<Rightarrow> ('v, 'm) live \<Rightarrow> ('v, 'm) live" where
  "restore_from_store env rows_ok anchor_ok fill_oks now s =
     (case s of (c, L) \<Rightarrow>
        let rs = load_active_session_message_rows L
        in if \<not> rows_ok \<or> rs = [] then (c, L)
           else
             let anchor_rows = restorable_anchor_len anchor_ok L rs;
                 original = map ar_message rs;
                 repair = repair_tool_pairing original;
                 (kept, L) = persist_fills fill_oks now (fills repair) L;
                 c = restore_messages env (messages repair) c;
                 c = c\<lparr>cm_diverged := cm_messages c \<noteq> original @ kept\<rparr>
             in (case anchor_rows of
                   Some (a, n) \<Rightarrow>
                     if n \<le> length (cm_messages c) \<and> take n (cm_messages c) = take n original \<and>
                        \<not> (cm_audio c = AudioNative \<and> carries_audio n c)
                     then install_restored_anchor a n c else c
                 | None \<Rightarrow> c, L))"

end
