(* ===== verification/TranscriptCut.thy ===== *)
theory TranscriptCut
  imports ContextManager
begin

text \<open>
  Where a compaction cuts a transcript (\<open>crates/context/src/compressor.rs\<close>, with the bounds of \<open>lib.rs\<close>): a cut keeps the
  calls of the tool results behind it, and the walk backwards bounds how much is kept word for word.
\<close>

section \<open>The cut\<close>

definition partition_system ::
    "('v, 'm) chat_message list \<Rightarrow> ('v, 'm) chat_message list \<times> ('v, 'm) chat_message list" where
  "partition_system ms = (filter (\<lambda>m. role m = RoleSystem) ms, filter (\<lambda>m. role m \<noteq> RoleSystem) ms)"

definition needed_calls :: "('v, 'm) chat_message list \<Rightarrow> string set" where
  "needed_calls tail' = set (concat (map result_ids tail')) - set (use_ids tail')"

text \<open>The scan backwards from a cut for the last row with a call that is needed.\<close>

fun scan_back :: "string set \<Rightarrow> ('v, 'm) chat_message list \<Rightarrow> nat \<Rightarrow> nat option" where
  "scan_back needed ms 0 = None"
| "scan_back needed ms (Suc i) =
     (if list_ex (\<lambda>i. i \<in> needed) (use_ids_of (content (ms ! i))) then Some i else scan_back needed ms i)"

lemma scan_back_less: "scan_back needed ms n = Some i \<Longrightarrow> i < n"
  by (induction n) (auto split: if_splits)

function cut_loop :: "('v, 'm) chat_message list \<Rightarrow> nat \<Rightarrow> nat" where
  "cut_loop ms k =
     (let needed = needed_calls (drop k ms)
      in if needed = {} then k
         else case scan_back needed ms k of None \<Rightarrow> k | Some i \<Rightarrow> cut_loop ms i)"
  by pat_completeness auto
termination
  by (relation "measure snd") (auto dest: scan_back_less)

declare cut_loop.simps [simp del]

definition pair_preserving_cut :: "('v, 'm) chat_message list \<Rightarrow> nat \<Rightarrow> nat" where
  "pair_preserving_cut ms k =
     (let new_cut = min k (length ms) in if new_cut = 0 then 0 else cut_loop ms new_cut)"

definition has_text :: "('v, 'm) chat_message \<Rightarrow> bool" where
  "has_text m = list_ex is_text (content m)"

lemma cut_loop_le: "cut_loop ms k \<le> k"
proof (induction ms k rule: cut_loop.induct)
  case (1 ms k)
  show ?case
  proof (cases "needed_calls (drop k ms) = {} \<or> scan_back (needed_calls (drop k ms)) ms k = None")
    case True
    then show ?thesis by (subst cut_loop.simps) (auto simp: Let_def)
  next
    case False
    then obtain i where i: "scan_back (needed_calls (drop k ms)) ms k = Some i" and ne: "needed_calls (drop k ms) \<noteq> {}" by auto
    then show ?thesis using 1 [OF refl ne i] scan_back_less [OF i] by (subst cut_loop.simps) (simp add: Let_def)
  qed
qed

lemma pair_cut_le: "pair_preserving_cut ms k \<le> k" "pair_preserving_cut ms k \<le> length ms"
  using cut_loop_le [of ms "min k (length ms)"] by (simp_all add: pair_preserving_cut_def Let_def)

function walk_loop ::
    "('v, 'm) chat_message list \<Rightarrow> nat \<Rightarrow> nat \<Rightarrow> nat \<Rightarrow> (('v, 'm) chat_message \<Rightarrow> nat) \<Rightarrow> nat \<Rightarrow> nat \<Rightarrow> nat \<Rightarrow> nat" where
  "walk_loop ms min_tokens min_texts max_tokens tokenize cursor tokens texts =
     (if cursor = 0 then 0
      else
        let new_cursor = pair_preserving_cut ms (cursor - 1);
            unit = take (cursor - new_cursor) (drop new_cursor ms);
            unit_tokens = sum_list (map tokenize unit)
        in if max_tokens < tokens + unit_tokens then cursor
           else
             let tokens = tokens + unit_tokens;
                 texts = texts + length (filter has_text unit)
             in if min_tokens \<le> tokens \<and> min_texts \<le> texts then new_cursor
                else walk_loop ms min_tokens min_texts max_tokens tokenize new_cursor tokens texts)"
  by pat_completeness auto
termination
  by (relation "measure (\<lambda>(_, _, _, _, _, cursor, _, _). cursor)")
    (auto intro: le_less_trans [OF pair_cut_le(1)])

declare walk_loop.simps [simp del]

definition walk_backward_atomic ::
    "('v, 'm) chat_message list \<Rightarrow> nat \<Rightarrow> nat \<Rightarrow> nat \<Rightarrow> (('v, 'm) chat_message \<Rightarrow> nat) \<Rightarrow> nat" where
  "walk_backward_atomic ms min_tokens min_texts max_tokens tokenize =
     walk_loop ms min_tokens min_texts max_tokens tokenize (length ms) 0 0"

definition RECENT_SLICE_MAX_TOKENS_ABS :: nat where
  "RECENT_SLICE_MAX_TOKENS_ABS = 40000"

text \<open>The \<open>f64\<close> nearest to 0.15, and 0.25.\<close>

definition RECENT_SLICE_MAX_TOKENS_RATIO :: f64 where
  "RECENT_SLICE_MAX_TOKENS_RATIO = (5404319552844595, 55)"

definition RECENT_SLICE_MIN_RATIO_OF_CAP :: f64 where
  "RECENT_SLICE_MIN_RATIO_OF_CAP = (1, 2)"

definition RECENT_SLICE_MIN_TEXT_BLOCK_MSGS :: nat where
  "RECENT_SLICE_MIN_TEXT_BLOCK_MSGS = 5"

definition recent_slice_bounds :: "nat \<Rightarrow> nat \<times> nat \<times> nat" where
  "recent_slice_bounds max_tokens =
     (let cap = min RECENT_SLICE_MAX_TOKENS_ABS (f64_share max_tokens RECENT_SLICE_MAX_TOKENS_RATIO)
      in (f64_share cap RECENT_SLICE_MIN_RATIO_OF_CAP, RECENT_SLICE_MIN_TEXT_BLOCK_MSGS, cap))"

section \<open>What a cut keeps\<close>

text \<open>A cut is safe when every result after it finds its call after it too, if it has one at all.\<close>

definition safe_cut :: "('v, 'm) chat_message list \<Rightarrow> nat \<Rightarrow> bool" where
  "safe_cut ms k \<longleftrightarrow> needed_calls (drop k ms) \<inter> set (use_ids ms) = {}"

lemma scan_back_Some:
  "scan_back needed ms n = Some i \<Longrightarrow>
     (\<exists>c \<in> needed. c \<in> set (use_ids_of (content (ms ! i)))) \<and>
     (\<forall>j. i < j \<and> j < n \<longrightarrow> needed \<inter> set (use_ids_of (content (ms ! j))) = {})"
proof (induction n)
  case (Suc n)
  then show ?case
    by (cases "list_ex (\<lambda>i. i \<in> needed) (use_ids_of (content (ms ! n)))") (auto simp: list_ex_iff less_Suc_eq)
qed simp

lemma scan_back_None:
  "scan_back needed ms n = None \<Longrightarrow> j < n \<Longrightarrow> needed \<inter> set (use_ids_of (content (ms ! j))) = {}"
  by (induction n) (auto simp: list_ex_iff less_Suc_eq split: if_splits)

lemma use_ids_nth: "c \<in> set (use_ids ms) \<longleftrightarrow> (\<exists>j < length ms. c \<in> set (use_ids_of (content (ms ! j))))"
  by (fastforce simp: use_ids_def in_set_conv_nth)

lemma use_ids_drop:
  "c \<in> set (use_ids (drop k ms)) \<longleftrightarrow> (\<exists>j < length ms. k \<le> j \<and> c \<in> set (use_ids_of (content (ms ! j))))"
proof
  assume "c \<in> set (use_ids (drop k ms))"
  then obtain j where "j < length (drop k ms)" "c \<in> set (use_ids_of (content (drop k ms ! j)))" by (auto simp: use_ids_nth)
  then show "\<exists>j < length ms. k \<le> j \<and> c \<in> set (use_ids_of (content (ms ! j)))" by (intro exI [of _ "k + j"]) simp
next
  assume "\<exists>j < length ms. k \<le> j \<and> c \<in> set (use_ids_of (content (ms ! j)))"
  then obtain j where "j < length ms" "k \<le> j" "c \<in> set (use_ids_of (content (ms ! j)))" by auto
  then show "c \<in> set (use_ids (drop k ms))" unfolding use_ids_nth by (intro exI [of _ "j - k"]) simp
qed

lemma results_drop_mono:
  "k \<le> k' \<Longrightarrow> set (concat (map result_ids (drop k' ms))) \<subseteq> set (concat (map result_ids (drop k ms)))"
  using set_drop_subset_set_drop [of k k' ms] by auto

lemma cut_loop_safe: "k \<le> length ms \<Longrightarrow> safe_cut ms (cut_loop ms k)"
proof (induction ms k rule: cut_loop.induct)
  case (1 ms k)
  let ?n = "needed_calls (drop k ms)"
  show ?case
  proof (cases "?n = {}")
    case True
    then show ?thesis by (subst cut_loop.simps) (simp add: Let_def safe_cut_def)
  next
    case False
    show ?thesis
    proof (cases "scan_back ?n ms k")
      case None
      have "c \<notin> set (use_ids ms)" if "c \<in> ?n" for c
      proof
        assume "c \<in> set (use_ids ms)"
        then obtain j where j: "j < length ms" "c \<in> set (use_ids_of (content (ms ! j)))" by (auto simp: use_ids_nth)
        have "\<not> j < k" using scan_back_None [OF None, of j] that j(2) by auto
        then have "c \<in> set (use_ids (drop k ms))" using j by (auto simp: use_ids_drop)
        then show False using that by (simp add: needed_calls_def)
      qed
      then show ?thesis using None False by (subst cut_loop.simps) (auto simp: Let_def safe_cut_def)
    next
      case (Some i)
      then have "i \<le> length ms" using scan_back_less [OF Some] 1(2) by simp
      then show ?thesis using 1(1) [OF refl False Some] Some False by (subst cut_loop.simps) (simp add: Let_def)
    qed
  qed
qed

lemma cut_loop_greatest: "k \<le> length ms \<Longrightarrow> safe_cut ms c \<Longrightarrow> c \<le> k \<Longrightarrow> c \<le> cut_loop ms k"
proof (induction ms k rule: cut_loop.induct)
  case (1 ms k)
  let ?n = "needed_calls (drop k ms)"
  show ?case
  proof (cases "?n = {} \<or> scan_back ?n ms k = None")
    case True
    then show ?thesis using 1(4) by (subst cut_loop.simps) (auto simp: Let_def)
  next
    case False
    then obtain i where i: "scan_back ?n ms k = Some i" and ne: "?n \<noteq> {}" by auto
    have less: "i < k" using i by (rule scan_back_less)
    obtain call where call: "call \<in> ?n" "call \<in> set (use_ids_of (content (ms ! i)))"
      using scan_back_Some [OF i] by blast
    have used: "call \<in> set (use_ids ms)" using call(2) less 1(2) unfolding use_ids_nth by (intro exI [of _ i]) simp
    have "call \<in> set (concat (map result_ids (drop c ms)))"
      using call(1) results_drop_mono [OF 1(4)] by (auto simp: needed_calls_def)
    then have "call \<in> set (use_ids (drop c ms))" using 1(3) used by (auto simp: safe_cut_def needed_calls_def)
    then obtain j where j: "c \<le> j" "j < length ms" "call \<in> set (use_ids_of (content (ms ! j)))"
      by (auto simp: use_ids_drop)
    have "j < k" using j call(1) by (auto simp: needed_calls_def use_ids_drop not_less [symmetric])
    then have "j \<le> i" using scan_back_Some [OF i] call(1) j(3) by (meson disjoint_iff not_le)
    then have "c \<le> cut_loop ms i" using 1(1) [OF refl ne i] 1(2,3) less j(1) by simp
    then show ?thesis using i ne by (subst cut_loop.simps) (simp add: Let_def)
  qed
qed

lemma pair_cut_safe: "safe_cut ms (pair_preserving_cut ms k)"
proof -
  have "safe_cut ms 0" by (auto simp: safe_cut_def needed_calls_def)
  then show ?thesis
    using cut_loop_safe [of "min k (length ms)" ms] by (simp add: pair_preserving_cut_def Let_def)
qed

text \<open>C11: A candidate cut moves back to the latest place, and no further, from which every tool result that has a call
  in the transcript still has it: no cut between it and the candidate is safe.\<close>

theorem cut_is_the_latest_safe_one:
  "safe_cut ms (pair_preserving_cut ms k) \<and> pair_preserving_cut ms k \<le> min k (length ms) \<and>
    (\<forall>c \<in> {0..min k (length ms)}. safe_cut ms c \<longrightarrow> c \<le> pair_preserving_cut ms k)"
  using pair_cut_safe [of ms k] pair_cut_le [of ms k] cut_loop_greatest [of "min k (length ms)" ms]
  by (simp add: pair_preserving_cut_def Let_def)

definition short_transcript :: "(unit, unit) chat_message list" where
  "short_transcript =
     [user_row [TextBlock ''ask''], assistant_row [ToolUse ''t'' ''Bash'' () None], tool_row [ToolResult ''t'' ''ok'' None],
      assistant_row [TextBlock ''done'']]"

theorem cut_is_the_latest_safe_one_witness: "1 \<le> pair_preserving_cut short_transcript 2"
proof -
  have "safe_cut short_transcript 1" "1 \<in> {0..min 2 (length short_transcript)}" by code_simp+
  with cut_is_the_latest_safe_one [of short_transcript 2] show ?thesis by blast
qed

section \<open>How much of the end is kept\<close>

lemma walk_loop_ok:
  assumes "safe_cut ms cursor" and "cursor \<le> length ms" and "tokens = sum_list (map tokenize (drop cursor ms))"
    and "texts = length (filter has_text (drop cursor ms))" and "tokens \<le> max_tokens"
    and "k = walk_loop ms min_tokens min_texts max_tokens tokenize cursor tokens texts"
  shows "safe_cut ms k \<and> k \<le> cursor \<and> sum_list (map tokenize (drop k ms)) \<le> max_tokens \<and>
    (k = 0 \<or> min_tokens \<le> sum_list (map tokenize (drop k ms)) \<and> min_texts \<le> length (filter has_text (drop k ms)) \<or>
     max_tokens < sum_list (map tokenize (drop (pair_preserving_cut ms (k - 1)) ms)))"
  using assms
proof (induction ms min_tokens min_texts max_tokens tokenize cursor tokens texts rule: walk_loop.induct)
  case (1 ms min_tokens min_texts max_tokens tokenize cursor tokens texts)
  define new where "new = pair_preserving_cut ms (cursor - 1)"
  define unit where "unit = take (cursor - new) (drop new ms)"
  let ?tokens = "tokens + sum_list (map tokenize unit)" and ?texts = "texts + length (filter has_text unit)"
  have step: "k = (if cursor = 0 then 0 else if max_tokens < ?tokens then cursor
      else if min_tokens \<le> ?tokens \<and> min_texts \<le> ?texts then new
      else walk_loop ms min_tokens min_texts max_tokens tokenize new ?tokens ?texts)"
    using trans [OF 1(7) walk_loop.simps] unfolding Let_def new_def unit_def .
  show ?case
  proof (cases "cursor = 0")
    case True
    then show ?thesis using step 1(2,4,6) by simp
  next
    case False
    have less: "new < cursor" using pair_cut_le(1) [of ms "cursor - 1"] False by (simp add: new_def)
    have tail: "drop new ms = unit @ drop cursor ms"
      using append_take_drop_id [of "cursor - new" "drop new ms"] less by (simp add: unit_def)
    have new: "safe_cut ms new" "new \<le> length ms" "?tokens = sum_list (map tokenize (drop new ms))"
        "?texts = length (filter has_text (drop new ms))"
      unfolding tail using 1(4,5) by (simp_all add: new_def pair_cut_safe pair_cut_le(2))
    show ?thesis
    proof (cases "max_tokens < ?tokens")
      case True
      then have "k = cursor" using step False by simp
      then show ?thesis using 1(2,4,6) True new(3) by (simp add: new_def)
    next
      case fits: False
      show ?thesis
      proof (cases "min_tokens \<le> ?tokens \<and> min_texts \<le> ?texts")
        case True
        then have "k = new" using step False fits by simp
        then show ?thesis using new True less fits by simp
      next
        case short: False
        have k: "k = walk_loop ms min_tokens min_texts max_tokens tokenize new ?tokens ?texts"
          using step unfolding if_not_P [OF False] if_not_P [OF fits] if_not_P [OF short] .
        have "?tokens \<le> max_tokens" using fits by simp
        from 1(1) [OF False new_def unit_def refl fits refl refl short new this k] less
        show ?thesis by simp
      qed
    qed
  qed
qed

text \<open>C32: The end of the transcript a compaction keeps word for word costs at most the cap, keeps every tool result with
  its call, and is long enough by both measures, unless it is the whole transcript or the next row before it, taken with
  the calls and results that belong to it, would cross the cap.\<close>

theorem kept_tail_is_bounded:
  shows "let k = walk_backward_atomic ms min_tokens min_texts max_tokens tokenize in
    safe_cut ms k \<and> k \<le> length ms \<and> sum_list (map tokenize (drop k ms)) \<le> max_tokens \<and>
    (k = 0 \<or> min_tokens \<le> sum_list (map tokenize (drop k ms)) \<and> min_texts \<le> length (filter has_text (drop k ms)) \<or>
     max_tokens < sum_list (map tokenize (drop (pair_preserving_cut ms (k - 1)) ms)))"
proof -
  have "safe_cut ms (length ms)" by (simp add: safe_cut_def needed_calls_def)
  from walk_loop_ok [OF this le_refl _ _ _ refl, of 0 tokenize 0 max_tokens min_tokens min_texts]
  show ?thesis unfolding Let_def walk_backward_atomic_def by simp
qed

end
