(* ===== verification/Compaction.thy ===== *)
theory Compaction
  imports TranscriptCut
begin

text \<open>
  The compaction of a transcript (\<open>crates/context/src/compressor.rs\<close> and the gates around it in \<open>lib.rs\<close>): what of the
  summarizer's answer counts, the trailer of skills put after the system rows, and when the result is applied. The
  summarizer is a function of the request it is sent.
\<close>

section \<open>The summary\<close>

definition open_tag :: "string \<Rightarrow> string" where
  "open_tag tag = ''<'' @ tag @ ''>''"

definition close_tag :: "string \<Rightarrow> string" where
  "close_tag tag = ''</'' @ tag @ ''>''"

definition find_tagged_block :: "string \<Rightarrow> string \<Rightarrow> (nat \<times> nat) option" where
  "find_tagged_block t tag =
     (case str_find (open_tag tag) t of
        None \<Rightarrow> None
      | Some start \<Rightarrow>
          (case str_find (close_tag tag) (drop (start + length (open_tag tag)) t) of
             None \<Rightarrow> None
           | Some close_offset \<Rightarrow>
               Some (start, start + length (open_tag tag) + close_offset + length (close_tag tag))))"

definition find_tagged_inner :: "string \<Rightarrow> string \<Rightarrow> string option" where
  "find_tagged_inner t tag =
     (case str_find (open_tag tag) t of
        None \<Rightarrow> None
      | Some n \<Rightarrow>
          let start = n + length (open_tag tag)
          in map_option (\<lambda>close_offset. take close_offset (drop start t)) (str_find (close_tag tag) (drop start t)))"

definition strip_analysis_block :: "string \<Rightarrow> string" where
  "strip_analysis_block t =
     (case find_tagged_block t ''analysis'' of
        Some (start, end') \<Rightarrow> take start t @ drop end' t
      | None \<Rightarrow> t)"

definition parse_summary_response :: "string \<Rightarrow> string option" where
  "parse_summary_response t =
     (let stripped = strip_analysis_block t;
          leftover = (let l = trim_text stripped in if l = [] then None else Some l)
      in case find_tagged_inner stripped ''summary'' of
           Some inner \<Rightarrow> if trim_text inner \<noteq> [] then Some (trim_text inner) else leftover
         | None \<Rightarrow> leftover)"

lemmas parsed =
  parse_summary_response_def strip_analysis_block_def find_tagged_block_def find_tagged_inner_def open_tag_def close_tag_def
  trim_text_def utf8_len_def char_code_def is_white_space_def Let_def

definition CONTINUATION_INTRO :: string where
  "CONTINUATION_INTRO =
     ''This session is being continued from a previous conversation that ran out of context. The summary below covers the''
     @ newline @ ''earlier portion of the conversation.''"

definition CONTINUATION_FOOTER_WITH_SLICE :: string where
  "CONTINUATION_FOOTER_WITH_SLICE = ''The most recent messages are preserved verbatim below this summary.'' @ newline"

definition CONTINUATION_FOOTER :: string where
  "CONTINUATION_FOOTER =
     ''Continue the conversation from where it left off without asking the user any further questions. Resume directly ''
     @ em_dash
     @ '' do not acknowledge the summary, do not recap what was happening, do not preface with '' @ quote_char
     @ ''I'' @ [CHR 0x27] @ ''ll continue'' @ quote_char
     @ '' or similar. Pick up the last task as if the break never happened.''"

definition SUMMARIZE_INSTRUCTION :: string where
  "SUMMARIZE_INSTRUCTION =
     ''Create a continuation summary of the conversation above. Respond with exactly one <summary> block and no text outside it.''
     @ newline @ newline @ ''Preserve what another model needs to continue the work without reopening settled questions:''
     @ newline @ newline
     @ ''1. Every user request, correction, constraint, and preference, noting what is complete, pending, superseded, or still ambiguous.''
     @ newline
     @ ''2. Work completed so far, key decisions and their reasons, and any failed approaches or errors that affect what should happen next.''
     @ newline
     @ ''3. Relevant files, symbols, commands, technical details, and current repository state. Quote exact code only when its exact text is necessary to continue.''
     @ newline
     @ ''4. The task in progress immediately before this summary, its remaining work, and the next action already implied by the user'' @ [CHR 0x27] @ ''s request.''
     @ newline @ newline
     @ ''Recent messages may be preserved verbatim after the summary. Capture their unresolved state, but do not quote or reproduce them. Do not invent next steps or revive completed work.''
     @ newline @ newline @ ''<summary>'' @ newline @ ''...'' @ newline @ ''</summary>''"

definition build_summary_message :: "string \<Rightarrow> string \<Rightarrow> bool \<Rightarrow> ('v, 'm) chat_message" where
  "build_summary_message body path with_slice =
     agent_context
       [TextBlock
         (CONTINUATION_INTRO @ newline @ newline @ ''Summary:'' @ newline @ trim_text body @ newline @ newline
          @ ''If you need specific details from before compaction (like exact code snippets, error messages, or content you generated), read the full transcript at: ''
          @ path @ newline @ newline @ (if with_slice then CONTINUATION_FOOTER_WITH_SLICE else []) @ CONTINUATION_FOOTER)]"

section \<open>The trailer\<close>

definition PER_SKILL_TOKEN_CAP :: nat where
  "PER_SKILL_TOKEN_CAP = 5000"

definition TOTAL_SKILL_TOKEN_CAP :: nat where
  "TOTAL_SKILL_TOKEN_CAP = 25000"

text \<open>A line break, a horizontal ellipsis in UTF-8, and \<open>[truncated]\<close>.\<close>

definition TRUNCATION_MARKER :: string where
  "TRUNCATION_MARKER = newline @ [CHR 0xE2, CHR 0x80, CHR 0xA6] @ ''[truncated]''"

definition saturating_usize :: "nat \<Rightarrow> nat" where
  "saturating_usize n = min usize_max n"

definition render_skill_block_capped :: "('v, 'm, 's) context_env \<Rightarrow> 's \<Rightarrow> nat \<Rightarrow> string option" where
  "render_skill_block_capped env skill cap =
     (let full = ce_render_block env skill; full_cost = ce_count_text env full in
      if full_cost \<le> cap then Some full
      else
        let body_chars = length (chars (ce_template env skill));
            target = saturating_usize (saturating_usize (body_chars * cap) div full_cost * 9) div 10
        in if body_chars = 0 \<or> target = 0 then None
           else
             let truncated = concat (take target (chars (ce_template env skill))) @ TRUNCATION_MARKER;
                 rendered = ce_render_block env (ce_with_template env truncated skill)
             in if cap < ce_count_text env rendered then None else Some rendered)"

text \<open>The loop of \<open>build_skill_detail_payload\<close> with what is charged so far.\<close>

fun detail_blocks :: "('v, 'm, 's) context_env \<Rightarrow> nat \<Rightarrow> string list \<Rightarrow> string list" where
  "detail_blocks env spent [] = []"
| "detail_blocks env spent (name # names) =
     (case ce_get_scoped env name of
        None \<Rightarrow> detail_blocks env spent names
      | Some skill \<Rightarrow>
          let remaining = TOTAL_SKILL_TOKEN_CAP - spent in
          if remaining = 0 then []
          else
            (case render_skill_block_capped env skill (min remaining PER_SKILL_TOKEN_CAP) of
               None \<Rightarrow> detail_blocks env spent names
             | Some rendered \<Rightarrow>
                 rendered # detail_blocks env (saturating_usize (spent + ce_count_text env rendered)) names))"

definition build_skill_detail_payload :: "('v, 'm, 's) context_env \<Rightarrow> string list \<Rightarrow> string option" where
  "build_skill_detail_payload env called_skills =
     (let blocks = detail_blocks env 0 called_skills
      in if blocks = [] then None
         else
           Some (''<system-reminder>'' @ newline
             @ ''Full definitions for skills referenced in the conversation summary above:'' @ newline @ newline
             @ join (newline @ newline) blocks @ newline @ ''</system-reminder>''))"

definition trailer_rows ::
    "('v, 'm, 's) context_env \<Rightarrow> string list \<Rightarrow> string option \<Rightarrow> ('v, 'm) chat_message list" where
  "trailer_rows env called_skills notice =
     (if invocable_skill_summaries env = [] then []
      else [skill_listing [TextBlock (render_skill_reminder (ce_one_line env) (invocable_skill_summaries env))]])
     @ opt_list (map_option (\<lambda>t. deferred_tool_listing [TextBlock t]) notice)
     @ opt_list (map_option (\<lambda>t. agent_context [TextBlock t]) (build_skill_detail_payload env called_skills))"

definition insert_skill_trailer ::
    "('v, 'm, 's) context_env \<Rightarrow> string list \<Rightarrow> string option \<Rightarrow> ('v, 'm) chat_message list \<Rightarrow> ('v, 'm) chat_message list" where
  "insert_skill_trailer env called_skills notice ms =
     takeWhile (\<lambda>m. role m = RoleSystem) ms @ trailer_rows env called_skills notice @
     dropWhile (\<lambda>m. role m = RoleSystem) ms"

definition estimate_skill_trailer_tokens ::
    "('v, 'm, 's) context_env \<Rightarrow> string list \<Rightarrow> string option \<Rightarrow> nat" where
  "estimate_skill_trailer_tokens env called_skills notice =
     (if invocable_skill_summaries env = [] then 0
      else ce_count_message env
        (agent_context [TextBlock (render_skill_reminder (ce_one_line env) (invocable_skill_summaries env))]))
     + (case notice of None \<Rightarrow> 0 | Some t \<Rightarrow> ce_count_message env (agent_context [TextBlock t]))
     + (case build_skill_detail_payload env called_skills of
          None \<Rightarrow> 0 | Some t \<Rightarrow> ce_count_message env (agent_context [TextBlock t]))"

section \<open>The flow\<close>

datatype context_error =
    TranscriptError string | CompressionError string | CancelledError string | SnapshotError string | InternalError string

definition context_error_text :: "context_error \<Rightarrow> string" where
  "context_error_text e =
     (case e of
        TranscriptError s \<Rightarrow> ''transcript persistence error: '' @ s
      | CompressionError s \<Rightarrow> ''context compression error: '' @ s
      | CancelledError s \<Rightarrow> ''context compaction cancelled: '' @ s
      | SnapshotError s \<Rightarrow> ''context snapshot error: '' @ s
      | InternalError s \<Rightarrow> s)"

text \<open>What a summarizer answers to a request; the tools and the trace marker sent along do not matter here.\<close>

type_synonym ('v, 'm) summarizer = "('v, 'm) chat_message list \<Rightarrow> context_error + string"

datatype ('v, 'm) compress_output =
  CompressNoOp | CompressCancelled | CompressFailed string | Replaced "('v, 'm) chat_message list"

datatype compression_outcome =
  Compressed | BelowThreshold | StrategyDeclined | NoSavings | CompressionCancelled | CompressionFailed string

definition MIN_COMPACTABLE_TOKENS :: nat where
  "MIN_COMPACTABLE_TOKENS = 1000"

definition EMPTY_SUMMARY_REASON :: string where
  "EMPTY_SUMMARY_REASON = ''the summarizer returned no usable summary''"

abbreviation message_cost ::
    "('v, 'm, 's) context_env \<Rightarrow> ('v, 'm) context_manager \<Rightarrow> ('v, 'm) chat_message \<Rightarrow> nat" where
  "message_cost env c m \<equiv> mt_total (message_budget_tokens env (cm_audio c) m)"

definition compaction_fits ::
    "('v, 'm, 's) context_env \<Rightarrow> ('v, 'm) context_manager \<Rightarrow> ('v, 'm) chat_message list \<Rightarrow> bool" where
  "compaction_fits env c candidate =
     (let body = sum_list (map (message_cost env c) candidate);
          trailer = estimate_skill_trailer_tokens env (cm_called_skills c) (cm_deferred_notice c);
          total' = unanchored_request_tokens c (body + trailer)
      in total' < tb_current (cm_budget c) \<and> total' \<le> compression_ceiling (cm_budget c))"

definition kept_tail ::
    "('v, 'm, 's) context_env \<Rightarrow> ('v, 'm) context_manager \<Rightarrow> ('v, 'm) chat_message list \<Rightarrow> ('v, 'm) chat_message list" where
  "kept_tail env c non_system =
     (case recent_slice_bounds (tb_max_tokens (cm_budget c)) of
        (min_tokens, min_texts, max_tokens) \<Rightarrow>
          drop (walk_backward_atomic non_system min_tokens min_texts max_tokens (message_cost env c)) non_system)"

definition assemble_summary ::
    "('v, 'm, 's) context_env \<Rightarrow> ('v, 'm) context_manager \<Rightarrow> ('v, 'm) chat_message list \<Rightarrow> ('v, 'm) chat_message list \<Rightarrow>
     string \<Rightarrow> ('v, 'm) compress_output" where
  "assemble_summary env c system non_system summary =
     (let with_slice = system @ [build_summary_message summary (ce_transcript_path env) True] @ kept_tail env c non_system;
          summary_only = system @ [build_summary_message summary (ce_transcript_path env) False]
      in if compaction_fits env c with_slice then Replaced with_slice
         else if compaction_fits env c summary_only then Replaced summary_only
         else Replaced with_slice)"

definition is_stale_machinery :: "('v, 'm) chat_message \<Rightarrow> bool" where
  "is_stale_machinery m \<longleftrightarrow>
     source m \<in> {SrcSystemPromptUpdate, SrcSkillListing, SrcSkillsUpdate, SrcDeferredToolListing}"

definition summary_request :: "('v, 'm) context_manager \<Rightarrow> ('v, 'm) chat_message list" where
  "summary_request c = llm_prefix (cm_messages c) @ [agent_context [TextBlock SUMMARIZE_INSTRUCTION]]"

definition summarize ::
    "('v, 'm, 's) context_env \<Rightarrow> ('v, 'm) summarizer \<Rightarrow> ('v, 'm) context_manager \<Rightarrow> ('v, 'm) compress_output" where
  "summarize env chat c =
     (case partition_system (cm_messages c) of (system, non_system) \<Rightarrow>
        let non_system = filter (\<lambda>m. \<not> is_stale_machinery m) non_system
        in case chat (summary_request c) of
             Inl (CancelledError _) \<Rightarrow> CompressCancelled
           | Inl e \<Rightarrow> CompressFailed (context_error_text e)
           | Inr answer \<Rightarrow>
               (case parse_summary_response answer of
                  None \<Rightarrow> CompressFailed EMPTY_SUMMARY_REASON
                | Some summary \<Rightarrow> assemble_summary env c system non_system summary))"

definition run_compression_flow ::
    "('v, 'm, 's) context_env \<Rightarrow> ('v, 'm) summarizer \<Rightarrow> ('v, 'm) context_manager \<Rightarrow> ('v, 'm) compress_output" where
  "run_compression_flow env chat c =
     (let non_system = snd (partition_system (cm_messages c))
      in if length non_system \<le> cm_keep_recent c \<and>
            sum_list (map (message_cost env c) non_system) \<le> MIN_COMPACTABLE_TOKENS
         then CompressNoOp else summarize env chat c)"

definition leads_with_system_text :: "('v, 'm) chat_message list \<Rightarrow> bool" where
  "leads_with_system_text ms =
     (case ms of
        m # _ \<Rightarrow> role m = RoleSystem \<and> (case content m of TextBlock _ # _ \<Rightarrow> True | _ \<Rightarrow> False)
      | [] \<Rightarrow> False)"

definition reseed_system_row ::
    "('v, 'm, 's) context_env \<Rightarrow> ('v, 'm) context_manager \<Rightarrow> ('v, 'm) context_manager" where
  "reseed_system_row env c =
     (if \<not> leads_with_system_text (cm_messages c) then c
      else case ce_prompt env of
        Some parts \<Rightarrow>
          (replace_first_message env (system_row [TextBlock (prompt_text parts)]) c)\<lparr>cm_prompt_version := Some (ce_version_after env)\<rparr>
      | None \<Rightarrow> c)"

definition persist_compaction :: "bool \<Rightarrow> int \<Rightarrow> ('v, 'm) live \<Rightarrow> ('v, 'm) live" where
  "persist_compaction ok now s =
     (case s of (c, L) \<Rightarrow>
        if ok then (c\<lparr>cm_diverged := False\<rparr>, snd (apply_session_compaction now (cm_messages c) L))
        else (c\<lparr>cm_diverged := True\<rparr>, L))"

definition run_compression ::
    "('v, 'm, 's) context_env \<Rightarrow> bool \<Rightarrow> int \<Rightarrow> ('v, 'm) summarizer \<Rightarrow> ('v, 'm) live \<Rightarrow>
     compression_outcome \<times> ('v, 'm) live" where
  "run_compression env ok now chat s =
     (case s of (c, L) \<Rightarrow>
        (case run_compression_flow env chat c of
           CompressNoOp \<Rightarrow> (StrategyDeclined, c, L)
         | CompressCancelled \<Rightarrow> (CompressionCancelled, c, L)
         | CompressFailed reason \<Rightarrow> (CompressionFailed reason, c, L)
         | Replaced new_messages \<Rightarrow>
             if new_messages = [] then (StrategyDeclined, c, L)
             else
               let new_messages = insert_skill_trailer env (cm_called_skills c) (cm_deferred_notice c) new_messages;
                   before_tokens = tb_current (cm_budget c);
                   c = invalidate_baseline c;
                   new_per = map (message_budget_tokens env (cm_audio c)) new_messages;
                   after_tokens = unanchored_request_tokens c (sum_list (map mt_total new_per))
               in if before_tokens \<le> after_tokens
                  then (NoSavings, c\<lparr>cm_declined_at := Some (length (cm_messages c))\<rparr>, L)
                  else
                    let c = c\<lparr>cm_messages := new_messages, cm_diverged := True,
                              cm_prompt_version := None, cm_skills_version := None, cm_per_message := new_per,
                              cm_called_skills := called_skills_in env new_messages,
                              cm_budget := (cm_budget c)\<lparr>tb_current := after_tokens\<rparr>, cm_declined_at := None\<rparr>
                    in (Compressed, persist_compaction ok now (reseed_system_row env c, L))))"

definition compaction_declined :: "('v, 'm) context_manager \<Rightarrow> bool" where
  "compaction_declined c = (case cm_declined_at c of None \<Rightarrow> False | Some n \<Rightarrow> length (cm_messages c) \<le> n)"

definition ready_to_count ::
    "('v, 'm, 's) context_env \<Rightarrow> string \<Rightarrow> (string \<times> string \<times> string) list \<Rightarrow> ('v, 'm) context_manager \<Rightarrow> ('v, 'm) context_manager" where
  "ready_to_count env model tools c = update_budget (note_request_tools env tools (set_current_model model c))"

definition would_compress ::
    "('v, 'm, 's) context_env \<Rightarrow> string \<Rightarrow> (string \<times> string \<times> string) list \<Rightarrow> ('v, 'm) context_manager \<Rightarrow>
     bool \<times> ('v, 'm) context_manager" where
  "would_compress env model tools c =
     (let c = ready_to_count env model tools c in (needs_compression (cm_budget c) \<and> \<not> compaction_declined c, c))"

definition maybe_compress ::
    "('v, 'm, 's) context_env \<Rightarrow> string \<Rightarrow> (string \<times> string \<times> string) list \<Rightarrow> bool \<Rightarrow> int \<Rightarrow> ('v, 'm) summarizer \<Rightarrow>
     ('v, 'm) live \<Rightarrow> compression_outcome \<times> ('v, 'm) live" where
  "maybe_compress env model tools ok now chat s =
     (case s of (c, L) \<Rightarrow>
        let c = ready_to_count env model tools c
        in if \<not> needs_compression (cm_budget c) then (BelowThreshold, c, L)
           else if compaction_declined c then (NoSavings, c, L)
           else run_compression env ok now chat (c, L))"

definition force_compress ::
    "('v, 'm, 's) context_env \<Rightarrow> string \<Rightarrow> (string \<times> string \<times> string) list \<Rightarrow> bool \<Rightarrow> int \<Rightarrow> ('v, 'm) summarizer \<Rightarrow>
     ('v, 'm) live \<Rightarrow> compression_outcome \<times> ('v, 'm) live" where
  "force_compress env model tools ok now chat s =
     (case s of (c, L) \<Rightarrow>
        run_compression env ok now chat ((ready_to_count env model tools c)\<lparr>cm_declined_at := None\<rparr>, L))"

section \<open>What a compaction does\<close>

lemma replace_first_fields [simp]:
  "cm_messages (replace_first_message env m c) = (cm_messages c)[0 := m]"
  "cm_budget (replace_first_message env m c) =
     (if cm_messages c = [] then cm_budget c
      else (cm_budget c)\<lparr>tb_current := tb_current (cm_budget (replace_first_message env m c))\<rparr>)"
  by (simp_all add: replace_first_message_def update_budget_def invalidate_baseline_def)

lemma reseed_messages:
  "cm_messages (reseed_system_row env c) = cm_messages c \<or>
   (\<exists>prompt. ce_prompt env = Some prompt \<and>
     cm_messages (reseed_system_row env c) = (cm_messages c)[0 := system_row [TextBlock (prompt_text prompt)]])"
  by (auto simp: reseed_system_row_def split: option.splits)

lemma persist_fields:
  "cm_messages (fst (persist_compaction ok now (c, L))) = cm_messages c"
  by (simp add: persist_compaction_def)

text \<open>The replacement a summary is assembled into: the system rows, the summary, the kept end or nothing.\<close>

definition live_rows :: "('v, 'm) context_manager \<Rightarrow> ('v, 'm) chat_message list" where
  "live_rows c = filter (\<lambda>m. \<not> is_stale_machinery m) (snd (partition_system (cm_messages c)))"

definition system_rows :: "('v, 'm) context_manager \<Rightarrow> ('v, 'm) chat_message list" where
  "system_rows c = fst (partition_system (cm_messages c))"

lemma flow_replaced:
  assumes "run_compression_flow env chat c = Replaced ms"
  shows "\<exists>answer summary with_slice tail'. chat (summary_request c) = Inr answer \<and>
    parse_summary_response answer = Some summary \<and> (tail' = kept_tail env c (live_rows c) \<or> tail' = []) \<and>
    ms = system_rows c @ build_summary_message summary (ce_transcript_path env) with_slice # tail'"
proof -
  have s: "summarize env chat c = Replaced ms"
    using assms by (auto simp: run_compression_flow_def Let_def split: if_splits)
  obtain answer summary where a: "chat (summary_request c) = Inr answer" "parse_summary_response answer = Some summary"
      "assemble_summary env c (system_rows c) (live_rows c) summary = Replaced ms"
    using s by (auto simp: summarize_def Let_def live_rows_def system_rows_def case_prod_unfold
        split: sum.splits context_error.splits option.splits)
  have "ms \<in> {system_rows c @ build_summary_message summary (ce_transcript_path env) True # kept_tail env c (live_rows c),
      system_rows c @ [build_summary_message summary (ce_transcript_path env) False]}"
    using a(3) by (auto simp: assemble_summary_def Let_def split: if_splits)
  then show ?thesis using a(1,2) by blast
qed

lemma summary_row_role [simp]: "role (build_summary_message t path b) = RoleUser"
  by (simp add: build_summary_message_def agent_context_def)

lemma trailer_place:
  "insert_skill_trailer env called notice (system_rows c @ build_summary_message t path b # tail') =
     system_rows c @ trailer_rows env called notice @ build_summary_message t path b # tail'"
proof -
  have "list_all (\<lambda>m. role m = RoleSystem) (system_rows c)"
    by (simp add: system_rows_def partition_system_def list_all_iff)
  then show ?thesis by (simp add: insert_skill_trailer_def list_all_iff takeWhile_append2 dropWhile_append2)
qed

lemma run_compression_cases:
  assumes "run_compression env ok now chat (c, L) = (outcome, c', L')"
  obtains (kept) "outcome \<noteq> Compressed" "cm_messages c' = cm_messages c" "cm_per_message c' = cm_per_message c"
      "cm_diverged c' = cm_diverged c" "cm_budget c' = cm_budget c" "L' = L" "cm_audio c' = cm_audio c"
      "cm_skills_version c' = cm_skills_version c"
  | (replaced) ms c1 where "outcome = Compressed" "run_compression_flow env chat c = Replaced ms" "ms \<noteq> []"
      "cm_messages c1 = insert_skill_trailer env (cm_called_skills c) (cm_deferred_notice c) ms"
      "unanchored_request_tokens c (sum_list (map (message_cost env c) (cm_messages c1))) < tb_current (cm_budget c)"
      "(c', L') = persist_compaction ok now (reseed_system_row env c1, L)"
      "cm_per_message c1 = map (message_budget_tokens env (cm_audio c)) (cm_messages c1)" "cm_audio c1 = cm_audio c"
      "cm_baseline c1 = None" "cm_skills_version c1 = None"
      "cm_budget c1 = (cm_budget c)\<lparr>tb_current :=
         unanchored_request_tokens c (sum_list (map (message_cost env c) (cm_messages c1)))\<rparr>"
      "unanchored_request_tokens c1 = unanchored_request_tokens c"
proof (cases "run_compression_flow env chat c")
  case (Replaced ms)
  define new where "new = insert_skill_trailer env (cm_called_skills c) (cm_deferred_notice c) ms"
  define after where "after = unanchored_request_tokens c (sum_list (map (message_cost env c) new))"
  show ?thesis
  proof (cases "ms = [] \<or> tb_current (cm_budget c) \<le> after")
    case True
    then show ?thesis
      using assms Replaced kept
      by (auto simp: run_compression_def Let_def new_def after_def invalidate_baseline_def unanchored_request_tokens_def
          transient_tail_raw_def o_def split: if_splits)
  next
    case False
    define c1 where "c1 = (invalidate_baseline c)\<lparr>cm_messages := new, cm_diverged := True,
      cm_prompt_version := None, cm_skills_version := None,
      cm_per_message := map (message_budget_tokens env (cm_audio c)) new, cm_called_skills := called_skills_in env new,
      cm_budget := (cm_budget c)\<lparr>tb_current := after\<rparr>, cm_declined_at := None\<rparr>"
    have "(outcome, c', L') = (Compressed, persist_compaction ok now (reseed_system_row env c1, L))"
      using assms Replaced False
      by (simp add: run_compression_def Let_def new_def [symmetric] c1_def invalidate_baseline_def o_def
          unanchored_request_tokens_def transient_tail_raw_def after_def)
    then show ?thesis
      using False Replaced
      by (intro replaced [of ms c1])
        (auto simp: c1_def new_def after_def invalidate_baseline_def unanchored_request_tokens_def transient_tail_raw_def fun_eq_iff)
  qed
qed (use assms kept in \<open>auto simp: run_compression_def\<close>)

text \<open>C8: A transcript is only ever shortened by a summary. When a compaction is declined, cancelled, failed, or not worth
  it, the transcript and the log are exactly what they were. When it is applied, the summarizer was asked with the
  request prefix and answered a summary, and the transcript is the system rows (the first refreshed if the prompt could be
  resolved), the trailer, the summary and the kept end word for word or nothing, at a price below the one before.\<close>

theorem only_a_summary_shortens:
  assumes "run_compression env ok now chat (c, L) = (outcome, c', L')"
  shows "(outcome \<noteq> Compressed \<longrightarrow> cm_messages c' = cm_messages c \<and> cm_diverged c' = cm_diverged c \<and> L' = L) \<and>
    (outcome = Compressed \<longrightarrow>
      (\<exists>answer summary with_slice tail' new.
        chat (summary_request c) = Inr answer \<and> parse_summary_response answer = Some summary \<and>
        (tail' = kept_tail env c (live_rows c) \<or> tail' = []) \<and>
        new = system_rows c @ trailer_rows env (cm_called_skills c) (cm_deferred_notice c) @
          build_summary_message summary (ce_transcript_path env) with_slice # tail' \<and>
        unanchored_request_tokens c (sum_list (map (message_cost env c) new)) < tb_current (cm_budget c) \<and>
        (cm_messages c' = new \<or>
         (\<exists>prompt. ce_prompt env = Some prompt \<and> cm_messages c' = new[0 := system_row [TextBlock (prompt_text prompt)]]))))"
  using assms
proof (cases rule: run_compression_cases)
  case (replaced ms c1)
  obtain answer summary b tail' where f: "chat (summary_request c) = Inr answer"
      "parse_summary_response answer = Some summary" "tail' = kept_tail env c (live_rows c) \<or> tail' = []"
      "ms = system_rows c @ build_summary_message summary (ce_transcript_path env) b # tail'"
    using flow_replaced [OF replaced(2)] by blast
  define new where "new = system_rows c @ trailer_rows env (cm_called_skills c) (cm_deferred_notice c) @
    build_summary_message summary (ce_transcript_path env) b # tail'"
  have c1: "cm_messages c1 = new" using replaced(4) f(4) by (simp add: trailer_place new_def)
  have "c' = fst (persist_compaction ok now (reseed_system_row env c1, L))" using replaced(6) by (metis fst_conv)
  then have "cm_messages c' = cm_messages (reseed_system_row env c1)" by (simp add: persist_fields)
  then have "cm_messages c' = new \<or>
      (\<exists>prompt. ce_prompt env = Some prompt \<and> cm_messages c' = new[0 := system_row [TextBlock (prompt_text prompt)]])"
    using reseed_messages [of env c1] c1 by metis
  moreover have "unanchored_request_tokens c (sum_list (map (message_cost env c) new)) < tb_current (cm_budget c)"
    using replaced(5) c1 by simp
  ultimately show ?thesis
    unfolding replaced(1)
    by (intro conjI impI exI [of _ answer] exI [of _ summary] exI [of _ b] exI [of _ tail'] exI [of _ new])
      (use f(1-3) new_def in simp_all)
qed simp

section \<open>The two gates agree\<close>

context tokenizer
begin

text \<open>A row of text the manager writes itself costs what the tokenizer counts, under any provenance it writes.\<close>

lemma machinery_cost:
  assumes "count_message = ce_count_message env" and "count_media = ce_count_media env"
    and "content m = [TextBlock t]" and "source m \<noteq> SrcUserInterjection" and "source m \<noteq> SrcRecalledMemory"
  shows "mt_total (message_budget_tokens env a m) = ce_count_message env (agent_context [TextBlock t])"
proof -
  have "count_media m a' = 0" for a' using assms(3) by (intro text_has_no_media) (simp add: is_text_def)
  moreover have "count_message m = count_message (agent_context [TextBlock t])"
    using assms(3) by (intro by_content) (simp add: agent_context_def)
  ultimately show ?thesis
    using assms by (simp add: message_budget_tokens_def Let_def split_tokens_def mt_total_def split: message_source.splits)
qed

lemma trailer_cost:
  assumes "count_message = ce_count_message env" and "count_media = ce_count_media env"
  shows "sum_list (map (\<lambda>m. mt_total (message_budget_tokens env a m)) (trailer_rows env called notice)) =
    estimate_skill_trailer_tokens env called notice"
proof -
  have "mt_total (message_budget_tokens env a (r [TextBlock t])) = ce_count_message env (agent_context [TextBlock t])"
    if "r \<in> {skill_listing, deferred_tool_listing, agent_context}" for r t
    using that by (intro machinery_cost [OF assms]) (auto simp: skill_listing_def deferred_tool_listing_def agent_context_def)
  then show ?thesis
    by (simp add: trailer_rows_def estimate_skill_trailer_tokens_def opt_list_def split: option.splits)
qed

end

lemma insert_trailer_sum:
  "sum_list (map f (insert_skill_trailer env called notice ms)) = sum_list (map f ms) + sum_list (map f (trailer_rows env called notice))"
  for f :: "('v, 'm) chat_message \<Rightarrow> nat"
proof -
  have "sum_list (map f ms) = sum_list (map f (takeWhile P ms)) + sum_list (map f (dropWhile P ms))" for P
    using takeWhile_dropWhile_id [of P ms] by (metis map_append sum_list_append)
  then show ?thesis by (simp add: insert_skill_trailer_def)
qed

lemma accepted_is_applied:
  assumes "tokenizer (ce_count_message env) (ce_count_media env)"
    and "run_compression_flow env chat c = Replaced ms" and "compaction_fits env c ms"
  shows "fst (run_compression env ok now chat (c, L)) = Compressed"
    and "unanchored_request_tokens c (sum_list (map (message_cost env c)
      (insert_skill_trailer env (cm_called_skills c) (cm_deferred_notice c) ms))) \<le> compression_ceiling (cm_budget c)"
proof -
  have price: "unanchored_request_tokens c (sum_list (map (message_cost env c)
      (insert_skill_trailer env (cm_called_skills c) (cm_deferred_notice c) ms))) =
      unanchored_request_tokens c (sum_list (map (message_cost env c) ms) +
        estimate_skill_trailer_tokens env (cm_called_skills c) (cm_deferred_notice c))"
    unfolding insert_trailer_sum tokenizer.trailer_cost [OF assms(1) refl refl] ..
  then show "unanchored_request_tokens c (sum_list (map (message_cost env c)
      (insert_skill_trailer env (cm_called_skills c) (cm_deferred_notice c) ms))) \<le> compression_ceiling (cm_budget c)"
    using assms(3) by (simp add: compaction_fits_def Let_def)
  show "fst (run_compression env ok now chat (c, L)) = Compressed"
  proof (cases "run_compression env ok now chat (c, L)")
    case (fields outcome c' L')
    have "ms \<noteq> []" using flow_replaced [OF assms(2)] by auto
    then show ?thesis
      using assms(2,3) price
      by (simp add: run_compression_def Let_def compaction_fits_def invalidate_baseline_def unanchored_request_tokens_def
          transient_tail_raw_def o_def case_prod_unfold)
  qed
qed

section \<open>A small conversation\<close>

definition calm_env :: "(unit, unit, unit) context_env" where
  "calm_env =
     \<lparr>ce_count_message = (\<lambda>_. 0), ce_count_media = (\<lambda>_ _. 0), ce_count_text = (\<lambda>_. 0), ce_skill_arg = (\<lambda>_. None),
      ce_file_arg = (\<lambda>_. None), ce_content_arg = (\<lambda>_. None), ce_write_fingerprint = (\<lambda>_. None),
      ce_summaries = [], ce_channel = ''tui'', ce_one_line = (\<lambda>s. s), ce_line_diff = restate,
      ce_get_scoped = (\<lambda>_. None), ce_template = (\<lambda>_. []), ce_with_template = (\<lambda>_ s. s), ce_render_block = (\<lambda>_. []),
      ce_slash_body = (\<lambda>_. []), ce_prompt = None, ce_version = SubagentVersion ''a'', ce_version_after = SubagentVersion ''a'',
      ce_stat = (\<lambda>_. None), ce_read = (\<lambda>_. None), ce_transcript_path = ''log''\<rparr>"

text \<open>One message, and a budget that last counted \<open>n\<close> tokens.\<close>

definition calm_manager :: "nat \<Rightarrow> (unit, unit) context_manager" where
  "calm_manager n =
     (from_config 0 (1, 1) 0 None)\<lparr>cm_messages := [user_row [TextBlock ''hi'']],
        cm_budget := (budget_new 0 (1, 1) 0)\<lparr>tb_current := n\<rparr>\<rparr>"

abbreviation calm_answer :: "(unit, unit) summarizer" where
  "calm_answer \<equiv> \<lambda>_. Inr ''<summary>said hi</summary>''"

lemma calm_cost [simp]: "mt_total (message_budget_tokens calm_env a m) = 0"
  by (simp add: message_budget_tokens_def split_tokens_def calm_env_def mt_total_def Let_def split: message_source.splits)

lemma calm_skills [simp]: "invocable_skill_summaries calm_env = []"
  by (simp add: invocable_skill_summaries_def calm_env_def)

lemma calm_free: "unanchored_request_tokens (calm_manager n) 0 = 0"
  by (simp add: unanchored_request_tokens_def calm_manager_def from_config_def transient_tail_raw_def)

lemma calm_trailer [simp]: "estimate_skill_trailer_tokens calm_env (cm_called_skills (calm_manager n)) (cm_deferred_notice (calm_manager n)) = 0"
  by (simp add: estimate_skill_trailer_tokens_def calm_manager_def from_config_def build_skill_detail_payload_def)

lemma calm_fits: "compaction_fits calm_env (calm_manager n) ms \<longleftrightarrow> 0 < n"
  by (simp add: compaction_fits_def calm_free) (simp add: calm_manager_def)

lemma calm_flow: "\<exists>ms. run_compression_flow calm_env calm_answer (calm_manager n) = Replaced ms \<and> ms \<noteq> []"
proof -
  have "parse_summary_response ''<summary>said hi</summary>'' = Some ''said hi''" by (simp add: parsed)
  moreover have "snd (partition_system (cm_messages (calm_manager n))) \<noteq> []"
    by (simp add: calm_manager_def partition_system_def user_row_def)
  moreover have "cm_keep_recent (calm_manager n) = 0" by (simp add: calm_manager_def from_config_def)
  ultimately show ?thesis
    by (simp add: run_compression_flow_def summarize_def assemble_summary_def Let_def case_prod_unfold)
qed

lemma no_tokens: "round53 0 = 0"
  by (simp add: round53_def bit_length.simps)

lemma calm_tokenizer: "tokenizer (ce_count_message calm_env) (ce_count_media calm_env)"
  by unfold_locales (simp_all add: calm_env_def)

lemma calm_compressed: "fst (run_compression calm_env True 0 calm_answer (calm_manager 1, log_new)) = Compressed"
  using calm_flow [of 1] accepted_is_applied(1) [OF calm_tokenizer] calm_fits [of 1] by (metis zero_less_one)

lemma calm_no_savings: "fst (run_compression calm_env True 0 calm_answer (calm_manager 0, log_new)) = NoSavings"
proof -
  obtain ms where ms: "run_compression_flow calm_env calm_answer (calm_manager 0) = Replaced ms" "ms \<noteq> []"
    using calm_flow by blast
  have "tb_current (cm_budget (calm_manager 0)) = 0" by (simp add: calm_manager_def)
  then show ?thesis using ms by (simp add: run_compression_def Let_def)
qed

text \<open>The refreshed system row: the request is priced again, with the row put in.\<close>

lemma list_update_sum:
  "xs \<noteq> [] \<Longrightarrow> sum_list (map f (xs[0 := y])) + f (hd xs) = sum_list (map f xs) + f y" for f :: "'a \<Rightarrow> nat"
  by (cases xs) simp_all

lemma insert_skill_trailer_some: "ms \<noteq> [] \<Longrightarrow> insert_skill_trailer env called deferred ms \<noteq> []"
  by (auto simp: insert_skill_trailer_def takeWhile_eq_Nil_iff dropWhile_eq_Nil_conv)

lemma reseed_price:
  assumes "cm_per_message c = map (message_budget_tokens env (cm_audio c)) (cm_messages c)" and "cm_messages c \<noteq> []"
    and "tb_current (cm_budget c) = unanchored_request_tokens c (sum_list (map (message_cost env c) (cm_messages c)))"
  shows "let c' = reseed_system_row env c in
    tb_current (cm_budget c') = unanchored_request_tokens c' (sum_list (map (message_cost env c') (cm_messages c'))) \<and>
    compression_ceiling (cm_budget c') = compression_ceiling (cm_budget c) \<and>
    tb_current (cm_budget c') + message_cost env c (hd (cm_messages c)) =
      tb_current (cm_budget c) + message_cost env c (hd (cm_messages c'))"
proof (cases "reseed_system_row env c = c")
  case True
  then show ?thesis using assms(3) by (simp add: Let_def)
next
  case False
  then obtain parts where c': "reseed_system_row env c =
      (replace_first_message env (system_row [TextBlock (prompt_text parts)]) c)\<lparr>cm_prompt_version := Some (ce_version_after env)\<rparr>"
    by (auto simp: reseed_system_row_def split: if_splits option.splits)
  let ?row = "system_row [TextBlock (prompt_text parts)]"
  have per: "map mt_total ((cm_per_message c)[0 := message_budget_tokens env (cm_audio c) ?row]) =
      map (message_cost env c) ((cm_messages c)[0 := ?row])"
    using assms(1) by (simp add: map_update o_def)
  have "tb_current (cm_budget (reseed_system_row env c)) =
      unanchored_request_tokens c (sum_list (map (message_cost env c) ((cm_messages c)[0 := ?row])))"
    using assms(2) per
    by (simp add: c' replace_first_message_def update_budget_def invalidate_baseline_def count_tokens_def
        unanchored_request_tokens_def transient_tail_raw_def)
  moreover have "unanchored_request_tokens (reseed_system_row env c) = unanchored_request_tokens c"
      "cm_messages (reseed_system_row env c) = (cm_messages c)[0 := ?row]" "cm_audio (reseed_system_row env c) = cm_audio c"
      "compression_ceiling (cm_budget (reseed_system_row env c)) = compression_ceiling (cm_budget c)"
    using assms(2)
    by (auto simp: c' replace_first_message_def update_budget_def invalidate_baseline_def unanchored_request_tokens_def
        transient_tail_raw_def compression_ceiling_def Let_def fun_eq_iff)
  moreover have "hd ((cm_messages c)[0 := ?row]) = ?row" using assms(2) by (cases "cm_messages c") simp_all
  ultimately show ?thesis
    using list_update_sum [OF assms(2), of "message_cost env c" ?row] assms(3)
    by (simp add: Let_def) (simp add: unanchored_request_tokens_def)
qed

text \<open>C9: A replacement the assembly judged small enough is always applied: the trailer is charged in that judgement what
  it costs once it is inserted, so the gate before the commit never turns down what the assembly accepted. The committed
  transcript, with the system row that is refreshed after the gate, is at or below the ceiling that triggers the next
  compaction, but for what the refreshed row costs more than the one it replaces.\<close>

theorem accepted_replacements_are_applied:
  assumes "tokenizer (ce_count_message env) (ce_count_media env)"
    and "run_compression_flow env chat c = Replaced ms" and "compaction_fits env c ms"
    and "run_compression env ok now chat (c, L) = (outcome, c', L')"
  shows "outcome = Compressed \<and> compression_ceiling (cm_budget c') = compression_ceiling (cm_budget c) \<and>
    tb_current (cm_budget c') = unanchored_request_tokens c' (sum_list (map (message_cost env c') (cm_messages c'))) \<and>
    tb_current (cm_budget c') \<le> compression_ceiling (cm_budget c') +
      (message_cost env c (hd (cm_messages c')) -
       message_cost env c (hd (insert_skill_trailer env (cm_called_skills c) (cm_deferred_notice c) ms)))"
  using assms(4)
proof (cases rule: run_compression_cases)
  case kept
  then show ?thesis using accepted_is_applied(1) [OF assms(1-3), of ok now L] assms(4) by simp
next
  case (replaced ms' c1)
  have ms: "ms' = ms" using replaced(2) assms(2) by simp
  have some: "cm_messages c1 \<noteq> []"
    using replaced(3,4) by (simp add: insert_skill_trailer_some)
  have current: "tb_current (cm_budget c1) = unanchored_request_tokens c1 (sum_list (map (message_cost env c1) (cm_messages c1)))"
    using replaced(8,11,12) by simp
  have "cm_per_message c1 = map (message_budget_tokens env (cm_audio c1)) (cm_messages c1)" using replaced(7,8) by simp
  note priced = reseed_price [OF this some current]
  let ?c = "reseed_system_row env c1"
  have "c' = fst (persist_compaction ok now (?c, L))" using replaced(6) by (metis fst_conv)
  then have c': "cm_messages c' = cm_messages ?c" "cm_budget c' = cm_budget ?c" "cm_audio c' = cm_audio ?c"
      "unanchored_request_tokens c' = unanchored_request_tokens ?c"
    by (simp_all add: persist_compaction_def unanchored_request_tokens_def transient_tail_raw_def fun_eq_iff)
  have below: "tb_current (cm_budget c1) \<le> compression_ceiling (cm_budget c)"
    using accepted_is_applied(2) [OF assms(1-3)] replaced(4,11) ms by simp
  have "compression_ceiling (cm_budget c1) = compression_ceiling (cm_budget c)"
    using replaced(11) by (simp add: compression_ceiling_def Let_def)
  moreover have "tb_current (cm_budget ?c) + message_cost env c (hd (cm_messages c1)) =
      tb_current (cm_budget c1) + message_cost env c (hd (cm_messages ?c))"
    using priced replaced(8) by (simp add: Let_def)
  then have "tb_current (cm_budget ?c) \<le> compression_ceiling (cm_budget c) +
      (message_cost env c (hd (cm_messages ?c)) - message_cost env c (hd (cm_messages c1)))"
    using below by linarith
  moreover have "tb_current (cm_budget ?c) = unanchored_request_tokens ?c (sum_list (map (message_cost env ?c) (cm_messages ?c)))"
      "compression_ceiling (cm_budget ?c) = compression_ceiling (cm_budget c1)"
    using priced by (simp_all add: Let_def)
  ultimately show ?thesis using replaced(1,4) ms c' by metis
qed

theorem accepted_replacements_are_applied_witness:
  "fst (run_compression calm_env True 0 calm_answer (calm_manager 1, log_new)) = Compressed \<and>
   tb_current (cm_budget (fst (snd (run_compression calm_env True 0 calm_answer (calm_manager 1, log_new))))) = 0"
proof -
  obtain ms where ms: "run_compression_flow calm_env calm_answer (calm_manager 1) = Replaced ms" using calm_flow by blast
  obtain outcome c' L' where r: "run_compression calm_env True 0 calm_answer (calm_manager 1, log_new) = (outcome, c', L')"
    by (metis prod.collapse)
  have "outcome = Compressed" "compression_ceiling (cm_budget c') = compression_ceiling (cm_budget (calm_manager 1))"
      "tb_current (cm_budget c') = unanchored_request_tokens c' (sum_list (map (message_cost calm_env c') (cm_messages c')))"
      "tb_current (cm_budget c') \<le> compression_ceiling (cm_budget c') +
        (message_cost calm_env (calm_manager 1) (hd (cm_messages c')) -
         message_cost calm_env (calm_manager 1)
           (hd (insert_skill_trailer calm_env (cm_called_skills (calm_manager 1)) (cm_deferred_notice (calm_manager 1)) ms)))"
    using accepted_replacements_are_applied [OF calm_tokenizer ms _ r] by (simp_all add: calm_fits)
  moreover have "compression_ceiling (cm_budget (calm_manager 1)) = 0" by (simp add: calm_manager_def compression_ceiling_def f64_share_def budget_new_def no_tokens)
  ultimately show ?thesis using r by simp
qed

theorem only_a_summary_shortens_witness:
  "\<exists>summary tail' new. parse_summary_response ''<summary>said hi</summary>'' = Some summary \<and>
    cm_messages (fst (snd (run_compression calm_env True 0 calm_answer (calm_manager 1, log_new)))) =
      build_summary_message summary ''log'' new # tail'"
proof -
  obtain c' L' where r: "run_compression calm_env True 0 calm_answer (calm_manager 1, log_new) = (Compressed, c', L')"
    using calm_compressed by (metis prod.collapse)
  have "system_rows (calm_manager 1) = []" by (simp add: system_rows_def partition_system_def calm_manager_def user_row_def)
  moreover have "trailer_rows calm_env (cm_called_skills (calm_manager 1)) (cm_deferred_notice (calm_manager 1)) = []"
    by (simp add: trailer_rows_def calm_manager_def from_config_def build_skill_detail_payload_def opt_list_def)
  moreover have "ce_prompt calm_env = None" "ce_transcript_path calm_env = ''log''" by (simp_all add: calm_env_def)
  ultimately show ?thesis using only_a_summary_shortens [OF r] r by auto
qed

section \<open>No answer is bought twice\<close>

lemma ready_fields [simp]:
  "cm_messages (ready_to_count env model tools c) = cm_messages c"
  "cm_declined_at (ready_to_count env model tools c) = cm_declined_at c"
  "cm_diverged (ready_to_count env model tools c) = cm_diverged c"
  by (simp_all add: ready_to_count_def update_budget_def note_request_tools_def set_current_model_def
      invalidate_baseline_def Let_def)

lemma ready_declined [simp]: "compaction_declined (ready_to_count env model tools c) = compaction_declined c"
  by (simp add: compaction_declined_def split: option.split)

text \<open>Gates one after another: what each is asked with (environment, model, tools) and what it would meet (whether the log takes
  the write, the clock, the summarizer).\<close>

type_synonym ('v, 'm, 's) gate =
  "(('v, 'm, 's) context_env \<times> string \<times> (string \<times> string \<times> string) list) \<times> bool \<times> int \<times> ('v, 'm) summarizer"

fun gates :: "('v, 'm, 's) gate list \<Rightarrow> ('v, 'm) live \<Rightarrow> compression_outcome list \<times> ('v, 'm) live" where
  "gates [] s = ([], s)"
| "gates (((env, model, tools), ok, now, chat) # gs) s =
     (case maybe_compress env model tools ok now chat s of
        (outcome, s') \<Rightarrow> (case gates gs s' of (outcomes, s'') \<Rightarrow> (outcome # outcomes, s'')))"

text \<open>A gate on a manager whose last compaction was declined at this length: the summarizer is not asked, the latch stays.\<close>

lemma latched_gate:
  assumes "compaction_declined c"
  shows "\<exists>outcome. outcome \<in> {BelowThreshold, NoSavings} \<and>
    maybe_compress env model tools ok now chat (c, L) = (outcome, ready_to_count env model tools c, L)"
    and "compaction_declined (ready_to_count env model tools c)"
  using assms by (simp_all add: maybe_compress_def Let_def)

lemma latched_gates:
  assumes "compaction_declined c" and "gates gs (c, L) = (outcomes, c', L')"
  shows "set outcomes \<subseteq> {BelowThreshold, NoSavings} \<and> cm_messages c' = cm_messages c \<and> L' = L \<and> compaction_declined c' \<and>
    (\<forall>hs. map fst hs = map fst gs \<longrightarrow> gates hs (c, L) = (outcomes, c', L'))"
  using assms
proof (induction gs arbitrary: c outcomes)
  case (Cons g gs)
  obtain env model tools ok now chat where g: "g = ((env, model, tools), ok, now, chat)" by (cases g) auto
  let ?c = "ready_to_count env model tools c"
  have latch: "compaction_declined ?c" using latched_gate(2) [OF Cons.prems(1)] .
  obtain o1 where o1: "o1 \<in> {BelowThreshold, NoSavings}" "maybe_compress env model tools ok now chat (c, L) = (o1, ?c, L)"
    using latched_gate(1) [OF Cons.prems(1), of env model tools ok now chat L] by blast
  have same: "maybe_compress env model tools ok' now' chat' (c, L) = (o1, ?c, L)" for ok' now' chat'
    using o1(2) Cons.prems(1) by (simp add: maybe_compress_def Let_def split: if_splits)
  obtain os where os: "gates gs (?c, L) = (os, c', L')" "outcomes = o1 # os"
    using Cons.prems(2) o1(2) by (auto simp: g split: prod.splits)
  note rest = Cons.IH [OF latch os(1)]
  have "gates hs (c, L) = (outcomes, c', L')" if "map fst hs = map fst (g # gs)" for hs
  proof -
    obtain h hs' where h: "hs = h # hs'" "fst h = (env, model, tools)" "map fst hs' = map fst gs"
      using \<open>map fst hs = map fst (g # gs)\<close> g by (cases hs) auto
    obtain ok' now' chat' where h': "h = ((env, model, tools), ok', now', chat')" using h(2) by (cases h) auto
    have "gates hs' (?c, L) = (os, c', L')" using rest h(3) by blast
    then show ?thesis using same [of ok' now' chat'] h(1) h' os(2) by simp
  qed
  then show ?case using rest o1(1) os(2) by auto
qed auto

text \<open>C31: Once a compaction came back without savings, no gate asks the summarizer again while nothing is added to the
  transcript, however many follow and whatever model and tools each is given: each comes back as below the threshold or
  without savings, none of their results depends on what a summarizer would answer, and the transcript and the log stay as
  they are. (A compaction the user forces does ask again.)\<close>

theorem no_savings_is_not_bought_twice:
  assumes "run_compression env ok now chat (c, L) = (NoSavings, c', L')" and "gates gs (c', L') = (outcomes, c'', L'')"
  shows "set outcomes \<subseteq> {BelowThreshold, NoSavings} \<and> cm_messages c'' = cm_messages c \<and> L'' = L \<and>
    fst (would_compress env' model tools c'') = False \<and>
    (\<forall>hs. map fst hs = map fst gs \<longrightarrow> gates hs (c', L') = (outcomes, c'', L''))"
proof -
  have c': "c' = (invalidate_baseline c)\<lparr>cm_declined_at := Some (length (cm_messages c))\<rparr>" "L' = L"
    using assms(1)
    by (auto simp: run_compression_def Let_def invalidate_baseline_def split: compress_output.splits if_splits)
  then have latch: "compaction_declined c'" by (simp add: compaction_declined_def invalidate_baseline_def)
  note run = latched_gates [OF latch assms(2)]
  moreover have "fst (would_compress env' model tools c'') = False"
    using run by (simp add: would_compress_def Let_def)
  ultimately show ?thesis using c' by (simp add: invalidate_baseline_def)
qed

theorem no_savings_is_not_bought_twice_witness:
  "snd (snd (gates [((calm_env, ''m'', []), True, 1, calm_answer), ((calm_env, ''n'', []), True, 2, calm_answer)]
    (snd (run_compression calm_env True 0 calm_answer (calm_manager 0, log_new))))) = log_new"
proof -
  obtain c' L' where r: "run_compression calm_env True 0 calm_answer (calm_manager 0, log_new) = (NoSavings, c', L')"
    using calm_no_savings by (metis prod.collapse)
  let ?gs = "[((calm_env, ''m'', []), True, 1, calm_answer), ((calm_env, ''n'', []), True, 2, calm_answer)]"
  obtain outcomes c'' L'' where g: "gates ?gs (c', L') = (outcomes, c'', L'')" by (metis prod.collapse)
  show ?thesis using no_savings_is_not_bought_twice [OF r g, of calm_env "''m''" "[]"] r g by simp
qed

section \<open>Blank summaries\<close>

text \<open>An answer whose summary block is blank counts as a summary as long as any text is left, and the tags of the block are: what
  is left, tags and all, takes the place of the conversation, although an unusable answer is meant to leave the transcript
  as it was.\<close>

lemma blank_summary_is_taken:
  assumes "chat (summary_request c) = Inr answer"
    and "find_tagged_inner (strip_analysis_block answer) ''summary'' = Some inner" and "trim_text inner = []"
    and "trim_text (strip_analysis_block answer) \<noteq> []"
  shows "summarize env chat c =
    assemble_summary env c (system_rows c) (live_rows c) (trim_text (strip_analysis_block answer))"
proof -
  have "parse_summary_response answer = Some (trim_text (strip_analysis_block answer))"
    using assms(2-4) by (simp add: parse_summary_response_def Let_def)
  then show ?thesis using assms(1) by (simp add: summarize_def Let_def case_prod_unfold system_rows_def live_rows_def)
qed

lemma blank_summary_is_taken_witness:
  "summarize calm_env (\<lambda>_. Inr ''<summary> </summary>'') (calm_manager 1) =
    assemble_summary calm_env (calm_manager 1) (system_rows (calm_manager 1)) (live_rows (calm_manager 1)) ''<summary> </summary>''"
proof -
  have "strip_analysis_block ''<summary> </summary>'' = ''<summary> </summary>''"
      "find_tagged_inner ''<summary> </summary>'' ''summary'' = Some '' ''" "trim_text '' '' = []"
      "trim_text ''<summary> </summary>'' = ''<summary> </summary>''"
    by (simp_all add: parsed)
  then show ?thesis
    using blank_summary_is_taken [of "\<lambda>_. Inr ''<summary> </summary>''" "calm_manager 1" "''<summary> </summary>''" "'' ''" calm_env]
    by simp
qed

end
