(* ===== verification/Reconcile.thy ===== *)
theory Reconcile
  imports Compaction
begin

text \<open>
  How \<open>ContextManager\<close> (\<open>crates/context/src/lib.rs\<close>) seeds a transcript, keeps what it says of the system prompt and of the
  skills up to date by appending, and expands a slash command.
\<close>

section \<open>Rows read back\<close>

definition system_prompt_update_row :: "('v, 'm) content_block list \<Rightarrow> ('v, 'm) chat_message" where
  "system_prompt_update_row blocks =
     \<lparr>role = RoleUser, content = blocks, platform_msg_id = [], source = SrcSystemPromptUpdate\<rparr>"

definition skills_update_row :: "('v, 'm) content_block list \<Rightarrow> ('v, 'm) chat_message" where
  "skills_update_row blocks = \<lparr>role = RoleUser, content = blocks, platform_msg_id = [], source = SrcSkillsUpdate\<rparr>"

definition block_text :: "('v, 'm) content_block list \<Rightarrow> string" where
  "block_text blocks = join newline (List.map_filter (\<lambda>b. case b of TextBlock t \<Rightarrow> Some t | _ \<Rightarrow> None) blocks)"

definition leading_system_text :: "('v, 'm) chat_message list \<Rightarrow> string" where
  "leading_system_text ms =
     (case ms of [] \<Rightarrow> [] | m # _ \<Rightarrow> if role m = RoleSystem then block_text (content m) else [])"

definition newest_prompt_update_text :: "('v, 'm) chat_message list \<Rightarrow> string option" where
  "newest_prompt_update_text ms =
     map_option (\<lambda>m. block_text (content m)) (rfind (\<lambda>m. source m = SrcSystemPromptUpdate) ms)"

definition newest_skills_update_text :: "('v, 'm) chat_message list \<Rightarrow> string option" where
  "newest_skills_update_text ms = map_option (\<lambda>m. block_text (content m)) (rfind (\<lambda>m. source m = SrcSkillsUpdate) ms)"

definition seeded_skill_listing :: "('v, 'm) chat_message list \<Rightarrow> string" where
  "seeded_skill_listing ms =
     (case rfind (\<lambda>m. source m = SrcSkillListing) ms of
        None \<Rightarrow> []
      | Some m \<Rightarrow>
          (case content m of
             TextBlock t # _ \<Rightarrow> (case skill_reminder_listing t of None \<Rightarrow> [] | Some listing \<Rightarrow> listing)
           | _ \<Rightarrow> []))"

section \<open>Files the conversation wrote\<close>

text \<open>What was written to which path, and the writes whose result has not been seen yet.\<close>

type_synonym writes =
  "(string \<Rightarrow> (file_fingerprint \<times> string option) option) \<times> (string \<Rightarrow> (string \<times> string option) option)"

definition note_write ::
    "('v, 'm, 's) context_env \<Rightarrow> writes \<Rightarrow> ('v, 'm) content_block \<Rightarrow> writes" where
  "note_write env w b =
     (case w of (wrote, pending) \<Rightarrow>
        case b of
          ToolUse i name input _ \<Rightarrow>
            if name \<in> set FILE_WRITING_TOOLS then
              (case ce_file_arg env input of
                 Some path \<Rightarrow>
                   (wrote, pending(i \<mapsto> (path, if name = WRITE_TOOL_NAME then ce_content_arg env input else None)))
               | None \<Rightarrow> (wrote, pending))
            else (wrote, pending)
        | ToolResult i _ (Some meta) \<Rightarrow>
            (case pending i of
               Some (path, body) \<Rightarrow>
                 ((case ce_write_fingerprint env meta of
                     Some fp \<Rightarrow> wrote(path \<mapsto> (fp, body))
                   | None \<Rightarrow> wrote), pending(i := None))
             | None \<Rightarrow> (wrote, pending))
        | _ \<Rightarrow> (wrote, pending))"

definition self_written_sections ::
    "('v, 'm, 's) context_env \<Rightarrow> ('v, 'm) chat_message list \<Rightarrow> string \<Rightarrow> self_write option" where
  "self_written_sections env ms path =
     map_option (\<lambda>(fp, body). \<lparr>sw_still_current = (ce_stat env path = Some fp), sw_body = body\<rparr>)
       (fst (foldl (note_write env) (Map.empty, Map.empty) (concat (map content ms))) path)"

section \<open>Reconciling\<close>

definition reconcile_system_prompt ::
    "('v, 'm, 's) context_env \<Rightarrow> bool \<Rightarrow> int \<Rightarrow> ('v, 'm) live \<Rightarrow> bool \<times> ('v, 'm) live" where
  "reconcile_system_prompt env ok now s =
     (case s of (c, L) \<Rightarrow>
        if \<not> leads_with_system_text (cm_messages c) then (True, c, L)
        else if cm_prompt_version c = Some (ce_version env) then (True, c, L)
        else
          (case ce_prompt env of
             None \<Rightarrow> (True, c, L)
           | Some parts \<Rightarrow>
               let unseen = build_blocks (ce_line_diff env) parts (leading_system_text (cm_messages c))
                     (self_written_sections env (cm_messages c));
                   told = newest_prompt_update_text (cm_messages c);
                   update = prompt_wrap_update unseen
               in if (unseen = [] \<and> told = None) \<or> told = Some update
                  then (True, c\<lparr>cm_prompt_version := Some (ce_version_after env)\<rparr>, L)
                  else
                    (case append_row env ok now (system_prompt_update_row [TextBlock update]) (c, L) of
                       (None, s) \<Rightarrow> (False, s)
                     | (Some _, c, L) \<Rightarrow> (True, c\<lparr>cm_prompt_version := Some (ce_version_after env)\<rparr>, L))))"

definition reconcile_skills ::
    "('v, 'm, 's) context_env \<Rightarrow> bool \<Rightarrow> int \<Rightarrow> ('v, 'm) live \<Rightarrow> bool \<times> ('v, 'm) live" where
  "reconcile_skills env ok now s =
     (case s of (c, L) \<Rightarrow>
        if \<not> leads_with_system_text (cm_messages c) then (True, c, L)
        else
          let listing = render_skill_listing (ce_one_line env) (invocable_skill_summaries env)
          in if cm_skills_version c = Some listing then (True, c, L)
             else
               let told = newest_skills_update_text (cm_messages c)
               in (case skills_wrap_update (ce_line_diff env) (seeded_skill_listing (cm_messages c)) listing (told \<noteq> None) of
                     None \<Rightarrow> (True, c\<lparr>cm_skills_version := Some listing\<rparr>, L)
                   | Some update \<Rightarrow>
                       if told = Some update then (True, c\<lparr>cm_skills_version := Some listing\<rparr>, L)
                       else
                         (case append_row env ok now (skills_update_row [TextBlock update]) (c, L) of
                            (None, s) \<Rightarrow> (False, s)
                          | (Some _, c, L) \<Rightarrow> (True, c\<lparr>cm_skills_version := Some listing\<rparr>, L))))"

section \<open>Seeding\<close>

definition note_prompt_anchors ::
    "('v, 'm, 's) context_env \<Rightarrow> prompt_part list \<Rightarrow> ('v, 'm) context_manager \<Rightarrow> ('v, 'm) context_manager" where
  "note_prompt_anchors env parts c =
     foldl (\<lambda>c (path, body).
       case ce_stat env path of
         None \<Rightarrow> c
       | Some fp \<Rightarrow>
           if ce_read env path = Some body then c\<lparr>cm_prompt_anchors := cm_prompt_anchors c @ [(path, fp)]\<rparr> else c)
       c (prompt_sections parts)"

definition take_prompt_anchors ::
    "('v, 'm) context_manager \<Rightarrow> (string \<times> file_fingerprint) list \<times> ('v, 'm) context_manager" where
  "take_prompt_anchors c = (cm_prompt_anchors c, c\<lparr>cm_prompt_anchors := []\<rparr>)"

text \<open>A row that is written only when there is one.\<close>

definition append_some ::
    "('v, 'm, 's) context_env \<Rightarrow> bool \<Rightarrow> int \<Rightarrow> ('v, 'm) chat_message option \<Rightarrow> ('v, 'm) live \<Rightarrow> bool \<times> ('v, 'm) live" where
  "append_some env ok now row s =
     (case row of
        None \<Rightarrow> (True, s)
      | Some msg \<Rightarrow> apfst (\<lambda>n. n \<noteq> None) (append_row env ok now msg s))"

definition seed_prompt_row :: "('v, 'm, 's) context_env \<Rightarrow> ('v, 'm) chat_message" where
  "seed_prompt_row env =
     system_row [TextBlock (case ce_prompt env of Some parts \<Rightarrow> prompt_text parts | None \<Rightarrow> FALLBACK_SYSTEM_PROMPT)]"

definition stamp_prompt :: "('v, 'm, 's) context_env \<Rightarrow> ('v, 'm) context_manager \<Rightarrow> ('v, 'm) context_manager" where
  "stamp_prompt env c =
     (case ce_prompt env of
        Some parts \<Rightarrow> note_prompt_anchors env parts (c\<lparr>cm_prompt_version := Some (ce_version_after env)\<rparr>)
      | None \<Rightarrow> c)"

text \<open>The rows after the prompt: the skills, unless there are none, and the notice of deferred tools.\<close>

definition seed_notices ::
    "('v, 'm, 's) context_env \<Rightarrow> bool \<Rightarrow> bool \<Rightarrow> int \<Rightarrow> ('v, 'm) live \<Rightarrow> bool \<times> ('v, 'm) live" where
  "seed_notices env ok2 ok3 now s =
     (let skills = invocable_skill_summaries env;
          listing_row = (if skills = [] then None
            else Some (skill_listing [TextBlock (render_skill_reminder (ce_one_line env) skills)]));
          notice_row = map_option (\<lambda>t. deferred_tool_listing [TextBlock t]) (cm_deferred_notice (fst s))
      in case append_some env ok2 now listing_row s of
           (False, s) \<Rightarrow> (False, s)
         | (True, s) \<Rightarrow>
             (case append_some env ok3 now notice_row s of
                (False, s) \<Rightarrow> (False, s)
              | (True, c, L) \<Rightarrow>
                  (True, c\<lparr>cm_skills_version := Some (render_skill_listing (ce_one_line env) skills)\<rparr>, L)))"

definition ensure_seeded ::
    "('v, 'm, 's) context_env \<Rightarrow> bool \<times> bool \<times> bool \<Rightarrow> int \<Rightarrow> ('v, 'm) live \<Rightarrow> bool \<times> ('v, 'm) live" where
  "ensure_seeded env oks now s =
     (case (oks, s) of ((ok1, ok2, ok3), c, L) \<Rightarrow>
        if cm_messages c \<noteq> [] \<and> role (hd (cm_messages c)) = RoleSystem then (True, c, L)
        else
          (case append_row env ok1 now (seed_prompt_row env) (c, L) of
             (None, s) \<Rightarrow> (False, s)
           | (Some _, c, L) \<Rightarrow> seed_notices env ok2 ok3 now (stamp_prompt env c, L)))"

section \<open>Slash commands\<close>

definition slash_expansion_message ::
    "('v, 'm, 's) context_env \<Rightarrow> ('v, 'm) context_manager \<Rightarrow> (string \<times> ('v, 'm) chat_message) option" where
  "slash_expansion_message env c =
     (if cm_messages c = [] \<or> source (last (cm_messages c)) \<noteq> SrcUser then None
      else
        (case detect_slash_invocation (extract_text (content (last (cm_messages c)))) (slash_skill_summaries env) of
           None \<Rightarrow> None
         | Some (skill_name, _) \<Rightarrow>
             map_option (\<lambda>skill. (skill_name, agent_context [TextBlock (ce_slash_body env skill)])) (ce_get_scoped env skill_name)))"

definition expand_slash_command ::
    "('v, 'm, 's) context_env \<Rightarrow> bool \<Rightarrow> int \<Rightarrow> ('v, 'm) live \<Rightarrow> bool \<times> ('v, 'm) live" where
  "expand_slash_command env ok now s =
     (case slash_expansion_message env (fst s) of
        None \<Rightarrow> (True, s)
      | Some (skill_name, msg) \<Rightarrow>
          (case append_row env ok now msg s of
             (None, s) \<Rightarrow> (False, s)
           | (Some _, c, L) \<Rightarrow> (True, c\<lparr>cm_called_skills := push_called_skill (cm_called_skills c) skill_name\<rparr>, L)))"

end
