(* ===== verification/ContextRuns.thy ===== *)
theory ContextRuns
  imports Reconcile
begin

text \<open>
  Histories of a manager and its session's log: every operation of \<open>ContextManager\<close> in the model as a step, with rows
  another writer appends, and what stays true of them - the transcript mirrors the log until the manager knows it does
  not, and every message is charged what it would be charged afresh.
\<close>

section \<open>A manager and its log\<close>

text \<open>
  What can happen to a manager and its session's log. The last two are rows another writer appends. Compactions are
  written by the manager alone.
\<close>

datatype ('v, 'm, 's) ctx_op =
    CAppend "('v, 'm, 's) context_env" bool int "('v, 'm) chat_message"
  | CAppendOnce "('v, 'm, 's) context_env" bool int string "('v, 'm) chat_message"
  | CRestore "('v, 'm, 's) context_env" bool bool "bool list" int
  | CSeed "('v, 'm, 's) context_env" "bool \<times> bool \<times> bool" int
  | CPrompt "('v, 'm, 's) context_env" bool int
  | CSkills "('v, 'm, 's) context_env" bool int
  | CSlash "('v, 'm, 's) context_env" bool int
  | CTakeAnchors
  | CActual bool nat
  | CMaybe "('v, 'm, 's) context_env" string "(string \<times> string \<times> string) list" bool int "('v, 'm) summarizer"
  | CForce "('v, 'm, 's) context_env" string "(string \<times> string \<times> string) list" bool int "('v, 'm) summarizer"
  | CWould "('v, 'm, 's) context_env" string "(string \<times> string \<times> string) list"
  | CWindow nat
  | CAudio "('v, 'm, 's) context_env" audio_delivery
  | CTasks "('v, 'm, 's) context_env" "string option"
  | CProgress "('v, 'm, 's) context_env" "string option"
  | CCue "string option"
  | COtherAppend int "('v, 'm) chat_message"
  | COtherOnce int string "('v, 'm) chat_message"

definition ctx_step :: "('v, 'm) live \<Rightarrow> ('v, 'm, 's) ctx_op \<Rightarrow> ('v, 'm) live" where
  "ctx_step s p =
     (case p of
        CAppend env ok now msg \<Rightarrow> snd (append_row env ok now msg s)
      | CAppendOnce env ok now event msg \<Rightarrow> snd (append_idempotent env ok now event msg s)
      | CRestore env rows_ok anchor_ok fill_oks now \<Rightarrow> restore_from_store env rows_ok anchor_ok fill_oks now s
      | CSeed env oks now \<Rightarrow> snd (ensure_seeded env oks now s)
      | CPrompt env ok now \<Rightarrow> snd (reconcile_system_prompt env ok now s)
      | CSkills env ok now \<Rightarrow> snd (reconcile_skills env ok now s)
      | CSlash env ok now \<Rightarrow> snd (expand_slash_command env ok now s)
      | CTakeAnchors \<Rightarrow> apfst (\<lambda>c. snd (take_prompt_anchors c)) s
      | CActual ok n \<Rightarrow> record_call_actual ok n s
      | CMaybe env model tools ok now chat \<Rightarrow> snd (maybe_compress env model tools ok now chat s)
      | CForce env model tools ok now chat \<Rightarrow> snd (force_compress env model tools ok now chat s)
      | CWould env model tools \<Rightarrow> apfst (\<lambda>c. snd (would_compress env model tools c)) s
      | CWindow window \<Rightarrow> apfst (set_active_model_context_window window) s
      | CAudio env audio \<Rightarrow> apfst (set_active_model_audio_delivery env audio) s
      | CTasks env t \<Rightarrow> apfst (refresh_task_reminder env t) s
      | CProgress env t \<Rightarrow> apfst (set_progress_observation env t) s
      | CCue cue \<Rightarrow> apfst (set_notification_cue cue) s
      | COtherAppend now msg \<Rightarrow> apsnd (\<lambda>L. snd (append_session_message now msg L)) s
      | COtherOnce now event msg \<Rightarrow> apsnd (\<lambda>L. snd (append_session_message_idempotent now event msg L)) s)"

definition active_messages :: "('v, 'm) session_log \<Rightarrow> ('v, 'm) chat_message list" where
  "active_messages L = map sm_message (filter (\<lambda>r. sm_superseded_by r = None) (rows L))"

text \<open>Until they are known to differ, the transcript is what the log holds active, rows of other writers apart.\<close>

definition mirrors :: "('v, 'm) live \<Rightarrow> bool" where
  "mirrors s \<longleftrightarrow>
     log_ok (snd s) \<and> (\<not> cm_diverged (fst s) \<longrightarrow> subseq (cm_messages (fst s)) (active_messages (snd s)))"

lemma active_append [simp]: "active_messages (snd (append_session_message now msg L)) = active_messages L @ [msg]"
  by (simp add: active_messages_def append_shape)

lemma active_once:
  "append_session_message_idempotent now event msg L = (outcome, L') \<Longrightarrow>
     active_messages L' =
       active_messages L @ (case outcome of Some o' \<Rightarrow> if was_inserted o' then [msg] else [] | None \<Rightarrow> [])"
  by (auto simp: append_session_message_idempotent_def active_messages_def was_inserted_def split: if_splits option.splits)

lemma active_compact [simp]: "active_messages (snd (apply_session_compaction now msgs L)) = msgs"
proof -
  have "filter (\<lambda>r. sm_superseded_by r = None) (map (supersede n) rs) = []" for n and rs :: "('a, 'b) stored_message list"
    by (auto simp: filter_empty_conv supersede_def)
  moreover have "filter (\<lambda>r. sm_superseded_by r = None) (inserted_rows n now msgs) = inserted_rows n now msgs" for n
    using inserted_rows_fields by (fastforce intro: filter_True)
  ultimately show ?thesis by (simp add: active_messages_def compact_shape)
qed

lemma active_anchor [simp]: "active_messages (record_token_anchor model tokens n overhead L) = active_messages L"
  by (simp add: active_messages_def anchor_shape)

lemma log_ok_append: "log_ok L \<Longrightarrow> log_ok (snd (append_session_message now msg L))"
  by (rule log_ok_add [OF _ append_shape]) simp_all

lemma log_ok_once: "log_ok L \<Longrightarrow> log_ok (snd (append_session_message_idempotent now event msg L))"
  using log_ok_step [of L "LAppendOnce now event msg"] by (simp add: log_step_def proper_op_def)

lemma log_ok_anchor: "log_ok L \<Longrightarrow> log_ok (record_token_anchor model tokens n overhead L)"
  using log_ok_step [of L "LAnchor model tokens n overhead"] by (simp add: log_step_def proper_op_def)

lemma fills_kept:
  "log_ok L \<Longrightarrow> persist_fills oks now fs L = (kept, L') \<Longrightarrow> log_ok L' \<and> active_messages L' = active_messages L @ kept"
proof (induction fs arbitrary: oks L kept L')
  case (Cons f fs)
  show ?case
  proof (cases "oks \<noteq> [] \<and> hd oks")
    case True
    obtain kept' where "persist_fills (tl oks) now fs (snd (append_session_message now f L)) = (kept', L')" "kept = f # kept'"
      using Cons.prems(2) True by (auto split: prod.splits)
    then show ?thesis using Cons.IH [OF log_ok_append [OF Cons.prems(1)]] by simp
  next
    case False
    then show ?thesis using Cons.IH [OF Cons.prems(1), of "tl oks" kept L'] Cons.prems(2) by (simp only: persist_fills.simps if_False)
  qed
qed simp

lemma mirrors_keep:
  "mirrors (c, L) \<Longrightarrow> cm_messages c' = cm_messages c \<Longrightarrow> cm_diverged c \<longrightarrow> cm_diverged c' \<Longrightarrow> mirrors (c', L)"
  by (auto simp: mirrors_def)

lemma mirrors_grow:
  "mirrors (c, L) \<Longrightarrow> log_ok L' \<Longrightarrow> active_messages L' = active_messages L @ xs \<Longrightarrow> mirrors (c, L')"
  by (auto simp: mirrors_def intro: subseq_order.order_trans [OF _ list_emb_append2])

lemma push_fields [simp]:
  "cm_messages (push_message env msg c) = cm_messages c @ [msg]" "cm_diverged (push_message env msg c) = cm_diverged c"
  by (simp_all add: push_message_def update_budget_def)

lemma mirrors_push:
  "mirrors (c, L) \<Longrightarrow> log_ok L' \<Longrightarrow> active_messages L' = active_messages L @ [msg] \<Longrightarrow> mirrors (push_message env msg c, L')"
  by (auto simp: mirrors_def intro: list_emb_append_mono)

lemma mirrors_append: "mirrors s \<Longrightarrow> mirrors (snd (append_row env ok now msg s))"
proof (cases s)
  case (Pair c L)
  assume m: "mirrors s"
  then have "log_ok (snd (append_session_message now msg L))" using Pair by (simp add: mirrors_def log_ok_append)
  then show ?thesis
    using m Pair mirrors_push [of c L "snd (append_session_message now msg L)" msg env] by (simp add: append_row_def case_prod_unfold)
qed

lemma mirrors_once: "mirrors s \<Longrightarrow> mirrors (snd (append_idempotent env ok now event msg s))"
proof (cases s)
  case (Pair c L)
  assume m: "mirrors s"
  obtain outcome L' where once: "append_session_message_idempotent now event msg L = (outcome, L')" by fastforce
  then have log: "log_ok L'" using m Pair log_ok_once [of L now event msg] by (simp add: mirrors_def)
  show ?thesis
    using m Pair once log active_once [OF once] mirrors_push [of c L L' msg env] mirrors_grow [of c L L' "[]"]
    by (auto simp: append_idempotent_def split: option.splits)
qed

lemma restore_fields:
  assumes "restore_from_store env rows_ok anchor_ok fill_oks now (c, L) = (c', L')"
  obtains "c' = c" "L' = L"
  | kept where "persist_fills fill_oks now (fills (repair_tool_pairing (map ar_message (load_active_session_message_rows L)))) L = (kept, L')"
      "cm_diverged c' \<longleftrightarrow> cm_messages c' \<noteq> map ar_message (load_active_session_message_rows L) @ kept"
proof (cases "\<not> rows_ok \<or> load_active_session_message_rows L = []")
  case True
  then show thesis using assms that(1) by (simp add: restore_from_store_def)
next
  case False
  let ?r = "repair_tool_pairing (map ar_message (load_active_session_message_rows L))"
  obtain kept L1 where fills: "persist_fills fill_oks now (fills ?r) L = (kept, L1)" by fastforce
  have "cm_messages (restore_messages env ms c) = ms" for ms
    by (simp add: restore_messages_def update_budget_def invalidate_baseline_def)
  then have "L' = L1 \<and> (cm_diverged c' \<longleftrightarrow> cm_messages c' \<noteq> map ar_message (load_active_session_message_rows L) @ kept)"
    using assms False fills
    by (auto simp: restore_from_store_def Let_def install_restored_anchor_def update_budget_def split: option.splits prod.splits if_splits)
  then show thesis using that(2) fills by blast
qed

lemma mirrors_restore: "mirrors s \<Longrightarrow> mirrors (restore_from_store env rows_ok anchor_ok fill_oks now s)"
proof (cases s)
  case (Pair c L)
  assume m: "mirrors s"
  obtain c' L' where r: "restore_from_store env rows_ok anchor_ok fill_oks now (c, L) = (c', L')" by fastforce
  then show ?thesis
  proof (cases rule: restore_fields)
    case 1
    then show ?thesis using m Pair r by simp
  next
    case (2 kept)
    have "counted L" "log_ok L" using m Pair by (simp_all add: mirrors_def log_ok_def)
    then have "log_ok L' \<and> active_messages L' = map ar_message (load_active_session_message_rows L) @ kept"
      using fills_kept [OF _ 2(1)] by (simp add: active_messages_def active_rows)
    then show ?thesis using 2(2) Pair r by (auto simp: mirrors_def)
  qed
qed

lemma mirrors_compression: "mirrors s \<Longrightarrow> mirrors (snd (run_compression env ok now chat s))"
proof (cases s)
  case (Pair c L)
  assume m: "mirrors s"
  obtain outcome c' L' where r: "run_compression env ok now chat (c, L) = (outcome, c', L')" by (metis prod_cases3)
  then show ?thesis
  proof (cases rule: run_compression_cases)
    case kept
    then show ?thesis using m Pair r by (simp add: mirrors_def)
  next
    case (replaced ms c1)
    have "cm_messages c1 \<noteq> []"
      using replaced(3,4) by (auto simp: insert_skill_trailer_def takeWhile_eq_Nil_iff dropWhile_eq_Nil_conv)
    then have "cm_messages (reseed_system_row env c1) \<noteq> []" using reseed_messages [of env c1] by auto
    then have "log_ok (snd (apply_session_compaction now (cm_messages (reseed_system_row env c1)) L))"
      using m Pair by (simp add: mirrors_def log_ok_compact)
    then show ?thesis using m Pair r replaced(6) by (auto simp: persist_compaction_def mirrors_def split: if_splits)
  qed
qed

text \<open>
  Seeding, reconciling and expanding append rows and change what a transcript is not made of. What appending keeps, they
  keep.
\<close>

inductive appends :: "('v, 'm, 's) context_env \<Rightarrow> ('v, 'm) live \<Rightarrow> ('v, 'm) live \<Rightarrow> bool" for env where
  same: "appends env s s"
| append: "appends env s s' \<Longrightarrow> appends env s (snd (append_row env ok now msg s'))"
| other: "appends env s (c, L) \<Longrightarrow> cm_messages c' = cm_messages c \<Longrightarrow> cm_per_message c' = cm_per_message c \<Longrightarrow>
    cm_diverged c' = cm_diverged c \<Longrightarrow> cm_audio c' = cm_audio c \<Longrightarrow> appends env s (c', L)"

lemma append_row_appends: "append_row env ok now msg s = (n, s') \<Longrightarrow> appends env s s'"
  using append [OF same, of env s ok now msg] by simp

lemma append_some_appends: "append_some env ok now row s = (b, s') \<Longrightarrow> appends env s s'"
proof (cases row)
  case (Some msg)
  then show "append_some env ok now row s = (b, s') \<Longrightarrow> ?thesis"
    by (cases "append_row env ok now msg s") (auto simp: append_some_def intro: append_row_appends)
qed (auto simp: append_some_def same)

lemma appends_trans: "appends env s' s'' \<Longrightarrow> appends env s s' \<Longrightarrow> appends env s s''"
  by (induction rule: appends.induct) (auto intro: appends.intros)

lemma appends_field:
  "appends env s (c, L) \<Longrightarrow> appends env s (c\<lparr>cm_prompt_version := v\<rparr>, L)"
  "appends env s (c, L) \<Longrightarrow> appends env s (c\<lparr>cm_skills_version := w\<rparr>, L)"
  "appends env s (c, L) \<Longrightarrow> appends env s (c\<lparr>cm_called_skills := ks\<rparr>, L)"
  by (erule other; simp)+

lemma foldl_keeps: "(\<And>c x. g (f c x) = g c) \<Longrightarrow> g (foldl f c xs) = g c"
  by (induction xs arbitrary: c) simp_all

lemma note_anchor_fields [simp]:
  "cm_messages (note_prompt_anchors env parts c) = cm_messages c"
  "cm_per_message (note_prompt_anchors env parts c) = cm_per_message c"
  "cm_diverged (note_prompt_anchors env parts c) = cm_diverged c" "cm_audio (note_prompt_anchors env parts c) = cm_audio c"
  "cm_skills_version (note_prompt_anchors env parts c) = cm_skills_version c"
  unfolding note_prompt_anchors_def by (rule foldl_keeps; simp split: prod.splits option.splits)+

lemma appends_prompt: "appends env s (snd (reconcile_system_prompt env ok now s))"
proof (cases s)
  case (Pair c L)
  then show ?thesis
    by (auto simp: reconcile_system_prompt_def Let_def split: option.splits prod.splits
        intro: same appends_field dest: append_row_appends)
qed

lemma appends_skills: "appends env s (snd (reconcile_skills env ok now s))"
proof (cases s)
  case (Pair c L)
  then show ?thesis
    by (auto simp: reconcile_skills_def Let_def split: option.splits prod.splits
        intro: same appends_field dest: append_row_appends)
qed

lemma appends_slash: "appends env s (snd (expand_slash_command env ok now s))"
  by (auto simp: expand_slash_command_def split: option.splits prod.splits
      intro: same appends_field dest: append_row_appends)

lemma stamp_fields [simp]:
  "cm_messages (stamp_prompt env c) = cm_messages c" "cm_per_message (stamp_prompt env c) = cm_per_message c"
  "cm_diverged (stamp_prompt env c) = cm_diverged c" "cm_audio (stamp_prompt env c) = cm_audio c"
  "cm_skills_version (stamp_prompt env c) = cm_skills_version c"
  by (simp_all add: stamp_prompt_def split: option.splits)

lemma appends_notices: "appends env s (snd (seed_notices env ok2 ok3 now s))"
  by (auto simp: seed_notices_def Let_def split: prod.splits bool.splits
      intro: appends_field appends_trans dest!: append_some_appends)

lemma appends_seed: "appends env s (snd (ensure_seeded env oks now s))"
proof (cases s)
  case (Pair c L)
  obtain ok1 ok2 ok3 where oks: "oks = (ok1, ok2, ok3)" by (metis prod_cases3)
  show ?thesis
  proof (cases "cm_messages c \<noteq> [] \<and> role (hd (cm_messages c)) = RoleSystem")
    case True
    then show ?thesis using Pair oks by (simp add: ensure_seeded_def same)
  next
    case False
    obtain n c1 L1 where first: "append_row env ok1 now (seed_prompt_row env) (c, L) = (n, c1, L1)" by (metis prod_cases3)
    then have "appends env (c, L) (c1, L1)" by (rule append_row_appends)
    moreover from this have "appends env (c, L) (stamp_prompt env c1, L1)" by (rule other) simp_all
    then have "appends env (c, L) (snd (seed_notices env ok2 ok3 now (stamp_prompt env c1, L1)))"
      by (rule appends_trans [OF appends_notices])
    ultimately show ?thesis using False first Pair oks by (auto simp: ensure_seeded_def split: option.splits)
  qed
qed

lemma appends_step: "appends env s s' \<Longrightarrow> mirrors s \<Longrightarrow> mirrors s'"
proof (induction rule: appends.induct)
  case (other s c L c')
  then show ?case using mirrors_keep [of c L c'] by simp
qed (simp_all add: mirrors_append)

lemma mirrors_ready: "mirrors (c, L) \<Longrightarrow> mirrors (ready_to_count env model tools c, L)"
  by (erule mirrors_keep) simp_all

lemma mirrors_step: "mirrors s \<Longrightarrow> mirrors (ctx_step s p)"
proof (cases s)
  case (Pair c L)
  assume m: "mirrors s"
  note keep = mirrors_keep [OF m [unfolded Pair]]
  show ?thesis
  proof (cases p)
    case (CAppend env ok now msg)
    then show ?thesis using m by (simp add: ctx_step_def mirrors_append)
  next
    case (CAppendOnce env ok now event msg)
    then show ?thesis using m by (simp add: ctx_step_def mirrors_once)
  next
    case (CRestore env rows_ok anchor_ok fill_oks now)
    then show ?thesis using m by (simp add: ctx_step_def mirrors_restore)
  next
    case (CMaybe env model tools ok now chat)
    have ready: "mirrors (ready_to_count env model tools c, L)" using m Pair by (simp add: mirrors_ready)
    then have "mirrors (snd (run_compression env ok now chat (ready_to_count env model tools c, L)))"
      by (rule mirrors_compression)
    then show ?thesis using ready CMaybe Pair by (simp add: ctx_step_def maybe_compress_def Let_def)
  next
    case (CForce env model tools ok now chat)
    have "mirrors ((ready_to_count env model tools c)\<lparr>cm_declined_at := None\<rparr>, L)" by (rule keep) simp_all
    then show ?thesis using CForce Pair mirrors_compression by (simp add: ctx_step_def force_compress_def)
  next
    case (CActual ok n)
    have "log_ok L" using m Pair by (simp add: mirrors_def)
    then have "mirrors (c, record_token_anchor model tokens k overhead L)" for model tokens k overhead
      using mirrors_grow [of c L _ "[]"] m Pair by (simp add: log_ok_anchor)
    then show ?thesis
      using CActual Pair m by (auto simp: ctx_step_def record_call_actual_def Let_def mirrors_def split: option.splits)
  next
    case (COtherAppend now msg)
    have "log_ok L" using m Pair by (simp add: mirrors_def)
    then have "mirrors (c, snd (append_session_message now msg L))"
      using mirrors_grow [OF m [unfolded Pair] log_ok_append active_append] by blast
    then show ?thesis using COtherAppend Pair by (simp add: ctx_step_def)
  next
    case (COtherOnce now event msg)
    obtain outcome L' where once: "append_session_message_idempotent now event msg L = (outcome, L')" by fastforce
    have "log_ok L" using m Pair by (simp add: mirrors_def)
    then have "log_ok L'" using log_ok_once [of L now event msg] once by simp
    then have "mirrors (c, L')" using mirrors_grow [OF m [unfolded Pair] _ active_once [OF once]] by blast
    then show ?thesis using COtherOnce Pair once by (simp add: ctx_step_def)
  next
    case (CProgress env t)
    have "mirrors (set_progress_observation env t c, L)"
      by (rule keep) (simp_all add: set_progress_observation_def update_budget_def Let_def)
    then show ?thesis using CProgress Pair by (simp add: ctx_step_def)
  next
    case (CAudio env audio)
    have "mirrors (set_active_model_audio_delivery env audio c, L)"
      by (rule keep) (simp_all add: set_active_model_audio_delivery_def update_budget_def invalidate_baseline_def Let_def
          split: option.splits)
    then show ?thesis using CAudio Pair by (simp add: ctx_step_def)
  next
    case (CSeed env oks now)
    then show ?thesis using m by (simp add: ctx_step_def appends_step [OF appends_seed])
  next
    case (CPrompt env ok now)
    then show ?thesis using m by (simp add: ctx_step_def appends_step [OF appends_prompt])
  next
    case (CSkills env ok now)
    then show ?thesis using m by (simp add: ctx_step_def appends_step [OF appends_skills])
  next
    case (CSlash env ok now)
    then show ?thesis using m by (simp add: ctx_step_def appends_step [OF appends_slash])
  next
    case CTakeAnchors
    have "mirrors (snd (take_prompt_anchors c), L)" by (rule keep) (simp_all add: take_prompt_anchors_def)
    then show ?thesis using CTakeAnchors Pair by (simp add: ctx_step_def)
  qed (use Pair in \<open>auto simp: ctx_step_def would_compress_def Let_def set_active_model_context_window_def
      refresh_task_reminder_def set_notification_cue_def update_budget_def intro: keep\<close>)
qed

lemma mirrors_run: "mirrors s \<Longrightarrow> mirrors (foldl ctx_step s ps)"
  by (induction ps arbitrary: s) (simp_all add: mirrors_step)

lemma mirrors_start: "mirrors (from_config keep threshold max_active notice, log_new)"
  by (simp add: mirrors_def from_config_def)

section \<open>Charges\<close>

text \<open>The operations that count with the tokenizer of \<open>env\<close>.\<close>

definition same_prices :: "('v, 'm, 's) context_env \<Rightarrow> ('v, 'm, 's) context_env \<Rightarrow> bool" where
  "same_prices env e \<longleftrightarrow> ce_count_message e = ce_count_message env \<and> ce_count_media e = ce_count_media env"

definition counts_with :: "('v, 'm, 's) context_env \<Rightarrow> ('v, 'm, 's) ctx_op \<Rightarrow> bool" where
  "counts_with env p =
     (case p of
        CAppend e _ _ _ \<Rightarrow> same_prices env e
      | CAppendOnce e _ _ _ _ \<Rightarrow> same_prices env e
      | CRestore e _ _ _ _ \<Rightarrow> same_prices env e
      | CSeed e _ _ \<Rightarrow> same_prices env e
      | CPrompt e _ _ \<Rightarrow> same_prices env e
      | CSkills e _ _ \<Rightarrow> same_prices env e
      | CSlash e _ _ \<Rightarrow> same_prices env e
      | CMaybe e _ _ _ _ _ \<Rightarrow> same_prices env e
      | CForce e _ _ _ _ _ \<Rightarrow> same_prices env e
      | CAudio e _ \<Rightarrow> same_prices env e
      | _ \<Rightarrow> True)"

definition charged :: "('v, 'm, 's) context_env \<Rightarrow> ('v, 'm) context_manager \<Rightarrow> bool" where
  "charged env c \<longleftrightarrow> cm_per_message c = map (message_budget_tokens env (cm_audio c)) (cm_messages c)"

lemma same_prices_split: "same_prices env e \<Longrightarrow> split_tokens e a m = split_tokens env a m"
  by (simp add: same_prices_def split_tokens_def)

lemma same_prices_budget: "same_prices env e \<Longrightarrow> message_budget_tokens e a m = message_budget_tokens env a m"
  by (simp add: message_budget_tokens_def same_prices_split Let_def split: message_source.splits)

context tokenizer
begin

text \<open>Only audio is priced by how it is delivered, so changing the delivery need not touch the other messages.\<close>

lemma silent_cost:
  assumes "count_message = ce_count_message env" and "count_media = ce_count_media env" and "\<not> message_carries_audio m"
  shows "message_budget_tokens env a m = message_budget_tokens env a' m"
proof -
  have silent: "count_media m' a = count_media m' a'"
    if "list_all (\<lambda>b. case b of AudioBlock _ _ _ _ \<Rightarrow> False | _ \<Rightarrow> True) (content m')" for m'
    using only_audio_depends [OF that] .
  have blocks: "list_all (\<lambda>b. case b of AudioBlock _ _ _ _ \<Rightarrow> False | _ \<Rightarrow> True) (content m)"
    using assms(3) by (auto simp: message_carries_audio_def list_all_iff list_ex_iff split: content_block.splits)
  then have "list_all (\<lambda>b. case b of AudioBlock _ _ _ _ \<Rightarrow> False | _ \<Rightarrow> True)
      (content (user_row (TextBlock t # filter (\<lambda>b. \<not> is_text b) (content m))))" for t
    by (simp add: user_row_def list_all_iff)
  then show ?thesis
    using silent [OF blocks] silent assms(2)
    by (simp add: message_budget_tokens_def split_tokens_def Let_def split: message_source.splits)
qed

end

lemma charged_keep:
  "charged env c \<Longrightarrow> cm_messages c' = cm_messages c \<Longrightarrow> cm_per_message c' = cm_per_message c \<Longrightarrow> cm_audio c' = cm_audio c \<Longrightarrow>
     charged env c'"
  by (simp add: charged_def)

lemma charged_version: "charged env c \<Longrightarrow> charged env (c\<lparr>cm_prompt_version := v\<rparr>)"
  by (simp add: charged_def)

lemma charged_push: "charged env c \<Longrightarrow> same_prices env e \<Longrightarrow> charged env (push_message e msg c)"
  by (simp add: charged_def push_message_def update_budget_def same_prices_budget)

lemma charged_first: "charged env c \<Longrightarrow> same_prices env e \<Longrightarrow> charged env (replace_first_message e msg c)"
  by (simp add: charged_def replace_first_message_def update_budget_def invalidate_baseline_def same_prices_budget map_update)

lemma charged_restored: "same_prices env e \<Longrightarrow> charged env (restore_messages e ms c)"
  by (simp add: charged_def restore_messages_def update_budget_def invalidate_baseline_def same_prices_budget)

lemma charged_restore:
  assumes "charged env c" and "same_prices env e"
  shows "charged env (fst (restore_from_store e rows_ok anchor_ok fill_oks now (c, L)))"
proof -
  let ?r = "repair_tool_pairing (map ar_message (load_active_session_message_rows L))"
  define c1 where "c1 = restore_messages e (messages ?r) c"
  have c1: "charged env c1" unfolding c1_def by (rule charged_restored [OF assms(2)])
  have "charged env (c1\<lparr>cm_diverged := d\<rparr>)" "charged env (install_restored_anchor a n (c1\<lparr>cm_diverged := d\<rparr>))" for a n d
    using c1 by (auto simp: install_restored_anchor_def update_budget_def intro: charged_keep)
  then show ?thesis
    using assms(1) by (auto simp: restore_from_store_def Let_def c1_def split: option.splits prod.splits)
qed

lemma charged_audio:
  assumes "tokenizer (ce_count_message env) (ce_count_media env)" and "charged env c" and "same_prices env e"
  shows "charged env (set_active_model_audio_delivery e audio c)"
proof (cases "cm_audio c = audio")
  case False
  have "map (\<lambda>(m, t). if message_carries_audio m then message_budget_tokens e audio m else t)
      (zip (cm_messages c) (cm_per_message c)) = map (message_budget_tokens env audio) (cm_messages c)"
    using assms(2,3) tokenizer.silent_cost [OF assms(1) refl refl, of _ "cm_audio c" audio]
    by (auto simp: charged_def same_prices_budget zip_map2 zip_same_conv_map)
  then show ?thesis
    using False
    by (auto simp: set_active_model_audio_delivery_def charged_def Let_def update_budget_def invalidate_baseline_def
        split: option.splits)
qed (simp add: set_active_model_audio_delivery_def assms(2))

lemma charged_ready: "charged env c \<Longrightarrow> charged env (ready_to_count e model tools c)"
  by (erule charged_keep)
    (simp_all add: ready_to_count_def update_budget_def note_request_tools_def set_current_model_def invalidate_baseline_def Let_def)

lemma charged_compression:
  assumes "charged env c" and "same_prices env e"
  shows "charged env (fst (snd (run_compression e ok now chat (c, L))))"
proof -
  obtain outcome c' L' where r: "run_compression e ok now chat (c, L) = (outcome, c', L')" by (metis prod_cases3)
  then show ?thesis
  proof (cases rule: run_compression_cases)
    case kept
    then show ?thesis using assms(1) r by (auto intro: charged_keep)
  next
    case (replaced ms c1)
    have "charged env c1" using replaced(7,8) same_prices_budget [OF assms(2)] by (simp add: charged_def)
    then have "charged env (reseed_system_row e c1)"
      by (auto simp: reseed_system_row_def intro: charged_version charged_first [OF _ assms(2)] split: option.splits)
    then show ?thesis using r replaced(6) by (auto simp: persist_compaction_def intro: charged_keep split: if_splits)
  qed
qed

lemma charged_appends: "appends e s s' \<Longrightarrow> same_prices env e \<Longrightarrow> charged env (fst s) \<Longrightarrow> charged env (fst s')"
proof (induction rule: appends.induct)
  case (append s s' ok now msg)
  then show ?case by (cases s') (simp add: append_row_def charged_push split: prod.splits)
next
  case (other s c L c')
  then show ?case using charged_keep [of env c c'] by simp
qed

lemma charged_step:
  assumes "tokenizer (ce_count_message env) (ce_count_media env)" and "charged env (fst s)" and "counts_with env p"
  shows "charged env (fst (ctx_step s p))"
proof (cases s)
  case (Pair c L)
  have c: "charged env c" using assms(2) Pair by simp
  note keep = charged_keep [OF c]
  show ?thesis
  proof (cases p)
    case (CMaybe e model tools ok now chat)
    have ready: "charged env (ready_to_count e model tools c)" by (rule charged_ready [OF c])
    then have "charged env (fst (snd (run_compression e ok now chat (ready_to_count e model tools c, L))))"
      using CMaybe assms(3) by (intro charged_compression) (simp_all add: counts_with_def)
    then show ?thesis using ready CMaybe Pair by (simp add: ctx_step_def maybe_compress_def Let_def)
  next
    case (CForce e model tools ok now chat)
    have "charged env ((ready_to_count e model tools c)\<lparr>cm_declined_at := None\<rparr>)"
      by (rule charged_keep [OF charged_ready [OF c]]) simp_all
    then have "charged env (fst (snd (run_compression e ok now chat ((ready_to_count e model tools c)\<lparr>cm_declined_at := None\<rparr>, L))))"
      using CForce assms(3) by (intro charged_compression) (simp_all add: counts_with_def)
    then show ?thesis using CForce Pair by (simp add: ctx_step_def force_compress_def)
  next
    case (CRestore e rows_ok anchor_ok fill_oks now)
    then show ?thesis using charged_restore [OF c] assms(3) Pair by (simp add: ctx_step_def counts_with_def)
  next
    case (CActual ok n)
    have "charged env (fst (record_call_actual ok n (c, L)))"
      by (rule keep) (simp_all add: record_call_actual_def Let_def)
    then show ?thesis using CActual Pair by (simp add: ctx_step_def)
  next
    case (CProgress e t)
    have "charged env (set_progress_observation e t c)"
      by (rule keep) (simp_all add: set_progress_observation_def update_budget_def Let_def)
    then show ?thesis using CProgress Pair by (simp add: ctx_step_def)
  next
    case (CWould e model tools)
    then show ?thesis using Pair charged_ready [OF c] by (simp add: ctx_step_def would_compress_def Let_def)
  next
    case (CSeed e oks now)
    then show ?thesis using charged_appends [OF appends_seed] assms(2,3) by (simp add: ctx_step_def counts_with_def)
  next
    case (CPrompt e ok now)
    then show ?thesis using charged_appends [OF appends_prompt] assms(2,3) by (simp add: ctx_step_def counts_with_def)
  next
    case (CSkills e ok now)
    then show ?thesis using charged_appends [OF appends_skills] assms(2,3) by (simp add: ctx_step_def counts_with_def)
  next
    case (CSlash e ok now)
    then show ?thesis using charged_appends [OF appends_slash] assms(2,3) by (simp add: ctx_step_def counts_with_def)
  next
    case (CAudio e audio)
    then show ?thesis using charged_audio [OF assms(1) c] assms(3) Pair by (simp add: ctx_step_def counts_with_def)
  qed (use Pair c assms(3) in \<open>auto simp: ctx_step_def counts_with_def append_row_def append_idempotent_def
      set_active_model_context_window_def refresh_task_reminder_def set_notification_cue_def update_budget_def take_prompt_anchors_def
      Let_def intro: keep charged_push split: prod.splits option.splits\<close>)
qed

lemma charged_run:
  assumes "tokenizer (ce_count_message env) (ce_count_media env)"
  shows "charged env (fst s) \<Longrightarrow> list_all (counts_with env) ops \<Longrightarrow> charged env (fst (foldl ctx_step s ops))"
  by (induction ops arbitrary: s) (simp_all add: charged_step [OF assms])

text \<open>C10: The running charges never drift. After any history whose operations count with one tokenizer, each message is
  charged exactly what a fresh count under the current delivery of audio gives it, so a count with no anchor from the
  provider is the sum over the transcript and the overhead of the request.\<close>

theorem charges_never_drift:
  assumes "tokenizer (ce_count_message env) (ce_count_media env)" and "list_all (counts_with env) ops"
    and "foldl ctx_step (from_config keep threshold max_active notice, log_new) ops = (c, L)"
  shows "cm_per_message c = map (message_budget_tokens env (cm_audio c)) (cm_messages c) \<and>
    count_tokens (invalidate_baseline c) =
      sum_list (map (message_cost env c) (cm_messages c)) + cm_request_overhead c + transient_tail_raw c"
proof -
  have "charged env (fst (from_config keep threshold max_active notice, log_new))" by (simp add: charged_def from_config_def)
  then have "charged env c" using charged_run [OF assms(1) _ assms(2)] assms(3) by (metis fst_conv)
  then show ?thesis
    by (simp add: charged_def count_tokens_def invalidate_baseline_def unanchored_request_tokens_def transient_tail_raw_def o_def)
qed

theorem charges_never_drift_witness:
  "count_tokens (invalidate_baseline (fst (foldl ctx_step (from_config 0 (1, 1) 0 None, log_new)
    [CAppend calm_env True 3 (user_row [TextBlock ''hi'']), CAudio calm_env AudioStub]))) = 0"
proof -
  define ops :: "(unit, unit, unit) ctx_op list"
    where "ops = [CAppend calm_env True 3 (user_row [TextBlock ''hi'']), CAudio calm_env AudioStub]"
  define c where "c = fst (foldl ctx_step (from_config 0 (1, 1) 0 None, log_new) ops)"
  have "list_all (counts_with calm_env) ops" by (simp add: ops_def counts_with_def same_prices_def)
  moreover have "foldl ctx_step (from_config 0 (1, 1) 0 None, log_new) ops =
      (c, snd (foldl ctx_step (from_config 0 (1, 1) 0 None, log_new) ops))" by (simp add: c_def)
  ultimately have "count_tokens (invalidate_baseline c) = cm_request_overhead c + transient_tail_raw c"
    using charges_never_drift [OF calm_tokenizer] by force
  moreover have "cm_request_overhead c = 0" "transient_tail_raw c = 0"
    by (simp_all add: c_def ops_def ctx_step_def append_row_def append_session_message_def push_message_def update_budget_def
        set_active_model_audio_delivery_def Let_def from_config_def transient_tail_raw_def)
  ultimately show ?thesis by (simp add: c_def ops_def)
qed

end
