(* ===== verification/TraceReplay.thy ===== *)
theory TraceReplay
  imports ContextRuns
begin

text \<open>
  What a trace keeps of a model call's input and how it is read back: \<open>LlmCallInputs\<close> of \<open>crates/trace/src/span.rs\<close>, the
  marker \<open>ContextManager\<close> builds for it and the hydration of \<open>crates/query/src/lib.rs\<close>, over the histories
  of \<open>ContextRuns\<close>.
\<close>

section \<open>Markers\<close>

datatype ('v, 'm) llm_call_inputs =
    InlineInputs "('v, 'm) chat_message list"
  | PersistedInputs nat nat "nat list" "('v, 'm) chat_message list"

text \<open>The loop of \<open>explicit_message_ordinals\<close>: each message takes the first row not used yet that equals it.\<close>

fun explicit_loop ::
    "bool list \<Rightarrow> ('v, 'm) active_message_row list \<Rightarrow> ('v, 'm) chat_message list \<Rightarrow> nat list option" where
  "explicit_loop used rs [] = Some []"
| "explicit_loop used rs (m # ms) =
     (case position_of (\<lambda>(u, r). \<not> u \<and> ar_message r = m) (zip used rs) of
        None \<Rightarrow> None
      | Some i \<Rightarrow> map_option ((#) (ar_ordinal (rs ! i))) (explicit_loop (used[i := True]) rs ms))"

definition explicit_message_ordinals ::
    "('v, 'm) chat_message list \<Rightarrow> ('v, 'm) active_message_row list \<Rightarrow> nat list option" where
  "explicit_message_ordinals ms rs =
     (if ms = [] then (if rs = [] then Some [] else None)
      else explicit_loop (replicate (length rs) False) rs ms)"

text \<open>Which of the four reads of the log succeed.\<close>

record store_reads =
  sr_latest :: bool
  sr_count :: bool
  sr_latest_again :: bool
  sr_rows :: bool

definition input_marker_with_suffix ::
    "store_reads \<Rightarrow> ('v, 'm) live \<Rightarrow> ('v, 'm) chat_message list \<Rightarrow> ('v, 'm) llm_call_inputs" where
  "input_marker_with_suffix reads s extra =
     (case s of (c, L) \<Rightarrow>
        let latest = (if sr_latest reads then latest_session_ordinal L else None);
            rows_counted = (if sr_count reads then Some (count_active_messages L) else None);
            latest_again = (if sr_latest_again reads then latest_session_ordinal L else None);
            explicit = (if sr_rows reads
              then explicit_message_ordinals (cm_messages c) (load_active_session_message_rows L) else None)
        in if latest \<noteq> None \<and> rows_counted = Some (length (cm_messages c)) \<and> \<not> cm_diverged c
           then PersistedInputs (the latest) (length (cm_messages c)) [] extra
           else
             (case (latest_again, explicit) of
                (Some last', Some ordinals) \<Rightarrow> PersistedInputs last' (length ordinals) ordinals extra
              | _ \<Rightarrow> InlineInputs (cm_messages c @ extra)))"

definition build_call_input_marker :: "store_reads \<Rightarrow> ('v, 'm) live \<Rightarrow> ('v, 'm) llm_call_inputs" where
  "build_call_input_marker reads s =
     input_marker_with_suffix reads s (opt_list (active_notification_cue (cm_tail (fst s)) (cm_messages (fst s))))"

section \<open>Hydration\<close>

text \<open>The rows active as of an ordinal.\<close>

definition active_as_of :: "nat \<Rightarrow> ('v, 'm) stored_message list \<Rightarrow> ('v, 'm) stored_message list" where
  "active_as_of n rs =
     filter (\<lambda>r. sm_ordinal r \<le> n \<and> (case sm_superseded_by r of None \<Rightarrow> True | Some s \<Rightarrow> n < s)) rs"

definition reconstruction_warning :: "nat \<Rightarrow> nat \<Rightarrow> ('v, 'm) chat_message" where
  "reconstruction_warning expected reconstructed =
     system_row [TextBlock
       ([CHR 0xE2, CHR 0x9A, CHR 0xA0, CHR 0xEF, CHR 0xB8, CHR 0x8F]
        @ '' trace reconstruction inconsistent: expected '' @ decimal expected
        @ '' prefix message(s) from session_messages, reconstructed '' @ decimal reconstructed
        @ ''. The log drifted under this span'' @ [CHR 0x27] @ ''s ordinal reference '' @ em_dash
        @ '' the input shown may be incomplete or wrong.'')]"

text \<open>The loop over explicit ordinals: what it selects and whether the projection failed.\<close>

fun select_rows ::
    "nat set \<Rightarrow> ('v, 'm) stored_message list \<Rightarrow> nat list \<Rightarrow> ('v, 'm) chat_message list \<times> bool" where
  "select_rows seen candidates [] = ([], False)"
| "select_rows seen candidates (n # ns) =
     (if n \<in> seen then (fst (select_rows seen candidates ns), True)
      else
        (case find (\<lambda>r. sm_ordinal r = n) candidates of
           Some r \<Rightarrow> apfst ((#) (sm_message r)) (select_rows (insert n seen) candidates ns)
         | None \<Rightarrow> (fst (select_rows (insert n seen) candidates ns), True)))"

definition hydrate :: "('v, 'm) session_log \<Rightarrow> int \<Rightarrow> ('v, 'm) llm_call_inputs \<Rightarrow> ('v, 'm) chat_message list" where
  "hydrate L started marker =
     (case marker of
        InlineInputs ms \<Rightarrow> ms
      | PersistedInputs last' expected ordinals extra \<Rightarrow>
          let candidates = active_as_of last' (load_session_messages_with_supersede L)
          in if list_ex (\<lambda>r. started < sm_created_at r) candidates then []
             else
               let (active, mismatch) =
                     (if ordinals = [] then (map sm_message candidates, False) else select_rows {} candidates ordinals)
               in (if length active \<noteq> expected \<or> mismatch then reconstruction_warning expected (length active) # active
                   else active) @ extra)"

section \<open>Looking back\<close>

text \<open>Later writes do not change which rows were active as of an ordinal the log had reached, nor what they say.\<close>

definition row_view :: "('v, 'm) stored_message \<Rightarrow> nat \<times> int \<times> ('v, 'm) chat_message" where
  "row_view r = (sm_ordinal r, sm_created_at r, sm_message r)"

lemma row_view_supersede [simp]: "row_view (supersede n r) = row_view r"
  by (simp add: row_view_def)

lemma active_as_of_append [simp]: "active_as_of n (rs @ qs) = active_as_of n rs @ active_as_of n qs"
  by (simp add: active_as_of_def)

lemma active_as_of_later: "list_all (\<lambda>r. n < sm_ordinal r) rs \<Longrightarrow> active_as_of n rs = []"
  by (auto simp: active_as_of_def list_all_iff filter_empty_conv)

lemma active_view_step:
  assumes "counted L" and "n < length (rows L)"
  shows "map row_view (active_as_of n (rows (log_step L p))) = map row_view (active_as_of n (rows L))"
proof (cases p)
  case (LAppend now msg)
  then show ?thesis using assms by (simp add: log_step_def append_shape counted_next active_as_of_later)
next
  case (LAppendOnce now event msg)
  then show ?thesis
    using assms append_once_shape [of now event msg L]
    by (auto simp: log_step_def counted_next active_as_of_later)
next
  case (LCompact now msgs)
  let ?k = "length (rows L)"
  have "active_as_of n (map (supersede ?k) (rows L)) = map (supersede ?k) (active_as_of n (rows L))"
    using assms(2) by (auto simp: active_as_of_def filter_map o_def supersede_def intro!: arg_cong [of _ _ "map _"] filter_cong
        split: option.splits)
  moreover have "active_as_of n (inserted_rows ?k now msgs) = []"
    using assms(2) inserted_rows_fields by (fastforce simp: list_all_iff intro!: active_as_of_later)
  ultimately show ?thesis using LCompact assms(1) by (simp add: log_step_def compact_shape counted_next)
next
  case (LAnchor model tokens k overhead)
  then show ?thesis by (simp add: log_step_def anchor_shape)
qed

lemma length_rows_step: "length (rows L) \<le> length (rows (log_step L p))"
proof (cases p)
  case (LAppendOnce now event msg)
  then show ?thesis using append_once_shape [of now event msg L] by (auto simp: log_step_def)
qed (simp_all add: log_step_def append_shape compact_shape anchor_shape)

lemma active_view_run:
  "counted L \<Longrightarrow> n < length (rows L) \<Longrightarrow>
     map row_view (active_as_of n (rows (log_run L ps))) = map row_view (active_as_of n (rows L))"
proof (induction ps arbitrary: L)
  case (Cons p ps)
  then show ?case
    using counted_step [of L p] length_rows_step [of L p] active_view_step [of L n p] by simp
qed simp

lemma active_now:
  assumes "log_ok L" and "latest_session_ordinal L = Some n"
  shows "active_as_of n (rows L) = filter (\<lambda>r. sm_superseded_by r = None) (rows L)" and "Suc n = length (rows L)"
proof -
  show len: "Suc n = length (rows L)"
    using assms by (auto simp: log_ok_def counted_latest split: nat.splits)
  have of_row: "row_ok (Suc n) r \<and> sm_ordinal r \<le> n" if "r \<in> set (rows L)" for r
    using assms(1) that len counted_less [of L r] by (auto simp: log_ok_def list_all_iff)
  have "(sm_ordinal r \<le> n \<and> (case sm_superseded_by r of None \<Rightarrow> True | Some k \<Rightarrow> n < k)) = (sm_superseded_by r = None)"
    if "r \<in> set (rows L)" for r
    using of_row [OF that] by (auto simp: row_ok_def split: option.splits)
  then show "active_as_of n (rows L) = filter (\<lambda>r. sm_superseded_by r = None) (rows L)"
    unfolding active_as_of_def by (intro filter_cong) simp_all
qed

section \<open>Replaying\<close>

lemma position_of_hit: "position_of P xs = Some i \<Longrightarrow> i < length xs \<and> P (xs ! i)"
  by (induction xs arbitrary: i) (auto split: if_splits)

lemma explicit_length: "explicit_loop used rs ms = Some ns \<Longrightarrow> length ns = length ms"
  by (induction ms arbitrary: used ns) (auto split: option.splits)

lemma explicit_selects:
  assumes "distinct (map ar_ordinal rs)"
    and "\<And>r. r \<in> set rs \<Longrightarrow> map_option sm_message (find (\<lambda>q. sm_ordinal q = ar_ordinal r) qs) = Some (ar_message r)"
  shows "explicit_loop used rs ms = Some ns \<Longrightarrow> length used = length rs \<Longrightarrow>
    seen \<subseteq> {ar_ordinal (rs ! j) | j. j < length rs \<and> used ! j} \<Longrightarrow> select_rows seen qs ns = (ms, False)"
proof (induction ms arbitrary: used ns seen)
  case (Cons m ms)
  obtain i ns' where i: "position_of (\<lambda>(u, r). \<not> u \<and> ar_message r = m) (zip used rs) = Some i"
      "explicit_loop (used[i := True]) rs ms = Some ns'" "ns = ar_ordinal (rs ! i) # ns'"
    using Cons.prems(1) by (auto split: option.splits)
  have hit: "i < length rs" "\<not> used ! i" "ar_message (rs ! i) = m"
    using position_of_hit [OF i(1)] Cons.prems(2) by auto
  have "ar_ordinal (rs ! i) \<noteq> ar_ordinal (rs ! j)" if "j < length rs" "used ! j" for j
    using that hit(1,2) nth_eq_iff_index_eq [OF assms(1), of i j] by auto
  then have fresh: "ar_ordinal (rs ! i) \<notin> seen" using Cons.prems(3) by blast
  obtain q where "find (\<lambda>q. sm_ordinal q = ar_ordinal (rs ! i)) qs = Some q" "sm_message q = m"
    using assms(2) [of "rs ! i"] hit by auto
  moreover have "insert (ar_ordinal (rs ! i)) seen \<subseteq> {ar_ordinal (rs ! j) | j. j < length rs \<and> used[i := True] ! j}"
    using Cons.prems(2,3) hit(1) by (auto simp: nth_list_update)
  ultimately show ?case using fresh i(3) Cons.IH [OF i(2)] Cons.prems(2) by simp
qed simp

lemma find_view:
  "map row_view qs = map row_view as \<Longrightarrow>
     map_option row_view (find (\<lambda>q. sm_ordinal q = k) qs) = map_option row_view (find (\<lambda>q. sm_ordinal q = k) as)"
proof (induction as arbitrary: qs)
  case (Cons a as)
  obtain q qs' where qs: "qs = q # qs'" "row_view q = row_view a" "map row_view qs' = map row_view as"
    using Cons.prems by (cases qs) simp_all
  moreover have "sm_ordinal q = sm_ordinal a" using qs(2) by (simp add: row_view_def)
  ultimately show ?case using Cons.IH [OF qs(3)] by simp
qed simp

lemma find_only: "distinct (map f as) \<Longrightarrow> a \<in> set as \<Longrightarrow> find (\<lambda>q. f q = f a) as = Some a"
  by (induction as) auto

abbreviation active_stored :: "('v, 'm) session_log \<Rightarrow> ('v, 'm) stored_message list" where
  "active_stored L \<equiv> filter (\<lambda>r. sm_superseded_by r = None) (rows L)"

lemma candidates_then:
  assumes "log_ok L" and "latest_session_ordinal L = Some n"
  shows "map row_view (active_as_of n (load_session_messages_with_supersede (log_run L ps))) = map row_view (active_stored L)"
proof -
  have "counted L" using assms(1) by (simp add: log_ok_def)
  then show ?thesis
    using active_view_run [of L n ps] active_now [OF assms] counted_run [of L ps]
    by (simp add: load_session_messages_with_supersede_def)
qed

text \<open>A reference written over a log whose rows are no younger than the call is read back over any later log.\<close>

lemma hydrate_persisted:
  assumes log: "log_ok L" and latest: "latest_session_ordinal L = Some n"
    and time: "list_all (\<lambda>r. sm_created_at r \<le> started) (rows L)"
    and sel: "ns = [] \<and> ms = active_messages L \<or>
      ms \<noteq> [] \<and> explicit_message_ordinals ms (load_active_session_message_rows L) = Some ns"
  shows "hydrate (log_run L ps) started (PersistedInputs n (length ms) ns extra) = ms @ extra"
proof -
  define qs where "qs = active_as_of n (load_session_messages_with_supersede (log_run L ps))"
  have view: "map row_view qs = map row_view (active_stored L)" unfolding qs_def by (rule candidates_then [OF log latest])
  have on_time: "\<not> list_ex (\<lambda>r. started < sm_created_at r) qs"
  proof
    assume "list_ex (\<lambda>r. started < sm_created_at r) qs"
    then obtain q where "q \<in> set qs" "started < sm_created_at q" by (auto simp: list_ex_iff)
    then have "row_view q \<in> set (map row_view (active_stored L))" using view by (metis image_eqI list.set_map)
    then show False using time \<open>started < sm_created_at q\<close> by (auto simp: row_view_def list_all_iff)
  qed
  have "map (snd \<circ> snd) (map row_view qs) = map (snd \<circ> snd) (map row_view (active_stored L))" using view by simp
  then have messages: "map sm_message qs = active_messages L" by (simp add: row_view_def active_messages_def o_def)
  show ?thesis
  proof (cases "ns = []")
    case True
    have "ms = active_messages L"
      using sel True explicit_length
        [of "replicate (length (load_active_session_message_rows L)) False" "load_active_session_message_rows L" ms ns]
      by (auto simp: explicit_message_ordinals_def)
    moreover have "length qs = length ms" using messages calculation by (metis length_map)
    ultimately show ?thesis
      unfolding hydrate_def using True on_time messages by (simp add: qs_def [symmetric] Let_def)
  next
    case False
    let ?rs = "load_active_session_message_rows L"
    have counted: "counted L" using log by (simp add: log_ok_def)
    have rs: "?rs = map (\<lambda>r. \<lparr>ar_ordinal = sm_ordinal r, ar_message = sm_message r\<rparr>) (active_stored L)"
      using counted by (simp add: load_active_session_message_rows_def)
    have "distinct (map sm_ordinal (rows L))" using counted by (simp add: counted_def)
    then have distinct: "distinct (map sm_ordinal (active_stored L))" by (rule distinct_map_filter)
    have loop: "explicit_loop (replicate (length ?rs) False) ?rs ms = Some ns"
      using sel False by (auto simp: explicit_message_ordinals_def split: if_splits)
    have "map_option sm_message (find (\<lambda>q. sm_ordinal q = ar_ordinal r) qs) = Some (ar_message r)" if r: "r \<in> set ?rs" for r
    proof -
      obtain a where a: "a \<in> set (active_stored L)" "ar_ordinal r = sm_ordinal a" "ar_message r = sm_message a"
        using r unfolding rs by auto
      have "map_option row_view (find (\<lambda>q. sm_ordinal q = sm_ordinal a) qs) = Some (row_view a)"
        using find_view [OF view, of "sm_ordinal a"] find_only [OF distinct a(1)] by simp
      then show ?thesis using a(2,3) by (auto simp: row_view_def)
    qed
    then have "select_rows {} qs ns = (ms, False)"
      using explicit_selects [OF _ _ loop, of qs "{}"] distinct rs by (simp add: o_def)
    then show ?thesis
      unfolding hydrate_def using False on_time by (simp add: qs_def [symmetric] Let_def)
  qed
qed

lemma latest_active: "latest_session_ordinal L = None \<Longrightarrow> active_messages L = []"
  by (simp add: latest_session_ordinal_def active_messages_def split: if_splits)

lemma marker_cases:
  obtains (compact) n where "latest_session_ordinal L = Some n" "count_active_messages L = length (cm_messages c)"
      "\<not> cm_diverged c"
      "input_marker_with_suffix reads (c, L) extra = PersistedInputs n (length (cm_messages c)) [] extra"
  | (ordinals) n ns where "latest_session_ordinal L = Some n"
      "explicit_message_ordinals (cm_messages c) (load_active_session_message_rows L) = Some ns"
      "input_marker_with_suffix reads (c, L) extra = PersistedInputs n (length ns) ns extra"
  | (inline) "input_marker_with_suffix reads (c, L) extra = InlineInputs (cm_messages c @ extra)"
proof (cases "sr_latest reads \<and> latest_session_ordinal L \<noteq> None \<and> sr_count reads \<and>
    count_active_messages L = length (cm_messages c) \<and> \<not> cm_diverged c")
  case True
  then obtain n where "latest_session_ordinal L = Some n" by blast
  then show thesis using True compact [of n] by (simp add: input_marker_with_suffix_def)
next
  case False
  show thesis
  proof (cases "sr_latest_again reads \<and> sr_rows reads \<and> latest_session_ordinal L \<noteq> None \<and>
      explicit_message_ordinals (cm_messages c) (load_active_session_message_rows L) \<noteq> None")
    case True
    then obtain n ns where *: "latest_session_ordinal L = Some n"
        "explicit_message_ordinals (cm_messages c) (load_active_session_message_rows L) = Some ns"
      by blast
    show thesis by (rule ordinals [OF *]) (use False True * in \<open>auto simp: input_marker_with_suffix_def\<close>)
  next
    case without: False
    show thesis
      by (rule inline) (use False without in \<open>auto simp: input_marker_with_suffix_def Let_def split: option.splits\<close>)
  qed
qed

lemma replay_shows:
  assumes "mirrors (c, L)" and time: "list_all (\<lambda>r. sm_created_at r \<le> started) (rows L)"
  shows "hydrate (log_run L ps) started (input_marker_with_suffix reads (c, L) extra) = cm_messages c @ extra"
proof -
  have log: "log_ok L" using assms(1) by (simp add: mirrors_def)
  have counted: "counted L" using log by (simp add: log_ok_def)
  have count: "count_active_messages L = length (active_messages L)"
    by (simp add: count_active_messages_def active_messages_def)
  from marker_cases [of L c reads extra] show ?thesis
  proof cases
    case (compact n)
    have "subseq (cm_messages c) (active_messages L)" using assms(1) compact(3) by (simp add: mirrors_def)
    then have "cm_messages c = active_messages L" using compact(2) count subseq_same_length by metis
    then show ?thesis using hydrate_persisted [OF log compact(1) time] compact(4) by simp
  next
    case (ordinals n ns)
    have len: "length ns = length (cm_messages c)"
      using ordinals(2) explicit_length by (fastforce simp: explicit_message_ordinals_def split: if_splits)
    have "ns = [] \<and> cm_messages c = active_messages L \<or>
        cm_messages c \<noteq> [] \<and> explicit_message_ordinals (cm_messages c) (load_active_session_message_rows L) = Some ns"
      using ordinals(2) active_rows [OF counted]
      by (auto simp: explicit_message_ordinals_def active_messages_def split: if_splits)
    then show ?thesis using hydrate_persisted [OF log ordinals(1) time] ordinals(3) len by metis
  next
    case inline
    then show ?thesis by (simp add: hydrate_def)
  qed
qed

text \<open>C5: A trace shows the transcript a call was made with. Whatever happened to a manager and its log - appends, failed
  writes, repairs at a restore, compactions that were or were not written, rows of other writers - and whichever reads
  failed while the marker was built, reading the marker back over the log of any later time gives the messages the
  manager held and the cue, with no warning, provided no row of the log was younger than the call.\<close>

theorem replay_shows_the_recorded_input:
  assumes "foldl ctx_step (from_config keep threshold max_active notice, log_new) ops = (c, L)"
    and "list_all (\<lambda>r. sm_created_at r \<le> started) (rows L)"
  shows "hydrate (log_run L ps) started (build_call_input_marker reads (c, L)) =
    cm_messages c @ opt_list (active_notification_cue (cm_tail c) (cm_messages c))"
  using replay_shows [OF mirrors_run [OF mirrors_start, of keep threshold max_active notice ops, unfolded assms(1)] assms(2)]
  by (simp add: build_call_input_marker_def)

theorem replay_shows_the_recorded_input_witness:
  "hydrate (log_run (snd (append_session_message 3 (user_row [TextBlock ''hi'']) log_new)) [LCompact 9 [tool_row []]]) 4
    (build_call_input_marker \<lparr>sr_latest = True, sr_count = True, sr_latest_again = True, sr_rows = True\<rparr>
      (push_message calm_env (user_row [TextBlock ''hi'']) (from_config 0 (1, 1) 0 None),
       snd (append_session_message 3 (user_row [TextBlock ''hi'']) log_new))) = [user_row [TextBlock ''hi'']]"
proof -
  let ?m = "user_row [TextBlock ''hi''] :: (unit, unit) chat_message"
  let ?c = "push_message calm_env ?m (from_config 0 (1, 1) 0 None)" and ?L = "snd (append_session_message 3 ?m log_new)"
  have run: "foldl ctx_step (from_config 0 (1, 1) 0 None, log_new) [CAppend calm_env True 3 ?m] = (?c, ?L)"
    by (simp add: ctx_step_def append_row_def append_session_message_def)
  have time: "list_all (\<lambda>r. sm_created_at r \<le> 4) (rows ?L)" by (simp add: append_shape log_new_def)
  have "cm_messages ?c = [?m]" by (simp add: from_config_def)
  moreover have "active_notification_cue (cm_tail ?c) [?m] = None"
    by (simp add: active_notification_cue_def push_message_def update_budget_def from_config_def split: list.splits)
  ultimately show ?thesis
    using replay_shows_the_recorded_input [OF run time, of "[LCompact 9 [tool_row []]]"] by (simp add: opt_list_def)
qed

end
