(* ===== verification/NoticesTold.thy ===== *)
theory NoticesTold
  imports ContextRuns
begin

text \<open>
  What a transcript says of its skills and of its system prompt, over histories of a manager: the newest notice on top of
  what was seeded is always what is true when reconciling has returned.
\<close>

section \<open>Skills\<close>

text \<open>The listing a reader of the transcript holds.\<close>

definition held_listing :: "(string \<Rightarrow> string \<Rightarrow> string) \<Rightarrow> ('v, 'm) chat_message list \<Rightarrow> string" where
  "held_listing patch ms = told_listing patch (seeded_skill_listing ms) (newest_skills_update_text ms)"

text \<open>
  Rows that say something of the skills are written by the manager alone; a session is seeded before it is appended to;
  every diff can be applied.
\<close>

definition says_nothing_of_skills :: "('v, 'm) chat_message \<Rightarrow> bool" where
  "says_nothing_of_skills m \<longleftrightarrow> source m \<notin> {SrcSkillListing, SrcSkillsUpdate}"

definition skills_op ::
    "(string \<Rightarrow> string \<Rightarrow> string) \<Rightarrow> ('v, 'm) context_manager \<Rightarrow> ('v, 'm, 's) ctx_op \<Rightarrow> bool" where
  "skills_op patch c p =
     (case p of
        CAppend _ _ _ msg \<Rightarrow> says_nothing_of_skills msg
      | CAppendOnce _ _ _ _ msg \<Rightarrow> says_nothing_of_skills msg
      | CSeed _ _ _ \<Rightarrow> cm_messages c = [] \<or> role (hd (cm_messages c)) = RoleSystem
      | CSkills env _ _ \<Rightarrow> applies (ce_line_diff env) patch
      | _ \<Rightarrow> True)"

fun skills_history ::
    "(string \<Rightarrow> string \<Rightarrow> string) \<Rightarrow> ('v, 'm) live \<Rightarrow> ('v, 'm, 's) ctx_op list \<Rightarrow> bool" where
  "skills_history patch s [] = True"
| "skills_history patch s (p # ps) = (skills_op patch (fst s) p \<and> skills_history patch (ctx_step s p) ps)"

text \<open>A version, where there is one, is the listing the transcript holds.\<close>

definition version_true :: "(string \<Rightarrow> string \<Rightarrow> string) \<Rightarrow> ('v, 'm) context_manager \<Rightarrow> bool" where
  "version_true patch c \<longleftrightarrow>
     (\<forall>v \<in> set_option (cm_skills_version c). cm_messages c \<noteq> [] \<and> held_listing patch (cm_messages c) = v)"

lemma held_append:
  "says_nothing_of_skills m \<Longrightarrow> held_listing patch (ms @ [m]) = held_listing patch ms"
  by (simp add: held_listing_def seeded_skill_listing_def newest_skills_update_text_def says_nothing_of_skills_def)

lemma held_listing_row:
  "newest_skills_update_text ms = None \<Longrightarrow>
     held_listing patch (ms @ [skill_listing [TextBlock (render_skill_reminder one_line ss)]]) = render_skill_listing one_line ss"
  by (simp add: held_listing_def seeded_skill_listing_def newest_skills_update_text_def skill_listing_def told_listing_def)

lemma held_update_row:
  "held_listing patch (ms @ [skills_update_row [TextBlock t]]) = told_listing patch (seeded_skill_listing ms) (Some t)"
  by (simp add: held_listing_def seeded_skill_listing_def newest_skills_update_text_def skills_update_row_def block_text_def
      List.map_filter_def)

lemma version_kept:
  "version_true patch c \<Longrightarrow> cm_messages c' = cm_messages c \<Longrightarrow> cm_skills_version c' = cm_skills_version c \<Longrightarrow> version_true patch c'"
  by (simp add: version_true_def)

lemma version_unknown: "cm_skills_version c = None \<Longrightarrow> version_true patch c"
  by (simp add: version_true_def)

lemma push_version [simp]: "cm_skills_version (push_message env msg c) = cm_skills_version c"
  by (simp add: push_message_def update_budget_def)

lemma version_push: "version_true patch c \<Longrightarrow> says_nothing_of_skills m \<Longrightarrow> version_true patch (push_message env m c)"
  by (simp add: version_true_def held_append)

lemma append_row_shape:
  "append_row env ok now msg (c, L) = (n, c', L') \<Longrightarrow> n \<noteq> None \<and> c' = push_message env msg c \<or> n = None \<and> c' = c"
  by (auto simp: append_row_def split: if_splits prod.splits)

lemma version_append:
  "version_true patch c \<Longrightarrow> says_nothing_of_skills m \<Longrightarrow> append_row env ok now m (c, L) = (n, c', L') \<Longrightarrow> version_true patch c'"
  using append_row_shape version_push by metis

lemma version_append_some:
  assumes "version_true patch c" and "\<And>m. row = Some m \<Longrightarrow> says_nothing_of_skills m"
    and "append_some env ok now row (c, L) = (b, c', L')"
  shows "version_true patch c'"
proof (cases row)
  case (Some m)
  obtain n c1 L1 where r: "append_row env ok now m (c, L) = (n, c1, L1)" by (metis prod_cases3)
  then have "c' = c1" using assms(3) Some by (auto simp: append_some_def)
  then show ?thesis using version_append [OF assms(1) assms(2) [OF Some] r] by simp
qed (use assms in \<open>auto simp: append_some_def\<close>)

lemma leads_not_empty: "leads_with_system_text ms \<Longrightarrow> ms \<noteq> []"
  by (auto simp: leads_with_system_text_def)

lemma reconcile_skills_told:
  assumes "version_true patch c" and "applies (ce_line_diff env) patch"
    and "reconcile_skills env ok now (c, L) = (b, c', L')"
  shows "version_true patch c' \<and>
    (b \<and> leads_with_system_text (cm_messages c) \<longrightarrow>
      held_listing patch (cm_messages c') = render_skill_listing (ce_one_line env) (invocable_skill_summaries env))"
proof (cases "leads_with_system_text (cm_messages c)")
  case True
  define listing where "listing = render_skill_listing (ce_one_line env) (invocable_skill_summaries env)"
  define told where "told = newest_skills_update_text (cm_messages c)"
  define seeded where "seeded = seeded_skill_listing (cm_messages c)"
  have some: "cm_messages c \<noteq> []" using True by (rule leads_not_empty)
  have set: "version_true patch (d\<lparr>cm_skills_version := Some listing\<rparr>)"
    if "cm_messages d \<noteq> []" "held_listing patch (cm_messages d) = listing" for d :: "('a, 'b) context_manager"
    using that by (simp add: version_true_def)
  show ?thesis
  proof (cases "cm_skills_version c = Some listing")
    case True
    then show ?thesis
      using assms(1,3) \<open>leads_with_system_text (cm_messages c)\<close>
      by (auto simp: reconcile_skills_def listing_def version_true_def)
  next
    case moved: False
    show ?thesis
    proof (cases "skills_wrap_update (ce_line_diff env) seeded listing (told \<noteq> None)")
      case None
      have "held_listing patch (cm_messages c) = listing"
        using told_nothing [OF assms(2) None] by (simp add: held_listing_def told_listing_def seeded_def told_def)
      moreover have "b" "c' = c\<lparr>cm_skills_version := Some listing\<rparr>"
        using assms(3) True moved None by (auto simp: reconcile_skills_def Let_def listing_def seeded_def told_def)
      ultimately show ?thesis using set [OF some] by (simp add: listing_def)
    next
      case (Some update)
      have new: "told_listing patch seeded (Some update) = listing" by (rule told_update [OF assms(2) Some])
      show ?thesis
      proof (cases "told = Some update")
        case same: True
        have "held_listing patch (cm_messages c) = listing"
          using new same by (simp add: held_listing_def seeded_def told_def)
        moreover have "b" "c' = c\<lparr>cm_skills_version := Some listing\<rparr>"
          using assms(3) True moved Some same by (auto simp: reconcile_skills_def Let_def listing_def seeded_def told_def)
        ultimately show ?thesis using set [OF some] by (simp add: listing_def)
      next
        case differs: False
        obtain n c1 L1 where r: "append_row env ok now (skills_update_row [TextBlock update]) (c, L) = (n, c1, L1)"
          by (metis prod_cases3)
        then have out: "b = (n \<noteq> None)" "c' = (if n = None then c1 else c1\<lparr>cm_skills_version := Some listing\<rparr>)"
          using assms(3) True moved Some differs
          by (auto simp: reconcile_skills_def Let_def listing_def [symmetric] seeded_def [symmetric] told_def [symmetric]
              split: option.splits)
        have "held_listing patch (cm_messages (push_message env (skills_update_row [TextBlock update]) c)) = listing"
          using new by (simp add: held_update_row seeded_def)
        then show ?thesis
          using append_row_shape [OF r] out set [of c1] assms(1) by (auto simp: listing_def)
      qed
    qed
  qed
qed (use assms in \<open>auto simp: reconcile_skills_def\<close>)

lemma rows_say_nothing [simp]:
  "says_nothing_of_skills (seed_prompt_row env)" "says_nothing_of_skills (system_prompt_update_row bs)"
  "says_nothing_of_skills (deferred_tool_listing bs)" "says_nothing_of_skills (agent_context bs)"
  by (simp_all add: says_nothing_of_skills_def seed_prompt_row_def system_row_def system_prompt_update_row_def
      deferred_tool_listing_def agent_context_def)

text \<open>What reconciling the prompt comes to.\<close>

lemma reconcile_prompt_cases:
  assumes "reconcile_system_prompt env ok now (c, L) = (b, c', L')"
  obtains (idle) "b" "c' = c" "L' = L"
      "\<not> leads_with_system_text (cm_messages c) \<or> cm_prompt_version c = Some (ce_version env) \<or> ce_prompt env = None"
  | (agrees) parts blocks where "b" "L' = L" "c' = c\<lparr>cm_prompt_version := Some (ce_version_after env)\<rparr>"
      "leads_with_system_text (cm_messages c)" "ce_prompt env = Some parts"
      "blocks = build_blocks (ce_line_diff env) parts (leading_system_text (cm_messages c))
        (self_written_sections env (cm_messages c))"
      "(blocks = [] \<and> newest_prompt_update_text (cm_messages c) = None) \<or>
        newest_prompt_update_text (cm_messages c) = Some (prompt_wrap_update blocks)"
  | (refused) "\<not> b" "c' = c"
  | (told) parts blocks where "b" "leads_with_system_text (cm_messages c)" "ce_prompt env = Some parts"
      "c' = (push_message env (system_prompt_update_row [TextBlock (prompt_wrap_update blocks)]) c)
        \<lparr>cm_prompt_version := Some (ce_version_after env)\<rparr>"
      "blocks = build_blocks (ce_line_diff env) parts (leading_system_text (cm_messages c))
        (self_written_sections env (cm_messages c))"
proof (cases "\<not> leads_with_system_text (cm_messages c) \<or> cm_prompt_version c = Some (ce_version env) \<or> ce_prompt env = None")
  case True
  then show thesis using assms by (intro idle) (auto simp: reconcile_system_prompt_def split: option.splits if_splits)
next
  case False
  then obtain parts where parts: "ce_prompt env = Some parts" by blast
  define blocks where "blocks = build_blocks (ce_line_diff env) parts (leading_system_text (cm_messages c))
    (self_written_sections env (cm_messages c))"
  define told where "told = newest_prompt_update_text (cm_messages c)"
  note defs = reconcile_system_prompt_def Let_def blocks_def [symmetric] told_def [symmetric]
  show thesis
  proof (cases "(blocks = [] \<and> told = None) \<or> told = Some (prompt_wrap_update blocks)")
    case True
    show thesis by (rule agrees [OF _ _ _ _ parts blocks_def]) (use assms False parts True in \<open>auto simp: defs\<close>)
  next
    case differs: False
    obtain n c1 L1 where
      r: "append_row env ok now (system_prompt_update_row [TextBlock (prompt_wrap_update blocks)]) (c, L) = (n, c1, L1)"
      by (metis prod_cases3)
    have out: "b = (n \<noteq> None)" "c' = (if n = None then c1 else c1\<lparr>cm_prompt_version := Some (ce_version_after env)\<rparr>)"
      using assms False parts differs r by (auto simp: defs split: option.splits)
    show thesis
    proof (cases n)
      case None
      then show thesis using out append_row_shape [OF r] by (intro refused) simp_all
    next
      case (Some k)
      then show thesis using out append_row_shape [OF r] False parts by (intro told [OF _ _ parts _ blocks_def]) simp_all
    qed
  qed
qed

lemma reconcile_prompt_version:
  assumes "version_true patch c" and "reconcile_system_prompt env ok now (c, L) = (b, c', L')"
  shows "version_true patch c'"
  using assms(2)
proof (cases rule: reconcile_prompt_cases)
  case (told parts blocks)
  then show ?thesis using version_kept [OF version_push [OF assms(1) rows_say_nothing(2)]] by simp
qed (use assms(1) version_kept [OF assms(1)] in simp_all)

lemma slash_version:
  assumes "version_true patch c" and "expand_slash_command env ok now (c, L) = (b, c', L')"
  shows "version_true patch c'"
proof (cases "slash_expansion_message env c")
  case (Some x)
  then obtain name bs where "slash_expansion_message env c = Some (name, agent_context bs)"
    by (auto simp: slash_expansion_message_def split: if_splits option.splits)
  then show ?thesis
    using assms version_append [OF assms(1) rows_say_nothing(4), of env ok now bs L]
    by (auto simp: expand_slash_command_def version_true_def split: option.splits prod.splits)
qed (use assms in \<open>auto simp: expand_slash_command_def\<close>)

lemma append_some_shape:
  assumes "append_some env ok now row (c, L) = (b, c', L')"
  shows "b \<and> cm_messages c' = cm_messages c @ (case row of None \<Rightarrow> [] | Some m \<Rightarrow> [m]) \<and>
      cm_skills_version c' = cm_skills_version c \<or> \<not> b \<and> c' = c"
proof (cases row)
  case (Some m)
  obtain n c1 L1 where r: "append_row env ok now m (c, L) = (n, c1, L1)" by (metis prod_cases3)
  then have "b = (n \<noteq> None)" "c' = c1" using assms Some by (auto simp: append_some_def)
  then show ?thesis using append_row_shape [OF r] Some by auto
qed (use assms in \<open>auto simp: append_some_def\<close>)

lemma seed_version:
  assumes "version_true patch c" and "cm_messages c = [] \<or> role (hd (cm_messages c)) = RoleSystem"
    and "ensure_seeded env (ok1, ok2, ok3) now (c, L) = (b, c', L')"
  shows "version_true patch c'"
proof (cases "cm_messages c = []")
  case True
  let ?skills = "invocable_skill_summaries env"
  let ?listing = "render_skill_listing (ce_one_line env) ?skills"
  have none: "cm_skills_version c = None"
    using assms(1) True by (cases "cm_skills_version c") (simp_all add: version_true_def)
  obtain n c1 L1 where r: "append_row env ok1 now (seed_prompt_row env) (c, L) = (n, c1, L1)" by (metis prod_cases3)
  show ?thesis
  proof (cases n)
    case None
    then show ?thesis using assms(3) True r append_row_shape [OF r] assms(1) by (simp add: ensure_seeded_def)
  next
    case (Some k)
    let ?c2 = "stamp_prompt env c1"
    have c1: "c1 = push_message env (seed_prompt_row env) c" using append_row_shape [OF r] Some by simp
    have c2: "cm_messages ?c2 = [seed_prompt_row env]" "cm_skills_version ?c2 = None" using c1 True none by simp_all
    have notices: "seed_notices env ok2 ok3 now (?c2, L1) = (b, c', L')"
      using assms(3) True r Some by (simp add: ensure_seeded_def)
    define row2 where "row2 = (if ?skills = [] then None
      else Some (skill_listing [TextBlock (render_skill_reminder (ce_one_line env) ?skills)] :: ('a, 'b) chat_message))"
    define row3 where "row3 = map_option (\<lambda>t. deferred_tool_listing [TextBlock t] :: ('a, 'b) chat_message) (cm_deferred_notice ?c2)"
    obtain b3 c3 L3 where r3: "append_some env ok2 now row2 (?c2, L1) = (b3, c3, L3)" by (metis prod_cases3)
    obtain b4 c4 L4 where r4: "append_some env ok3 now row3 (c3, L3) = (b4, c4, L4)" by (metis prod_cases3)
    have out: "c' = (if \<not> b3 then c3 else if \<not> b4 then c4 else c4\<lparr>cm_skills_version := Some ?listing\<rparr>)"
      using notices r3 r4
      by (auto simp: seed_notices_def Let_def row2_def [symmetric] row3_def [symmetric] split: bool.splits if_splits)
    define ms2 where "ms2 = seed_prompt_row env # (case row2 of None \<Rightarrow> [] | Some m \<Rightarrow> [m])"
    have "held_listing patch ms2 = ?listing"
      unfolding ms2_def row2_def
      by (auto simp: held_listing_def newest_skills_update_text_def seeded_skill_listing_def seed_prompt_row_def system_row_def
          told_listing_def render_skill_listing_def skill_listing_def rfind_def)
    then have "held_listing patch (ms2 @ (case row3 of None \<Rightarrow> [] | Some m \<Rightarrow> [m])) = ?listing"
      by (cases "cm_deferred_notice ?c2") (simp_all add: row3_def held_append)
    then show ?thesis
      using out append_some_shape [OF r3] append_some_shape [OF r4] c2 by (auto simp: version_true_def ms2_def)
  qed
next
  case False
  then show ?thesis using assms by (auto simp: ensure_seeded_def)
qed

lemma version_fields:
  "cm_messages (ready_to_count env model tools c) = cm_messages c"
  "cm_skills_version (ready_to_count env model tools c) = cm_skills_version c"
  by (simp_all add: ready_to_count_def update_budget_def note_request_tools_def set_current_model_def
      invalidate_baseline_def Let_def)

lemma version_compression:
  assumes "version_true patch c"
  shows "version_true patch (fst (snd (run_compression env ok now chat (c, L))))"
proof -
  obtain outcome c' L' where r: "run_compression env ok now chat (c, L) = (outcome, c', L')" by (metis prod_cases3)
  then show ?thesis
  proof (cases rule: run_compression_cases)
    case kept
    then show ?thesis using assms r by (auto intro: version_kept)
  next
    case (replaced ms c1)
    have "cm_skills_version (reseed_system_row env c1) = None"
      using replaced(10) by (auto simp: reseed_system_row_def replace_first_message_def update_budget_def
          invalidate_baseline_def split: option.splits)
    then show ?thesis using r replaced(6) by (auto simp: persist_compaction_def version_true_def split: if_splits)
  qed
qed

lemma version_restore:
  assumes "version_true patch c"
  shows "version_true patch (fst (restore_from_store env rows_ok anchor_ok fill_oks now (c, L)))"
proof -
  have "cm_skills_version (restore_messages env ms c) = None" for ms
    by (simp add: restore_messages_def update_budget_def invalidate_baseline_def)
  then show ?thesis
    using assms
    by (auto simp: restore_from_store_def Let_def install_restored_anchor_def update_budget_def version_true_def
        split: option.splits prod.splits)
qed

lemma version_step:
  assumes "version_true patch (fst s)" and "skills_op patch (fst s) p"
  shows "version_true patch (fst (ctx_step s p))"
proof (cases s)
  case (Pair c L)
  have c: "version_true patch c" using assms(1) Pair by simp
  note keep = version_kept [OF c]
  have ready: "version_true patch (ready_to_count env model tools c)" for env :: "('a, 'b, 'c) context_env" and model tools
    by (rule keep) (rule version_fields)+
  show ?thesis
  proof (cases p)
    case (CAppend env ok now msg)
    obtain n c' L' where "append_row env ok now msg (c, L) = (n, c', L')" by (metis prod_cases3)
    then show ?thesis using version_append [OF c] assms(2) CAppend Pair by (auto simp: ctx_step_def skills_op_def)
  next
    case (CAppendOnce env ok now event msg)
    then show ?thesis
      using c version_push [OF c, of msg env] assms(2) Pair
      by (auto simp: ctx_step_def skills_op_def append_idempotent_def split: prod.splits option.splits)
  next
    case (CRestore env rows_ok anchor_ok fill_oks now)
    then show ?thesis using version_restore [OF c] Pair by (simp add: ctx_step_def)
  next
    case (CSeed env oks now)
    obtain ok1 ok2 ok3 where oks: "oks = (ok1, ok2, ok3)" by (metis prod_cases3)
    obtain b c' L' where "ensure_seeded env (ok1, ok2, ok3) now (c, L) = (b, c', L')" by (metis prod_cases3)
    then show ?thesis using seed_version [OF c] assms(2) CSeed oks Pair by (auto simp: ctx_step_def skills_op_def)
  next
    case (CPrompt env ok now)
    obtain b c' L' where "reconcile_system_prompt env ok now (c, L) = (b, c', L')" by (metis prod_cases3)
    then show ?thesis using reconcile_prompt_version [OF c] CPrompt Pair by (simp add: ctx_step_def)
  next
    case (CSkills env ok now)
    obtain b c' L' where r: "reconcile_skills env ok now (c, L) = (b, c', L')" by (metis prod_cases3)
    have "applies (ce_line_diff env) patch" using assms(2) CSkills by (simp add: skills_op_def)
    then have "version_true patch c'" using reconcile_skills_told [OF c _ r] by blast
    then show ?thesis using CSkills Pair r by (simp add: ctx_step_def)
  next
    case (CSlash env ok now)
    obtain b c' L' where "expand_slash_command env ok now (c, L) = (b, c', L')" by (metis prod_cases3)
    then show ?thesis using slash_version [OF c] CSlash Pair by (simp add: ctx_step_def)
  next
    case (CMaybe env model tools ok now chat)
    have "version_true patch (fst (snd (run_compression env ok now chat (ready_to_count env model tools c, L))))"
      by (rule version_compression [OF ready])
    then show ?thesis using CMaybe Pair ready by (simp add: ctx_step_def maybe_compress_def Let_def)
  next
    case (CForce env model tools ok now chat)
    have "version_true patch ((ready_to_count env model tools c)\<lparr>cm_declined_at := None\<rparr>)"
      by (rule version_kept [OF ready]) simp_all
    then show ?thesis using CForce Pair version_compression by (simp add: ctx_step_def force_compress_def)
  next
    case (CWould env model tools)
    then show ?thesis using Pair ready by (simp add: ctx_step_def would_compress_def Let_def)
  next
    case (CActual ok n)
    have "version_true patch (fst (record_call_actual ok n (c, L)))"
      by (rule keep) (simp_all add: record_call_actual_def Let_def)
    then show ?thesis using CActual Pair by (simp add: ctx_step_def)
  next
    case (CProgress env t)
    have "version_true patch (set_progress_observation env t c)"
      by (rule keep) (simp_all add: set_progress_observation_def update_budget_def Let_def)
    then show ?thesis using CProgress Pair by (simp add: ctx_step_def)
  next
    case (CAudio env audio)
    have "version_true patch (set_active_model_audio_delivery env audio c)"
      by (rule keep) (simp_all add: set_active_model_audio_delivery_def update_budget_def invalidate_baseline_def Let_def
          split: option.splits)
    then show ?thesis using CAudio Pair by (simp add: ctx_step_def)
  qed (use Pair c in \<open>auto simp: ctx_step_def set_active_model_context_window_def refresh_task_reminder_def
      set_notification_cue_def update_budget_def take_prompt_anchors_def Let_def intro: keep\<close>)
qed

lemma version_run: "version_true patch (fst s) \<Longrightarrow> skills_history patch s ps \<Longrightarrow> version_true patch (fst (foldl ctx_step s ps))"
  by (induction ps arbitrary: s) (simp_all add: version_step)

text \<open>C6: The model is never left with a wrong idea of its skills. After any history of a manager - appends, seeding,
  compactions, restores, failed writes - whenever reconciling the skills succeeds, what a reader makes of the listing the
  transcript was seeded with and of the newest update after it is exactly the listing of the skills the session can invoke
  now. (Rows about skills are the manager's own, and the line diff can be applied.)\<close>

theorem the_model_knows_its_skills:
  assumes "skills_history patch (from_config keep threshold max_active notice, log_new) ops"
    and "foldl ctx_step (from_config keep threshold max_active notice, log_new) ops = (c, L)"
    and "applies (ce_line_diff env) patch" and "leads_with_system_text (cm_messages c)"
    and "reconcile_skills env ok now (c, L) = (True, c', L')"
  shows "held_listing patch (cm_messages c') = render_skill_listing (ce_one_line env) (invocable_skill_summaries env)"
proof -
  have "version_true patch (from_config keep threshold max_active notice)" by (rule version_unknown) (simp add: from_config_def)
  then have "version_true patch c" using version_run [OF _ assms(1)] assms(2) by (metis fst_conv)
  then show ?thesis using reconcile_skills_told [OF _ assms(3,5)] assms(4) by blast
qed

text \<open>A session that is seeded and then has a skill installed; only a user's command may invoke the other one.\<close>

definition pdf_skill :: skill_summary where
  "pdf_skill =
     \<lparr>ss_name = ''pdf'', ss_command = None, ss_description = ''reads'', ss_argument_hint = None, ss_agent_invocable = True,
      ss_channels = [], ss_trust_level = Trusted\<rparr>"

definition deploy_skill :: skill_summary where
  "deploy_skill = pdf_skill\<lparr>ss_name := ''deploy'', ss_command := Some ''ship'', ss_agent_invocable := False\<rparr>"

definition skilled_env :: "(unit, unit, unit) context_env" where
  "skilled_env = calm_env\<lparr>ce_summaries := [pdf_skill, deploy_skill], ce_get_scoped := (\<lambda>_. Some ())\<rparr>"

lemma skilled_skills [simp]: "invocable_skill_summaries skilled_env = [pdf_skill]" "slash_skill_summaries skilled_env = [deploy_skill]"
  by (simp_all add: invocable_skill_summaries_def slash_skill_summaries_def skilled_env_def pdf_skill_def deploy_skill_def
      allows_channel_def)

lemma skilled_get [simp]: "ce_get_scoped skilled_env name = Some ()" "ce_slash_body skilled_env s = []"
  by (simp_all add: skilled_env_def calm_env_def)

definition seeded_live :: "(unit, unit) live" where
  "seeded_live = ctx_step (from_config 0 (1, 1) 0 None, log_new) (CSeed calm_env (True, True, True) 0)"

lemma seeded_messages:
  "cm_messages (fst seeded_live) = [system_row [TextBlock FALLBACK_SYSTEM_PROMPT]]"
  "cm_skills_version (fst seeded_live) = Some []"
  by (simp_all add: seeded_live_def ctx_step_def ensure_seeded_def append_row_def append_session_message_def Let_def
      from_config_def seed_notices_def append_some_def stamp_prompt_def push_message_def update_budget_def seed_prompt_row_def
      system_row_def render_skill_listing_def calm_env_def invocable_skill_summaries_def)

lemma seeded_leads: "leads_with_system_text (cm_messages (fst seeded_live))"
  by (simp add: seeded_messages leads_with_system_text_def system_row_def)

lemma reconcile_skills_ok: "fst (reconcile_skills env True now s)"
  by (auto simp: reconcile_skills_def append_row_def Let_def split: prod.splits option.splits)

theorem the_model_knows_its_skills_witness:
  "held_listing take_restated (cm_messages (fst (snd (reconcile_skills skilled_env True 1 seeded_live)))) = ''- pdf: reads''"
proof -
  obtain c L where s: "seeded_live = (c, L)" by (metis prod.exhaust)
  obtain c' L' where r: "reconcile_skills skilled_env True 1 (c, L) = (True, c', L')"
    using reconcile_skills_ok [of skilled_env 1 "(c, L)"] by (metis prod_cases3 fst_conv)
  let ?ops = "[CSeed calm_env (True, True, True) 0] :: (unit, unit, unit) ctx_op list"
  have hist: "skills_history take_restated (from_config 0 (1, 1) 0 None, log_new) ?ops"
    by (simp add: skills_op_def from_config_def)
  have run: "foldl ctx_step (from_config 0 (1, 1) 0 None, log_new) ?ops = (c, L)" using s by (simp add: seeded_live_def)
  have diff: "applies (ce_line_diff skilled_env) take_restated"
    by (simp add: skilled_env_def calm_env_def restate_applies)
  have leads: "leads_with_system_text (cm_messages c)" by (metis seeded_leads s fst_conv)
  have "held_listing take_restated (cm_messages c') = render_skill_listing (ce_one_line skilled_env) [pdf_skill]"
    using the_model_knows_its_skills [OF hist run diff leads r] by simp
  also have "\<dots> = ''- pdf: reads''"
    by (simp add: render_skill_listing_def skill_line_def skilled_env_def calm_env_def pdf_skill_def)
  finally show ?thesis by (simp add: s r)
qed

section \<open>The system prompt\<close>

lemma update_row_kept:
  assumes "ms \<noteq> []"
  shows "leading_system_text (ms @ [system_prompt_update_row bs]) = leading_system_text ms"
    and "leads_with_system_text (ms @ [system_prompt_update_row bs]) = leads_with_system_text ms"
  using assms by (auto simp: leading_system_text_def leads_with_system_text_def split: list.splits)

lemma self_written_text [simp]:
  "self_written_sections env (ms @ [system_prompt_update_row [TextBlock t]]) = self_written_sections env ms"
  by (rule ext) (simp add: self_written_sections_def system_prompt_update_row_def note_write_def split: prod.splits)

lemma newest_prompt_update [simp]: "newest_prompt_update_text (ms @ [system_prompt_update_row [TextBlock t]]) = Some t"
  by (simp add: newest_prompt_update_text_def system_prompt_update_row_def block_text_def List.map_filter_def)

text \<open>What the newest update says and what the prompt is now leave nothing more to tell.\<close>

definition prompt_told :: "('v, 'm, 's) context_env \<Rightarrow> prompt_part list \<Rightarrow> ('v, 'm) chat_message list \<Rightarrow> update_block list \<Rightarrow> bool" where
  "prompt_told env parts ms blocks \<longleftrightarrow>
     blocks = build_blocks (ce_line_diff env) parts (leading_system_text ms) (self_written_sections env ms) \<and>
     ((blocks = [] \<and> newest_prompt_update_text ms = None) \<or> newest_prompt_update_text ms = Some (prompt_wrap_update blocks))"

lemma reconcile_prompt_told:
  assumes "leads_with_system_text (cm_messages c)" and "cm_prompt_version c \<noteq> Some (ce_version env)"
    and "ce_prompt env = Some parts" and "reconcile_system_prompt env ok now (c, L) = (True, c', L')"
  shows "cm_prompt_version c' = Some (ce_version_after env) \<and> leads_with_system_text (cm_messages c') \<and>
    (\<exists>blocks. prompt_told env parts (cm_messages c') blocks)"
  using assms(4)
proof (cases rule: reconcile_prompt_cases)
  case idle
  then show ?thesis using assms(1-3) by simp
next
  case (agrees parts' blocks)
  then show ?thesis using assms(1,3) by (simp add: prompt_told_def)
next
  case (told parts' blocks)
  then show ?thesis
    using assms(1,3) update_row_kept [OF leads_not_empty [OF assms(1)]] by (simp add: prompt_told_def)
qed simp

lemma reconcile_again:
  assumes "cm_prompt_version c = Some (ce_version_after env)" and "ce_prompt env = Some parts"
    and "prompt_told env parts (cm_messages c) blocks"
  shows "reconcile_system_prompt env ok now (c, L) = (True, c, L)"
proof -
  have same: "c\<lparr>cm_prompt_version := Some (ce_version_after env)\<rparr> = c" using assms(1) by simp
  have "(build_blocks (ce_line_diff env) parts (leading_system_text (cm_messages c)) (self_written_sections env (cm_messages c)) = [] \<and>
      newest_prompt_update_text (cm_messages c) = None) \<or>
    newest_prompt_update_text (cm_messages c) = Some (prompt_wrap_update
      (build_blocks (ce_line_diff env) parts (leading_system_text (cm_messages c)) (self_written_sections env (cm_messages c))))"
    using assms(3) unfolding prompt_told_def by blast
  then show ?thesis by (simp only: reconcile_system_prompt_def prod.case assms(2) option.case Let_def same if_True if_cancel)
qed

text \<open>C7: An update of the system prompt leaves nothing unsaid. When reconciling a prompt that moved succeeds, every part
  of the prompt as it is now stands in the leading row word for word, or is what a reader makes of a block of the newest
  update, or is a file the conversation itself wrote and which still has the bytes it wrote. The newest update in the
  transcript is that one (none, if nothing ever differed), and reconciling again changes neither the manager nor the log.\<close>

theorem prompt_updates_say_everything:
  assumes "applies (ce_line_diff env) patch" and "leads_with_system_text (cm_messages c)"
    and "cm_prompt_version c \<noteq> Some (ce_version env)" and "ce_prompt env = Some parts"
    and "reconcile_system_prompt env ok now (c, L) = (True, c', L')"
  shows "reconcile_system_prompt env ok' now' (c', L') = (True, c', L') \<and>
    (\<exists>blocks.
      newest_prompt_update_text (cm_messages c') \<in> {Some (prompt_wrap_update blocks)} \<union> (if blocks = [] then {None} else {}) \<and>
      list_all (\<lambda>part.
        str_contains (render_part part) (leading_system_text (cm_messages c')) \<or>
        list_ex (\<lambda>b.
          reads_as patch (leading_system_text (cm_messages c')) (self_written_sections env (cm_messages c')) b = Some (render_part part) \<or>
          (case (part, b) of
             (PartSection tag path _, SelfEdited tag' path') \<Rightarrow>
               tag' = tag \<and> path' = path \<and>
               map_option sw_still_current (self_written_sections env (cm_messages c') path) = Some True
           | _ \<Rightarrow> False)) blocks) parts)"
proof -
  obtain blocks where told: "prompt_told env parts (cm_messages c') blocks"
    and version: "cm_prompt_version c' = Some (ce_version_after env)"
    using reconcile_prompt_told [OF assms(2-5)] by blast
  let ?seeded = "leading_system_text (cm_messages c')" and ?mine = "self_written_sections env (cm_messages c')"
  have blocks: "blocks = build_blocks (ce_line_diff env) parts ?seeded ?mine" using told by (simp add: prompt_told_def)
  have "list_ex (\<lambda>b. reads_as patch ?seeded ?mine b = Some (render_part part) \<or>
      (case (part, b) of
         (PartSection tag path _, SelfEdited tag' path') \<Rightarrow>
           tag' = tag \<and> path' = path \<and> map_option sw_still_current (?mine path) = Some True
       | _ \<Rightarrow> False)) blocks" (is "list_ex ?says blocks")
    if part: "part \<in> set parts" "\<not> str_contains (render_part part) ?seeded" for part
  proof -
    have "block_for (ce_line_diff env) part (render_part part) ?seeded ?mine \<in> set blocks"
      using part by (auto simp: blocks build_blocks_def)
    moreover have "?says (block_for (ce_line_diff env) part (render_part part) ?seeded ?mine)"
      using block_says_part [OF assms(1), of ?seeded ?mine part] by auto
    ultimately show ?thesis by (auto simp: list_ex_iff)
  qed
  then show ?thesis
    using reconcile_again [OF version assms(4) told] told
    by (intro conjI exI [of _ blocks]) (auto simp: prompt_told_def list_all_iff)
qed

text \<open>A session whose identity file appears after it was seeded.\<close>

definition moved_env :: "(unit, unit, unit) context_env" where
  "moved_env =
     calm_env\<lparr>ce_prompt := Some [PartSection TagSoul ''soul.md'' ''Be kind.''], ce_version := SubagentVersion ''b''\<rparr>"

lemma reconcile_prompt_ok: "fst (reconcile_system_prompt env True now s)"
  by (auto simp: reconcile_system_prompt_def append_row_def Let_def split: prod.splits option.splits)

theorem prompt_updates_say_everything_witness:
  "reconcile_system_prompt moved_env True 2 (snd (reconcile_system_prompt moved_env True 1 seeded_live)) =
     (True, snd (reconcile_system_prompt moved_env True 1 seeded_live))"
proof -
  obtain c L where s: "seeded_live = (c, L)" by (metis prod.exhaust)
  obtain c' L' where r: "reconcile_system_prompt moved_env True 1 (c, L) = (True, c', L')"
    using reconcile_prompt_ok [of moved_env 1 "(c, L)"] by (metis prod_cases3 fst_conv)
  have diff: "applies (ce_line_diff moved_env) take_restated" by (simp add: moved_env_def calm_env_def restate_applies)
  have leads: "leads_with_system_text (cm_messages c)" by (metis seeded_leads s fst_conv)
  have "cm_prompt_version (fst seeded_live) = None"
    by (simp add: seeded_live_def ctx_step_def ensure_seeded_def append_row_def append_session_message_def Let_def
        from_config_def seed_notices_def append_some_def stamp_prompt_def push_message_def update_budget_def calm_env_def
        invocable_skill_summaries_def)
  then have version: "cm_prompt_version c \<noteq> Some (ce_version moved_env)" by (metis s fst_conv option.distinct(1))
  have parts: "ce_prompt moved_env = Some [PartSection TagSoul ''soul.md'' ''Be kind.'']" by (simp add: moved_env_def)
  show ?thesis
    using prompt_updates_say_everything [OF diff leads version parts r, of True 2] by (simp add: s r)
qed

section \<open>Commands\<close>

text \<open>A name recovered from a transcript was called by a tool, or belongs to a skill the agent itself may invoke.\<close>

lemma recovered_names:
  "name \<in> set (called_skills_in env ms) \<Longrightarrow>
     name \<in> set (scan_skill_calls env ms) \<or> (\<exists>s \<in> set (invocable_skill_summaries env). ss_name s = name)"
proof -
  let ?f = "\<lambda>called m. if source m \<noteq> SrcUser then called
      else (case detect_slash_invocation (extract_text (content m)) (invocable_skill_summaries env) of
              Some (name, _) \<Rightarrow> push_called_skill called name | None \<Rightarrow> called)"
  have "name \<in> set (foldl ?f acc ms) \<Longrightarrow> name \<in> set acc \<or> (\<exists>s \<in> set (invocable_skill_summaries env). ss_name s = name)" for acc
  proof (induction ms arbitrary: acc)
    case (Cons m ms)
    then have "name \<in> set (?f acc m) \<or> (\<exists>s \<in> set (invocable_skill_summaries env). ss_name s = name)" by simp
    then show ?case
      by (auto simp: push_called_skill_def detect_slash_invocation_def Let_def find_Some_iff
          split: if_splits option.splits)
  qed simp
  then show "name \<in> set (called_skills_in env ms) \<Longrightarrow> ?thesis" by (simp add: called_skills_in_def)
qed

text \<open>C34: A skill only users may invoke is recorded as called when its command is expanded, and forgotten as soon as the
  record is rebuilt from the transcript: restoring a session (and compacting it) looks the command up among the skills the
  agent itself may invoke, where it is not. From then on the trailer no longer carries its definition.\<close>

theorem slash_only_skills_are_forgotten:
  assumes "slash_expansion_message env c = Some (name, msg)"
    and "expand_slash_command env ok now (c, L) = (True, c', L')"
    and "list_all (\<lambda>s. \<not> (ss_name s = name \<and> ss_agent_invocable s)) (ce_summaries env)"
    and "name \<notin> set (scan_skill_calls env (cm_messages c'))"
  shows "name \<in> set (cm_called_skills c') \<and> name \<notin> set (cm_called_skills (restore_messages env (cm_messages c') c'))"
proof
  show "name \<in> set (cm_called_skills c')"
    using assms(1,2) by (auto simp: expand_slash_command_def push_called_skill_def split: option.splits prod.splits if_splits)
  have "name \<notin> set (called_skills_in env (cm_messages c'))"
    using recovered_names [of name env "cm_messages c'"] assms(3,4)
    by (auto simp: invocable_skill_summaries_def list_all_iff)
  then show "name \<notin> set (cm_called_skills (restore_messages env (cm_messages c') c'))"
    by (simp add: restore_messages_def update_budget_def invalidate_baseline_def)
qed

theorem slash_only_skills_are_forgotten_witness:
  "\<exists>c'. cm_called_skills c' = [''deploy''] \<and>
     ''deploy'' \<notin> set (cm_called_skills (restore_messages skilled_env (cm_messages c') c'))"
proof -
  define c where "c = (from_config 0 (1, 1) 0 None)\<lparr>cm_messages := [user_row [TextBlock ''/ship''] :: (unit, unit) chat_message]\<rparr>"
  have chars: "chars ''/ship'' = [''/'', ''s'', ''h'', ''i'', ''p'']" "chars ''ship'' = [''s'', ''h'', ''i'', ''p'']"
    by (simp_all add: utf8_len_def char_code_def)
  have spaces: "\<not> is_white_space ''/''" "\<not> is_white_space ''s''" "\<not> is_white_space ''h''" "\<not> is_white_space ''i''"
      "\<not> is_white_space ''p''"
    by (simp_all add: is_white_space_def char_code_def)
  have "trim_start ''/ship'' = ''/ship''" by (simp only: trim_start_def chars) (simp add: spaces)
  moreover have "strip_prefix ''/'' ''/ship'' = Some ''ship''" by (simp add: strip_prefix_def starts_with_iff)
  moreover have "concat (takeWhile (\<lambda>ch. \<not> is_white_space ch) (chars ''ship'')) = ''ship''"
      "trim_text (concat (dropWhile (\<lambda>ch. \<not> is_white_space ch) (chars ''ship''))) = []"
    by (simp_all only: chars) (simp_all add: spaces trim_text_def)
  ultimately have "detect_slash_invocation ''/ship'' [deploy_skill] = Some (''deploy'', [])"
    by (simp only: detect_slash_invocation_def option.case Let_def) (simp add: deploy_skill_def pdf_skill_def)
  then have m: "slash_expansion_message skilled_env c = Some (''deploy'', agent_context [TextBlock []])"
    by (simp add: slash_expansion_message_def c_def user_row_def extract_text_def skilled_get List.map_filter_def)
  define c1 where "c1 = push_message skilled_env (agent_context [TextBlock []]) c"
  have calls: "record_skill_calls skilled_env acc (agent_context [TextBlock []]) = acc" for acc
    by (simp add: record_skill_calls_def agent_context_def)
  have c1: "cm_called_skills c1 = []" "cm_messages c1 = cm_messages c @ [agent_context [TextBlock []]]"
    by (simp_all add: c1_def push_message_def update_budget_def calls) (simp add: c_def from_config_def)
  define c' where "c' = c1\<lparr>cm_called_skills := [''deploy'']\<rparr>"
  obtain n L' where stored: "append_session_message 0 (agent_context [TextBlock []]) log_new = (n, L' :: (unit, unit) session_log)"
    by (metis prod.exhaust)
  then have r: "expand_slash_command skilled_env True 0 (c, log_new) = (True, c', L')"
    by (simp add: expand_slash_command_def m append_row_def c1_def [symmetric]) (simp add: c1(1) push_called_skill_def c'_def)
  have hidden: "list_all (\<lambda>s. \<not> (ss_name s = ''deploy'' \<and> ss_agent_invocable s)) (ce_summaries skilled_env)"
    by (simp add: skilled_env_def pdf_skill_def deploy_skill_def)
  have "''deploy'' \<notin> set (scan_skill_calls skilled_env (cm_messages c'))"
    by (simp add: c'_def c1(2) scan_skill_calls_def calls) (simp add: c_def record_skill_calls_def user_row_def)
  then have "''deploy'' \<notin> set (cm_called_skills (restore_messages skilled_env (cm_messages c') c'))"
    using slash_only_skills_are_forgotten [OF m r hidden] by blast
  moreover have "cm_called_skills c' = [''deploy'']" by (simp add: c'_def)
  ultimately show ?thesis by blast
qed

end
