(* ===== verification/Spec2Isabelle.thy ===== *)
theory Spec2Isabelle
  imports BoardBudget BoardTalk TurnLifecycle InboundDedup RelayBroker RelayConns RelayControl CarrierState
    TranscriptPairing ProgressLedger RelayDirect DirectFraming GatewayPunches BlobTransfer PeerLatch
    TraceReplay NoticesTold
begin

text \<open>
  A verification library for Baybo, a self-hosted assistant: a gateway process that runs turns of an
  agent for its channels and drives kanban boards of agent work, a relay that splices phone and
  gateway when they cannot reach each other, and a phone core that chooses what its connections ride
  on. The library models the parts of the Rust code that decide things and keep state; the I/O around
  them appears as the rows, clock readings and results it hands to them.

  \<^bold>\<open>The parts and their theories\<close> (paths under \<open>src/\<close>).

  \<^item> \<open>Prelude\<close>: instants and durations (integers in nanoseconds), 64-bit ranges with clamping and
    wrap-around, the standard-library functions the code calls (stable sorting by a comparator,
    minimum and maximum by key, substring tests), and three interfaces. \<open>wire_codec\<close>: an enum and
    its storage spelling. \<open>total_order\<close>: what a comparator owes \<open>sort_by\<close>. \<open>invariant_machine\<close>: a
    component whose every operation keeps its invariant, so that every history does.
  \<^item> \<open>Money\<close>: \<open>crates/model/src/money.rs\<close>. Sums of micro-dollars are exact or pinned at the maximum,
    token prices round down and never overflow their 128-bit product.
  \<^item> \<open>BoardTypes\<close>: the rows of \<open>crates/store/src/project.rs\<close> (cards, edits, actors, timeline
    entries, the run ledger, spend) and the identifier grammars of
    \<open>crates/model/src/agent_profile.rs\<close>; every stored enum interprets \<open>wire_codec\<close>.
  \<^item> \<open>BoardStages\<close>, \<open>BoardRuns\<close>, \<open>BoardBudget\<close>, \<open>BoardDriver\<close>, \<open>BoardTalk\<close>: the pure rule modules
    of \<open>crates/project/src\<close> (\<open>stages.rs\<close>, \<open>runs.rs\<close>, \<open>budget.rs\<close>, \<open>driver.rs\<close>, and
    \<open>comments.rs\<close>, \<open>mentions.rs\<close>, \<open>timeline.rs\<close>), one definition per function, composed as the
    code composes them. The driver's tick reads the cards and the ledger: \<open>slate\<close> promotes cards,
    five lead questions name the cards the lead is asked about, \<open>already_asked\<close> bounds the asking.
    Shown: a tick promotes the best startable cards, is idempotent, does not depend on the order rows
    come in; no card is in two rules at once; the stage gate holds exactly the steps whose earlier
    stages are open and never deadlocks; one question costs at most two runs per state of a card
    (rule induction over the ledgers a board can write); and what the timeline says of blocks and
    stops is what stands on the card (rule induction over histories of edits).
  \<^item> \<open>TurnMachine\<close>, \<open>TurnLifecycle\<close>: \<open>crates/turn/src\<close>. A turn with its status graph, and the
    lifecycle calls over the turn store, the cancellation registry and the event bus. A call is cut at its
    awaits (\<open>turn_call\<close> is the point it waits at, \<open>resume_call\<close> runs it to the next) and calls interleave there.
    Shown: result, start and end times agree with the status after any calls, the public transitions
    included; terminal turns absorb; however calls interleave and the store fails, the announcements about
    a turn whose own calls do not overlap agree with its row; a completion and a cancellation that do overlap
    announce two ends (a defect of the code).
  \<^item> \<open>InboundDedup\<close>: \<open>crates/channels/src/dedup.rs\<close>. A replayed stream is admitted once per message.
  \<^item> \<open>HashMaps\<close>: the hash maps of the relay registries; the locale \<open>keyed_map\<close> states their laws and the
    registries rest on its interpretation.
  \<^item> \<open>AddressPolicy\<close>, \<open>ProbeCodec\<close>: \<open>address.rs\<close>, \<open>probe.rs\<close> and \<open>ids.rs\<close> of
    \<open>remote-host/crates/protocol/src/relay\<close>, on words of the code's width. Shown: the address classes are
    the published intervals; budget keys separate exactly the prefixes one client holds and no spelling
    of an address escapes them; datagrams and hex ids decode exactly from their encodings.
  \<^item> \<open>RelayBroker\<close>, \<open>RelayConns\<close>, \<open>RelayControl\<close>: \<open>remote-host/crates/relay/src/broker.rs\<close>,
    \<open>conns.rs\<close> and \<open>control.rs\<close>. Shown: the broker only connects two legs of one key over channels
    with one sender and one receiver, within its ceiling; the connection registry implements a set of
    live connections, with exact caps and a reserve; an accepted control owns its node, only its own
    key can replace or reach it, and no stale clean-up evicts it.
  \<^item> \<open>PunchRegistry\<close>, \<open>PunchRendezvous\<close>: \<open>remote-host/crates/relay/src/punch.rs\<close> and the reply of \<open>udp.rs\<close>.
    The table of punches, the offer budgets, the POSTs waiting for a report and the UDP rendezvous, over
    histories on a clock that does not go back. Shown: the bounds of the table; the offer rates over
    every minute; the wait told to a refused phone is enough; admission ends; a report settles its punch
    once; a peer's address is given only between the two roles of a punch, each under its own key; no
    reply is longer than what it answers.
  \<^item> \<open>RelayDirect\<close>: the control registry over the punch registry. Shown: the runs of the whole are histories
    of the punch registry, and every punch belongs to the connection that owns its node now.
  \<^item> \<open>PeerLatch\<close>: \<open>crates/carrier/src/rendezvous.rs\<close> and \<open>burst.rs\<close>, the rendezvous as one side of a punch runs
    it. Shown: the first valid peer is latched for good, and it is where the other side of the same punch registered
    from.
  \<^item> \<open>Messages\<close>, \<open>TranscriptRepair\<close>, \<open>TranscriptPairing\<close>: the rows of \<open>crates/model/src/message.rs\<close>, the
    envelope of \<open>tool_output.rs\<close> and \<open>crates/context/src/transcript_repair.rs\<close>. Shown: the repaired
    transcript answers every tool call once, right after the row that made it; fills that reached the
    store pair with their calls on the next load; nothing but reported rows is dropped; repairing twice
    changes nothing; appending rows never changes earlier ones.
  \<^item> \<open>ProgressLedger\<close>: \<open>crates/agent/src/runtime/progress_ledger.rs\<close>. Shown: every verdict is true of the
    whole turn, a file is reported once and never refused three times in silence, identical failures
    are reported exactly on the third.
  \<^item> \<open>CarrierState\<close>: \<open>app/ios/ffi/src/relay/carrier/state.rs\<close>. Shown, over every interleaving of
    calls and late probe reports: one probe or one carrier, on the current network; no lease in the
    background; every connection found is live or was closed once; results of an older epoch change
    nothing; the backoff schedule.
  \<^item> \<open>OfferGate\<close>, \<open>GatewayPunches\<close>: \<open>offer.rs\<close> and \<open>punches.rs\<close> of \<open>crates/gateway/src/channel/carrier\<close>,
    what a sealed offer of a device and a UDP datagram must pass at the gateway. Shown: the replay gate answers as
    its contract over the whole history, so no offer is accepted twice on a clock that does not go back (and one
    is on a clock that does); an address reaches QUIC only through a live punch that vouches for it; the table is
    bounded and ends each punch once.
  \<^item> \<open>DirectFraming\<close>: \<open>crates/carrier/src/framing.rs\<close>, the frames of a direct stream, read under any delivery
    and with calls cancelled at any await. Shown: the frames returned depend on the bytes alone; what was written
    is what is read; the preface.
  \<^item> \<open>TunnelLeg\<close>, \<open>LegPool\<close>: the phone's end of the API tunnel, \<open>tunnel.rs\<close>, \<open>leg_pool.rs\<close> and the request part
    of \<open>api.rs\<close> in \<open>app/ios/ffi/src/relay\<close>, over the messages of \<open>crates/device-proto/src/api_tunnel.rs\<close>. Shown:
    a caller gets one whole response to its own request's id; a leg is offered for reuse only then; the pool hands
    out legs their gateway still waits on; a request runs twice only after silence.
  \<^item> \<open>TunnelSession\<close>: \<open>crates/gateway/src/channel/api_tunnel.rs\<close>, the gateway's end: judging heads, draining
    request bodies, sending responses, the request loop. Shown: a session that ends in order has sent whole answers
    to growing ids, each offering the leg, and at most one farewell that does not.
  \<^item> \<open>TunnelEnds\<close>: both ends on one leg. Shown: any number of calls each get the handler's answer to that call,
    however frames are grouped into messages; the length a phone declares is the length a gateway reads; the phone
    gives a leg up before the gateway does.
  \<^item> \<open>BlobService\<close>, \<open>BlobTransfer\<close>: \<open>crates/gateway/src/channel/blobs.rs\<close>, the gateway's routes for files, and
    \<open>app/ios/ffi/src/relay/blob.rs\<close> with the cache of \<open>blob_helper.rs\<close>, the phone's transfers over a leg of their
    own. Shown: the bytes a caller gets have the digest their id names, whatever fails; a download from nothing
    publishes what the gateway stores; one that finds a part on disk fails and throws it away (a defect of the code);
    an upload is stored in the name of who sent it, a subprocess sidecar's only under an approved pairing, and every
    other one is refused.
  \<^item> \<open>SessionLog\<close>: the messages of a session in \<open>crates/storage/src/sqlite/session.rs\<close>, with the row types of
    \<open>crates/store/src/session.rs\<close>: appending, appending once per source event, compacting, the token anchor and the
    reads. Shown: the chat view is what was said, whatever was compacted; a source event is written once; pages join.
  \<^item> \<open>ContextWire\<close>: how \<open>crates/context/src/lib.rs\<close> shapes a transcript into a request (framing by
    \<open>prompts/interjection.rs\<close> and \<open>recalled_memory.rs\<close>, merging, the transient tail). Shown: a request is one merge
    over everything, it alternates, and keeps every block that is not text.
  \<^item> \<open>SkillNotices\<close>, \<open>PromptUpdate\<close>, \<open>Reconcile\<close>, \<open>NoticesTold\<close>: what a session is told of its skills
    (\<open>crates/skills/src/render.rs\<close>, \<open>crates/context/src/prompts/skills_update.rs\<close>) and of a system prompt that moved
    (\<open>prompts/soul.rs\<close>, \<open>system_prompt_update.rs\<close>), and the operations of the manager that seed a session, keep both up to
    date by appending, and expand a slash command. Shown: after any history, reconciling leaves the transcript saying
    exactly the current skills; an update of the prompt leaves nothing unsaid and is not repeated; a skill only users may
    invoke is forgotten at the next restore (a defect of the code).
  \<^item> \<open>ContextManager\<close>, \<open>TranscriptCut\<close>, \<open>Compaction\<close>: \<open>ContextManager\<close> of \<open>crates/context/src/lib.rs\<close> with
    \<open>budget.rs\<close>, \<open>tokenizer.rs\<close> and \<open>compressor.rs\<close>: counting, appending, restoring and anchoring; where a transcript may
    be cut; the summary, the trailer and the gates of a compaction. The locale \<open>tokenizer\<close> states what the manager relies
    on of a tokenizer; \<open>heuristic\<close> interprets it on the code's own. Shown: the cut is the latest one that leaves no result
    without its call, the kept end is within its ceiling; a transcript is only shortened by a summary; what the assembly
    accepted is applied, and the committed transcript is within the ceiling but for the growth of its refreshed system
    row; after a compaction without savings no gate asks the summarizer again while nothing is added; a blank summary
    block counts as a summary (a defect of the code).
  \<^item> \<open>ContextRuns\<close>, \<open>TraceReplay\<close>: every operation of a manager and its log as a step, those of \<open>Reconcile\<close>
    included; the marker a call leaves in its trace (\<open>crates/trace/src/span.rs\<close>) and its hydration in \<open>crates/query/src/lib.rs\<close>. Shown, by induction over
    histories with failed reads and writes, repairs, compactions and rows of other writers: the transcript mirrors the log
    until the manager knows it does not; charges never drift; a trace shows the transcript a call was made with.

  \<^bold>\<open>How code becomes definitions.\<close> A struct is a record, an enum a datatype with the source's variants
  (renamed where two enums share one), a \<open>Result\<close> a sum with the error on the left. A method on
  \<open>&mut self\<close> returns its result paired with the state it leaves, also on error paths. A loop is a
  recursive function with the loop's accumulators, total by structural recursion or by the messages a wire still
  brings; the one loop that may not end, the drawing of a punch id, is a partial function whose value is \<open>None\<close> then, and is shown to
  end. There is no fuel anywhere. Clock readings are arguments. An operation under a lock is one step;
  a lifecycle call of a turn, which awaits the store with no lock, is as many steps as it has awaits.

  \<^bold>\<open>Choices and bounds.\<close> Ids and epochs the code counts in \<open>u64\<close> are naturals: they grow by one per call
  and cannot wrap in any run. Money, token counts and the cross products of the budget keep their
  width. Strings are UTF-8 bytes and the tests on them are ASCII tests. A hash map is an association
  list with distinct keys where the code iterates or counts it, a function otherwise; a \<open>BTreeSet\<close> is
  a set. An \<open>mpsc\<close> channel is a fresh number in the broker and the list of its waiting signals in the
  control registry. \<open>TurnLifecycle\<close> takes, per step of a call, whether the store's read and write succeed; a task
  aborted between two awaits is a call that is never resumed;
  histories of timeline entries assume the append of an edit's entries succeeded. HMAC-SHA256, the
  random ids and keys of a punch and the standard library's hasher are parameters; the properties
  assume nothing of them but, where admission is to end, that the drawn ids differ. Addresses, ports
  and datagram bytes are words. The network key of \<open>CarrierState\<close> is an opaque hash and \<open>last_instant\<close> the
  last instant \<open>checked_add\<close> can represent; the properties hold for every value of it. The wire under a tunnel leg is
  what it will take and what it will deliver, a timer running out included. The HTTP stack and the router behind the
  gateway's end are the functions of \<open>http_env\<close>: what a parse refuses, what a handler answers to a request and the body
  it was given, and after how many chunks it hangs up on one. The stored pairing, the dial and the clocks of the leg
  pool's caller are \<open>call_env\<close>. The blob store, the pairing check and SHA-256 are parameters of the transfers;
  \<open>holds_blob\<close> is what the store's contract promises of a blob it holds. Offers are judged on 64-bit words, with their saturation.
  An \<open>f64\<close> of the token budget is a pair \<open>m / 2 ^ e\<close>; a \<open>usize\<close> becomes the nearest \<open>f64\<close>, ties to even, and so does a
  product, so the ceilings are the code's exactly. What a manager reads of other parts is \<open>context_env\<close>: its tokenizer, the
  skills, the parts of the system prompt and the version of their sources, files and their stat, the path of the log. The
  line diff of the \<open>similar\<close> crate and the regular expression that folds a description to one line are parameters;
  \<open>applies\<close> says a diff of two terminated texts is empty when they agree and turns the old one into the new; the
  summarizer is a function of the request it is sent; the prices of
  images and documents and the text that stands in for a block are \<open>block_prices\<close>. A write to the log takes whether
  the store accepted it and the clock it reads.

  \<^bold>\<open>Not modelled.\<close> The other sqlite stores, HTTP and WebSocket surfaces, model providers, the sandbox, the
  terminal, web and Swift clients, cryptographic handshakes and QUIC, and the asynchronous shells
  around the modelled rules (project manager and settlement, agent loop, relay server, socket loops,
  carrier hub): they are I/O, third-party calls or orchestration of the definitions here. Of the context manager: the
  assembly of the system prompt from files of the workspace and the capping of tool output. Rate limiters over \<open>f64\<close> clocks and
  the \<open>f64\<close> conversions of money are left out: their results feed dashboards and back-off only.

  \<^bold>\<open>Plan.\<close> What would come next, in order: the registry of skills, the gathering of candidates and
  the sealed candidate codec, the settlement of runs and the manager's composition of the board rules, the upload of
  files in pieces, and the sqlite blob store.
\<close>

end
